(* ===== verification/Prelude.thy ===== *)
theory Prelude
  imports Main "HOL-Library.Word" "HOL-Library.Monad_Syntax"
begin

unbundle bit_operations_syntax

text \<open>
  Shared material of the development: the machine types, the dword-addressed
  memory all kernel components share, wrap-around arithmetic on 32-bit addresses,
  alignment by masking, and null-terminated chains (the intrusive singly linked
  lists of the heap's free list and of the frame allocator's free list).

  Addresses are natural numbers below \<open>2 ^ 32\<close>; address arithmetic that the source
  does on \<open>size_t\<close> or \<open>uintptr_t\<close> is written with \<open>add32\<close> and \<open>sub32\<close>, which wrap.
  Values stored in memory are 32-bit words.
\<close>

section \<open>Machine types and memory\<close>

type_synonym u8 = "8 word"
type_synonym u16 = "16 word"
type_synonym u32 = "32 word"
type_synonym u64 = "64 word"

text \<open>One dword per (dword-aligned) byte address.\<close>

type_synonym memory = "nat \<Rightarrow> u32"

named_theorems mem_simps \<open>reads over writes\<close>
named_theorems addr_simps \<open>address arithmetic that stays in range\<close>

text \<open>The memory is the first field of every stateful component's record; each component
  extends the record of the components below it, so one memory is shared by all.\<close>

record kmem =
  mem :: memory

definition rd :: "memory \<Rightarrow> nat \<Rightarrow> nat" where
  "rd m a = unat (m a)"

definition wr :: "memory \<Rightarrow> nat \<Rightarrow> nat \<Rightarrow> memory" where
  "wr m a v = m(a := word_of_nat v)"

definition add32 :: "nat \<Rightarrow> nat \<Rightarrow> nat" where
  "add32 a b = (a + b) mod 2 ^ 32"

definition sub32 :: "nat \<Rightarrow> nat \<Rightarrow> nat" where
  "sub32 a b = (a + (2 ^ 32 - b mod 2 ^ 32)) mod 2 ^ 32"

lemma unat_u32_bound: "unat (w :: u32) < 4294967296"
proof -
  have "unat w < 2 ^ LENGTH(32)" by (rule unsigned_less)
  then show ?thesis by simp
qed

lemma rd_bound: "rd m a < 4294967296"
  by (simp add: rd_def unat_u32_bound)

lemma unat_word_of_nat_u32: "v < 4294967296 \<Longrightarrow> unat (word_of_nat v :: u32) = v"
  by (simp add: unat_of_nat take_bit_nat_eq_self)

lemma rd_wr_same [mem_simps]: "v < 4294967296 \<Longrightarrow> rd (wr m a v) a = v"
  by (simp add: rd_def wr_def unat_word_of_nat_u32)

lemma rd_wr_other [mem_simps]: "b \<noteq> a \<Longrightarrow> rd (wr m a v) b = rd m b"
  by (simp add: rd_def wr_def)

lemma wr_other [mem_simps]: "b \<noteq> a \<Longrightarrow> wr m a v b = m b"
  by (simp add: wr_def)

lemma wr_same [mem_simps]: "wr m a v a = word_of_nat v"
  by (simp add: wr_def)

lemma add32_in_range [addr_simps]: "a + b < 4294967296 \<Longrightarrow> add32 a b = a + b"
  by (simp add: add32_def)

lemma sub32_in_range [addr_simps]:
  assumes "b \<le> a" "a < 4294967296"
  shows "sub32 a b = a - b"
proof -
  have "a + (2 ^ 32 - b mod 2 ^ 32) = (a - b) + 2 ^ 32"
    using assms by simp
  then have "sub32 a b = (a - b + 2 ^ 32) mod 2 ^ 32"
    by (simp only: sub32_def)
  then show ?thesis using assms by (simp only: mod_add_self2) simp
qed

section \<open>Loops that may panic\<close>

text \<open>A counted loop whose body may panic: the left value stops it.\<close>

fun foldE :: "('a \<Rightarrow> 's \<Rightarrow> 'e + 's) \<Rightarrow> 'a list \<Rightarrow> 's \<Rightarrow> 'e + 's" where
  "foldE f [] s = Inr s"
| "foldE f (x # xs) s = (case f x s of Inl e \<Rightarrow> Inl e | Inr s' \<Rightarrow> foldE f xs s')"

lemma foldE_append:
  "foldE f (xs @ ys) s = (case foldE f xs s of Inl e \<Rightarrow> Inl e | Inr s' \<Rightarrow> foldE f ys s')"
  by (induction xs arbitrary: s) (auto split: sum.splits)

text \<open>The loop rule: an invariant over the processed prefix, re-established by every body.\<close>

lemma foldE_invariant:
  assumes "P [] s"
    and "\<And>ys x zs t. xs = ys @ x # zs \<Longrightarrow> P ys t \<Longrightarrow> \<exists>t'. f x t = Inr t' \<and> P (ys @ [x]) t'"
  shows "\<exists>t. foldE f xs s = Inr t \<and> P xs t"
proof -
  have "\<exists>t. foldE f zs u = Inr t \<and> P xs t" if "xs = ys @ zs" "P ys u" for ys zs u
    using that
  proof (induction zs arbitrary: ys u)
    case Nil
    then show ?case by simp
  next
    case (Cons z zs)
    from assms(2) [OF Cons.prems] obtain t' where "f z u = Inr t'" "P (ys @ [z]) t'" by blast
    with Cons.IH [of "ys @ [z]" t'] Cons.prems(1) show ?case by simp
  qed
  from this [of "[]" xs s] assms(1) show ?thesis by simp
qed

text \<open>Kernel results: no value when the code does not return, a left value for a panic.\<close>

type_synonym 'a kres = "(string + 'a) option"

definition kret :: "'a \<Rightarrow> 'a kres" where
  "kret x = Some (Inr x)"

definition kpanic :: "string \<Rightarrow> 'a kres" where
  "kpanic msg = Some (Inl msg)"

definition kbind :: "'a kres \<Rightarrow> ('a \<Rightarrow> 'b kres) \<Rightarrow> 'b kres" where
  "kbind m f = (case m of None \<Rightarrow> None | Some (Inl e) \<Rightarrow> Some (Inl e) | Some (Inr x) \<Rightarrow> f x)"

text \<open>Operations that always return, or never panic.\<close>

definition of_opt :: "'a option \<Rightarrow> 'a kres" where
  "of_opt m = (case m of None \<Rightarrow> None | Some x \<Rightarrow> kret x)"

lemma kbind_simps [simp]:
  "kbind (kret x) f = f x" "kbind (kpanic e) f = kpanic e" "kbind None f = None"
  "kbind (Some (Inr x)) f = f x" "kbind (Some (Inl e)) f = Some (Inl e)"
  by (simp_all add: kbind_def kret_def kpanic_def)

lemma of_opt_simps [simp]: "of_opt (Some x) = kret x" "of_opt None = None"
  by (simp_all add: of_opt_def)

lemma kret_eq [simp]: "kret x = kret y \<longleftrightarrow> x = y" "kret x \<noteq> kpanic e" "kpanic e \<noteq> kret x"
  by (simp_all add: kret_def kpanic_def)

section \<open>Alignment by masking\<close>

lemma and_not_mask_diff: "(w :: 'a :: len word) AND NOT (mask k) = w - take_bit k w"
proof -
  have "NOT w AND take_bit k w = 0"
    by (simp add: bit_eq_iff bit_simps)
  then have "w - take_bit k w = w AND NOT (take_bit k w)"
    by (rule disjunctive_diff_eq_and_not)
  also have "\<dots> = w AND NOT (mask k)"
    by (auto simp: bit_eq_iff bit_simps)
  finally show ?thesis by simp
qed

lemma unat_and_not_mask:
  "unat ((w :: 'a :: len word) AND NOT (mask k)) = unat w - unat w mod 2 ^ k"
proof -
  have "take_bit k w \<le> w"
    by (simp add: word_le_nat_alt unsigned_take_bit_eq)
  then have "unat (w - take_bit k w) = unat w - unat (take_bit k w)"
    by (rule unat_sub)
  then show ?thesis
    by (simp add: and_not_mask_diff unsigned_take_bit_eq flip: take_bit_eq_mod)
qed

lemma unat_align_down: "unat (w AND NOT (mask k) :: u32) = unat w div 2 ^ k * 2 ^ k"
  by (simp add: unat_and_not_mask minus_mod_eq_div_mult)

section \<open>Null-terminated chains\<close>

text \<open>
  \<open>chain nx p xs\<close>: following \<open>nx\<close> from \<open>p\<close> visits exactly the nodes \<open>xs\<close> and then
  reaches the null pointer. It is the shape of every intrusive free list below.
\<close>

fun chain :: "(nat \<Rightarrow> nat) \<Rightarrow> nat \<Rightarrow> nat list \<Rightarrow> bool" where
  "chain nx p [] \<longleftrightarrow> p = 0"
| "chain nx p (x # xs) \<longleftrightarrow> p = x \<and> x \<noteq> 0 \<and> chain nx (nx x) xs"

text \<open>The predecessor of a node whose prefix is \<open>xs\<close>: null when it is the head.\<close>

definition pred_of :: "nat list \<Rightarrow> nat" where
  "pred_of xs = (if xs = [] then 0 else last xs)"

lemma pred_of_simps [simp]: "pred_of [] = 0" "pred_of (xs @ [x]) = x"
  by (simp_all add: pred_of_def)

lemma chain_cong:
  "(\<And>x. x \<in> set xs \<Longrightarrow> nx' x = nx x) \<Longrightarrow> chain nx' p xs = chain nx p xs"
  by (induction xs arbitrary: p) auto

lemma chain_upd_other [simp]: "x \<notin> set xs \<Longrightarrow> chain (nx(x := q)) p xs = chain nx p xs"
  by (rule chain_cong) auto

lemma chain_nonnull: "chain nx p xs \<Longrightarrow> x \<in> set xs \<Longrightarrow> x \<noteq> 0"
  by (induction xs arbitrary: p) auto

lemma chain_Nil_iff: "chain nx p xs \<Longrightarrow> p = 0 \<longleftrightarrow> xs = []"
  by (cases xs) auto

lemma chain_unique: "chain nx p xs \<Longrightarrow> chain nx p ys \<Longrightarrow> xs = ys"
proof (induction xs arbitrary: p ys)
  case Nil
  then show ?case by (simp add: chain_Nil_iff)
next
  case (Cons x xs)
  then show ?case by (cases ys) auto
qed

lemma chain_suffix: "chain nx p (xs @ ys) \<Longrightarrow> \<exists>q. chain nx q ys"
  by (induction xs arbitrary: p) auto

text \<open>A chain cannot revisit a node: it would never reach null.\<close>

lemma chain_distinct: "chain nx p xs \<Longrightarrow> distinct xs"
proof (induction xs arbitrary: p)
  case Nil
  then show ?case by simp
next
  case (Cons x xs)
  have "x \<notin> set xs"
  proof
    assume "x \<in> set xs"
    then obtain us vs where xs: "xs = us @ x # vs"
      by (meson split_list)
    with Cons.prems obtain q where "chain nx q (x # vs)"
      using chain_suffix [of nx "nx x" us "x # vs"] by auto
    then have "chain nx x (x # vs)" by simp
    moreover have "chain nx x (x # xs)" using Cons.prems by simp
    ultimately have "x # vs = x # xs" by (rule chain_unique)
    then show False using xs by simp
  qed
  with Cons show ?case by auto
qed

text \<open>The three edits: push in front, unlink a node, replace a node in place.\<close>

lemma chain_push:
  "chain nx p xs \<Longrightarrow> x \<notin> set xs \<Longrightarrow> x \<noteq> 0 \<Longrightarrow> chain (nx(x := p)) x (x # xs)"
  by simp

lemma chain_splice:
  assumes "chain nx p (xs @ ys)" "xs \<noteq> []" "chain nx q zs" "last xs \<notin> set zs"
  shows "chain (nx(last xs := q)) p (xs @ zs)"
  using assms
proof (induction xs arbitrary: p)
  case Nil
  then show ?case by simp
next
  case (Cons x xs)
  show ?case
  proof (cases "xs = []")
    case True
    from Cons.prems True have "x \<notin> set zs" "p = x" "x \<noteq> 0" by auto
    with Cons.prems(3) have "chain (nx(x := q)) p (x # zs)" by (simp add: chain_push)
    then show ?thesis by (simp only: last_ConsL [OF refl] True append.simps)
  next
    case False
    from Cons.prems False have ne: "x \<noteq> last xs"
      using chain_distinct [OF Cons.prems(1)] by auto
    from Cons.prems False have "chain (nx(last xs := q)) (nx x) (xs @ zs)"
      by (intro Cons.IH) auto
    with Cons.prems(1) ne have "chain (nx(last xs := q)) p (x # xs @ zs)" by simp
    then show ?thesis by (simp only: last_ConsR [OF False] append.simps)
  qed
qed

lemma chain_mid: "chain nx p (xs @ y # ys) \<Longrightarrow> y \<noteq> 0 \<and> chain nx (nx y) ys"
  by (induction xs arbitrary: p) auto

lemma chain_head: "chain nx p (x # xs) \<Longrightarrow> p = x"
  by simp

lemma chain_unlink:
  assumes "chain nx p (xs @ y # ys)"
  shows "if xs = [] then chain nx (nx y) ys else chain (nx(last xs := nx y)) p (xs @ ys)"
proof -
  from assms have *: "chain nx (nx y) ys" by (simp add: chain_mid)
  have "last xs \<notin> set ys" if "xs \<noteq> []"
    using chain_distinct [OF assms] last_in_set [OF that] by auto
  with * assms show ?thesis by (auto intro: chain_splice)
qed

end
