(* ===== verification/Heap.thy ===== *)
theory Heap
  imports Prelude
begin

unbundle bit_operations_syntax

text \<open>
  The kernel heap (kernel/kernel/Heap.cc): a best-fit allocator over one region, with
  boundary headers in the managed memory itself and an intrusive free list whose
  links live in the payload of the free blocks.

  A block at address \<open>p\<close> has its size at \<open>p\<close> (low bit set when allocated), its magic at
  \<open>p + 4\<close> and, when free, its link at \<open>p + 16\<close>. The loops over the free list are
  \<^theory_text>\<open>partial_function (option)\<close>: on a cyclic list the code does not return, which is
  the value \<^const>\<open>None\<close>; the theorems prove that on a well-formed heap every
  operation returns.
\<close>

section \<open>Constants and header arithmetic\<close>

definition ALLOC_FLAG :: u32 where "ALLOC_FLAG = 1"

definition HEAP_MAGIC :: u32 where "HEAP_MAGIC = 0x48455041"

definition BLOCK_ALIGN :: u32 where "BLOCK_ALIGN = 16"

definition MIN_BLOCK :: u32 where "MIN_BLOCK = 32"

text \<open>\<open>sizeof(Header)\<close>: size, magic and two dwords of padding.\<close>

definition HEADER_SIZE :: u32 where "HEADER_SIZE = 16"

definition alignUp :: "u32 \<Rightarrow> u32 \<Rightarrow> u32" where
  "alignUp n a =
     (let mask = a - 1
      in if n > - 1 - mask then - 1 else (n + mask) AND NOT mask)"

definition isAlloc :: "u32 \<Rightarrow> bool" where
  "isAlloc v \<longleftrightarrow> v AND ALLOC_FLAG \<noteq> 0"

definition rawSize :: "u32 \<Rightarrow> u32" where
  "rawSize v = v AND NOT ALLOC_FLAG"

section \<open>State and operations\<close>

record heap = kmem +
  freeList :: nat
  heapStart :: nat
  heapEnd :: nat
  ready :: bool

text \<open>The link field of a \<open>FreeNode\<close>.\<close>

definition node_next :: "memory \<Rightarrow> nat \<Rightarrow> nat" where
  "node_next m p = unat (m (p + 16))"

definition heap_init :: "nat \<Rightarrow> nat \<Rightarrow> 'a heap_scheme \<Rightarrow> 'a heap_scheme" where
  "heap_init data len h =
     (let start = unat (alignUp (word_of_nat data) BLOCK_ALIGN);
          hend = add32 start (unat (alignUp (word_of_nat len) BLOCK_ALIGN));
          m1 = (mem h)(start := word_of_nat (sub32 hend start));
          m2 = m1(start + 4 := 0);
          m3 = m2(start + 16 := 0)
      in h\<lparr>mem := m3, freeList := start, heapStart := start, heapEnd := hend, ready := True\<rparr>)"

definition heap_isInitialized :: "'a heap_scheme \<Rightarrow> bool" where
  "heap_isInitialized h = ready h"

definition addToFreeList :: "nat \<Rightarrow> 'a heap_scheme \<Rightarrow> 'a heap_scheme" where
  "addToFreeList node h =
     h\<lparr>mem := (mem h)(node + 16 := word_of_nat (freeList h), node + 4 := 0),
       freeList := node\<rparr>"

definition removeFromFreeList :: "nat \<Rightarrow> nat \<Rightarrow> 'a heap_scheme \<Rightarrow> 'a heap_scheme" where
  "removeFromFreeList target prev h =
     (if prev \<noteq> 0 then h\<lparr>mem := (mem h)(prev + 16 := mem h (target + 16))\<rparr>
      else h\<lparr>freeList := node_next (mem h) target\<rparr>)"

text \<open>The search loop of \<open>coalesce\<close>: the predecessor and the node found (or null).\<close>

partial_function (option) find_node :: "memory \<Rightarrow> nat \<Rightarrow> nat \<Rightarrow> nat \<Rightarrow> (nat \<times> nat) option" where
  "find_node m target prev cur =
     (if cur \<noteq> 0 \<and> cur \<noteq> target then find_node m target cur (node_next m cur)
      else Some (prev, cur))"

definition coalesce :: "nat \<Rightarrow> 'a heap_scheme \<Rightarrow> 'a heap_scheme option" where
  "coalesce node h =
     (let nextAddr = add32 node (unat (mem h node))
      in if nextAddr \<ge> heapEnd h then Some h
         else if mem h nextAddr = 0 \<or> isAlloc (mem h nextAddr)
                 \<or> mem h (nextAddr + 4) \<noteq> 0 then Some h
         else do {
           (prev, cur) \<leftarrow> find_node (mem h) nextAddr 0 (freeList h);
           if cur \<noteq> 0 then
             let h1 = removeFromFreeList nextAddr prev h
             in Some (h1\<lparr>mem := (mem h1)(node := mem h1 node
                                              + rawSize (mem h1 nextAddr))\<rparr>)
           else Some h
         })"

text \<open>The size computation of \<open>alloc\<close>; \<^const>\<open>None\<close> is its early return of null.\<close>

definition alloc_needed :: "u32 \<Rightarrow> u32 option" where
  "alloc_needed sz =
     (let alignedSize = alignUp sz 4
      in if alignedSize = - 1 \<or> alignedSize > - 1 - HEADER_SIZE then None
         else Some (alignUp (max (HEADER_SIZE + alignedSize) MIN_BLOCK) BLOCK_ALIGN))"

text \<open>The best-fit search: the best block and its predecessor in the list.\<close>

partial_function (option) best_fit ::
  "memory \<Rightarrow> u32 \<Rightarrow> nat \<Rightarrow> nat \<Rightarrow> nat \<Rightarrow> nat \<Rightarrow> (nat \<times> nat) option" where
  "best_fit m needed best bestPrev prev cur =
     (if cur = 0 then Some (best, bestPrev)
      else let freeSz = rawSize (m cur)
           in if freeSz \<ge> needed \<and> (best = 0 \<or> freeSz < rawSize (m best))
              then (if freeSz = needed then Some (cur, prev)
                    else best_fit m needed cur prev cur (node_next m cur))
              else best_fit m needed best bestPrev cur (node_next m cur))"

text \<open>The tail of \<open>alloc\<close> once a block is chosen: split it or hand it over whole.\<close>

definition take_block :: "u32 \<Rightarrow> nat \<Rightarrow> nat \<Rightarrow> 'a heap_scheme \<Rightarrow> 'a heap_scheme" where
  "take_block needed best bestPrev h =
     (let freeSz = rawSize (mem h best);
          residual = freeSz - needed
      in if residual \<ge> MIN_BLOCK then
           let remaining = add32 best (unat needed);
               m1 = (mem h)(remaining := residual);
               m2 = m1(remaining + 4 := 0);
               m3 = m2(remaining + 16 := m2 (best + 16));
               h1 = (if bestPrev \<noteq> 0
                     then h\<lparr>mem := m3(bestPrev + 16 := word_of_nat remaining)\<rparr>
                     else h\<lparr>mem := m3, freeList := remaining\<rparr>)
           in h1\<lparr>mem := (mem h1)(best := needed OR ALLOC_FLAG, best + 4 := HEAP_MAGIC)\<rparr>
         else
           let h1 = (if bestPrev \<noteq> 0
                     then h\<lparr>mem := (mem h)(bestPrev + 16 := mem h (best + 16))\<rparr>
                     else h\<lparr>freeList := node_next (mem h) best\<rparr>)
           in h1\<lparr>mem := (mem h1)(best := freeSz OR ALLOC_FLAG, best + 4 := HEAP_MAGIC)\<rparr>)"

definition heap_alloc :: "u32 \<Rightarrow> 'a heap_scheme \<Rightarrow> (nat \<times> 'a heap_scheme) option" where
  "heap_alloc sz h =
     (if sz = 0 then Some (0, h)
      else case alloc_needed sz of
        None \<Rightarrow> Some (0, h)
      | Some needed \<Rightarrow> do {
          (best, bestPrev) \<leftarrow> best_fit (mem h) needed 0 0 0 (freeList h);
          if best = 0 then Some (0, h)
          else Some (add32 best (unat HEADER_SIZE), take_block needed best bestPrev h)
        })"

text \<open>The backward search of \<open>free\<close>: a free block that ends where the node starts.\<close>

partial_function (option) find_preceding :: "memory \<Rightarrow> nat \<Rightarrow> nat \<Rightarrow> nat option" where
  "find_preceding m nodeAddr cur =
     (if cur = 0 then Some 0
      else if add32 cur (unat (rawSize (m cur))) = nodeAddr then Some cur
      else find_preceding m nodeAddr (node_next m cur))"

definition heap_free :: "nat \<Rightarrow> 'a heap_scheme \<Rightarrow> 'a heap_scheme option" where
  "heap_free ptr h =
     (if ptr = 0 then Some h
      else let node = sub32 ptr (unat HEADER_SIZE)
           in if \<not> isAlloc (mem h node) \<or> mem h (node + 4) \<noteq> HEAP_MAGIC
              then Some h
              else let h1 = h\<lparr>mem := (mem h)(node := rawSize (mem h node), node + 4 := 0)\<rparr>
                   in do {
                     currBwd \<leftarrow> find_preceding (mem h1) node (freeList h1);
                     if currBwd \<noteq> 0
                     then coalesce currBwd
                            (h1\<lparr>mem := (mem h1)(currBwd := mem h1 currBwd
                                                        + mem h1 node)\<rparr>)
                     else coalesce node (addToFreeList node h1)
                   })"

partial_function (option) freeMem_loop :: "memory \<Rightarrow> nat \<Rightarrow> u32 \<Rightarrow> u32 option" where
  "freeMem_loop m c acc =
     (if c = 0 then Some acc
      else freeMem_loop m (node_next m c) (acc + rawSize (m c)))"

definition freeMem :: "'a heap_scheme \<Rightarrow> u32 option" where
  "freeMem h = freeMem_loop (mem h) (freeList h) 0"

definition totalMem :: "'a heap_scheme \<Rightarrow> nat" where
  "totalMem h = sub32 (heapEnd h) (heapStart h)"

partial_function (option) largest_loop :: "memory \<Rightarrow> nat \<Rightarrow> u32 \<Rightarrow> u32 option" where
  "largest_loop m c largest =
     (if c = 0 then Some largest
      else largest_loop m (node_next m c) (max (rawSize (m c)) largest))"

definition largestFreeBlock :: "'a heap_scheme \<Rightarrow> u32 option" where
  "largestFreeBlock h = largest_loop (mem h) (freeList h) 0"

section \<open>The abstract heap: a tiling by blocks\<close>

text \<open>
  The specification view: the region is a list of blocks in address order, each free or
  allocated.
\<close>

datatype block = Block (b_addr: nat) (b_size: nat) (b_free: bool)

fun tiled :: "nat \<Rightarrow> block list \<Rightarrow> nat \<Rightarrow> bool" where
  "tiled a [] e \<longleftrightarrow> a = e"
| "tiled a (b # bs) e \<longleftrightarrow>
     b_addr b = a \<and> 32 \<le> b_size b \<and> 16 dvd b_size b \<and> tiled (a + b_size b) bs e"

definition hdr_word :: "block \<Rightarrow> u32" where
  "hdr_word b = (if b_free b then word_of_nat (b_size b) else word_of_nat (b_size b) OR ALLOC_FLAG)"

definition hdr_ok :: "memory \<Rightarrow> block \<Rightarrow> bool" where
  "hdr_ok m b \<longleftrightarrow> m (b_addr b) = hdr_word b
     \<and> m (b_addr b + 4) = (if b_free b then 0 else HEAP_MAGIC)"

definition free_addrs :: "block list \<Rightarrow> nat set" where
  "free_addrs bs = b_addr ` {b \<in> set bs. b_free b}"

text \<open>No two neighbouring blocks are both free: every merge that is possible was made.\<close>

definition coalesced :: "block list \<Rightarrow> bool" where
  "coalesced bs \<longleftrightarrow> successively (\<lambda>b c. \<not> (b_free b \<and> b_free c)) bs"

text \<open>The memory lays out the blocks \<open>bs\<close>, and the free list links the blocks \<open>fs\<close>.\<close>

definition heap_struct :: "'a heap_scheme \<Rightarrow> block list \<Rightarrow> nat list \<Rightarrow> bool" where
  "heap_struct h bs fs \<longleftrightarrow>
     0 < heapStart h \<and> 16 dvd heapStart h \<and> heapEnd h < 4294967296
     \<and> tiled (heapStart h) bs (heapEnd h)
     \<and> (\<forall>b \<in> set bs. hdr_ok (mem h) b)
     \<and> chain (node_next (mem h)) (freeList h) fs
     \<and> set fs \<subseteq> b_addr ` set bs"

text \<open>The representation invariant: the free list links exactly the free blocks.\<close>

definition heap_rep :: "'a heap_scheme \<Rightarrow> block list \<Rightarrow> nat list \<Rightarrow> bool" where
  "heap_rep h bs fs \<longleftrightarrow> heap_struct h bs fs \<and> set fs = free_addrs bs"

definition heap_inv :: "'a heap_scheme \<Rightarrow> block list \<Rightarrow> bool" where
  "heap_inv h bs \<longleftrightarrow> (\<exists>fs. heap_rep h bs fs) \<and> coalesced bs"

text \<open>The cells an operation may not touch: everything outside the region and the payload
  of every allocated block.\<close>

definition payload :: "block \<Rightarrow> nat set" where
  "payload b = {b_addr b + 16 ..< b_addr b + b_size b}"

definition protected :: "'a heap_scheme \<Rightarrow> block list \<Rightarrow> nat set" where
  "protected h bs = - {heapStart h ..< heapEnd h} \<union> (\<Union>b \<in> {b \<in> set bs. \<not> b_free b}. payload b)"

section \<open>Header words\<close>

lemma isAlloc_iff_odd: "isAlloc v \<longleftrightarrow> odd v"
  by (simp add: isAlloc_def ALLOC_FLAG_def and_one_eq odd_iff_mod_2_eq_one)

lemma isAlloc_of_nat [simp]: "even s \<Longrightarrow> \<not> isAlloc (word_of_nat s)"
  by (simp add: isAlloc_iff_odd)

lemma isAlloc_flag [simp]: "isAlloc (v OR ALLOC_FLAG)"
  by (simp add: isAlloc_iff_odd ALLOC_FLAG_def even_or_iff)

lemma unat_rawSize: "unat (rawSize v) = unat v - unat v mod 2"
  using unat_and_not_mask [of v 1] by (simp add: rawSize_def ALLOC_FLAG_def mask_eq_exp_minus_1)

lemma rawSize_of_nat [simp]: "even s \<Longrightarrow> s < 4294967296 \<Longrightarrow> rawSize (word_of_nat s) = word_of_nat s"
  by (simp add: word_unat_eq_iff unat_rawSize unat_word_of_nat_u32)

lemma rawSize_flag [simp]: "rawSize (v OR ALLOC_FLAG) = rawSize v"
  by (rule bit_word_eqI) (auto simp: rawSize_def ALLOC_FLAG_def bit_simps)

lemma dvd16_even: "16 dvd (s :: nat) \<Longrightarrow> even s"
  using dvd_trans [of 2 16 s] by simp

lemma rawSize_hdr_word:
  "16 dvd b_size b \<Longrightarrow> b_size b < 4294967296 \<Longrightarrow> rawSize (hdr_word b) = word_of_nat (b_size b)"
  by (simp add: hdr_word_def dvd16_even)

lemma isAlloc_hdr_word: "16 dvd b_size b \<Longrightarrow> isAlloc (hdr_word b) \<longleftrightarrow> \<not> b_free b"
  by (simp add: hdr_word_def dvd16_even)

section \<open>Tilings\<close>

lemma tiled_append: "tiled a (xs @ ys) e \<longleftrightarrow> (\<exists>c. tiled a xs c \<and> tiled c ys e)"
  by (induction xs arbitrary: a) auto

lemma tiled_le: "tiled a bs e \<Longrightarrow> a \<le> e"
  by (induction bs arbitrary: a) fastforce+

lemma tiled_block:
  "tiled a bs e \<Longrightarrow> b \<in> set bs \<Longrightarrow>
     a \<le> b_addr b \<and> b_addr b + b_size b \<le> e \<and> 32 \<le> b_size b \<and> 16 dvd b_size b"
proof (induction bs arbitrary: a)
  case Nil
  then show ?case by simp
next
  case (Cons c cs)
  show ?case
  proof (cases "b = c")
    case True
    with Cons.prems(1) show ?thesis by (auto dest: tiled_le)
  next
    case False
    with Cons.prems Cons.IH [of "a + b_size c"] show ?thesis by fastforce
  qed
qed

lemma tiled_aligned: "tiled a bs e \<Longrightarrow> 16 dvd a \<Longrightarrow> b \<in> set bs \<Longrightarrow> 16 dvd b_addr b"
  by (induction bs arbitrary: a) (auto intro: dvd_add)

text \<open>Cells of different blocks are different cells: the geometric heart of every frame
  argument below.\<close>

lemma tiled_cells:
  "tiled a bs e \<Longrightarrow> b \<in> set bs \<Longrightarrow> c \<in> set bs \<Longrightarrow> b_addr b + i = b_addr c + j \<Longrightarrow>
     i < b_size b \<Longrightarrow> j < b_size c \<Longrightarrow> b = c \<and> i = j"
proof (induction bs arbitrary: a)
  case Nil
  then show ?case by simp
next
  case (Cons d ds)
  then have t: "tiled (a + b_size d) ds e" and ad: "b_addr d = a" by auto
  show ?case
  proof (cases "b \<in> set ds \<and> c \<in> set ds")
    case True
    with Cons.IH [OF t] Cons.prems show ?thesis by blast
  next
    case False
    have "\<And>x. x \<in> set ds \<Longrightarrow> a + b_size d \<le> b_addr x"
      using tiled_block [OF t] by blast
    with False Cons.prems ad show ?thesis by fastforce
  qed
qed

lemma tiled_addr_inj:
  "tiled a bs e \<Longrightarrow> b \<in> set bs \<Longrightarrow> c \<in> set bs \<Longrightarrow> b_addr b = b_addr c \<Longrightarrow> b = c"
  using tiled_cells [of a bs e b c 0 0] tiled_block [of a bs e] by fastforce

lemma tiled_distinct: "tiled a bs e \<Longrightarrow> distinct bs"
proof (induction bs arbitrary: a)
  case Nil
  then show ?case by simp
next
  case (Cons d ds)
  then have t: "tiled (a + b_size d) ds e" by simp
  moreover have "d \<notin> set ds"
    using tiled_block [OF t, of d] Cons.prems by auto
  ultimately show ?case using Cons.IH by auto
qed

text \<open>The block after a given one starts where it ends.\<close>

lemma tiled_next:
  assumes "tiled a (ls @ b # rs) e"
  shows "case rs of [] \<Rightarrow> b_addr b + b_size b = e | c # _ \<Rightarrow> b_addr c = b_addr b + b_size b"
  using assms by (cases rs) (auto simp: tiled_append)

lemma tiled_split_at:
  assumes "tiled a bs e" "p \<in> set bs" "b \<in> set bs" "b_addr p + b_size p = b_addr b"
  shows "\<exists>ls rs. bs = ls @ p # b # rs"
proof -
  from assms(2) obtain ls rs where bs: "bs = ls @ p # rs"
    by (meson split_list)
  with assms(1) have nx: "case rs of [] \<Rightarrow> b_addr p + b_size p = e | c # _ \<Rightarrow> b_addr c = b_addr p + b_size p"
    using tiled_next by blast
  have "b_addr b < e" using tiled_block [OF assms(1,3)] by simp
  with nx assms(4) obtain c cs where rs: "rs = c # cs" "b_addr c = b_addr b"
    by (cases rs) auto
  from bs rs have "c \<in> set bs" by simp
  with assms(3) rs(2) have "c = b" by (auto intro: tiled_addr_inj [OF assms(1)])
  with bs rs show ?thesis by blast
qed

lemma free_addrs_simps [simp]:
  "free_addrs [] = {}"
  "free_addrs (b # bs) = (if b_free b then insert (b_addr b) (free_addrs bs) else free_addrs bs)"
  "free_addrs (xs @ ys) = free_addrs xs \<union> free_addrs ys"
  by (auto simp: free_addrs_def)

lemma free_addrs_fresh: "(\<And>b. b \<in> set bs \<Longrightarrow> b_addr b \<noteq> c) \<Longrightarrow> c \<notin> free_addrs bs"
  by (auto simp: free_addrs_def)

text \<open>The address of a block occurs nowhere else in the tiling.\<close>

lemma tiled_addr_fresh:
  assumes "tiled a (ls @ b # rs) e"
  shows "b_addr b \<notin> free_addrs ls" "b_addr b \<notin> free_addrs rs"
proof -
  have "b_addr c \<noteq> b_addr b" if "c \<in> set ls \<union> set rs" for c
  proof
    assume "b_addr c = b_addr b"
    with that have "c = b" by (intro tiled_addr_inj [OF assms]) auto
    with that tiled_distinct [OF assms] show False by auto
  qed
  then show "b_addr b \<notin> free_addrs ls" "b_addr b \<notin> free_addrs rs"
    by (auto intro!: free_addrs_fresh)
qed

section \<open>The loops on a well-formed list\<close>

lemma find_node_chain:
  "chain (node_next m) cur (xs @ t # ys) \<Longrightarrow> t \<notin> set xs \<Longrightarrow>
     find_node m t prev cur = Some (if xs = [] then prev else last xs, t)"
proof (induction xs arbitrary: prev cur)
  case Nil
  then show ?case by (simp add: find_node.simps)
next
  case (Cons x xs)
  then have "find_node m t prev cur = find_node m t x (node_next m x)"
    by (subst find_node.simps) simp
  with Cons show ?case by simp
qed

lemma find_preceding_chain:
  "chain (node_next m) cur xs \<Longrightarrow>
     \<exists>r. find_preceding m n cur = Some r
       \<and> (if r = 0 then \<forall>x \<in> set xs. add32 x (unat (rawSize (m x))) \<noteq> n
          else r \<in> set xs \<and> add32 r (unat (rawSize (m r))) = n)"
proof (induction xs arbitrary: cur)
  case Nil
  then show ?case by (simp add: find_preceding.simps)
next
  case (Cons x xs)
  show ?case
  proof (cases "add32 x (unat (rawSize (m x))) = n")
    case True
    with Cons.prems have "find_preceding m n cur = Some x"
      by (subst find_preceding.simps) simp
    with True Cons.prems show ?thesis by (intro exI [of _ x]) auto
  next
    case False
    with Cons.prems have "find_preceding m n cur = find_preceding m n (node_next m x)"
      by (subst find_preceding.simps) simp
    moreover from Cons.prems Cons.IH [of "node_next m x"] obtain r
      where "find_preceding m n (node_next m x) = Some r"
        "if r = 0 then \<forall>x \<in> set xs. add32 x (unat (rawSize (m x))) \<noteq> n
         else r \<in> set xs \<and> add32 r (unat (rawSize (m r))) = n" by auto
    ultimately show ?thesis using False by (intro exI [of _ r]) (auto split: if_splits)
  qed
qed

text \<open>A node of a list together with its predecessor pointer.\<close>

definition linked_at :: "nat list \<Rightarrow> nat \<Rightarrow> nat \<Rightarrow> bool" where
  "linked_at ds x p \<longleftrightarrow> (\<exists>xs ys. ds = xs @ x # ys \<and> p = pred_of xs)"

lemma linked_at_snoc: "linked_at (ds @ [x]) x (pred_of ds)"
  unfolding linked_at_def by blast

lemma linked_at_append: "linked_at ds x p \<Longrightarrow> linked_at (ds @ es) x p"
  unfolding linked_at_def by force

text \<open>What the best-fit loop maintains about the nodes \<open>ds\<close> it has visited.\<close>

definition best_of :: "memory \<Rightarrow> u32 \<Rightarrow> nat list \<Rightarrow> nat \<Rightarrow> nat \<Rightarrow> bool" where
  "best_of m needed ds best bestPrev \<longleftrightarrow>
     (if best = 0 then \<forall>x \<in> set ds. rawSize (m x) < needed
      else needed \<le> rawSize (m best)
        \<and> (\<forall>x \<in> set ds. needed \<le> rawSize (m x) \<longrightarrow> rawSize (m best) \<le> rawSize (m x))
        \<and> linked_at ds best bestPrev)"

lemma best_of_exact:
  "x \<noteq> 0 \<Longrightarrow> rawSize (m x) = needed \<Longrightarrow> best_of m needed (xs @ x # ys) x (pred_of xs)"
  using linked_at_append [OF linked_at_snoc, of xs x ys] by (auto simp: best_of_def)

lemma best_of_skip:
  "best_of m needed ds best bestPrev \<Longrightarrow>
   \<not> (needed \<le> rawSize (m x) \<and> (best = 0 \<or> rawSize (m x) < rawSize (m best))) \<Longrightarrow>
   best_of m needed (ds @ [x]) best bestPrev"
  by (auto simp: best_of_def not_le not_less linked_at_append split: if_splits)

lemma best_of_better:
  assumes "best_of m needed ds best bestPrev" "x \<noteq> 0"
    "needed \<le> rawSize (m x) \<and> (best = 0 \<or> rawSize (m x) < rawSize (m best))"
  shows "best_of m needed (ds @ [x]) x (pred_of ds)"
proof -
  have "rawSize (m x) \<le> rawSize (m y)" if "y \<in> set ds" "needed \<le> rawSize (m y)" for y
    using assms that by (fastforce simp: best_of_def not_le split: if_splits)
  with assms show ?thesis by (auto simp: best_of_def linked_at_snoc)
qed

lemma best_fit_chain:
  "chain (node_next m) cur rs \<Longrightarrow> best_of m needed ds best bestPrev \<Longrightarrow> prev = pred_of ds \<Longrightarrow>
     \<exists>b bp. best_fit m needed best bestPrev prev cur = Some (b, bp)
       \<and> best_of m needed (ds @ rs) b bp"
proof (induction rs arbitrary: ds best bestPrev prev cur)
  case Nil
  then show ?case by (simp add: best_fit.simps)
next
  case (Cons x rs)
  then have x: "cur = x" "x \<noteq> 0" and ch: "chain (node_next m) (node_next m x) rs" by auto
  let ?better = "needed \<le> rawSize (m x) \<and> (best = 0 \<or> rawSize (m x) < rawSize (m best))"
  have step: "best_fit m needed best bestPrev prev cur =
      (if ?better then if rawSize (m x) = needed then Some (x, prev)
                       else best_fit m needed x prev x (node_next m x)
       else best_fit m needed best bestPrev x (node_next m x))"
    using x by (subst best_fit.simps) (auto simp: Let_def)
  consider "\<not> ?better" | "?better" "rawSize (m x) = needed" | "?better" "rawSize (m x) \<noteq> needed"
    by blast
  then show ?case
  proof cases
    case 1
    with Cons.IH [OF ch best_of_skip [OF Cons.prems(2) 1] refl] step show ?thesis by simp
  next
    case 2
    with step x(2) best_of_exact [of x m needed ds rs] Cons.prems(3) show ?thesis by simp
  next
    case 3
    with Cons.IH [OF ch best_of_better [OF Cons.prems(2) x(2) 3(1)] refl] step Cons.prems(3)
    show ?thesis by simp
  qed
qed

section \<open>Frame facts of a laid-out heap\<close>

lemma node_next_link [simp]: "node_next (m(p + 16 := v)) = (node_next m)(p := unat v)"
  by (rule ext) (simp add: node_next_def)

lemma heap_struct_tiled: "heap_struct h bs fs \<Longrightarrow> tiled (heapStart h) bs (heapEnd h)"
  by (simp add: heap_struct_def)

lemma heap_struct_hdr: "heap_struct h bs fs \<Longrightarrow> b \<in> set bs \<Longrightarrow> hdr_ok (mem h) b"
  by (simp add: heap_struct_def)

lemma heap_struct_chain:
  "heap_struct h bs fs \<Longrightarrow> chain (node_next (mem h)) (freeList h) fs \<and> set fs \<subseteq> b_addr ` set bs"
  by (simp add: heap_struct_def)

lemma heap_struct_block:
  assumes "heap_struct h bs fs" "b \<in> set bs"
  shows "heapStart h \<le> b_addr b" "b_addr b + b_size b \<le> heapEnd h" "32 \<le> b_size b"
    "16 dvd b_size b" "b_addr b + b_size b < 4294967296" "16 dvd b_addr b" "0 < b_addr b"
    "mem h (b_addr b) = hdr_word b" "mem h (b_addr b + 4) = (if b_free b then 0 else HEAP_MAGIC)"
    "rawSize (mem h (b_addr b)) = word_of_nat (b_size b)"
    "unat (rawSize (mem h (b_addr b))) = b_size b"
    "isAlloc (mem h (b_addr b)) \<longleftrightarrow> \<not> b_free b"
proof -
  from assms have t: "tiled (heapStart h) bs (heapEnd h)" and e: "heapEnd h < 4294967296"
    and s: "0 < heapStart h" "16 dvd heapStart h" and ok: "hdr_ok (mem h) b"
    by (auto simp: heap_struct_def)
  note tb = tiled_block [OF t assms(2)]
  from tb show "heapStart h \<le> b_addr b" "b_addr b + b_size b \<le> heapEnd h" "32 \<le> b_size b"
    "16 dvd b_size b" by auto
  with e show lt: "b_addr b + b_size b < 4294967296" by simp
  from tiled_aligned [OF t s(2) assms(2)] show "16 dvd b_addr b" .
  from tb s(1) show "0 < b_addr b" by simp
  from ok show h: "mem h (b_addr b) = hdr_word b"
    "mem h (b_addr b + 4) = (if b_free b then 0 else HEAP_MAGIC)"
    by (auto simp: hdr_ok_def)
  from tb lt h show r: "rawSize (mem h (b_addr b)) = word_of_nat (b_size b)"
    by (simp add: rawSize_hdr_word)
  from lt show "unat (rawSize (mem h (b_addr b))) = b_size b"
    unfolding r by (intro unat_word_of_nat_u32) simp
  from tb h show "isAlloc (mem h (b_addr b)) \<longleftrightarrow> \<not> b_free b"
    by (simp add: isAlloc_hdr_word)
qed

lemma hdr_ok_other_cell:
  assumes "tiled a bs e" "b \<in> set bs" "c \<in> set bs" "i < b_size b" "c \<noteq> b \<or> i \<noteq> 0 \<and> i \<noteq> 4"
  shows "hdr_ok (m(b_addr b + i := v)) c \<longleftrightarrow> hdr_ok m c"
proof -
  have sz: "32 \<le> b_size c" using tiled_block [OF assms(1,3)] by simp
  have "b_addr c \<noteq> b_addr b + i" "b_addr c + 4 \<noteq> b_addr b + i"
    using tiled_cells [OF assms(1,3,2), of 0 i] tiled_cells [OF assms(1,3,2), of 4 i] assms(4,5) sz
    by auto
  then show ?thesis by (simp add: hdr_ok_def)
qed

lemma node_next_other_cell:
  assumes "tiled a bs e" "b \<in> set bs" "c \<in> set bs" "i < b_size b" "c \<noteq> b \<or> i \<noteq> 16"
  shows "node_next (m(b_addr b + i := v)) (b_addr c) = node_next m (b_addr c)"
proof -
  have sz: "32 \<le> b_size c" using tiled_block [OF assms(1,3)] by simp
  have "b_addr c + 16 \<noteq> b_addr b + i"
    using tiled_cells [OF assms(1,3,2), of 16 i] assms(4,5) sz by auto
  then show ?thesis by (simp add: node_next_def)
qed

lemma chain_other_cell:
  assumes "tiled a bs e" "set xs \<subseteq> b_addr ` set bs" "b \<in> set bs" "i < b_size b"
    "i \<noteq> 16 \<or> b_addr b \<notin> set xs"
  shows "chain (node_next (m(b_addr b + i := v))) p xs = chain (node_next m) p xs"
proof (rule chain_cong)
  fix x assume x: "x \<in> set xs"
  with assms(2) obtain c where c: "c \<in> set bs" "b_addr c = x" by blast
  from node_next_other_cell [OF assms(1,3) c(1) assms(4)] c(2) assms(5) x
  show "node_next (m(b_addr b + i := v)) x = node_next m x" by auto
qed

text \<open>A cell of a free block, or a header cell, is never protected.\<close>

lemma not_protected:
  assumes "heap_struct h bs fs" "b \<in> set bs" "i < b_size b" "b_free b \<or> i < 16"
  shows "b_addr b + i \<notin> protected h bs"
proof -
  note t = heap_struct_tiled [OF assms(1)]
  have "b_addr b + i \<notin> payload c" if c: "c \<in> set bs" "\<not> b_free c" for c
  proof
    assume "b_addr b + i \<in> payload c"
    then obtain j where "b_addr b + i = b_addr c + j" "16 \<le> j" "j < b_size c"
      by (auto simp: payload_def dest!: nat_le_iff_add [THEN iffD1])
    with tiled_cells [OF t assms(2) c(1) _ assms(3)] assms(4) c show False by auto
  qed
  moreover have "b_addr b + i \<in> {heapStart h ..< heapEnd h}"
    using heap_struct_block(1,2) [OF assms(1,2)] assms(3) by auto
  ultimately show ?thesis by (auto simp: protected_def)
qed

text \<open>What every operation leaves alone: the rest of the state and the protected cells.\<close>

definition heap_step :: "'a heap_scheme \<Rightarrow> block list \<Rightarrow> 'a heap_scheme \<Rightarrow> bool" where
  "heap_step h bs h' \<longleftrightarrow> (\<exists>m f. h' = h\<lparr>mem := m, freeList := f\<rparr>
     \<and> (\<forall>x \<in> protected h bs. m x = mem h x))"

lemma heap_stepI:
  "(\<And>x. x \<in> protected h bs \<Longrightarrow> m x = mem h x) \<Longrightarrow> heap_step h bs (h\<lparr>mem := m, freeList := f\<rparr>)"
  unfolding heap_step_def by blast

lemma heap_stepE:
  assumes "heap_step h bs h'"
  obtains m f where "h' = h\<lparr>mem := m, freeList := f\<rparr>" "\<And>x. x \<in> protected h bs \<Longrightarrow> m x = mem h x"
  using assms unfolding heap_step_def by blast

lemma heap_step_refl [simp]: "heap_step h bs h"
  using heap_stepI [of h bs "mem h" "freeList h"] by simp

lemma heap_step_write:
  assumes "heap_step h bs h'" "x \<notin> protected h bs"
  shows "heap_step h bs (h'\<lparr>mem := (mem h')(x := v)\<rparr>)"
  using assms(1)
proof (rule heap_stepE)
  fix m f assume "h' = h\<lparr>mem := m, freeList := f\<rparr>" "\<And>x. x \<in> protected h bs \<Longrightarrow> m x = mem h x"
  moreover from this have "h'\<lparr>mem := (mem h')(x := v)\<rparr> = h\<lparr>mem := m(x := v), freeList := f\<rparr>"
    by simp
  ultimately show ?thesis
    using assms(2) heap_stepI [of h bs "m(x := v)" f] by (metis fun_upd_apply)
qed

lemma heap_step_freeList:
  assumes "heap_step h bs h'"
  shows "heap_step h bs (h'\<lparr>freeList := p\<rparr>)"
  using assms
proof (rule heap_stepE)
  fix m f assume "h' = h\<lparr>mem := m, freeList := f\<rparr>" "\<And>x. x \<in> protected h bs \<Longrightarrow> m x = mem h x"
  with heap_stepI [of h bs m p] show ?thesis by simp
qed

lemma heap_step_bounds [simp]:
  "heap_step h bs h' \<Longrightarrow> heapStart h' = heapStart h" "heap_step h bs h' \<Longrightarrow> heapEnd h' = heapEnd h"
  by (auto simp: heap_step_def)

lemma heap_step_trans:
  assumes "heap_step h bs h'" "heap_step h' bs' h''" "protected h bs \<subseteq> protected h' bs'"
  shows "heap_step h bs h''"
  using assms(1)
proof (rule heap_stepE)
  fix m f assume 1: "h' = h\<lparr>mem := m, freeList := f\<rparr>" "\<And>x. x \<in> protected h bs \<Longrightarrow> m x = mem h x"
  from assms(2) show ?thesis
  proof (rule heap_stepE)
    fix m' f' assume "h'' = h'\<lparr>mem := m', freeList := f'\<rparr>"
      "\<And>x. x \<in> protected h' bs' \<Longrightarrow> m' x = mem h' x"
    with 1 assms(3) heap_stepI [of h bs m' f'] show ?thesis by (simp add: subset_iff)
  qed
qed

section \<open>Edits of the layout\<close>

text \<open>Setting the status of a block.\<close>

lemma struct_set_status:
  assumes st: "heap_struct h (ls @ Block a s f # rs) fs"
  shows "heap_struct (h\<lparr>mem := (mem h)(a := hdr_word (Block a s f'),
             a + 4 := if f' then 0 else HEAP_MAGIC)\<rparr>) (ls @ Block a s f' # rs) fs"
    (is "heap_struct (h\<lparr>mem := ?m\<rparr>) ?bs' fs")
proof -
  let ?B = "Block a s f" and ?bs = "ls @ Block a s f # rs"
  have B: "?B \<in> set ?bs" by simp
  note t = heap_struct_tiled [OF st] and b = heap_struct_block [OF st B, simplified]
  have "hdr_ok ?m c" if c: "c \<in> set ?bs'" for c
  proof (cases "c = Block a s f'")
    case True
    then show ?thesis by (simp add: hdr_ok_def)
  next
    case False
    with c tiled_distinct [OF t] have c: "c \<in> set ?bs" "c \<noteq> ?B" by auto
    from st c(1) have "hdr_ok (mem h) c" by (rule heap_struct_hdr)
    with hdr_ok_other_cell [OF t B c(1), of 0] hdr_ok_other_cell [OF t B c(1), of 4] c(2) b
    show ?thesis by simp
  qed
  moreover have "chain (node_next ?m) (freeList h) fs"
    using st chain_other_cell [OF t _ B, of fs 0] chain_other_cell [OF t _ B, of fs 4] b
    by (simp add: heap_struct_def)
  ultimately show ?thesis using st by (auto simp: heap_struct_def tiled_append)
qed

text \<open>Absorbing the next block, once it is not linked any more.\<close>

lemma struct_merge:
  assumes st: "heap_struct h (ls @ Block a s True # Block c u f # rs) fs" and c: "c \<notin> set fs"
  shows "heap_struct (h\<lparr>mem := (mem h)(a := word_of_nat (s + u))\<rparr>)
           (ls @ Block a (s + u) True # rs) fs"
    (is "heap_struct (h\<lparr>mem := ?m\<rparr>) ?bs' fs")
proof -
  let ?A = "Block a s True" and ?bs = "ls @ Block a s True # Block c u f # rs"
  have A: "?A \<in> set ?bs" by simp
  note t = heap_struct_tiled [OF st] and b = heap_struct_block [OF st A, simplified]
  have "hdr_ok ?m d" if d: "d \<in> set ?bs'" for d
  proof (cases "d = Block a (s + u) True")
    case True
    with b show ?thesis by (simp add: hdr_ok_def hdr_word_def)
  next
    case False
    with d tiled_distinct [OF t] have d: "d \<in> set ?bs" "d \<noteq> ?A" by auto
    from st d(1) have "hdr_ok (mem h) d" by (rule heap_struct_hdr)
    with hdr_ok_other_cell [OF t A d(1), of 0] d(2) b show ?thesis by simp
  qed
  moreover have "chain (node_next ?m) (freeList h) fs"
    using st chain_other_cell [OF t _ A, of fs 0] b by (simp add: heap_struct_def)
  ultimately show ?thesis using st c by (auto simp: heap_struct_def tiled_append add.assoc)
qed

text \<open>Cutting a block in two; the first part gets the status \<open>f\<close>.\<close>

lemma struct_split:
  assumes st: "heap_struct h (ls @ Block a s True # rs) fs"
    and n: "32 \<le> n" "16 dvd n" "n + 32 \<le> s"
  shows "heap_struct (h\<lparr>mem := (mem h)(a + n := word_of_nat (s - n), a + n + 4 := 0,
             a := hdr_word (Block a n f), a + 4 := if f then 0 else HEAP_MAGIC)\<rparr>)
           (ls @ Block a n f # Block (a + n) (s - n) True # rs) fs"
    (is "heap_struct (h\<lparr>mem := ?m\<rparr>) ?bs' fs")
proof -
  let ?A = "Block a s True" and ?bs = "ls @ Block a s True # rs"
  have A: "?A \<in> set ?bs" by simp
  note t = heap_struct_tiled [OF st] and b = heap_struct_block [OF st A, simplified]
  note hdr = hdr_ok_other_cell [OF t A]
    and cell = chain_other_cell [OF t conjunct2 [OF heap_struct_chain [OF st]] A]
  have off: "n \<noteq> 16" "n + 4 \<noteq> 16" "n < s" "n + 4 < s" using n by auto
  have "hdr_ok ?m d" if d: "d \<in> set ?bs'" for d
  proof (cases "d \<in> {Block a n f, Block (a + n) (s - n) True}")
    case True
    with b n show ?thesis by (auto simp: hdr_ok_def hdr_word_def)
  next
    case False
    with d tiled_distinct [OF t] have d: "d \<in> set ?bs" "d \<noteq> ?A" by auto
    from st d(1) have "hdr_ok (mem h) d" by (rule heap_struct_hdr)
    with hdr [OF d(1), of 0] hdr [OF d(1), of 4] hdr [OF d(1), of n] hdr [OF d(1), of "n + 4"] d(2) b off
    show ?thesis by (simp add: add.assoc)
  qed
  moreover have "chain (node_next ?m) (freeList h) fs"
    using cell [of 0] cell [of 4] cell [of n] cell [of "n + 4"] b off
      conjunct1 [OF heap_struct_chain [OF st]] by (simp add: add.assoc)
  moreover have "tiled (heapStart h) ?bs' (heapEnd h)"
    using t n b by (auto simp: tiled_append)
  moreover have "set fs \<subseteq> b_addr ` set ?bs'"
    using conjunct2 [OF heap_struct_chain [OF st]] by auto
  ultimately show ?thesis using st by (simp add: heap_struct_def)
qed

text \<open>Edits of the free list only write link fields, which no header check reads.\<close>

lemma struct_relink:
  assumes st: "heap_struct h bs fs" and b: "b_addr ` set bs \<supseteq> set fs'"
    and p: "p \<in> b_addr ` set bs"
    and ch: "chain ((node_next (mem h))(p := unat v)) f fs'"
  shows "heap_struct (h\<lparr>mem := (mem h)(p + 16 := v), freeList := f\<rparr>) bs fs'"
proof -
  note t = heap_struct_tiled [OF st]
  from p obtain q where q: "q \<in> set bs" "b_addr q = p" by blast
  then have "32 \<le> b_size q" using heap_struct_block(3) [OF st] by simp
  then have "hdr_ok ((mem h)(p + 16 := v)) c" if "c \<in> set bs" for c
    using hdr_ok_other_cell [OF t q(1) that, of 16] q(2) st that by (simp add: heap_struct_def)
  with st ch b show ?thesis by (simp add: heap_struct_def)
qed

lemma struct_freeList:
  "heap_struct h bs fs \<Longrightarrow> chain (node_next (mem h)) f fs' \<Longrightarrow> set fs' \<subseteq> b_addr ` set bs \<Longrightarrow>
     heap_struct (h\<lparr>freeList := f\<rparr>) bs fs'"
  by (simp add: heap_struct_def)

lemma struct_unlink:
  assumes st: "heap_struct h bs (xs @ t # ys)"
  shows "heap_struct (removeFromFreeList t (pred_of xs) h) bs (xs @ ys)"
proof -
  from st have ch: "chain (node_next (mem h)) (freeList h) (xs @ t # ys)"
    and sub: "set (xs @ ys) \<subseteq> b_addr ` set bs"
    by (auto simp: heap_struct_def)
  show ?thesis
  proof (cases "xs = []")
    case True
    with st sub chain_unlink [OF ch] show ?thesis
      by (simp add: removeFromFreeList_def struct_freeList)
  next
    case False
    then have "last xs \<noteq> 0" using chain_nonnull [OF ch, of "last xs"] by simp
    moreover have "last xs \<in> b_addr ` set bs" using st False by (auto simp: heap_struct_def)
    ultimately show ?thesis
      using struct_relink [OF st sub, of "last xs" "mem h (t + 16)" "freeList h"] False
        chain_unlink [OF ch]
      by (simp add: removeFromFreeList_def pred_of_def node_next_def [symmetric])
  qed
qed

lemma unlink_step:
  assumes st: "heap_struct h bs (xs @ t # ys)" and xs: "set xs \<subseteq> free_addrs bs"
  shows "heap_step h bs (removeFromFreeList t (pred_of xs) h)"
proof (cases "xs = []")
  case True
  then show ?thesis by (simp add: removeFromFreeList_def heap_step_freeList)
next
  case False
  then have "last xs \<in> free_addrs bs" using xs by auto
  then obtain q where q: "q \<in> set bs" "b_free q" "b_addr q = last xs"
    by (auto simp: free_addrs_def)
  from heap_struct_block(3) [OF st q(1)] not_protected [OF st q(1), of 16] q
  have "last xs + 16 \<notin> protected h bs" by simp
  with False show ?thesis
    by (simp add: removeFromFreeList_def pred_of_def heap_step_write heap_step_freeList)
qed

text \<open>Replacing a node of the list by a node that is not linked yet.\<close>

lemma struct_replace:
  assumes st: "heap_struct h bs (xs @ a # ys)" and r: "r \<in> b_addr ` set bs" "r \<notin> set (xs @ a # ys)"
    "0 < r" "r < 4294967296"
  defines "m \<equiv> (mem h)(r + 16 := mem h (a + 16))"
  shows "heap_struct (if xs = [] then h\<lparr>mem := m, freeList := r\<rparr>
           else h\<lparr>mem := m(last xs + 16 := word_of_nat r)\<rparr>) bs (xs @ r # ys)"
proof -
  note ch = conjunct1 [OF heap_struct_chain [OF st]] and sub = conjunct2 [OF heap_struct_chain [OF st]]
  have nm: "node_next m = (node_next (mem h))(r := node_next (mem h) a)"
    by (simp add: m_def node_next_def [symmetric])
  have ch1: "chain (node_next m) (freeList h) (xs @ a # ys)"
    using ch r(2) by (simp add: nm)
  have chr: "chain (node_next m) r (r # ys)"
    using chain_mid [OF ch] r by (simp add: nm)
  have st1: "heap_struct (h\<lparr>mem := m, freeList := freeList h\<rparr>) bs (xs @ a # ys)"
    unfolding m_def by (rule struct_relink [OF st sub r(1)]) (use ch1 nm in \<open>simp add: node_next_def\<close>)
  show ?thesis
  proof (cases "xs = []")
    case True
    with struct_freeList [OF st1, of r "r # ys"] chr r(1) sub show ?thesis by simp
  next
    case False
    have "last xs \<in> set xs" using False by simp
    with sub r(2) chain_distinct [OF ch]
    have l: "last xs \<in> b_addr ` set bs" "last xs \<notin> set (r # ys)" by auto
    have "chain ((node_next m)(last xs := r)) (freeList h) (xs @ r # ys)"
      using ch1 False chr l(2) by (rule chain_splice)
    with struct_relink [OF st1 _ l(1), of "xs @ r # ys" "word_of_nat r" "freeList h"] sub r False
    show ?thesis by (auto simp: unat_word_of_nat_u32)
  qed
qed

section \<open>Coalescing\<close>

lemma coalesce_stop:
  assumes st: "heap_struct h (ls @ Block a s True # rs) fs"
    and stop: "\<forall>c cs. rs = c # cs \<longrightarrow> \<not> b_free c"
  shows "coalesce a h = Some h"
proof -
  let ?b = "Block a s True"
  note b = heap_struct_block [OF st, of ?b, simplified] and t = heap_struct_tiled [OF st]
  from b have sz: "unat (mem h a) = s" by (simp add: hdr_word_def unat_word_of_nat_u32)
  show ?thesis
  proof (cases rs)
    case Nil
    with tiled_next [OF t] b sz show ?thesis by (simp add: coalesce_def addr_simps)
  next
    case (Cons c cs)
    then have c: "c \<in> set (ls @ ?b # rs)" by simp
    from tiled_next [OF t] Cons have ca: "b_addr c = a + s" by simp
    from heap_struct_block(12) [OF st c] stop Cons ca have "isAlloc (mem h (a + s))" by simp
    with b sz show ?thesis by (simp add: coalesce_def addr_simps Let_def)
  qed
qed

lemma coalesce_merge:
  assumes rep: "heap_rep h (ls @ Block a s True # Block c u True # rs) fs"
  obtains h' fs' where "coalesce a h = Some h'"
    "heap_rep h' (ls @ Block a (s + u) True # rs) fs'"
    "heap_step h (ls @ Block a s True # Block c u True # rs) h'"
proof -
  let ?A = "Block a s True" and ?C = "Block c u True"
  let ?bs = "ls @ ?A # ?C # rs" and ?bs' = "ls @ Block a (s + u) True # rs"
  have A: "?A \<in> set ?bs" and C: "?C \<in> set ?bs" by auto
  from rep have st: "heap_struct h ?bs fs" and fs: "set fs = free_addrs ?bs"
    by (auto simp: heap_rep_def)
  note t = heap_struct_tiled [OF st] and ch = conjunct1 [OF heap_struct_chain [OF st]]
  note a = heap_struct_block [OF st A, simplified] and c = heap_struct_block [OF st C, simplified]
  have ca: "c = a + s" using tiled_next [OF t] by simp
  have "c \<in> set fs" using fs by simp
  then obtain xs ys where fsx: "fs = xs @ c # ys" by (meson split_list)
  have dist: "distinct fs" using ch by (rule chain_distinct)
  define h1 where "h1 = removeFromFreeList c (pred_of xs) h"
  define h' where "h' = h1\<lparr>mem := (mem h1)(a := word_of_nat (s + u))\<rparr>"
  have st1: "heap_struct h1 ?bs (xs @ ys)"
    unfolding h1_def using st fsx by (simp add: struct_unlink)
  note a1 = heap_struct_block [OF st1 A, simplified] and c1 = heap_struct_block [OF st1 C, simplified]
  have "coalesce a h = Some h'"
  proof -
    have "find_node (mem h) c 0 (freeList h) = Some (pred_of xs, c)"
      using find_node_chain [of "mem h" "freeList h" xs c ys 0] ch fsx dist by (simp add: pred_of_def)
    moreover have "mem h c \<noteq> 0" using c by (auto simp: rawSize_def)
    moreover have "removeFromFreeList (a + s) (pred_of xs) h = h1" by (simp add: h1_def ca)
    moreover have "unat (mem h a) = s" "mem h1 a = word_of_nat s"
      using a a1 by (simp_all add: hdr_word_def unat_word_of_nat_u32)
    ultimately show ?thesis
      using a c c1 ca by (simp add: coalesce_def addr_simps h'_def Let_def)
  qed
  moreover have "heap_rep h' ?bs' (xs @ ys)"
  proof -
    have "heap_struct h' ?bs' (xs @ ys)"
      unfolding h'_def using fsx dist by (intro struct_merge [OF st1]) auto
    moreover have "c \<notin> free_addrs ls" "c \<notin> free_addrs rs"
      using tiled_addr_fresh [of _ "ls @ [?A]" ?C rs] t by (auto split: if_splits)
    moreover have "set (xs @ ys) = set fs - {c}" using fsx dist by auto
    moreover have "c \<noteq> a" using ca a(3) by simp
    ultimately show ?thesis using fs by (auto simp: heap_rep_def)
  qed
  moreover have "heap_step h ?bs h'"
  proof -
    have "heap_step h ?bs h1"
      unfolding h1_def using st fs fsx by (intro unlink_step) auto
    moreover have "a \<notin> protected h ?bs" using not_protected [OF st A, of 0] a by simp
    ultimately show ?thesis unfolding h'_def by (rule heap_step_write)
  qed
  ultimately show thesis by (rule that)
qed

section \<open>Request sizes\<close>

lemma unat_u32_max [simp]: "unat (- 1 :: u32) = 4294967295"
  by (simp add: unsigned_minus_1_eq_mask mask_eq_exp_minus_1)

lemma unat_max_u32: "unat (max a b :: u32) = max (unat a) (unat b)"
  by (simp add: max_def word_le_nat_alt)

lemma alignUp_16:
  "unat (alignUp n 16) =
     (if unat n > 4294967280 then 4294967295 else (unat n + 15) div 16 * 16)"
proof -
  have m: "(15 :: u32) = mask 4" by (simp add: mask_eq_exp_minus_1)
  have "unat (n + 15) = unat n + 15" if "unat n \<le> 4294967280"
    using that by (simp add: unat_word_ariths)
  then show ?thesis
    unfolding alignUp_def using unat_align_down [of "n + 15" 4]
    by (simp add: m [symmetric] word_less_nat_alt Let_def)
qed

lemma alignUp_4:
  "unat (alignUp n 4) =
     (if unat n > 4294967292 then 4294967295 else (unat n + 3) div 4 * 4)"
proof -
  have m: "(3 :: u32) = mask 2" by (simp add: mask_eq_exp_minus_1)
  have "unat (n + 3) = unat n + 3" if "unat n \<le> 4294967292"
    using that by (simp add: unat_word_ariths)
  then show ?thesis
    unfolding alignUp_def using unat_align_down [of "n + 3" 2]
    by (simp add: m [symmetric] word_less_nat_alt Let_def)
qed

lemma alloc_needed_ok:
  assumes "alloc_needed sz = Some n"
  shows "n = - 1 \<or> (16 dvd unat n \<and> 32 \<le> unat n \<and> unat sz + 16 \<le> unat n
           \<and> unat n < unat sz + 48)"
proof -
  let ?a = "alignUp sz 4"
  let ?k = "max (16 + ?a) 32"
  from assms have a: "?a \<noteq> - 1" "?a \<le> - 1 - 16" and n: "n = alignUp ?k 16"
    by (auto simp: alloc_needed_def Let_def HEADER_SIZE_def MIN_BLOCK_def BLOCK_ALIGN_def not_less
        split: if_splits)
  from a have "unat ?a \<le> 4294967279" by (simp add: word_le_nat_alt)
  then have sz: "unat ?a = (unat sz + 3) div 4 * 4" and k: "unat ?k = max (16 + unat ?a) 32"
    by (auto simp: alignUp_4 unat_max_u32 unat_word_ariths split: if_splits)
  show ?thesis
  proof (cases "unat ?k > 4294967280")
    case True
    then have "unat n = unat (- 1 :: u32)" by (simp add: n alignUp_16)
    then have "n = - 1" by (simp only: word_unat_eq_iff)
    then show ?thesis ..
  next
    case False
    then have "unat n = (unat ?k + 15) div 16 * 16" by (simp add: n alignUp_16)
    with k sz show ?thesis by (auto simp: max_def)
  qed
qed


lemma free_addrsE:
  assumes "x \<in> free_addrs bs"
  obtains q where "q \<in> set bs" "b_free q" "b_addr q = x"
  using assms by (auto simp: free_addrs_def)

section \<open>Taking a block\<close>

lemma take_block_whole:
  assumes rep: "heap_rep h (ls @ Block a s True # rs) (xs @ a # ys)"
    and n: "unat n \<le> s" "s < unat n + 32"
  defines "h' \<equiv> take_block n a (pred_of xs) h"
  shows "heap_rep h' (ls @ Block a s False # rs) (xs @ ys)"
    and "heap_step h (ls @ Block a s True # rs) h'"
proof -
  let ?A = "Block a s True"
  let ?bs = "ls @ ?A # rs"
  let ?h1 = "removeFromFreeList a (pred_of xs) h"
  have A: "?A \<in> set ?bs" by simp
  from rep have st: "heap_struct h ?bs (xs @ a # ys)" and fs: "set (xs @ a # ys) = free_addrs ?bs"
    by (auto simp: heap_rep_def)
  note a = heap_struct_block [OF st A, simplified]
  have "unat (rawSize (mem h a) - n) = s - unat n"
    using a(11) n(1) by (simp add: unat_sub word_le_nat_alt)
  then have "\<not> rawSize (mem h a) - n \<ge> MIN_BLOCK"
    using n(2) by (simp add: MIN_BLOCK_def word_le_nat_alt)
  then have h': "h' = ?h1\<lparr>mem := (mem ?h1)(a := hdr_word (Block a s False), a + 4 := HEAP_MAGIC)\<rparr>"
    using a(10) by (simp add: h'_def take_block_def removeFromFreeList_def hdr_word_def Let_def)
  have "heap_struct h' (ls @ Block a s False # rs) (xs @ ys)"
    using struct_set_status [OF struct_unlink [OF st], of False] by (simp add: h')
  moreover have "set (xs @ ys) = free_addrs ?bs - {a}"
    unfolding fs [symmetric]
    using chain_distinct [OF conjunct1 [OF heap_struct_chain [OF st]]] by auto
  then have "set (xs @ ys) = free_addrs (ls @ Block a s False # rs)"
    using tiled_addr_fresh [OF heap_struct_tiled [OF st]] by auto
  ultimately show "heap_rep h' (ls @ Block a s False # rs) (xs @ ys)"
    by (simp add: heap_rep_def)
  have "heap_step h ?bs ?h1"
    using st fs by (intro unlink_step) auto
  moreover have "a \<notin> protected h ?bs" "a + 4 \<notin> protected h ?bs"
    using not_protected [OF st A, of 0] not_protected [OF st A, of 4] a(3) by simp_all
  ultimately have "heap_step h ?bs (?h1\<lparr>mem := (mem ?h1)(a := hdr_word (Block a s False))\<rparr>
      \<lparr>mem := (mem (?h1\<lparr>mem := (mem ?h1)(a := hdr_word (Block a s False))\<rparr>))(a + 4 := HEAP_MAGIC)\<rparr>)"
    by (intro heap_step_write)
  then show "heap_step h ?bs h'" by (simp add: h')
qed

lemma take_block_split:
  assumes rep: "heap_rep h (ls @ Block a s True # rs) (xs @ a # ys)"
    and n: "32 \<le> unat n" "16 dvd unat n" "unat n + 32 \<le> s"
  defines "h' \<equiv> take_block n a (pred_of xs) h"
    and "bs' \<equiv> ls @ Block a (unat n) False # Block (a + unat n) (s - unat n) True # rs"
  shows "heap_rep h' bs' (xs @ (a + unat n) # ys)"
    and "heap_step h (ls @ Block a s True # rs) h'"
proof -
  let ?A = "Block a s True" and ?r = "a + unat n"
  let ?bs = "ls @ ?A # rs"
  have A: "?A \<in> set ?bs" by simp
  from rep have st: "heap_struct h ?bs (xs @ a # ys)" and fs: "set (xs @ a # ys) = free_addrs ?bs"
    by (auto simp: heap_rep_def)
  note a = heap_struct_block [OF st A, simplified] and t = heap_struct_tiled [OF st]
    and ch = conjunct1 [OF heap_struct_chain [OF st]] and sub = conjunct2 [OF heap_struct_chain [OF st]]
  have res: "unat (rawSize (mem h a) - n) = s - unat n"
    using a(11) n by (simp add: unat_sub word_le_nat_alt)
  then have resw: "rawSize (mem h a) - n = word_of_nat (s - unat n)"
    by (metis of_nat_unat ucast_id)
  define h1 where "h1 = h\<lparr>mem := (mem h)(?r := word_of_nat (s - unat n), ?r + 4 := 0,
      a := hdr_word (Block a (unat n) False), a + 4 := HEAP_MAGIC)\<rparr>"
  have st1: "heap_struct h1 bs' (xs @ a # ys)"
    using struct_split [OF st n, of False] by (simp add: h1_def bs'_def)
  have rfresh: "?r \<noteq> b_addr c" if "c \<in> set ?bs" for c
    using tiled_cells [OF t A that, of "unat n" 0] heap_struct_block(3) [OF st that] n
    by (cases c) auto
  then have "?r \<notin> b_addr ` set ?bs" by blast
  with sub have rx: "?r \<notin> set (xs @ a # ys)" by blast
  have lx: "last xs + 16 \<noteq> a" "last xs + 16 \<noteq> a + 4" "0 < last xs" if "xs \<noteq> []"
  proof -
    have "last xs \<in> set (xs @ a # ys)" using that by simp
    with sub have "last xs \<in> b_addr ` set ?bs" by (rule subsetD)
    then obtain q where q: "q \<in> set ?bs" "b_addr q = last xs" by (metis imageE)
    from tiled_cells [OF t q(1) A, of 16 0] tiled_cells [OF t q(1) A, of 16 4] q(2) a(3)
      heap_struct_block(3,7) [OF st q(1)]
    show "last xs + 16 \<noteq> a" "last xs + 16 \<noteq> a + 4" "0 < last xs" by auto
  qed
  have h': "h' = (if xs = [] then h1\<lparr>mem := (mem h1)(?r + 16 := mem h1 (a + 16)), freeList := ?r\<rparr>
      else h1\<lparr>mem := (mem h1)(?r + 16 := mem h1 (a + 16), last xs + 16 := word_of_nat ?r)\<rparr>)"
  proof -
    have "MIN_BLOCK \<le> rawSize (mem h a) - n"
      using res n by (simp add: MIN_BLOCK_def word_le_nat_alt)
    moreover have "add32 a (unat n) = ?r" using a(5) n by (simp add: addr_simps)
    moreover have "hdr_word (Block a (unat n) False) = n OR ALLOC_FLAG" by (simp add: hdr_word_def)
    moreover have "a + 16 \<noteq> ?r" "a + 16 \<noteq> ?r + 4" using n by auto
    moreover have "m(?r := w, ?r + 4 := 0, ?r + 16 := v, a := x, a + 4 := y)
        = m(?r := w, ?r + 4 := 0, a := x, a + 4 := y, ?r + 16 := v)" for m :: memory and w v x y
      using n by (intro ext) auto
    moreover have "xs \<noteq> [] \<Longrightarrow> m(?r := w, ?r + 4 := 0, ?r + 16 := v, last xs + 16 := z, a := x, a + 4 := y)
        = m(?r := w, ?r + 4 := 0, a := x, a + 4 := y, ?r + 16 := v, last xs + 16 := z)"
      for m :: memory and w v x y z
      using n lx by (intro ext) auto
    ultimately show ?thesis
      using lx(3) resw by (simp add: h'_def h1_def take_block_def Let_def pred_of_def)
  qed
  show "heap_rep h' bs' (xs @ ?r # ys)"
  proof -
    have "?r \<in> b_addr ` set bs'" "0 < ?r" "?r < 4294967296"
      using a(5,7) n by (auto simp: bs'_def)
    from struct_replace [OF st1 this(1) rx this(2,3)] have "heap_struct h' bs' (xs @ ?r # ys)"
      by (simp add: h')
    moreover have "set (xs @ ?r # ys) = insert ?r (free_addrs ?bs - {a})"
      unfolding fs [symmetric] using chain_distinct [OF ch] by auto
    then have "set (xs @ ?r # ys) = free_addrs bs'"
      using tiled_addr_fresh [OF t] by (auto simp: bs'_def)
    ultimately show ?thesis by (simp add: heap_rep_def)
  qed
  have np: "a + i \<notin> protected h ?bs" if "i < s" for i
    using not_protected [OF st A, of i] that by simp
  have npl: "last xs + 16 \<notin> protected h ?bs" if "xs \<noteq> []"
  proof -
    from that have "last xs \<in> free_addrs ?bs" unfolding fs [symmetric] by simp
    then obtain q where "q \<in> set ?bs" "b_free q" "b_addr q = last xs"
      by (rule free_addrsE)
    with not_protected [OF st, of q 16] heap_struct_block(3) [OF st, of q] show ?thesis by simp
  qed
  have np5: "a \<notin> protected h ?bs" "a + 4 \<notin> protected h ?bs" "?r \<notin> protected h ?bs"
    "?r + 4 \<notin> protected h ?bs" "?r + 16 \<notin> protected h ?bs"
    using np [of 0] np [of 4] np [of "unat n"] np [of "unat n + 4"] np [of "unat n + 16"] n
    by (simp_all add: add.assoc)
  have same: "mem h' x = mem h x" if x: "x \<in> protected h ?bs" for x
  proof -
    have l: "xs \<noteq> [] \<Longrightarrow> x \<noteq> last xs + 16" using npl x by metis
    have "x \<noteq> a" "x \<noteq> a + 4" "x \<noteq> ?r" "x \<noteq> ?r + 4" "x \<noteq> ?r + 16" using np5 x by metis+
    with l show ?thesis by (cases "xs = []") (simp_all add: h' h1_def)
  qed
  have "h' = h\<lparr>mem := mem h', freeList := freeList h'\<rparr>"
    by (cases "xs = []") (simp_all add: h' h1_def)
  with heap_stepI [of h ?bs "mem h'" "freeList h'", OF same] show "heap_step h ?bs h'" by simp
qed

text \<open>The block size a request of \<open>n\<close> bytes needs, without the machine's bounds.\<close>

definition need :: "nat \<Rightarrow> nat" where
  "need n = (max (16 + (n + 3) div 4 * 4) 32 + 15) div 16 * 16"

lemma need_bounds: "16 dvd need n" "32 \<le> need n" "n + 16 \<le> need n" "need n < n + 48"
  by (auto simp: need_def max_def)

lemma alloc_needed_need:
  "(\<exists>n. alloc_needed sz = Some n \<and> unat n = need (unat sz)) \<or>
   ((alloc_needed sz = None \<or> alloc_needed sz = Some (- 1)) \<and> 4294967296 \<le> need (unat sz))"
proof -
  let ?a = "alignUp sz 4"
  let ?k = "max (16 + ?a) 32"
  show ?thesis
  proof (cases "unat ?a \<le> 4294967279")
    case False
    then have "alloc_needed sz = None"
      by (auto simp: alloc_needed_def Let_def HEADER_SIZE_def word_less_nat_alt)
    moreover have "4294967296 \<le> need (unat sz)"
      using False unat_u32_bound [of sz] by (auto simp: alignUp_4 need_def max_def split: if_splits)
    ultimately show ?thesis by simp
  next
    case True
    then have sz: "unat ?a = (unat sz + 3) div 4 * 4" and k: "unat ?k = max (16 + unat ?a) 32"
      by (auto simp: alignUp_4 unat_max_u32 unat_word_ariths split: if_splits)
    have "?a \<noteq> - 1" using True by (auto simp: word_unat_eq_iff)
    then have n: "alloc_needed sz = Some (alignUp ?k 16)"
      using True by (auto simp: alloc_needed_def Let_def HEADER_SIZE_def MIN_BLOCK_def BLOCK_ALIGN_def
          word_less_nat_alt)
    show ?thesis
    proof (cases "unat ?k > 4294967280")
      case True
      then have "unat (alignUp ?k 16) = unat (- 1 :: u32)" by (simp add: alignUp_16)
      then have "alignUp ?k 16 = - 1" by (simp only: word_unat_eq_iff)
      moreover have "4294967296 \<le> need (unat sz)" using True k sz by (simp add: need_def)
      ultimately show ?thesis using n by simp
    next
      case False
      then have "unat (alignUp ?k 16) = need (unat sz)" by (simp add: alignUp_16 need_def k sz)
      with n show ?thesis by blast
    qed
  qed
qed

section \<open>Allocation\<close>

text \<open>The specification of a successful allocation: a smallest free block that fits is
  split when the rest can be a block of its own, and handed over whole otherwise.\<close>

definition best_fitting :: "nat \<Rightarrow> block list \<Rightarrow> block \<Rightarrow> bool" where
  "best_fitting n bs b \<longleftrightarrow> b \<in> set bs \<and> b_free b \<and> n \<le> b_size b
     \<and> (\<forall>c \<in> set bs. b_free c \<and> n \<le> b_size c \<longrightarrow> b_size b \<le> b_size c)"

fun carve :: "nat \<Rightarrow> block \<Rightarrow> block list" where
  "carve n (Block a s f) =
     (if n + 32 \<le> s then [Block a n False, Block (a + n) (s - n) True] else [Block a s False])"

lemma coalesced_append_Cons:
  "coalesced (xs @ b # ys) \<longleftrightarrow> coalesced xs \<and> coalesced (b # ys)
     \<and> (xs \<noteq> [] \<longrightarrow> \<not> (b_free (last xs) \<and> b_free b))"
  by (auto simp: coalesced_def successively_append_iff)

lemma coalesced_Cons:
  "coalesced (b # ys) \<longleftrightarrow> coalesced ys \<and> (ys \<noteq> [] \<longrightarrow> \<not> (b_free b \<and> b_free (hd ys)))"
  by (cases ys) (auto simp: coalesced_def)

lemma coalesced_Nil [simp]: "coalesced []"
  by (simp add: coalesced_def)

lemma carve_coalesced:
  assumes "coalesced (ls @ b # rs)" "b_free b"
  shows "coalesced (ls @ carve n b @ rs)"
proof (cases b)
  case (Block a s f)
  with assms show ?thesis by (auto simp: coalesced_append_Cons coalesced_Cons)
qed

lemma take_block_rep:
  assumes rep: "heap_rep h (ls @ Block a s True # rs) fs" and at: "linked_at fs a p"
    and n: "32 \<le> unat n" "16 dvd unat n" "unat n \<le> s"
  shows "\<exists>fs'. heap_rep (take_block n a p h) (ls @ carve (unat n) (Block a s True) @ rs) fs'"
    and "heap_step h (ls @ Block a s True # rs) (take_block n a p h)"
proof -
  from at obtain xs ys where fs: "fs = xs @ a # ys" and p: "p = pred_of xs"
    by (auto simp: linked_at_def)
  note rep' = rep [unfolded fs]
  show "\<exists>fs'. heap_rep (take_block n a p h) (ls @ carve (unat n) (Block a s True) @ rs) fs'"
    "heap_step h (ls @ Block a s True # rs) (take_block n a p h)"
    using take_block_split [OF rep' n(1,2)] take_block_whole [OF rep' n(3)] p
    by (cases "unat n + 32 \<le> s"; fastforce)+
qed

lemma best_of_fitting:
  assumes rep: "heap_rep h bs fs" and bo: "best_of (mem h) n fs b p" and b: "b \<noteq> 0"
  obtains s where "best_fitting (unat n) bs (Block b s True)" "linked_at fs b p"
proof -
  from bo b have at: "linked_at fs b p" and nb: "n \<le> rawSize (mem h b)"
    and min: "\<And>x. x \<in> set fs \<Longrightarrow> n \<le> rawSize (mem h x) \<Longrightarrow> rawSize (mem h b) \<le> rawSize (mem h x)"
    by (auto simp: best_of_def)
  from rep have st: "heap_struct h bs fs" and fs: "set fs = free_addrs bs"
    by (auto simp: heap_rep_def)
  from at have "b \<in> free_addrs bs" unfolding fs [symmetric] by (auto simp: linked_at_def)
  then obtain q where q: "q \<in> set bs" "b_free q" "b_addr q = b" by (rule free_addrsE)
  have sz: "unat (rawSize (mem h (b_addr c))) = b_size c" if "c \<in> set bs" for c
    using heap_struct_block(11) [OF st that] .
  have "b_size q \<le> b_size c" if c: "c \<in> set bs" "b_free c" "unat n \<le> b_size c" for c
  proof -
    have "b_addr c \<in> set fs" unfolding fs using c by (auto simp: free_addrs_def)
    from min [OF this] c sz [OF c(1)] sz [OF q(1)] q(3) show ?thesis
      by (simp add: word_le_nat_alt)
  qed
  with q sz [OF q(1)] nb have "best_fitting (unat n) bs q"
    by (auto simp: best_fitting_def word_le_nat_alt)
  moreover have "q = Block b (b_size q) True" using q(2,3) by (cases q) auto
  ultimately show thesis using at that by metis
qed

lemma best_of_none:
  assumes rep: "heap_rep h bs fs" and bo: "best_of (mem h) n fs 0 p" and c: "c \<in> set bs" "b_free c"
  shows "b_size c < unat n"
proof -
  from rep have st: "heap_struct h bs fs" and fs: "set fs = free_addrs bs"
    by (auto simp: heap_rep_def)
  have "b_addr c \<in> set fs" unfolding fs using c by (auto simp: free_addrs_def)
  with bo have "rawSize (mem h (b_addr c)) < n" by (simp add: best_of_def)
  with heap_struct_block(11) [OF st c(1)] show ?thesis by (simp add: word_less_nat_alt)
qed

text \<open>Every outcome of \<open>alloc\<close>: null without any effect, or a carved best fit.\<close>

lemma heap_alloc_cases:
  assumes inv: "heap_inv h bs"
  obtains (fail) "heap_alloc sz h = Some (0, h)"
      "sz = 0 \<or> (\<forall>c \<in> set bs. b_free c \<longrightarrow> b_size c < need (unat sz))"
  | (ok) h' ls a s rs where "heap_alloc sz h = Some (a + 16, h')" "bs = ls @ Block a s True # rs"
      "sz \<noteq> 0" "best_fitting (need (unat sz)) bs (Block a s True)"
      "heap_inv h' (ls @ carve (need (unat sz)) (Block a s True) @ rs)" "heap_step h bs h'"
proof (cases "sz = 0")
  case True
  then show thesis by (intro fail) (simp_all add: heap_alloc_def)
next
  case sz: False
  from inv obtain fs where rep: "heap_rep h bs fs" and co: "coalesced bs"
    by (auto simp: heap_inv_def)
  then have st: "heap_struct h bs fs" by (simp add: heap_rep_def)
  have big: "b_size c < 4294967295" if "c \<in> set bs" for c
    using heap_struct_block(5,7) [OF st that] by simp
  show thesis
  proof (cases "alloc_needed sz")
    case None
    then have "4294967296 \<le> need (unat sz)" using alloc_needed_need [of sz] by simp
    with big have "\<forall>c \<in> set bs. b_free c \<longrightarrow> b_size c < need (unat sz)" by fastforce
    with None show thesis by (intro fail) (simp_all add: heap_alloc_def)
  next
    case (Some n)
    have "chain (node_next (mem h)) (freeList h) fs"
      using heap_struct_chain [OF st] by simp
    from best_fit_chain [OF this, of n "[]" 0 0 0] obtain b p
      where bf: "best_fit (mem h) n 0 0 0 (freeList h) = Some (b, p)" and bo: "best_of (mem h) n fs b p"
      by (auto simp: best_of_def)
    show thesis
    proof (cases "b = 0")
      case True
      have "b_size c < need (unat sz)" if "c \<in> set bs" "b_free c" for c
        using best_of_none [OF rep _ that, of n p] bo True alloc_needed_need [of sz] Some big [OF that(1)]
        by auto
      with True Some bf show thesis by (intro fail) (simp_all add: heap_alloc_def)
    next
      case False
      from best_of_fitting [OF rep bo False] obtain s
        where fit: "best_fitting (unat n) bs (Block b s True)" and at: "linked_at fs b p" by blast
      then have B: "Block b s True \<in> set bs" and ns: "unat n \<le> s" by (auto simp: best_fitting_def)
      then obtain ls rs where bs: "bs = ls @ Block b s True # rs" by (meson split_list)
      have "n \<noteq> - 1" using ns big [OF B] by auto
      then have n: "unat n = need (unat sz)" using alloc_needed_need [of sz] Some by auto
      note tb = take_block_rep [OF rep [unfolded bs] at]
      have "add32 b 16 = b + 16"
        using heap_struct_block(3,5) [OF st B] by (simp add: addr_simps)
      with False Some bf sz have "heap_alloc sz h = Some (b + 16, take_block n b p h)"
        by (simp add: heap_alloc_def HEADER_SIZE_def)
      moreover have "heap_inv (take_block n b p h) (ls @ carve (need (unat sz)) (Block b s True) @ rs)"
        unfolding heap_inv_def using tb(1) [OF _ _ ns] n need_bounds carve_coalesced co bs
        by (metis block.sel(3))
      moreover have "heap_step h bs (take_block n b p h)"
        using tb(2) [OF _ _ ns] n need_bounds bs by metis
      ultimately show thesis using ok sz fit n bs by metis
    qed
  qed
qed

section \<open>Freeing\<close>

text \<open>The specification of \<open>free\<close>: the block becomes free and all neighbouring free blocks
  are merged.\<close>

fun coalesce_all :: "block list \<Rightarrow> block list" where
  "coalesce_all (b # c # bs) =
     (if b_free b \<and> b_free c then coalesce_all (Block (b_addr b) (b_size b + b_size c) True # bs)
      else b # coalesce_all (c # bs))"
| "coalesce_all bs = bs"

lemma coalesce_all_id: "coalesced bs \<Longrightarrow> coalesce_all bs = bs"
  by (induction bs rule: coalesce_all.induct) (auto simp: coalesced_Cons)

lemma coalesce_all_prefix:
  "coalesced (ls @ [b]) \<Longrightarrow> coalesce_all (ls @ b # rs) = ls @ coalesce_all (b # rs)"
proof (induction ls)
  case Nil
  then show ?case by simp
next
  case (Cons c ls)
  then show ?case by (cases ls) (auto simp: coalesced_Cons)
qed

lemma coalesce_all_hd:
  "bs \<noteq> [] \<Longrightarrow> coalesce_all bs \<noteq> [] \<and> (b_free (hd (coalesce_all bs)) \<longleftrightarrow> b_free (hd bs))"
  by (induction bs rule: coalesce_all.induct) auto

lemma coalesced_coalesce_all: "coalesced (coalesce_all bs)"
proof (induction bs rule: coalesce_all.induct)
  case (1 b c bs)
  then show ?case using coalesce_all_hd [of "c # bs"] by (auto simp: coalesced_Cons)
qed (auto simp: coalesced_def)

text \<open>A free block in front of a coalesced rest merges with at most its first block.\<close>

lemma coalesce_all_front:
  assumes "coalesced rs"
  shows "coalesce_all (Block a s True # rs) =
    (case rs of c # cs \<Rightarrow> if b_free c then Block a (s + b_size c) True # cs else Block a s True # rs
     | [] \<Rightarrow> [Block a s True])"
proof (cases rs)
  case (Cons c cs)
  show ?thesis
  proof (cases "b_free c")
    case True
    with assms Cons have "coalesced (Block a (s + b_size c) True # cs)"
      by (auto simp: coalesced_Cons)
    with Cons True show ?thesis by (simp add: coalesce_all_id)
  next
    case False
    with assms Cons have "coalesced (Block a s True # rs)" by (auto simp: coalesced_Cons)
    then have "coalesce_all (Block a s True # rs) = Block a s True # rs" by (rule coalesce_all_id)
    with Cons False show ?thesis by simp
  qed
qed simp

lemma coalesce_rep:
  assumes rep: "heap_rep h (ls @ Block a s True # rs) fs" and co: "coalesced rs"
  obtains h' fs' where "coalesce a h = Some h'"
    "heap_rep h' (ls @ coalesce_all (Block a s True # rs)) fs'"
    "heap_step h (ls @ Block a s True # rs) h'"
proof (cases "rs \<noteq> [] \<and> b_free (hd rs)")
  case True
  then obtain c u cs where rs: "rs = Block c u True # cs"
    by (metis list.exhaust_sel block.exhaust_sel)
  from rep rs have "heap_rep h (ls @ Block a s True # Block c u True # cs) fs" by simp
  then obtain h' fs' where h': "coalesce a h = Some h'" "heap_rep h' (ls @ Block a (s + u) True # cs) fs'"
    "heap_step h (ls @ Block a s True # Block c u True # cs) h'" by (rule coalesce_merge)
  moreover have "coalesce_all (Block a s True # rs) = Block a (s + u) True # cs"
    using coalesce_all_front [OF co] rs by simp
  ultimately show thesis using that rs by metis
next
  case False
  then have "\<forall>c cs. rs = c # cs \<longrightarrow> \<not> b_free c" by auto
  moreover from this have "coalesce_all (Block a s True # rs) = Block a s True # rs"
    using coalesce_all_front [OF co] by (cases rs) auto
  moreover from rep have "heap_struct h (ls @ Block a s True # rs) fs" by (simp add: heap_rep_def)
  ultimately show thesis using coalesce_stop that rep heap_step_refl by metis
qed

lemma protected_upd [simp]:
  "protected (h\<lparr>mem := m\<rparr>) bs = protected h bs" "protected (h\<lparr>freeList := f\<rparr>) bs = protected h bs"
  by (simp_all add: protected_def)

lemma protected_merge:
  "heap_step h bs h' \<Longrightarrow>
   protected h' (ls @ Block a (s + u) True # rs) = protected h (ls @ Block a s True # Block c u True # rs)"
proof -
  assume st: "heap_step h bs h'"
  have "{b \<in> set (ls @ Block a (s + u) True # rs). \<not> b_free b}
      = {b \<in> set (ls @ Block a s True # Block c u True # rs). \<not> b_free b}" by auto
  then show ?thesis using st by (simp only: protected_def heap_step_bounds)
qed

text \<open>The first step of \<open>free\<close>: the header turns free; the block is not linked yet.\<close>

lemma free_header:
  assumes rep: "heap_rep h (ls @ Block a s False # rs) fs"
  defines "h1 \<equiv> h\<lparr>mem := (mem h)(a := rawSize (mem h a), a + 4 := 0)\<rparr>"
  shows "heap_struct h1 (ls @ Block a s True # rs) fs" "a \<notin> set fs"
    "set fs = free_addrs (ls @ rs)" "heap_step h (ls @ Block a s True # rs) h1"
proof -
  let ?bs = "ls @ Block a s False # rs"
  have B: "Block a s False \<in> set ?bs" by simp
  from rep have st: "heap_struct h ?bs fs" and fs: "set fs = free_addrs ?bs"
    by (auto simp: heap_rep_def)
  note b = heap_struct_block [OF st B, simplified]
  show st1: "heap_struct h1 (ls @ Block a s True # rs) fs"
    using struct_set_status [OF st, of True] b(10) by (simp add: h1_def hdr_word_def)
  show "a \<notin> set fs" using tiled_addr_fresh [OF heap_struct_tiled [OF st]] fs by simp
  show "set fs = free_addrs (ls @ rs)" using fs by simp
  have "a \<notin> protected h (ls @ Block a s True # rs)" "a + 4 \<notin> protected h (ls @ Block a s True # rs)"
    using not_protected [OF st1, of "Block a s True" 0] not_protected [OF st1, of "Block a s True" 4] b(3)
    by (simp_all add: h1_def)
  then have "heap_step h (ls @ Block a s True # rs) (h\<lparr>mem := (mem h)(a := rawSize (mem h a))\<rparr>
     \<lparr>mem := (mem (h\<lparr>mem := (mem h)(a := rawSize (mem h a))\<rparr>))(a + 4 := 0)\<rparr>)"
    by (intro heap_step_write heap_step_refl)
  then show "heap_step h (ls @ Block a s True # rs) h1" by (simp add: h1_def)
qed

lemma addToFreeList_rep:
  assumes st: "heap_struct h (ls @ Block a s True # rs) fs" and fs: "a \<notin> set fs"
    "set fs = free_addrs (ls @ rs)"
  shows "heap_rep (addToFreeList a h) (ls @ Block a s True # rs) (a # fs)"
    and "heap_step h (ls @ Block a s True # rs) (addToFreeList a h)"
proof -
  let ?B = "Block a s True"
  let ?bs = "ls @ ?B # rs"
  have B: "?B \<in> set ?bs" by simp
  note b = heap_struct_block [OF st B, simplified] and ch = heap_struct_chain [OF st]
  have fl: "freeList h < 4294967296"
  proof (cases fs)
    case Nil
    with ch show ?thesis by simp
  next
    case (Cons x xs)
    with ch have x: "freeList h = x" "x \<in> b_addr ` set ?bs" by auto
    from x(2) obtain c where "c \<in> set ?bs" "b_addr c = x" by (metis imageE)
    with x(1) heap_struct_block(5) [OF st, of c] show ?thesis by simp
  qed
  have eq: "addToFreeList a h = h\<lparr>mem := (mem h)(a + 16 := word_of_nat (freeList h)), freeList := a\<rparr>"
  proof -
    have "(mem h)(a + 16 := word_of_nat (freeList h), a + 4 := 0) = (mem h)(a + 16 := word_of_nat (freeList h))"
      using b(9) by (intro fun_upd_idem) simp
    then show ?thesis by (simp only: addToFreeList_def)
  qed
  have sub: "set (a # fs) \<subseteq> b_addr ` set ?bs" using ch B by simp
  have "chain ((node_next (mem h))(a := unat (word_of_nat (freeList h) :: u32))) a (a # fs)"
    using fl ch fs(1) b(7) by (simp add: unat_word_of_nat_u32)
  from struct_relink [OF st sub _ this] have "heap_struct (addToFreeList a h) ?bs (a # fs)"
    by (simp add: eq)
  with fs(2) show "heap_rep (addToFreeList a h) ?bs (a # fs)" by (simp add: heap_rep_def)
  have "a + 16 \<notin> protected h ?bs" using not_protected [OF st B, of 16] b(3) by simp
  then show "heap_step h ?bs (addToFreeList a h)"
    by (simp add: eq heap_step_write heap_step_freeList)
qed

text \<open>No free block ends at the freed one: it is pushed on the list and merged forward.\<close>

lemma free_push:
  assumes st: "heap_struct h (ls @ Block a s True # rs) fs" "a \<notin> set fs" "set fs = free_addrs (ls @ rs)"
    and no: "\<forall>x \<in> set fs. add32 x (unat (rawSize (mem h x))) \<noteq> a"
    and co: "coalesced ls" "coalesced rs"
  obtains h' fs' where "coalesce a (addToFreeList a h) = Some h'"
    "heap_rep h' (coalesce_all (ls @ Block a s True # rs)) fs'"
    "heap_step h (ls @ Block a s True # rs) h'"
proof -
  let ?B = "Block a s True"
  let ?bs = "ls @ ?B # rs"
  have "\<not> b_free (last ls)" if ls: "ls \<noteq> []"
  proof
    assume fr: "b_free (last ls)"
    have l: "last ls \<in> set ?bs" using ls by simp
    have "?bs = butlast ls @ last ls # ?B # rs" using ls by simp
    with tiled_next [of _ "butlast ls" "last ls" "?B # rs"] heap_struct_tiled [OF st(1)]
    have "b_addr (last ls) + b_size (last ls) = a" by simp
    with heap_struct_block(5,11) [OF st(1) l]
    have "add32 (b_addr (last ls)) (unat (rawSize (mem h (b_addr (last ls))))) = a"
      by (simp add: addr_simps)
    moreover have "b_addr (last ls) \<in> set fs"
      using fr ls by (auto simp: st(3) free_addrs_def)
    ultimately show False using no by simp
  qed
  with co(1) have "coalesced (ls @ [?B])" by (simp add: coalesced_append_Cons coalesced_Cons)
  note pre = coalesce_all_prefix [OF this, of rs] and add = addToFreeList_rep [OF st]
  from coalesce_rep [OF add(1) co(2)] obtain h' fs' where h':
    "coalesce a (addToFreeList a h) = Some h'" "heap_rep h' (coalesce_all ?bs) fs'"
    "heap_step (addToFreeList a h) ?bs h'" unfolding pre by metis
  have "heap_step h ?bs h'"
    by (rule heap_step_trans [OF add(2) h'(3)]) (simp add: addToFreeList_def)
  with h' show thesis by (intro that)
qed

text \<open>A free block ends at the freed one: it absorbs it and is merged forward.\<close>

lemma free_absorb:
  assumes st: "heap_struct h (ls @ Block r u True # Block a s True # rs) fs"
    "a \<notin> set fs" "set fs = free_addrs (ls @ Block r u True # rs)"
    and co: "coalesced (ls @ [Block r u True])" "coalesced rs"
  defines "bs \<equiv> ls @ Block r u True # Block a s True # rs"
  obtains h' fs' where "coalesce r (h\<lparr>mem := (mem h)(r := mem h r + mem h a)\<rparr>) = Some h'"
    "heap_rep h' (coalesce_all bs) fs'" "heap_step h bs h'"
proof -
  define h2 where "h2 = h\<lparr>mem := (mem h)(r := mem h r + mem h a)\<rparr>"
  have P: "Block r u True \<in> set bs" and B: "Block a s True \<in> set bs" by (auto simp: bs_def)
  note st' = st(1) [folded bs_def]
  note pb = heap_struct_block [OF st' P, simplified] and b = heap_struct_block [OF st' B, simplified]
  have "mem h r + mem h a = word_of_nat (u + s)"
    using pb(8) b(8) by (simp add: hdr_word_def)
  then have "heap_struct h2 (ls @ Block r (u + s) True # rs) fs"
    using struct_merge [OF st(1,2)] by (simp add: h2_def)
  with st(3) have rep2: "heap_rep h2 (ls @ Block r (u + s) True # rs) fs" by (simp add: heap_rep_def)
  have "coalesce_all bs = ls @ coalesce_all (Block r (u + s) True # rs)"
    using coalesce_all_prefix [OF co(1), of "Block a s True # rs"] by (simp add: bs_def)
  with coalesce_rep [OF rep2 co(2)] obtain h' fs' where h':
    "coalesce r h2 = Some h'" "heap_rep h' (coalesce_all bs) fs'"
    "heap_step h2 (ls @ Block r (u + s) True # rs) h'" by metis
  have "r \<notin> protected h bs" using not_protected [OF st' P, of 0] pb(3) by simp
  then have s2: "heap_step h bs h2" unfolding h2_def by (intro heap_step_write heap_step_refl)
  then have "protected h2 (ls @ Block r (u + s) True # rs) = protected h bs"
    unfolding bs_def by (rule protected_merge)
  then have "heap_step h bs h'" by (intro heap_step_trans [OF s2 h'(3)]) simp
  with h' show thesis unfolding h2_def by (intro that)
qed

lemma free_absorb_at:
  assumes st: "heap_struct h (ls @ Block a s True # rs) fs" "set fs = free_addrs (ls @ rs)"
    and r: "r \<in> set fs" "add32 r (unat (rawSize (mem h r))) = a"
  obtains ls' u where "ls = ls' @ [Block r u True]"
proof -
  let ?B = "Block a s True"
  let ?bs = "ls @ ?B # rs"
  note t = heap_struct_tiled [OF st(1)]
  from r(1) st(2) obtain p where p: "p \<in> set (ls @ rs)" "b_free p" "b_addr p = r"
    by (metis free_addrsE)
  then have pm: "p \<in> set ?bs" by auto
  from heap_struct_block(5,11) [OF st(1) pm] r(2) p(3)
  have "b_addr p + b_size p = b_addr ?B" by (simp add: addr_simps)
  with tiled_split_at [OF t pm, of ?B] obtain ls' rs' where
    sp: "ls @ ?B # rs = (ls' @ [p]) @ ?B # rs'" by auto
  have "?B \<notin> set ls" "?B \<notin> set rs" using tiled_distinct [OF t] by auto
  then have "ls = ls' @ [p]" using sp append_Cons_eq_iff [of ?B ls rs "ls' @ [p]" rs'] by simp
  moreover have "p = Block r (b_size p) True" using p(2,3) by (cases p) auto
  ultimately show thesis using that by metis
qed

text \<open>The choice \<open>free\<close> makes once the header is cleared.\<close>

lemma heap_free_unfold:
  assumes rep: "heap_rep h (ls @ Block a s False # rs) fs"
  defines "h1 \<equiv> h\<lparr>mem := (mem h)(a := rawSize (mem h a), a + 4 := 0)\<rparr>"
  obtains (push) "heap_free (a + 16) h = coalesce a (addToFreeList a h1)"
      "\<forall>x \<in> set fs. add32 x (unat (rawSize (mem h1 x))) \<noteq> a"
  | (absorb) r u ls' where "ls = ls' @ [Block r u True]"
      "heap_free (a + 16) h = coalesce r (h1\<lparr>mem := (mem h1)(r := mem h1 r + mem h1 a)\<rparr>)"
proof -
  let ?A = "Block a s False"
  note h1 = free_header [OF rep, folded h1_def]
  from rep have st: "heap_struct h (ls @ ?A # rs) fs" by (simp add: heap_rep_def)
  note b = heap_struct_block [OF st, of ?A, simplified]
  have node: "sub32 (a + 16) (unat HEADER_SIZE) = a"
    using b(3,5) by (simp add: HEADER_SIZE_def addr_simps)
  from find_preceding_chain [OF conjunct1 [OF heap_struct_chain [OF h1(1)]], of a] obtain r
    where fp: "find_preceding (mem h1) a (freeList h1) = Some r"
      and r: "if r = 0 then \<forall>x \<in> set fs. add32 x (unat (rawSize (mem h1 x))) \<noteq> a
        else r \<in> set fs \<and> add32 r (unat (rawSize (mem h1 r))) = a" by blast
  have eq: "heap_free (a + 16) h =
      (if r \<noteq> 0 then coalesce r (h1\<lparr>mem := (mem h1)(r := mem h1 r + mem h1 a)\<rparr>)
       else coalesce a (addToFreeList a h1))"
    using b(9,12) fp by (simp add: heap_free_def node Let_def h1_def)
  show thesis
  proof (cases "r = 0")
    case True
    with r eq show thesis by (intro push) simp_all
  next
    case False
    with r have "r \<in> set fs" "add32 r (unat (rawSize (mem h1 r))) = a" by auto
    then obtain ls' u where "ls = ls' @ [Block r u True]" by (rule free_absorb_at [OF h1(1,3)])
    with False eq show thesis by (intro absorb) simp_all
  qed
qed

lemma heap_free_rep:
  assumes inv: "heap_inv h (ls @ Block a s False # rs)"
  obtains h' where "heap_free (a + 16) h = Some h'"
    "heap_inv h' (coalesce_all (ls @ Block a s True # rs))"
    "heap_step h (ls @ Block a s True # rs) h'"
proof -
  let ?B = "Block a s True" and ?A = "Block a s False"
  let ?bs = "ls @ ?B # rs"
  from inv obtain fs where rep: "heap_rep h (ls @ ?A # rs) fs" and co: "coalesced (ls @ ?A # rs)"
    by (auto simp: heap_inv_def)
  then have cl: "coalesced ls" and cr: "coalesced rs"
    by (auto simp: coalesced_append_Cons coalesced_Cons)
  define h1 where "h1 = h\<lparr>mem := (mem h)(a := rawSize (mem h a), a + 4 := 0)\<rparr>"
  note h1 = free_header [OF rep, folded h1_def]
  have pr: "protected h1 ?bs = protected h ?bs" by (simp add: h1_def)
  from rep have "\<exists>h' fs'. heap_free (a + 16) h = Some h' \<and> heap_rep h' (coalesce_all ?bs) fs'
      \<and> heap_step h1 ?bs h'"
  proof (cases rule: heap_free_unfold)
    case push
    with free_push [OF h1(1,2,3) _ cl cr] show ?thesis by (metis h1_def)
  next
    case (absorb r u ls')
    have "heap_struct h1 (ls' @ Block r u True # ?B # rs) fs"
      "set fs = free_addrs (ls' @ Block r u True # rs)" "coalesced (ls' @ [Block r u True])"
      using h1(1,3) cl by (simp_all add: absorb(1))
    from free_absorb [OF this(1) h1(2) this(2,3) cr] absorb(2) [folded h1_def] show ?thesis
      by (simp add: absorb(1)) metis
  qed
  then obtain h' fs' where "heap_free (a + 16) h = Some h'" "heap_rep h' (coalesce_all ?bs) fs'"
    and step: "heap_step h1 ?bs h'" by blast
  moreover have "heap_step h ?bs h'" using h1(4) step by (rule heap_step_trans) (simp add: pr)
  ultimately show thesis
    by (intro that [of h']) (auto simp: heap_inv_def coalesced_coalesce_all)
qed

section \<open>Accounting\<close>

definition free_bytes :: "block list \<Rightarrow> nat" where
  "free_bytes bs = sum_list (map b_size (filter b_free bs))"

definition used_bytes :: "block list \<Rightarrow> nat" where
  "used_bytes bs = sum_list (map b_size (filter (Not \<circ> b_free) bs))"

lemma tiled_bytes: "tiled a bs e \<Longrightarrow> a + free_bytes bs + used_bytes bs = e"
  by (induction bs arbitrary: a) (fastforce simp: free_bytes_def used_bytes_def)+

lemma free_bytes_set: "distinct bs \<Longrightarrow> free_bytes bs = (\<Sum>b \<in> {b \<in> set bs. b_free b}. b_size b)"
  by (simp add: free_bytes_def sum_list_distinct_conv_sum_set)

lemma freeMem_loop_chain:
  "chain (node_next m) c xs \<Longrightarrow> freeMem_loop m c acc = Some (acc + (\<Sum>x\<leftarrow>xs. rawSize (m x)))"
  by (induction xs arbitrary: c acc) (simp_all add: freeMem_loop.simps add.assoc)

lemma heap_rep_free_inj:
  "heap_struct h bs fs \<Longrightarrow> inj_on b_addr {b \<in> set bs. b_free b}"
  using tiled_addr_inj [OF heap_struct_tiled] by (auto simp: inj_on_def)

lemma freeMem_rep:
  assumes rep: "heap_rep h bs fs"
  shows "freeMem h = Some (word_of_nat (free_bytes bs))"
proof -
  let ?F = "{b \<in> set bs. b_free b}"
  from rep have st: "heap_struct h bs fs" and fs: "set fs = b_addr ` ?F"
    by (auto simp: heap_rep_def free_addrs_def)
  note ch = conjunct1 [OF heap_struct_chain [OF st]]
  have "(\<Sum>x\<leftarrow>fs. rawSize (mem h x)) = (\<Sum>x \<in> b_addr ` ?F. rawSize (mem h x))"
    using chain_distinct [OF ch] by (simp add: sum_list_distinct_conv_sum_set fs)
  also have "\<dots> = (\<Sum>b \<in> ?F. word_of_nat (b_size b))"
    using heap_struct_block(10) [OF st] by (simp add: sum.reindex [OF heap_rep_free_inj [OF st]])
  also have "\<dots> = word_of_nat (free_bytes bs)"
    using tiled_distinct [OF heap_struct_tiled [OF st]] by (simp add: free_bytes_set)
  finally show ?thesis using freeMem_loop_chain [OF ch, of 0] by (simp add: freeMem_def)
qed

lemma largest_loop_chain:
  "chain (node_next m) c xs \<Longrightarrow>
     \<exists>w. largest_loop m c l = Some w \<and> unat w = Max (insert (unat l) ((\<lambda>x. unat (rawSize (m x))) ` set xs))"
proof (induction xs arbitrary: c l)
  case Nil
  then show ?case by (simp add: largest_loop.simps)
next
  case (Cons x xs)
  let ?l = "max (rawSize (m x)) l"
  from Cons have "largest_loop m c l = largest_loop m (node_next m x) ?l"
    by (subst largest_loop.simps) simp
  moreover from Cons.IH [of "node_next m x" ?l] Cons.prems obtain w where
    "largest_loop m (node_next m x) ?l = Some w"
    "unat w = Max (insert (unat ?l) ((\<lambda>x. unat (rawSize (m x))) ` set xs))" by auto
  moreover have "Max (insert (unat ?l) S) = Max (insert (unat l) (insert (unat (rawSize (m x))) S))"
    if "finite S" for S
    using that by (cases "S = {}") (auto simp: unat_max_u32 max.left_commute max.commute max.assoc)
  ultimately show ?case by simp
qed

lemma largest_rep:
  assumes rep: "heap_rep h bs fs"
  obtains w where "largestFreeBlock h = Some w"
    "unat w = Max (insert 0 (b_size ` {b \<in> set bs. b_free b}))"
proof -
  let ?F = "{b \<in> set bs. b_free b}"
  from rep have st: "heap_struct h bs fs" and fs: "set fs = b_addr ` ?F"
    by (auto simp: heap_rep_def free_addrs_def)
  have "(\<lambda>x. unat (rawSize (mem h x))) ` set fs = b_size ` ?F"
    using heap_struct_block(11) [OF st] by (auto simp: fs image_image intro!: image_cong)
  with largest_loop_chain [OF conjunct1 [OF heap_struct_chain [OF st]], of 0] that
  show thesis by (auto simp: largestFreeBlock_def)
qed

text \<open>Accounting: on a well-formed heap \<open>freeMem\<close> returns the bytes of the free blocks
  (the 32-bit sum never wraps), and together with the allocated blocks they make up
  \<open>totalMem\<close>.\<close>

theorem heap_accounting:
  assumes "heap_inv h bs"
  shows "\<exists>w. freeMem h = Some w \<and> unat w = free_bytes bs
    \<and> unat w + used_bytes bs = totalMem h"
proof -
  from assms obtain fs where rep: "heap_rep h bs fs" by (auto simp: heap_inv_def)
  then have st: "heap_struct h bs fs" by (simp add: heap_rep_def)
  from tiled_bytes [OF heap_struct_tiled [OF st]] st
  have b: "free_bytes bs < 4294967296" "free_bytes bs + used_bytes bs = totalMem h"
    by (auto simp: heap_struct_def totalMem_def addr_simps)
  with freeMem_rep [OF rep] show ?thesis by (simp add: unat_word_of_nat_u32)
qed

section \<open>Initialisation\<close>

lemma heap_init_bounds:
  assumes "data + 15 < 4294967296" "len + 15 < 4294967296"
    "(data + 15) div 16 * 16 + (len + 15) div 16 * 16 < 4294967296"
  shows "heapStart (heap_init data len h) = (data + 15) div 16 * 16"
    "heapEnd (heap_init data len h) = (data + 15) div 16 * 16 + (len + 15) div 16 * 16"
    "freeList (heap_init data len h) = (data + 15) div 16 * 16"
  using assms
  by (simp_all add: heap_init_def Let_def BLOCK_ALIGN_def alignUp_16 unat_word_of_nat_u32 addr_simps)

lemma heap_init_mem:
  assumes "data + 15 < 4294967296" "len + 15 < 4294967296"
    "(data + 15) div 16 * 16 + (len + 15) div 16 * 16 < 4294967296"
  defines "start \<equiv> (data + 15) div 16 * 16"
  shows "mem (heap_init data len h) =
    (mem h)(start := word_of_nat ((len + 15) div 16 * 16), start + 4 := 0, start + 16 := 0)"
  using assms
  by (simp add: heap_init_def Let_def BLOCK_ALIGN_def alignUp_16 unat_word_of_nat_u32 addr_simps)

lemma heap_init_inv:
  assumes d: "0 < data" "0 < len" "16 < len" "data + 15 < 4294967296" "len + 15 < 4294967296"
    "(data + 15) div 16 * 16 + (len + 15) div 16 * 16 < 4294967296"
  shows "heap_inv (heap_init data len h) [Block ((data + 15) div 16 * 16) ((len + 15) div 16 * 16) True]"
proof -
  let ?s = "(data + 15) div 16 * 16" and ?n = "(len + 15) div 16 * 16"
  note b = heap_init_bounds [OF d(4,5,6), of h] and m = heap_init_mem [OF d(4,5,6), of h]
  have "0 < ?s" "32 \<le> ?n" using d by auto
  then have "heap_rep (heap_init data len h) [Block ?s ?n True] [?s]"
    using d(6) by (simp add: heap_rep_def heap_struct_def b m hdr_ok_def hdr_word_def node_next_def)
  then show ?thesis by (auto simp: heap_inv_def coalesced_def)
qed

section \<open>The allocator interface\<close>

text \<open>What a client may do with an allocator: ask for memory, give back what it holds, and
  write inside what it holds. The ghost component lists the held regions as
  (pointer, requested size).\<close>

inductive client ::
  "(u32 \<Rightarrow> 's \<Rightarrow> (nat \<times> 's) option) \<Rightarrow> (nat \<Rightarrow> 's \<Rightarrow> 's option) \<Rightarrow> (nat \<Rightarrow> u32 \<Rightarrow> 's \<Rightarrow> 's) \<Rightarrow>
     's \<times> (nat \<times> nat) set \<Rightarrow> 's \<times> (nat \<times> nat) set \<Rightarrow> bool"
  for al fr wt where
  client_alloc: "al n s = Some (p, s') \<Longrightarrow> p \<noteq> 0 \<Longrightarrow>
     client al fr wt (s, L) (s', insert (p, unat n) L)"
| client_fail: "al n s = Some (0, s') \<Longrightarrow> client al fr wt (s, L) (s', L)"
| client_free: "(p, n) \<in> L \<Longrightarrow> fr p s = Some s' \<Longrightarrow> client al fr wt (s, L) (s', L - {(p, n)})"
| client_write: "(p, n) \<in> L \<Longrightarrow> p \<le> x \<Longrightarrow> x < p + n \<Longrightarrow> 4 dvd x \<Longrightarrow> client al fr wt (s, L) (wt x v s, L)"

text \<open>The contract. \<open>rep s a\<close>: the state \<open>s\<close> represents the abstract layout \<open>a\<close>; \<open>owned a\<close> are the
  regions (pointer, usable length) handed out; \<open>contents\<close> reads a cell.\<close>

locale allocator =
  fixes alloc :: "u32 \<Rightarrow> 's \<Rightarrow> (nat \<times> 's) option"
    and free :: "nat \<Rightarrow> 's \<Rightarrow> 's option"
    and store :: "nat \<Rightarrow> u32 \<Rightarrow> 's \<Rightarrow> 's"
    and rep :: "'s \<Rightarrow> 'a \<Rightarrow> bool"
    and owned :: "'a \<Rightarrow> (nat \<times> nat) set"
  assumes alloc_returns: "rep s a \<Longrightarrow> \<exists>p s'. alloc n s = Some (p, s')"
    and alloc_null: "rep s a \<Longrightarrow> alloc n s = Some (0, s') \<Longrightarrow> s' = s"
    and alloc_owned: "rep s a \<Longrightarrow> alloc n s = Some (p, s') \<Longrightarrow> p \<noteq> 0 \<Longrightarrow>
      \<exists>a' len. rep s' a' \<and> unat n \<le> len \<and> p \<notin> fst ` owned a \<and> owned a' = insert (p, len) (owned a)"
    and free_owned: "rep s a \<Longrightarrow> (p, len) \<in> owned a \<Longrightarrow>
      \<exists>s' a'. free p s = Some s' \<and> rep s' a' \<and> owned a' = owned a - {(p, len)}"
    and store_owned: "rep s a \<Longrightarrow> (p, len) \<in> owned a \<Longrightarrow> p \<le> x \<Longrightarrow> x < p + len \<Longrightarrow> rep (store x v s) a"
    and owned_disjoint: "rep s a \<Longrightarrow> (p, len) \<in> owned a \<Longrightarrow> (q, len') \<in> owned a \<Longrightarrow>
      (p, len) \<noteq> (q, len') \<Longrightarrow> {p ..< p + len} \<inter> {q ..< q + len'} = {}"
begin

text \<open>The client's view is covered by the owned regions, one held region per pointer.\<close>

definition covered :: "'a \<Rightarrow> (nat \<times> nat) set \<Rightarrow> bool" where
  "covered a L \<longleftrightarrow> inj_on fst L \<and> inj_on fst (owned a)
     \<and> (\<forall>(p, n) \<in> L. \<exists>len. n \<le> len \<and> (p, len) \<in> owned a)"

lemma coveredD:
  "covered a L \<Longrightarrow> (p, n) \<in> L \<Longrightarrow> \<exists>len. n \<le> len \<and> (p, len) \<in> owned a"
  unfolding covered_def by auto

lemma covered_inj: "covered a L \<Longrightarrow> (p, n) \<in> L \<Longrightarrow> (p, k) \<in> L \<Longrightarrow> n = k"
  unfolding covered_def by (metis fst_conv inj_onD prod.inject)

lemma covered_insert:
  assumes "covered a L" "n \<le> len" "p \<notin> fst ` owned a" "owned a' = insert (p, len) (owned a)"
  shows "covered a' (insert (p, n) L)"
proof -
  have "p \<notin> fst ` L"
  proof
    assume "p \<in> fst ` L"
    then obtain k where "(p, k) \<in> L" by auto
    from coveredD [OF assms(1) this] assms(3) show False by force
  qed
  then have "inj_on fst (insert (p, n) L)" using assms(1) by (auto simp: covered_def)
  moreover have "inj_on fst (owned a')" using assms by (auto simp: covered_def)
  ultimately show ?thesis using coveredD [OF assms(1)] assms(2,4) by (fastforce simp: covered_def)
qed

lemma covered_remove:
  assumes "covered a L" "(p, n) \<in> L" "(p, len) \<in> owned a" "owned a' = owned a - {(p, len)}"
  shows "covered a' (L - {(p, n)})"
proof -
  have "q \<noteq> p" if "(q, k) \<in> L - {(p, n)}" for q k
  proof
    assume "q = p"
    with that covered_inj [OF assms(1,2)] show False by auto
  qed
  moreover have "inj_on fst (L - {(p, n)})" "inj_on fst (owned a')"
    using assms(1,4) by (auto simp: covered_def intro: inj_on_subset)
  ultimately show ?thesis
    using coveredD [OF assms(1)] assms(4) by (fastforce simp: covered_def)
qed

lemma client_step_covered:
  assumes "client alloc free store (s, L) (s', L')" "rep s a" "covered a L"
  shows "\<exists>a'. rep s' a' \<and> covered a' L'"
  using assms(1)
proof (cases rule: client.cases)
  case (client_alloc n p)
  with alloc_owned [OF assms(2)] obtain a' len where "rep s' a'" "unat n \<le> len"
    "p \<notin> fst ` owned a" "owned a' = insert (p, len) (owned a)" by blast
  with covered_insert [OF assms(3)] client_alloc show ?thesis by metis
next
  case (client_fail n)
  with alloc_null assms show ?thesis by metis
next
  case (client_free p n)
  from coveredD [OF assms(3) client_free(2)] obtain len where len: "(p, len) \<in> owned a" by blast
  from free_owned [OF assms(2) len] client_free(3) obtain a' where
    "rep s' a'" "owned a' = owned a - {(p, len)}" by auto
  with covered_remove [OF assms(3) client_free(2) len] client_free show ?thesis by metis
next
  case (client_write p n x v)
  from coveredD [OF assms(3) client_write(3)] obtain len where
    "n \<le> len" "(p, len) \<in> owned a" by blast
  with store_owned [OF assms(2), of p len x v] client_write assms(3) show ?thesis by auto
qed

lemma client_covered:
  assumes "(client alloc free store)\<^sup>*\<^sup>* c c'" "rep (fst c) a" "covered a (snd c)"
  shows "\<exists>a'. rep (fst c') a' \<and> covered a' (snd c')"
  using assms(1)
proof (induction rule: rtranclp_induct)
  case base
  with assms show ?case by blast
next
  case (step c c')
  then show ?case using client_step_covered by (metis prod.collapse)
qed

lemma client_disjoint:
  assumes "rep s a" "covered a L" "(p, n) \<in> L" "(q, k) \<in> L" "(p, n) \<noteq> (q, k)"
  shows "{p ..< p + n} \<inter> {q ..< q + k} = {}"
proof -
  from coveredD [OF assms(2)] assms(3,4) obtain l l' where l: "n \<le> l" "(p, l) \<in> owned a"
    "k \<le> l'" "(q, l') \<in> owned a" by metis
  have "p \<noteq> q" using covered_inj [OF assms(2,3)] assms(4,5) by auto
  with owned_disjoint [OF assms(1) l(2,4)] have "{p ..< p + l} \<inter> {q ..< q + l'} = {}" by simp
  with l(1,3) show ?thesis by (fastforce simp: disjoint_iff)
qed

lemma client_progress:
  "rep s a \<Longrightarrow> covered a L \<Longrightarrow> (p, k) \<in> L \<Longrightarrow> \<exists>s'. free p s = Some s'"
  using free_owned coveredD by metis

end

section \<open>The heap is an allocator\<close>

definition heap_owned :: "block list \<Rightarrow> (nat \<times> nat) set" where
  "heap_owned bs = (\<lambda>b. (b_addr b + 16, b_size b - 16)) ` {b \<in> set bs. \<not> b_free b}"

definition heap_store :: "nat \<Rightarrow> u32 \<Rightarrow> 'a heap_scheme \<Rightarrow> 'a heap_scheme" where
  "heap_store x v h = h\<lparr>mem := (mem h)(x := v)\<rparr>"

lemma heap_owned_simps [simp]:
  "heap_owned [] = {}"
  "heap_owned (b # bs) = (if b_free b then heap_owned bs
     else insert (b_addr b + 16, b_size b - 16) (heap_owned bs))"
  "heap_owned (xs @ ys) = heap_owned xs \<union> heap_owned ys"
  by (auto simp: heap_owned_def)

lemma heap_owned_coalesce_all: "heap_owned (coalesce_all bs) = heap_owned bs"
  by (induction bs rule: coalesce_all.induct) auto

lemma heap_ownedE:
  assumes "(p, len) \<in> heap_owned bs"
  obtains b where "b \<in> set bs" "\<not> b_free b" "p = b_addr b + 16" "len = b_size b - 16"
  using assms by (auto simp: heap_owned_def)

lemma heap_owned_addr:
  assumes "heap_struct h bs fs" "(p, len) \<in> heap_owned bs" "b \<in> set bs" "b_addr b + 16 = p"
  shows "len = b_size b - 16 \<and> \<not> b_free b"
proof -
  from assms(2) obtain c where c: "c \<in> set bs" "\<not> b_free c" "p = b_addr c + 16" "len = b_size c - 16"
    by (rule heap_ownedE)
  with assms(3,4) have "c = b" by (intro tiled_addr_inj [OF heap_struct_tiled [OF assms(1)]]) auto
  with c show ?thesis by simp
qed

lemma heap_inv_store:
  assumes "heap_inv h bs" "b \<in> set bs" "\<not> b_free b" "x \<in> payload b"
  shows "heap_inv (heap_store x v h) bs"
proof -
  from assms(1) obtain fs where st: "heap_struct h bs fs" and fs: "set fs = free_addrs bs"
    and co: "coalesced bs" by (auto simp: heap_inv_def heap_rep_def)
  note t = heap_struct_tiled [OF st]
  from assms(4) obtain i where i: "x = b_addr b + i" "16 \<le> i" "i < b_size b"
    by (auto simp: payload_def dest!: nat_le_iff_add [THEN iffD1])
  have "b_addr b \<notin> set fs"
  proof
    assume "b_addr b \<in> set fs"
    then obtain c where "c \<in> set bs" "b_free c" "b_addr c = b_addr b" unfolding fs by (rule free_addrsE)
    with tiled_addr_inj [OF t] assms(2,3) show False by metis
  qed
  with chain_other_cell [OF t _ assms(2), of fs i] i heap_struct_chain [OF st]
  have "chain (node_next ((mem h)(x := v))) (freeList h) fs" by simp
  moreover have "\<forall>c \<in> set bs. hdr_ok ((mem h)(x := v)) c"
    using hdr_ok_other_cell [OF t assms(2) _ i(3)] i heap_struct_hdr [OF st] by simp
  ultimately have "heap_rep (heap_store x v h) bs fs"
    using st fs by (simp add: heap_rep_def heap_struct_def heap_store_def)
  with co show ?thesis by (auto simp: heap_inv_def)
qed

lemma heap_inv_struct: "heap_inv h bs \<Longrightarrow> \<exists>fs. heap_struct h bs fs"
  by (auto simp: heap_inv_def heap_rep_def)

lemma heap_alloc_owned:
  assumes inv: "heap_inv h bs" and al: "heap_alloc n h = Some (p, h')" and p: "p \<noteq> 0"
  shows "\<exists>bs' len. heap_inv h' bs' \<and> unat n \<le> len \<and> p \<notin> fst ` heap_owned bs
      \<and> heap_owned bs' = insert (p, len) (heap_owned bs)"
  using inv
proof (cases rule: heap_alloc_cases [where sz = n])
  case fail
  with al p show ?thesis by simp
next
  case (ok h'' ls a s rs)
  let ?n = "need (unat n)"
  let ?bs' = "ls @ carve ?n (Block a s True) @ rs" and ?len = "(if ?n + 32 \<le> s then ?n else s) - 16"
  from heap_inv_struct [OF inv] obtain fs where st: "heap_struct h bs fs" ..
  have eq: "h'' = h'" "p = a + 16" using ok al by auto
  have "p \<notin> fst ` heap_owned bs"
    using heap_owned_addr [OF st, of p _ "Block a s True"] ok(2) eq by fastforce
  moreover have "unat n \<le> ?len"
    using ok(4) need_bounds(3) [of "unat n"] by (auto simp: best_fitting_def)
  moreover have "heap_owned ?bs' = insert (p, ?len) (heap_owned bs)" using ok(2) eq by auto
  ultimately show ?thesis using ok(5) eq by blast
qed

lemma heap_owned_unique:
  assumes "tiled e0 (ls @ b # rs) e" "\<not> b_free b"
  shows "(b_addr b + 16, b_size b - 16) \<notin> heap_owned (ls @ rs)"
proof
  assume "(b_addr b + 16, b_size b - 16) \<in> heap_owned (ls @ rs)"
  then obtain c where c: "c \<in> set (ls @ rs)" "b_addr c = b_addr b" by (metis heap_ownedE add_right_cancel)
  then have "c = b" by (intro tiled_addr_inj [OF assms(1)]) auto
  with c tiled_distinct [OF assms(1)] show False by auto
qed

lemma heap_free_owned:
  assumes inv: "heap_inv h bs" and own: "(p, len) \<in> heap_owned bs"
  shows "\<exists>h' bs'. heap_free p h = Some h' \<and> heap_inv h' bs' \<and> heap_owned bs' = heap_owned bs - {(p, len)}"
proof -
  from heap_inv_struct [OF inv] obtain fs where st: "heap_struct h bs fs" ..
  from own obtain b where b: "b \<in> set bs" "\<not> b_free b" "p = b_addr b + 16" "len = b_size b - 16"
    by (rule heap_ownedE)
  then obtain a s ls rs where B: "b = Block a s False" and bs: "bs = ls @ Block a s False # rs"
    by (metis (full_types) block.exhaust_sel split_list)
  have "(p, len) \<notin> heap_owned (ls @ rs)"
    using heap_owned_unique [of _ ls b rs] heap_struct_tiled [OF st] b(3,4) bs B by auto
  then have "heap_owned (coalesce_all (ls @ Block a s True # rs)) = heap_owned bs - {(p, len)}"
    unfolding heap_owned_coalesce_all using bs b(3,4) B by auto
  with heap_free_rep [of h ls a s rs] inv bs b(3) B show ?thesis by (metis block.sel(1))
qed

lemma heap_owned_disjoint:
  assumes inv: "heap_inv h bs" and own: "(p, len) \<in> heap_owned bs" "(q, len') \<in> heap_owned bs"
    and ne: "(p, len) \<noteq> (q, len')"
  shows "{p ..< p + len} \<inter> {q ..< q + len'} = {}"
proof (rule equals0I)
  fix x assume x: "x \<in> {p ..< p + len} \<inter> {q ..< q + len'}"
  from heap_inv_struct [OF inv] obtain fs where st: "heap_struct h bs fs" ..
  from own(1) obtain b where b: "b \<in> set bs" "p = b_addr b + 16" "len = b_size b - 16"
    by (rule heap_ownedE)
  from own(2) obtain c where c: "c \<in> set bs" "q = b_addr c + 16" "len' = b_size c - 16"
    by (rule heap_ownedE)
  from x b(2,3) c(2,3) have "b_addr b + (x - b_addr b) = b_addr c + (x - b_addr c)"
    "x - b_addr b < b_size b" "x - b_addr c < b_size c" by auto
  with tiled_cells [OF heap_struct_tiled [OF st] b(1) c(1)] b c ne show False by blast
qed

lemma heap_store_owned:
  assumes "heap_inv h bs" "(p, len) \<in> heap_owned bs" "p \<le> x" "x < p + len"
  shows "heap_inv (heap_store x v h) bs"
  using assms(2)
proof (rule heap_ownedE)
  fix b assume "b \<in> set bs" "\<not> b_free b" "p = b_addr b + 16" "len = b_size b - 16"
  with assms show ?thesis by (intro heap_inv_store [of h bs b]) (auto simp: payload_def)
qed

lemma heap_alloc_returns: "heap_inv h bs \<Longrightarrow> \<exists>p h'. heap_alloc n h = Some (p, h')"
  by (erule heap_alloc_cases [where sz = n]) blast+

lemma heap_alloc_null: "heap_inv h bs \<Longrightarrow> heap_alloc n h = Some (0, h') \<Longrightarrow> h' = h"
  by (erule heap_alloc_cases [where sz = n]) auto

interpretation hp: allocator heap_alloc heap_free heap_store heap_inv heap_owned
  by unfold_locales
    (fact heap_alloc_returns heap_alloc_null heap_alloc_owned heap_free_owned heap_store_owned
      heap_owned_disjoint)+

section \<open>Magic words survive list edits\<close>

text \<open>After the header of a freed block is cleared, everything else \<open>free\<close> writes is at an
  address divisible by 16, so the cleared magic word stays.\<close>

lemma find_node_prev:
  "chain (node_next m) cur xs \<Longrightarrow>
     \<exists>p c. find_node m t prev cur = Some (p, c) \<and> (p = prev \<or> p \<in> set xs)"
proof (induction xs arbitrary: prev cur)
  case Nil
  then show ?case by (simp add: find_node.simps)
next
  case (Cons x xs)
  show ?case
  proof (cases "x = t")
    case True
    with Cons.prems show ?thesis by (simp add: find_node.simps)
  next
    case False
    with Cons.prems have "find_node m t prev cur = find_node m t x (node_next m x)"
      by (subst find_node.simps) simp
    with Cons show ?thesis by fastforce
  qed
qed

lemma coalesce_unaligned:
  assumes st: "heap_struct h bs fs" and n: "16 dvd node" and c: "coalesce node h = Some h'"
    and x: "\<not> 16 dvd x"
  shows "mem h' x = mem h x"
proof -
  let ?t = "add32 node (unat (mem h node))"
  obtain p q where fn: "find_node (mem h) ?t 0 (freeList h) = Some (p, q)" "p = 0 \<or> p \<in> set fs"
    using find_node_prev conjunct1 [OF heap_struct_chain [OF st]] by metis
  have "16 dvd p"
  proof (cases "p = 0")
    case False
    with fn(2) have "p \<in> set fs" by simp
    with heap_struct_chain [OF st] have "p \<in> b_addr ` set bs" by (metis subsetD)
    then obtain b where "b \<in> set bs" "b_addr b = p" by (metis imageE)
    with heap_struct_block(6) [OF st] show ?thesis by metis
  qed simp
  with x n have "x \<noteq> node" "x \<noteq> p + 16" by auto
  then have *: "mem (removeFromFreeList ?t p h) x = mem h x" "x \<noteq> node"
    by (simp_all add: removeFromFreeList_def)
  from c fn(1) * show ?thesis by (auto simp: coalesce_def Let_def split: if_splits)
qed

lemma heap_struct_relabel:
  assumes "heap_struct h (ls @ Block r u True # Block a s True # rs) fs" "a \<notin> set fs"
  shows "\<exists>bs'. heap_struct (h\<lparr>mem := (mem h)(r := mem h r + mem h a)\<rparr>) bs' fs"
proof -
  from heap_struct_block(8) [OF assms(1), of "Block r u True"]
    heap_struct_block(8) [OF assms(1), of "Block a s True"]
  have "mem h r + mem h a = word_of_nat (u + s)" by (simp add: hdr_word_def)
  with struct_merge [OF assms] show ?thesis by auto
qed

lemma heap_free_magic:
  assumes inv: "heap_inv h (ls @ Block a s False # rs)" and f: "heap_free (a + 16) h = Some h'"
  shows "mem h' (a + 4) = 0"
proof -
  let ?A = "Block a s False" and ?B = "Block a s True"
  from inv obtain fs where rep: "heap_rep h (ls @ ?A # rs) fs" by (auto simp: heap_inv_def)
  then have st: "heap_struct h (ls @ ?A # rs) fs" by (simp add: heap_rep_def)
  have a16: "16 dvd a" using heap_struct_block(6) [OF st, of ?A] by simp
  then have na: "\<not> 16 dvd a + 4" by (auto simp: dvd_add_right_iff)
  define h1 where "h1 = h\<lparr>mem := (mem h)(a := rawSize (mem h a), a + 4 := 0)\<rparr>"
  note h1 = free_header [OF rep, folded h1_def]
  have m1: "mem h1 (a + 4) = 0" by (simp add: h1_def)
  from rep show ?thesis
  proof (cases rule: heap_free_unfold)
    case push
    have "heap_struct (addToFreeList a h1) (ls @ ?B # rs) (a # fs)"
      using addToFreeList_rep(1) [OF h1(1,2,3)] by (simp add: heap_rep_def)
    from coalesce_unaligned [OF this a16 _ na] push(1) f show ?thesis
      by (simp add: h1_def addToFreeList_def)
  next
    case (absorb r u ls')
    then have "heap_struct h1 (ls' @ Block r u True # ?B # rs) fs" using h1(1) by simp
    from heap_struct_relabel [OF this h1(2)] obtain bs'
      where st2: "heap_struct (h1\<lparr>mem := (mem h1)(r := mem h1 r + mem h1 a)\<rparr>) bs' fs" ..
    have r16: "16 dvd r" using heap_struct_block(6) [OF h1(1), of "Block r u True"] absorb(1) by simp
    then have "r \<noteq> a + 4" using na by auto
    with coalesce_unaligned [OF st2 r16 _ na, of h'] absorb(2) [folded h1_def] f m1
    show ?thesis by simp
  qed
qed

section \<open>Properties of the heap\<close>

text \<open>C2. Allocation, on every branch. On a well-formed heap \<open>alloc\<close> always returns. When it
  returns null the heap is unchanged and the request was empty or fits no free block; otherwise
  the returned pointer is 16-byte aligned and is the payload of a smallest free block that fits,
  which is split exactly when the rest is at least a minimal block; the invariant (headers,
  free list, no adjacent free blocks) holds again and no cell outside the region or in
  the payload of an allocated block changed.\<close>

theorem heap_alloc_correct:
  assumes "heap_inv h bs"
  shows "\<exists>p h'. heap_alloc sz h = Some (p, h')
    \<and> (if p = 0 then h' = h \<and> (sz = 0 \<or> (\<forall>c \<in> set bs. b_free c \<longrightarrow> b_size c < need (unat sz)))
       else \<exists>ls s rs. bs = ls @ Block (p - 16) s True # rs \<and> 16 dvd p
         \<and> best_fitting (need (unat sz)) bs (Block (p - 16) s True)
         \<and> heap_inv h' (ls @ carve (need (unat sz)) (Block (p - 16) s True) @ rs)
         \<and> heap_step h bs h')"
  using assms
proof (cases rule: heap_alloc_cases [where sz = sz])
  case fail
  then show ?thesis by simp
next
  case (ok h' ls a s rs)
  from heap_inv_struct [OF assms] obtain fs where "heap_struct h bs fs" ..
  from heap_struct_block(6) [OF this, of "Block a s True"] ok(2) have "16 dvd a + 16" by simp
  moreover from ok have "\<exists>ls s rs. bs = ls @ Block (a + 16 - 16) s True # rs
      \<and> best_fitting (need (unat sz)) bs (Block (a + 16 - 16) s True)
      \<and> heap_inv h' (ls @ carve (need (unat sz)) (Block (a + 16 - 16) s True) @ rs)"
    by (intro exI [of _ ls] exI [of _ s] exI [of _ rs]) simp
  ultimately show ?thesis using ok(1,6) by (intro exI [of _ "a + 16"] exI [of _ h']) simp
qed

definition demo_heap :: heap where
  "demo_heap = heap_init 4096 256 \<lparr>mem = \<lambda>_. 0, freeList = 0, heapStart = 0, heapEnd = 0, ready = False\<rparr>"

lemma demo_heap_inv: "heap_inv demo_heap [Block 4096 256 True]"
  unfolding demo_heap_def using heap_init_inv [of 4096 256] by simp

lemma demo_heap_alloc:
  obtains p h' where "heap_alloc 100 demo_heap = Some (p, h')" "p \<noteq> 0"
  using demo_heap_inv
proof (cases rule: heap_alloc_cases [where sz = 100])
  case fail
  then show thesis by (simp add: need_def)
next
  case ok
  then show thesis by (intro that) auto
qed

text \<open>A heap with an allocated block between two free ones.\<close>

definition demo_used :: heap where
  "demo_used = \<lparr>mem = (\<lambda>_. 0)(4096 := 64, 4112 := 4224, 4160 := 65, 4164 := HEAP_MAGIC, 4224 := 128),
     freeList = 4096, heapStart = 4096, heapEnd = 4352, ready = True\<rparr>"

lemma demo_used_inv: "heap_inv demo_used ([Block 4096 64 True] @ Block 4160 64 False # [Block 4224 128 True])"
proof -
  have "heap_rep demo_used [Block 4096 64 True, Block 4160 64 False, Block 4224 128 True] [4096, 4224]"
    by (simp add: heap_rep_def heap_struct_def demo_used_def hdr_ok_def hdr_word_def node_next_def
        HEAP_MAGIC_def ALLOC_FLAG_def)
  then show ?thesis by (auto simp: heap_inv_def coalesced_def)
qed

theorem heap_alloc_correct_witness:
  "\<exists>p h'. heap_alloc 100 demo_heap = Some (p, h')
     \<and> (p \<noteq> 0 \<longrightarrow> (\<exists>ls s rs. heap_inv h' (ls @ carve 128 (Block (p - 16) s True) @ rs)))"
proof -
  have "need (unat (100 :: u32)) = 128" by (simp add: need_def)
  with heap_alloc_correct [OF demo_heap_inv, of 100] show ?thesis by (metis (no_types, lifting))
qed

text \<open>C3. Freeing an allocated block returns, makes the block free, merges it with every free
  neighbour (on both sides), re-establishes the invariant, and changes no cell outside the
  region or in the payload of another allocated block.\<close>

theorem heap_free_correct:
  assumes "heap_inv h (ls @ Block a s False # rs)"
  shows "\<exists>h'. heap_free (a + 16) h = Some h'
    \<and> heap_inv h' (coalesce_all (ls @ Block a s True # rs))
    \<and> heap_step h (ls @ Block a s True # rs) h'"
  using heap_free_rep [OF assms] by metis

theorem heap_free_correct_witness:
  "\<exists>h'. heap_free 4176 demo_used = Some h' \<and> heap_inv h' [Block 4096 256 True]"
  using heap_free_correct [OF demo_used_inv] by auto

text \<open>Round trip: a block that was just allocated can be freed, and this gives back exactly
  the layout of free and allocated blocks there was before.\<close>

theorem heap_alloc_free_roundtrip:
  assumes inv: "heap_inv h bs" and al: "heap_alloc sz h = Some (p, h')" and p: "p \<noteq> 0"
  shows "\<exists>h''. heap_free p h' = Some h'' \<and> heap_inv h'' bs"
  using inv
proof (cases rule: heap_alloc_cases [where sz = sz])
  case fail
  with al p show ?thesis by simp
next
  case (ok h1 ls a s rs)
  let ?n = "need (unat sz)"
  from inv have co: "coalesced bs" by (simp add: heap_inv_def)
  have eq: "h1 = h'" "p = a + 16" using ok(1) al by auto
  show ?thesis
  proof (cases "?n + 32 \<le> s")
    case True
    have "coalesced (ls @ [Block a ?n True])"
      using co ok(2) by (auto simp: coalesced_append_Cons coalesced_Cons)
    from coalesce_all_prefix [OF this, of "Block (a + ?n) (s - ?n) True # rs"]
      coalesce_all_prefix [of ls "Block a s True" rs] coalesce_all_id [OF co] True ok(2) co
    have "coalesce_all (ls @ Block a ?n True # Block (a + ?n) (s - ?n) True # rs) = bs"
      by (auto simp: coalesced_append_Cons coalesced_Cons)
    with heap_free_rep [of h' ls a ?n "Block (a + ?n) (s - ?n) True # rs"] ok(5) True eq
    show ?thesis by (simp, metis)
  next
    case False
    with heap_free_rep [of h' ls a s rs] ok(2,5) eq coalesce_all_id [OF co] show ?thesis by (simp, metis)
  qed
qed

theorem heap_alloc_free_roundtrip_witness:
  "\<exists>p h' h''. p \<noteq> 0 \<and> heap_alloc 100 demo_heap = Some (p, h') \<and> heap_free p h' = Some h''
     \<and> heap_inv h'' [Block 4096 256 True]"
proof -
  obtain p h' where "heap_alloc 100 demo_heap = Some (p, h')" "p \<noteq> 0" by (rule demo_heap_alloc)
  with heap_alloc_free_roundtrip [OF demo_heap_inv] show ?thesis by blast
qed

text \<open>A double free is harmless: freeing the same pointer again, right after it was freed,
  returns and changes nothing, whether or not the block was merged into a neighbour.\<close>

theorem heap_double_free:
  assumes "heap_inv h (ls @ Block a s False # rs)" "heap_free (a + 16) h = Some h'"
  shows "heap_free (a + 16) h' = Some h'"
proof -
  from heap_inv_struct [OF assms(1)] obtain fs where st: "heap_struct h (ls @ Block a s False # rs) fs" ..
  from heap_struct_block(3,5) [OF st, of "Block a s False"]
  have "sub32 (a + 16) (unat HEADER_SIZE) = a" by (simp add: HEADER_SIZE_def addr_simps)
  with heap_free_magic [OF assms] show ?thesis by (simp add: heap_free_def HEAP_MAGIC_def)
qed

theorem heap_double_free_witness:
  "\<exists>h'. heap_free 4176 demo_used = Some h' \<and> heap_free 4176 h' = Some h'"
proof -
  from demo_used_inv obtain h' where "heap_free (4160 + 16) demo_used = Some h'" by (rule heap_free_rep)
  with heap_double_free [OF demo_used_inv this] show ?thesis by simp
qed

text \<open>\<open>largestFreeBlock\<close> predicts allocation: a non-empty request succeeds exactly when the
  block it needs is at most the reported size.\<close>

theorem heap_largest_predicts:
  assumes "heap_inv h bs" "sz \<noteq> 0"
  shows "\<exists>w p h'. largestFreeBlock h = Some w \<and> heap_alloc sz h = Some (p, h')
    \<and> (p \<noteq> 0 \<longleftrightarrow> need (unat sz) \<le> unat w)"
proof -
  let ?S = "insert 0 (b_size ` {b \<in> set bs. b_free b})"
  from assms(1) obtain fs where rep: "heap_rep h bs fs" by (auto simp: heap_inv_def)
  then obtain w where w: "largestFreeBlock h = Some w" "unat w = Max ?S" by (rule largest_rep)
  have fin: "finite ?S" by simp
  show ?thesis
    using assms(1)
  proof (cases rule: heap_alloc_cases [where sz = sz])
    case fail
    with assms(2) need_bounds(2) [of "unat sz"] have "\<forall>x \<in> ?S. x < need (unat sz)" by auto
    then have "Max ?S < need (unat sz)" using fin by simp
    with fail w show ?thesis by (simp add: not_le)
  next
    case (ok h' ls a s rs)
    from ok(2) have "s \<in> ?S" by force
    then have "s \<le> Max ?S" using fin by (rule Max_ge [rotated])
    with ok w show ?thesis by (auto simp: best_fitting_def intro!: exI [of _ w])
  qed
qed

theorem heap_largest_predicts_witness:
  "\<exists>w p h'. largestFreeBlock demo_used = Some w \<and> heap_alloc 60 demo_used = Some (p, h')
     \<and> (p \<noteq> 0 \<longleftrightarrow> 80 \<le> unat w)"
  using heap_largest_predicts [OF demo_used_inv, of 60] by (simp add: need_def)

text \<open>\<open>init\<close> on a span of more than 16 bytes that does not wrap around establishes the invariant
  with a single free block, and it writes no cell outside the region it manages.\<close>

theorem heap_init_correct:
  assumes "0 < data" "16 < len" "data + 15 < 4294967296" "len + 15 < 4294967296"
    "(data + 15) div 16 * 16 + (len + 15) div 16 * 16 < 4294967296"
  shows "heap_inv (heap_init data len h) [Block ((data + 15) div 16 * 16) ((len + 15) div 16 * 16) True]
    \<and> heap_isInitialized (heap_init data len h)
    \<and> (\<forall>x. x < heapStart (heap_init data len h) \<or> heapEnd (heap_init data len h) \<le> x
         \<longrightarrow> mem (heap_init data len h) x = mem h x)"
proof -
  have "32 \<le> (len + 15) div 16 * 16" using assms(2) by simp
  with assms heap_init_inv [of data len h] heap_init_bounds [of data len h] heap_init_mem [of data len h]
  show ?thesis by (auto simp: heap_isInitialized_def heap_init_def Let_def)
qed

theorem heap_init_correct_witness:
  "heap_inv (heap_init 4100 100 demo_used) [Block 4112 112 True]"
  using heap_init_correct [of 4100 100 demo_used] by simp

text \<open>The region \<open>init\<close> manages stays inside the given span exactly when both the start and
  the length are multiples of 16: rounding the start up and rounding the length up as well
  makes the heap end behind the span in every other case.\<close>

theorem heap_init_overrun:
  assumes "data + 15 < 4294967296" "len + 15 < 4294967296"
    "(data + 15) div 16 * 16 + (len + 15) div 16 * 16 < 4294967296"
  shows "data + len \<le> heapEnd (heap_init data len h)
    \<and> (heapEnd (heap_init data len h) = data + len \<longleftrightarrow> 16 dvd data \<and> 16 dvd len)"
proof -
  define up where "up n = (n + 15) div 16 * 16" for n :: nat
  have le: "n \<le> up n" and eq: "up n = n \<longleftrightarrow> 16 dvd n" for n
    unfolding up_def by (auto intro: dvdI [of _ _ "(n + 15) div 16"])
  have "heapEnd (heap_init data len h) = up data + up len"
    using heap_init_bounds(2) [OF assms, of h] by (simp add: up_def)
  moreover have "up data + up len = data + len \<longleftrightarrow> up data = data \<and> up len = len"
    using le [of data] le [of len] by linarith
  ultimately show ?thesis using le [of data] le [of len] eq by simp
qed

theorem heap_init_overrun_witness:
  "heapEnd (heap_init 4100 100 demo_used) \<noteq> 4100 + 100 \<and> 4100 + 100 \<le> heapEnd (heap_init 4100 100 demo_used)"
  using heap_init_overrun [of 4100 100 demo_used] by simp

text \<open>C1. Whole-history safety: after any sequence of allocations, frees of held pointers and
  writes inside held regions, starting from a fresh heap, the heap invariant holds, every
  held region lies in the payload of its own allocated block, held regions are pairwise
  disjoint, every allocation returns and every held pointer can be freed.\<close>

theorem heap_client_safe:
  assumes init: "0 < data" "16 < len" "data + 15 < 4294967296" "len + 15 < 4294967296"
    "(data + 15) div 16 * 16 + (len + 15) div 16 * 16 < 4294967296"
    and run: "(client heap_alloc heap_free heap_store)\<^sup>*\<^sup>* (heap_init data len h, {}) (h', L)"
  shows "\<exists>bs. heap_inv h' bs
    \<and> (\<forall>(p, n) \<in> L. \<exists>b \<in> set bs. \<not> b_free b \<and> p = b_addr b + 16 \<and> n + 16 \<le> b_size b)
    \<and> (\<forall>(p, n) \<in> L. \<forall>(q, k) \<in> L. (p, n) \<noteq> (q, k) \<longrightarrow> {p ..< p + n} \<inter> {q ..< q + k} = {})
    \<and> (\<forall>n. \<exists>p h''. heap_alloc n h' = Some (p, h''))
    \<and> (\<forall>(p, n) \<in> L. \<exists>h''. heap_free p h' = Some h'')"
proof -
  let ?bs = "[Block ((data + 15) div 16 * 16) ((len + 15) div 16 * 16) True]"
  have i: "heap_inv (heap_init data len h) ?bs" using init by (intro heap_init_inv) auto
  have "hp.covered ?bs {}" by (simp add: hp.covered_def)
  with hp.client_covered [OF run] i obtain bs where inv: "heap_inv h' bs" and cov: "hp.covered bs L"
    by auto
  from heap_inv_struct [OF inv] obtain fs where st: "heap_struct h' bs fs" ..
  have "\<exists>b \<in> set bs. \<not> b_free b \<and> p = b_addr b + 16 \<and> n + 16 \<le> b_size b" if L: "(p, n) \<in> L" for p n
  proof -
    from hp.coveredD [OF cov L] obtain l where l: "n \<le> l" "(p, l) \<in> heap_owned bs" by blast
    from l(2) obtain b where "b \<in> set bs" "\<not> b_free b" "p = b_addr b + 16" "l = b_size b - 16"
      by (rule heap_ownedE)
    with l(1) heap_struct_block(3) [OF st] show ?thesis by fastforce
  qed
  with inv hp.client_disjoint [OF inv cov] hp.alloc_returns [OF inv] hp.client_progress [OF inv cov]
  show ?thesis by (intro exI [of _ bs]) blast
qed

theorem heap_client_safe_witness:
  "\<exists>p h' bs. heap_alloc 100 demo_heap = Some (p, h') \<and> heap_inv h' bs
     \<and> (\<exists>b \<in> set bs. \<not> b_free b \<and> p = b_addr b + 16 \<and> 116 \<le> b_size b)"
proof -
  obtain p h' where al: "heap_alloc 100 demo_heap = Some (p, h')" "p \<noteq> 0" by (rule demo_heap_alloc)
  let ?step = "client heap_alloc heap_free heap_store"
  from client_alloc [where al = heap_alloc, OF al, of heap_free heap_store "{}"]
  have "?step\<^sup>*\<^sup>* (demo_heap, {}) (h', {(p, 100)})" by simp
  with heap_client_safe [of 4096 256 _ h' "{(p, 100)}", folded demo_heap_def] al(1)
  show ?thesis by (force simp: demo_heap_def)
qed

theorem heap_accounting_witness:
  "\<exists>w. freeMem demo_used = Some w \<and> unat w = 192 \<and> unat w + 64 = totalMem demo_used"
  using heap_accounting [OF demo_used_inv] by (simp add: free_bytes_def used_bytes_def)

end
