(* ===== verification/Pmm.thy ===== *)
theory Pmm
  imports Heap
begin

unbundle bit_operations_syntax

text \<open>
  The physical memory manager (kernel/kernel/Pmm.cc): a stack of free 4 KiB frames linked through
  the first dword of each free frame, an 8-bit reference count per frame, and the boot-time scan
  of the multiboot memory map.

  The multiboot information is the boot loader's input; it is the record \<open>multiboot\<close>. The end of
  the kernel image (\<open>_kernel_end\<close>, a linker symbol) is an argument of \<open>pmm_init\<close>. A kernel panic is
  the left value of a sum. Loops that walk the free list are
  \<^theory_text>\<open>partial_function (option)\<close>.
\<close>

section \<open>State\<close>

definition PAGE_SIZE :: nat where "PAGE_SIZE = 4096"

definition MAX_MODULE_RANGES :: nat where "MAX_MODULE_RANGES = 16"

definition MAX_FRAMES :: nat where "MAX_FRAMES = 1048576"

definition MAX_REFCOUNT :: u8 where "MAX_REFCOUNT = 255"

definition KERNEL_START :: nat where "KERNEL_START = 0x100000"

text \<open>The two multiboot structures that are read: module descriptors (start, end) and the memory
  map (type, base, length).\<close>

record multiboot =
  mb_flags :: u32
  mb_mods :: "(u32 \<times> u32) list"
  mb_mmap :: "(u32 \<times> u64 \<times> u64) list"

record pmm = heap +
  frameList :: nat
  freeCount :: u32
  allocCount :: u32
  highWaterFrames :: u32
  freeTotalCount :: u32
  modStart :: "u32 list"
  modSize :: "u32 list"
  modCount :: nat
  refCounts :: "nat \<Rightarrow> u8"
  maxFrameIdx :: nat

text \<open>The \<open>next\<close> field of a \<open>FreeFrame\<close> is the first dword of the frame.\<close>

definition frame_next :: "memory \<Rightarrow> nat \<Rightarrow> nat" where
  "frame_next m p = unat (m p)"

text \<open>Storing through a \<open>FreeFrame **\<close>: the list head (0) or the \<open>next\<close> field of a frame.\<close>

definition set_next :: "nat \<Rightarrow> nat \<Rightarrow> 'a pmm_scheme \<Rightarrow> 'a pmm_scheme" where
  "set_next prev v s =
     (if prev = 0 then s\<lparr>frameList := v\<rparr> else s\<lparr>mem := (mem s)(prev := word_of_nat v)\<rparr>)"

text \<open>\<open>memset\<close> of a whole frame.\<close>

definition fill_page :: "memory \<Rightarrow> nat \<Rightarrow> u32 \<Rightarrow> memory" where
  "fill_page m p v = (\<lambda>a. if p \<le> a \<and> a < p + PAGE_SIZE then v else m a)"

section \<open>Operations\<close>

definition freeFrameFast :: "nat \<Rightarrow> 'a pmm_scheme \<Rightarrow> 'a pmm_scheme" where
  "freeFrameFast phys s =
     (if phys = 0 then s
      else s\<lparr>mem := (mem s)(phys := word_of_nat (frameList s)), frameList := phys,
             freeCount := freeCount s + 1\<rparr>)"

definition cacheModuleInfo :: "multiboot \<Rightarrow> 'a pmm_scheme \<Rightarrow> 'a pmm_scheme" where
  "cacheModuleInfo mbi s =
     (if mb_flags mbi AND 8 = 0 then s
      else let mods = take MAX_MODULE_RANGES (mb_mods mbi);
               count = length mods
           in s\<lparr>modCount := count,
                modStart := map fst mods @ drop count (modStart s),
                modSize := map (\<lambda>(b, e). e - b) mods @ drop count (modSize s)\<rparr>)"

definition page_down :: "u32 \<Rightarrow> u32" where
  "page_down a = a AND NOT 4095"

definition page_up :: "u32 \<Rightarrow> u32" where
  "page_up a = (a + 4096 - 1) AND NOT 4095"

definition collectModuleRanges :: "'a pmm_scheme \<Rightarrow> (u32 \<times> u32) list" where
  "collectModuleRanges s =
     map (\<lambda>i. (page_down (modStart s ! i), page_up (modStart s ! i + modSize s ! i)))
       [0..<modCount s]"

text \<open>The inner loop over the pages of one memory-map entry. \<open>hi\<close> is page aligned, hence at most
  \<open>0xFFFFF000\<close>, and the loop variable never wraps.\<close>

definition page_skipped :: "nat \<Rightarrow> (u32 \<times> u32) list \<Rightarrow> nat \<Rightarrow> bool" where
  "page_skipped kernelEnd modules a \<longleftrightarrow>
     KERNEL_START \<le> a \<and> a < kernelEnd \<or> list_ex (\<lambda>(b, e). unat b \<le> a \<and> a < unat e) modules"

function add_pages :: "nat \<Rightarrow> (u32 \<times> u32) list \<Rightarrow> nat \<Rightarrow> nat \<Rightarrow> 'a pmm_scheme \<Rightarrow> 'a pmm_scheme" where
  "add_pages kernelEnd modules a hi s =
     (if a < hi then
        add_pages kernelEnd modules (a + PAGE_SIZE) hi
          (if page_skipped kernelEnd modules a then s else freeFrameFast a s)
      else s)"
  by pat_completeness auto
termination
  by (relation "measure (\<lambda>(_, _, a, hi, _). hi - a)") (auto simp: PAGE_SIZE_def)

declare add_pages.simps [simp del]

text \<open>One entry of the memory map: addresses are truncated to 32 bits by the conversions to
  \<open>uintptr_t\<close> and \<open>uint32_t\<close>.\<close>

definition add_region ::
  "nat \<Rightarrow> (u32 \<times> u32) list \<Rightarrow> u32 \<times> u64 \<times> u64 \<Rightarrow> 'a pmm_scheme \<times> u32 \<Rightarrow> 'a pmm_scheme \<times> u32" where
  "add_region kernelEnd modules e acc =
     (case e of (typ, base, len) \<Rightarrow> case acc of (s, highest) \<Rightarrow>
      if typ = 1 then
        let start = page_up (ucast base);
            hi = page_down (ucast (base + len));
            s' = add_pages kernelEnd modules (unat start) (unat hi) s;
            end32 = ucast (base + len)
        in (s', if end32 > highest then end32 else highest)
      else (s, highest))"

definition addMemoryMapPages ::
  "nat \<Rightarrow> multiboot \<Rightarrow> (u32 \<times> u32) list \<Rightarrow> 'a pmm_scheme \<Rightarrow> 'a pmm_scheme" where
  "addMemoryMapPages kernelEnd mbi modules s =
     (let (s1, highest) = fold (add_region kernelEnd modules) (mb_mmap mbi) (s, 0);
          idx = unat ((highest + 4096 - 1) div 4096);
          idx' = (if idx > MAX_FRAMES then MAX_FRAMES else idx)
      in s1\<lparr>maxFrameIdx := idx', refCounts := (\<lambda>i. if i < idx' then 0 else refCounts s1 i)\<rparr>)"

text \<open>The index of the reference count of a frame, or nothing (\<open>nullptr\<close>) out of range.\<close>

definition refCountEntry :: "nat \<Rightarrow> 'a pmm_scheme \<Rightarrow> nat option" where
  "refCountEntry phys s =
     (let pfn = phys div PAGE_SIZE in if pfn \<ge> maxFrameIdx s then None else Some pfn)"

definition allocFrame :: "'a pmm_scheme \<Rightarrow> nat \<times> 'a pmm_scheme" where
  "allocFrame s =
     (if frameList s = 0 then (0, s)
      else let frame = frameList s;
               s1 = s\<lparr>frameList := frame_next (mem s) frame, freeCount := freeCount s - 1\<rparr>;
               s2 = s1\<lparr>mem := fill_page (mem s1) frame 0, allocCount := allocCount s1 + 1\<rparr>;
               inUse = allocCount s2 - freeTotalCount s2;
               s3 = (if inUse > highWaterFrames s2 then s2\<lparr>highWaterFrames := inUse\<rparr> else s2)
           in (frame, case refCountEntry frame s3 of
                        None \<Rightarrow> s3
                      | Some e \<Rightarrow> s3\<lparr>refCounts := (refCounts s3)(e := 1)\<rparr>))"

definition freeFrame :: "nat \<Rightarrow> 'a pmm_scheme \<Rightarrow> string + 'a pmm_scheme" where
  "freeFrame phys s =
     (if phys = 0 then Inr s
      else case refCountEntry phys s of
        None \<Rightarrow> Inr s
      | Some e \<Rightarrow>
          if refCounts s e = 0 then Inl ''Pmm::freeFrame: refcount already 0 (double free?)''
          else let s1 = s\<lparr>refCounts := (refCounts s)(e := refCounts s e - 1)\<rparr>
               in if refCounts s1 e > 0 then Inr s1
                  else Inr (s1\<lparr>mem := (mem s1)(phys := word_of_nat (frameList s1)), frameList := phys,
                               freeCount := freeCount s1 + 1, freeTotalCount := freeTotalCount s1 + 1\<rparr>))"

definition freeFrameCount :: "'a pmm_scheme \<Rightarrow> u32" where
  "freeFrameCount s = freeCount s"

definition totalFrees :: "'a pmm_scheme \<Rightarrow> u32" where
  "totalFrees s = freeTotalCount s"

partial_function (option) reserve_loop ::
  "nat \<Rightarrow> nat \<Rightarrow> nat \<Rightarrow> 'a pmm_scheme \<Rightarrow> 'a pmm_scheme option" where
  "reserve_loop phys prev cur s =
     (if cur = 0 then Some s
      else if cur = phys then
        let s1 = (set_next prev (frame_next (mem s) cur) s);
            s2 = s1\<lparr>freeCount := freeCount s1 - 1\<rparr>
        in Some (case refCountEntry phys s2 of
                   None \<Rightarrow> s2
                 | Some e \<Rightarrow> s2\<lparr>refCounts := (refCounts s2)(e := 1)\<rparr>)
      else reserve_loop phys cur (frame_next (mem s) cur) s)"

definition reserveFrame :: "nat \<Rightarrow> 'a pmm_scheme \<Rightarrow> 'a pmm_scheme option" where
  "reserveFrame phys s = (if phys = 0 then Some s else reserve_loop phys 0 (frameList s) s)"

definition modulePhysStart :: "int \<Rightarrow> 'a pmm_scheme \<Rightarrow> u32" where
  "modulePhysStart idx s = (if idx < 0 \<or> idx \<ge> int (modCount s) then 0 else modStart s ! nat idx)"

definition modulePhysSize :: "int \<Rightarrow> 'a pmm_scheme \<Rightarrow> u32" where
  "modulePhysSize idx s = (if idx < 0 \<or> idx \<ge> int (modCount s) then 0 else modSize s ! nat idx)"

definition moduleCount :: "'a pmm_scheme \<Rightarrow> nat" where
  "moduleCount s = modCount s"

text \<open>The unlinking walk of \<open>removeFramesAbove\<close> and \<open>reserveRegion\<close>.\<close>

partial_function (option) unlink_loop ::
  "(nat \<Rightarrow> bool) \<Rightarrow> nat \<Rightarrow> nat \<Rightarrow> 'a pmm_scheme \<Rightarrow> 'a pmm_scheme option" where
  "unlink_loop P prev cur s =
     (if cur = 0 then Some s
      else if P cur then
        let s1 = set_next prev (frame_next (mem s) cur) s;
            s2 = s1\<lparr>freeCount := freeCount s1 - 1\<rparr>
        in unlink_loop P prev (frame_next (mem s2) cur) s2
      else unlink_loop P cur (frame_next (mem s) cur) s)"

definition removeFramesAbove :: "nat \<Rightarrow> 'a pmm_scheme \<Rightarrow> 'a pmm_scheme option" where
  "removeFramesAbove boundary s = unlink_loop (\<lambda>a. a \<ge> boundary) 0 (frameList s) s"

definition reserveRegion :: "nat \<Rightarrow> nat \<Rightarrow> 'a pmm_scheme \<Rightarrow> 'a pmm_scheme option" where
  "reserveRegion start hi s =
     (let b = unat (page_up (word_of_nat start)); e = unat (page_down (word_of_nat hi))
      in unlink_loop (\<lambda>a. b \<le> a \<and> a < e) 0 (frameList s) s)"

definition addRef :: "nat \<Rightarrow> 'a pmm_scheme \<Rightarrow> 'a pmm_scheme" where
  "addRef phys s =
     (case refCountEntry phys s of
        None \<Rightarrow> s
      | Some e \<Rightarrow> if refCounts s e < MAX_REFCOUNT
                  then s\<lparr>refCounts := (refCounts s)(e := refCounts s e + 1)\<rparr> else s)"

definition removeRef :: "nat \<Rightarrow> 'a pmm_scheme \<Rightarrow> string + bool \<times> 'a pmm_scheme" where
  "removeRef phys s =
     (case refCountEntry phys s of
        None \<Rightarrow> Inr (False, s)
      | Some e \<Rightarrow>
          if refCounts s e = 0 then Inl ''Pmm::removeRef: refcount already 0''
          else let s1 = s\<lparr>refCounts := (refCounts s)(e := refCounts s e - 1)\<rparr>
               in if refCounts s1 e = 0
                  then Inr (True, s1\<lparr>freeTotalCount := freeTotalCount s1 + 1\<rparr>)
                  else Inr (False, s1))"

definition refCount :: "nat \<Rightarrow> 'a pmm_scheme \<Rightarrow> u8" where
  "refCount phys s = (case refCountEntry phys s of None \<Rightarrow> 0 | Some e \<Rightarrow> refCounts s e)"

text \<open>The idiom by which the page-table code drops a reference (Paging.cc): push the frame back
  when the last reference is gone.\<close>

definition releaseFrame :: "nat \<Rightarrow> 'a pmm_scheme \<Rightarrow> string + 'a pmm_scheme" where
  "releaseFrame phys s =
     (case removeRef phys s of
        Inl e \<Rightarrow> Inl e
      | Inr (gone, s1) \<Rightarrow> Inr (if gone then freeFrameFast phys s1 else s1))"

definition maxPhysAddr :: "'a pmm_scheme \<Rightarrow> u32" where
  "maxPhysAddr s = word_of_nat (maxFrameIdx s * PAGE_SIZE)"

definition isBadPhysAddr :: "nat \<Rightarrow> 'a pmm_scheme \<Rightarrow> bool" where
  "isBadPhysAddr phys s \<longleftrightarrow> phys = 0 \<or> phys \<ge> unat (maxPhysAddr s)"

definition pmm_init :: "nat \<Rightarrow> multiboot \<Rightarrow> 'a pmm_scheme \<Rightarrow> 'a pmm_scheme option" where
  "pmm_init kernelEnd mbi s =
     (let s1 = cacheModuleInfo mbi s;
          modules = collectModuleRanges s1;
          s2 = addMemoryMapPages kernelEnd mbi modules s1
      in reserveFrame 0xB8000 s2)"

section \<open>The free list as a list of frames\<close>

definition pmm_rep :: "'a pmm_scheme \<Rightarrow> nat list \<Rightarrow> bool" where
  "pmm_rep s fs \<longleftrightarrow>
     chain (frame_next (mem s)) (frameList s) fs
     \<and> freeCount s = word_of_nat (length fs)
     \<and> (\<forall>p \<in> set fs. PAGE_SIZE dvd p \<and> p < 4294967296
          \<and> (p div PAGE_SIZE < maxFrameIdx s \<longrightarrow> refCounts s (p div PAGE_SIZE) = 0))"

text \<open>The cells of a frame.\<close>

definition page :: "nat \<Rightarrow> nat set" where
  "page p = {p ..< p + PAGE_SIZE}"

lemma frame_next_upd [simp]: "frame_next (m(p := v)) = (frame_next m)(p := unat v)"
  by (rule ext) (simp add: frame_next_def)

lemma aligned_pages:
  assumes "PAGE_SIZE dvd p" "PAGE_SIZE dvd q" "p \<noteq> q"
  shows "page p \<inter> page q = {}"
proof -
  from assms obtain i j where "p = PAGE_SIZE * i" "q = PAGE_SIZE * j" "i \<noteq> j" by (auto elim!: dvdE)
  then show ?thesis by (cases "i < j") (auto simp: page_def PAGE_SIZE_def)
qed

lemma aligned_not_in_page: "PAGE_SIZE dvd p \<Longrightarrow> PAGE_SIZE dvd q \<Longrightarrow> q \<in> page p \<Longrightarrow> q = p"
  using aligned_pages [of p q] by (auto simp: page_def PAGE_SIZE_def)

lemma page_frame: "PAGE_SIZE dvd p \<Longrightarrow> x \<in> page p \<Longrightarrow> x div PAGE_SIZE = p div PAGE_SIZE"
  by (auto simp: page_def PAGE_SIZE_def elim!: dvdE)

lemma aligned_pfn_inj:
  "PAGE_SIZE dvd p \<Longrightarrow> PAGE_SIZE dvd q \<Longrightarrow> p div PAGE_SIZE = q div PAGE_SIZE \<longleftrightarrow> p = q"
  by (auto simp: PAGE_SIZE_def elim!: dvdE)

lemma fill_page_simps [simp]:
  "a \<in> page p \<Longrightarrow> fill_page m p v a = v" "a \<notin> page p \<Longrightarrow> fill_page m p v a = m a"
  by (auto simp: fill_page_def page_def)

lemma refCountEntry_simps [simp]:
  "p div PAGE_SIZE < maxFrameIdx s \<Longrightarrow> refCountEntry p s = Some (p div PAGE_SIZE)"
  "\<not> p div PAGE_SIZE < maxFrameIdx s \<Longrightarrow> refCountEntry p s = None"
  by (auto simp: refCountEntry_def Let_def)

lemma pmm_rep_chain: "pmm_rep s fs \<Longrightarrow> chain (frame_next (mem s)) (frameList s) fs"
  by (simp add: pmm_rep_def)

lemma pmm_rep_frame:
  assumes "pmm_rep s fs" "p \<in> set fs"
  shows "PAGE_SIZE dvd p" "p < 4294967296" "0 < p"
    "p div PAGE_SIZE < maxFrameIdx s \<Longrightarrow> refCounts s (p div PAGE_SIZE) = 0"
  using assms chain_nonnull [OF pmm_rep_chain [OF assms(1)] assms(2)] by (auto simp: pmm_rep_def)

lemma pmm_rep_head: "pmm_rep s fs \<Longrightarrow> frameList s < 4294967296"
  by (cases fs) (auto simp: pmm_rep_def)

text \<open>A referenced frame is not on the list.\<close>

lemma pmm_rep_referenced:
  "pmm_rep s fs \<Longrightarrow> p div PAGE_SIZE < maxFrameIdx s \<Longrightarrow> refCounts s (p div PAGE_SIZE) \<noteq> 0 \<Longrightarrow> p \<notin> set fs"
  using pmm_rep_frame(4) by blast

section \<open>Allocation and release\<close>

lemma allocFrame_empty: "pmm_rep s [] \<Longrightarrow> allocFrame s = (0, s)"
  by (simp add: pmm_rep_def allocFrame_def)

lemma allocFrame_fields:
  assumes "frameList s \<noteq> 0" "allocFrame s = (p, s')"
  shows "p = frameList s" "frameList s' = frame_next (mem s) p" "freeCount s' = freeCount s - 1"
    "mem s' = fill_page (mem s) p 0" "allocCount s' = allocCount s + 1"
    "freeTotalCount s' = freeTotalCount s" "maxFrameIdx s' = maxFrameIdx s"
    "refCounts s' = (if p div PAGE_SIZE < maxFrameIdx s then (refCounts s)(p div PAGE_SIZE := 1) else refCounts s)"
  using assms by (auto simp: allocFrame_def Let_def refCountEntry_def split: if_splits option.splits)

lemma allocFrame_rep:
  assumes rep: "pmm_rep s (p # fs)"
  obtains s' where "allocFrame s = (p, s')" "pmm_rep s' fs"
proof -
  note fr = pmm_rep_frame [OF rep]
  have d: "p \<notin> set fs" using chain_distinct [OF pmm_rep_chain [OF rep]] by simp
  have head: "frameList s = p" "p \<noteq> 0" "chain (frame_next (mem s)) (frame_next (mem s) p) fs"
    using rep by (auto simp: pmm_rep_def)
  obtain s' where al: "allocFrame s = (p, s')"
    using head(1,2) by (simp add: allocFrame_def Let_def)
  note f = allocFrame_fields [OF _ al, unfolded head(1), OF head(2)]
  have other: "q \<notin> page p" if "q \<in> set fs" for q
    using aligned_not_in_page [of p q] fr(1) d that by auto
  have "chain (frame_next (mem s')) (frameList s') fs"
    unfolding f(2,4) using head(3) other by (subst chain_cong [of _ _ "frame_next (mem s)"]) (auto simp: frame_next_def)
  moreover have "refCounts s' (q div PAGE_SIZE) = 0" if "q \<in> set fs" "q div PAGE_SIZE < maxFrameIdx s" for q
    using that fr(4) [of q] aligned_pfn_inj [of q p] fr(1) d by (auto simp: f(8))
  moreover have "freeCount s' = word_of_nat (length fs)"
    using rep by (simp add: f(3) pmm_rep_def)
  ultimately have "pmm_rep s' fs" using fr by (simp add: pmm_rep_def f(7))
  with al that show thesis by blast
qed

lemma push_rep:
  assumes rep: "pmm_rep s fs" and p: "PAGE_SIZE dvd p" "0 < p" "p < 4294967296" "p \<notin> set fs"
    and s': "mem s' = (mem s)(p := word_of_nat (frameList s))" "frameList s' = p"
      "freeCount s' = freeCount s + 1" "maxFrameIdx s' = maxFrameIdx s"
    and rc: "\<And>q. q \<in> set fs \<Longrightarrow> refCounts s' (q div PAGE_SIZE) = refCounts s (q div PAGE_SIZE)"
      "p div PAGE_SIZE < maxFrameIdx s \<Longrightarrow> refCounts s' (p div PAGE_SIZE) = 0"
  shows "pmm_rep s' (p # fs)"
proof -
  have "chain (frame_next (mem s')) p (p # fs)"
    using pmm_rep_chain [OF rep] pmm_rep_head [OF rep] p by (simp add: s' unat_word_of_nat_u32)
  with rep p rc show ?thesis by (auto simp: pmm_rep_def s')
qed

lemma freeFrame_cases:
  assumes "p \<noteq> 0" "p div PAGE_SIZE < maxFrameIdx s"
  shows "freeFrame p s =
    (if refCounts s (p div PAGE_SIZE) = 0 then Inl ''Pmm::freeFrame: refcount already 0 (double free?)''
     else let s1 = s\<lparr>refCounts := (refCounts s)(p div PAGE_SIZE := refCounts s (p div PAGE_SIZE) - 1)\<rparr>
          in if refCounts s (p div PAGE_SIZE) \<noteq> 1 then Inr s1
             else Inr ((freeFrameFast p s1)\<lparr>freeTotalCount := freeTotalCount s + 1\<rparr>))"
proof -
  have "(x - 1 > 0) = (x \<noteq> 1)" for x :: u8 by (metis diff_eq_diff_eq diff_self word_neq_0_conv eq_iff_diff_eq_0)
  then show ?thesis using assms by (simp add: freeFrame_def freeFrameFast_def Let_def)
qed

lemma freeFrameFast_rep:
  assumes "pmm_rep s fs" "PAGE_SIZE dvd p" "0 < p" "p < 4294967296" "p \<notin> set fs"
    "p div PAGE_SIZE < maxFrameIdx s \<Longrightarrow> refCounts s (p div PAGE_SIZE) = 0"
  shows "pmm_rep (freeFrameFast p s) (p # fs)"
  by (rule push_rep [OF assms(1-5)]) (use assms in \<open>simp_all add: freeFrameFast_def\<close>)

lemma rep_refcount:
  assumes "pmm_rep s fs" "p \<notin> set fs" "PAGE_SIZE dvd p"
  shows "pmm_rep (s\<lparr>refCounts := (refCounts s)(p div PAGE_SIZE := v)\<rparr>) fs"
  using assms pmm_rep_frame(1) [OF assms(1)] aligned_pfn_inj [of _ p]
  by (auto simp: pmm_rep_def)

lemma pmm_rep_freeTotal [simp]: "pmm_rep (s\<lparr>freeTotalCount := n\<rparr>) fs = pmm_rep s fs"
  by (simp add: pmm_rep_def)

section \<open>Walks that unlink frames\<close>

text \<open>What a walk may change: links of listed frames, the head and the count.\<close>

definition list_edit :: "nat set \<Rightarrow> 'a pmm_scheme \<Rightarrow> 'a pmm_scheme \<Rightarrow> bool" where
  "list_edit A s s' \<longleftrightarrow> (\<exists>m f c. s' = s\<lparr>mem := m, frameList := f, freeCount := c\<rparr>
     \<and> (\<forall>x. x \<notin> A \<longrightarrow> m x = mem s x))"

lemma list_editI:
  "(\<And>x. x \<notin> A \<Longrightarrow> m x = mem s x) \<Longrightarrow> list_edit A s (s\<lparr>mem := m, frameList := f, freeCount := c\<rparr>)"
  unfolding list_edit_def by blast

lemma list_editE:
  assumes "list_edit A s s'"
  obtains m f c where "s' = s\<lparr>mem := m, frameList := f, freeCount := c\<rparr>" "\<And>x. x \<notin> A \<Longrightarrow> m x = mem s x"
  using assms unfolding list_edit_def by blast

lemma list_edit_refl: "list_edit A s s"
  using list_editI [of A "mem s" s "freeCount s" "frameList s"] by simp

lemma list_edit_trans:
  assumes "list_edit A s s'" "list_edit A s' s''"
  shows "list_edit A s s''"
  using assms(1)
proof (rule list_editE)
  fix m f c assume 1: "s' = s\<lparr>mem := m, frameList := f, freeCount := c\<rparr>" "\<And>x. x \<notin> A \<Longrightarrow> m x = mem s x"
  from assms(2) show ?thesis
  proof (rule list_editE)
    fix m' f' c' assume "s'' = s'\<lparr>mem := m', frameList := f', freeCount := c'\<rparr>"
      "\<And>x. x \<notin> A \<Longrightarrow> m' x = mem s' x"
    with 1 list_editI [of A m' s c' f'] show ?thesis by simp
  qed
qed

lemma set_next_unlink:
  assumes ch: "chain (frame_next (mem s)) (frameList s) (ds @ x # rs)" and prev: "prev = pred_of ds"
  defines "s1 \<equiv> set_next prev (frame_next (mem s) x) s"
  shows "chain (frame_next (mem s1)) (frameList s1) (ds @ rs)"
    "frame_next (mem s1) x = frame_next (mem s) x" "freeCount s1 = freeCount s"
    "list_edit (set ds) s (s1\<lparr>freeCount := c\<rparr>)"
proof -
  have d: "distinct (ds @ x # rs)" using ch by (rule chain_distinct)
  have "chain (frame_next (mem s1)) (frameList s1) (ds @ rs) \<and>
      frame_next (mem s1) x = frame_next (mem s) x \<and> freeCount s1 = freeCount s \<and>
      list_edit (set ds) s (s1\<lparr>freeCount := c\<rparr>)" (is ?P)
  proof (cases "ds = []")
    case True
    with ch prev list_editI [of "{}" "mem s" s c "frame_next (mem s) x"] show ?P
      by (auto simp: s1_def set_next_def)
  next
    case False
    with chain_nonnull [OF ch, of "last ds"] have nz: "prev \<noteq> 0" "prev = last ds" "prev \<in> set ds"
      using prev by (auto simp: pred_of_def)
    then have "prev \<noteq> x" using d by auto
    moreover have "list_edit (set ds) s
        (s\<lparr>mem := (mem s)(prev := word_of_nat (frame_next (mem s) x)), frameList := frameList s, freeCount := c\<rparr>)"
      using nz(3) by (intro list_editI) auto
    ultimately show ?P using nz(1,2) False chain_unlink [OF ch]
      by (auto simp: s1_def set_next_def frame_next_def unat_word_of_nat_u32 unat_u32_bound)
  qed
  then show "chain (frame_next (mem s1)) (frameList s1) (ds @ rs)"
    "frame_next (mem s1) x = frame_next (mem s) x" "freeCount s1 = freeCount s"
    "list_edit (set ds) s (s1\<lparr>freeCount := c\<rparr>)" by blast+
qed

lemma list_edit_mono: "list_edit A s s' \<Longrightarrow> A \<subseteq> B \<Longrightarrow> list_edit B s s'"
  unfolding list_edit_def by (elim exE conjE) (rule exI, rule exI, rule exI, rule conjI, assumption, blast)

lemma unlink_loop_chain:
  "chain (frame_next (mem s)) (frameList s) (ds @ rs) \<Longrightarrow> chain (frame_next (mem s)) cur rs \<Longrightarrow>
   prev = pred_of ds \<Longrightarrow>
   \<exists>s'. unlink_loop P prev cur s = Some s'
     \<and> chain (frame_next (mem s')) (frameList s') (ds @ filter (\<lambda>a. \<not> P a) rs)
     \<and> freeCount s' = freeCount s - word_of_nat (length (filter P rs))
     \<and> list_edit (set (ds @ rs)) s s'"
proof (induction rs arbitrary: ds cur prev s)
  case Nil
  then show ?case by (simp add: unlink_loop.simps list_edit_refl)
next
  case (Cons x rs)
  then have x: "cur = x" "x \<noteq> 0" and chr: "chain (frame_next (mem s)) (frame_next (mem s) x) rs" by auto
  have d: "distinct (ds @ x # rs)" using Cons.prems(1) by (rule chain_distinct)
  show ?case
  proof (cases "P x")
    case True
    define s1 where "s1 = set_next prev (frame_next (mem s) x) s"
    define s2 where "s2 = s1\<lparr>freeCount := freeCount s1 - 1\<rparr>"
    note u = set_next_unlink [OF Cons.prems(1,3), folded s1_def]
    have c2: "chain (frame_next (mem s2)) (frameList s2) (ds @ rs)" using u(1) by (simp add: s2_def)
    have e2: "list_edit (set ds) s s2" unfolding s2_def by (rule u(4))
    have nx: "frame_next (mem s2) x = frame_next (mem s) x" using u(2) by (simp add: s2_def)
    have "frame_next (mem s2) q = frame_next (mem s) q" if "q \<in> set rs" for q
      using e2 d that by (auto simp: list_edit_def frame_next_def)
    then have "chain (frame_next (mem s2)) (frame_next (mem s2) x) rs"
      unfolding nx using chr by (subst chain_cong [of _ _ "frame_next (mem s)"]) auto
    from Cons.IH [OF c2 this Cons.prems(3)] obtain s' where s':
      "unlink_loop P prev (frame_next (mem s2) x) s2 = Some s'"
      "chain (frame_next (mem s')) (frameList s') (ds @ filter (\<lambda>a. \<not> P a) rs)"
      "freeCount s' = freeCount s2 - word_of_nat (length (filter P rs))"
      "list_edit (set (ds @ rs)) s2 s'" by blast
    have "unlink_loop P prev cur s = Some s'"
      using x True s'(1) by (subst unlink_loop.simps) (simp add: s1_def s2_def Let_def)
    moreover have "list_edit (set (ds @ x # rs)) s s'"
      by (rule list_edit_trans [OF list_edit_mono [OF e2] list_edit_mono [OF s'(4)]]) auto
    moreover have "freeCount s' = freeCount s - word_of_nat (length (filter P (x # rs)))"
      using s'(3) u(3) True by (simp add: s2_def algebra_simps)
    ultimately show ?thesis using s'(2) True by auto
  next
    case False
    have "prev = pred_of ds" "chain (frame_next (mem s)) (frameList s) ((ds @ [x]) @ rs)"
      using Cons.prems by simp_all
    from Cons.IH [OF this(2) chr, of x] False x show ?thesis
      by (subst unlink_loop.simps) simp
  qed
qed

lemma pmm_rep_edit:
  assumes "pmm_rep s fs" "list_edit A s s'" "chain (frame_next (mem s')) (frameList s') fs'"
    "set fs' \<subseteq> set fs" "freeCount s' = word_of_nat (length fs')"
  shows "pmm_rep s' fs'"
  using assms by (auto simp: pmm_rep_def list_edit_def)

lemma unlink_rep:
  assumes rep: "pmm_rep s fs"
  obtains s' where "unlink_loop P 0 (frameList s) s = Some s'" "pmm_rep s' (filter (\<lambda>a. \<not> P a) fs)"
    "list_edit (set fs) s s'"
proof -
  note ch = pmm_rep_chain [OF rep]
  from unlink_loop_chain [of s "[]" fs "frameList s" 0 P] ch obtain s' where s':
    "unlink_loop P 0 (frameList s) s = Some s'"
    "chain (frame_next (mem s')) (frameList s') (filter (\<lambda>a. \<not> P a) fs)"
    "freeCount s' = freeCount s - word_of_nat (length (filter P fs))"
    "list_edit (set fs) s s'" by auto
  have "length fs = length (filter P fs) + length (filter (\<lambda>a. \<not> P a) fs)"
    using sum_length_filter_compl [of P fs] by (simp add: comp_def)
  then have "freeCount s' = word_of_nat (length (filter (\<lambda>a. \<not> P a) fs))"
    using s'(3) rep by (simp add: pmm_rep_def)
  with pmm_rep_edit [OF rep s'(4,2)] s' that show thesis by auto
qed

lemma reserve_loop_chain:
  "chain (frame_next (mem s)) (frameList s) (ds @ rs) \<Longrightarrow> chain (frame_next (mem s)) cur rs \<Longrightarrow>
   prev = pred_of ds \<Longrightarrow> p \<notin> set ds \<Longrightarrow>
   reserve_loop p prev cur s =
     (if p \<in> set rs
      then let s1 = set_next (pred_of (ds @ takeWhile (\<lambda>x. x \<noteq> p) rs)) (frame_next (mem s) p) s;
               s2 = s1\<lparr>freeCount := freeCount s1 - 1\<rparr>
           in Some (case refCountEntry p s2 of None \<Rightarrow> s2
                    | Some e \<Rightarrow> s2\<lparr>refCounts := (refCounts s2)(e := 1)\<rparr>)
      else Some s)"
proof (induction rs arbitrary: ds cur prev)
  case Nil
  then show ?case by (simp add: reserve_loop.simps)
next
  case (Cons x rs)
  show ?case
  proof (cases "x = p")
    case True
    with Cons.prems show ?thesis by (simp add: reserve_loop.simps Let_def)
  next
    case False
    with Cons.prems have "reserve_loop p prev cur s = reserve_loop p x (frame_next (mem s) x) s"
      by (subst reserve_loop.simps) simp
    also have "\<dots> = (if p \<in> set rs
        then let s1 = set_next (pred_of ((ds @ [x]) @ takeWhile (\<lambda>x. x \<noteq> p) rs)) (frame_next (mem s) p) s;
               s2 = s1\<lparr>freeCount := freeCount s1 - 1\<rparr>
           in Some (case refCountEntry p s2 of None \<Rightarrow> s2
                    | Some e \<Rightarrow> s2\<lparr>refCounts := (refCounts s2)(e := 1)\<rparr>)
        else Some s)"
      using Cons.prems False by (intro Cons.IH) simp_all
    finally show ?thesis using False by simp
  qed
qed

lemma reserve_rep:
  assumes rep: "pmm_rep s fs" and p: "0 < p" "PAGE_SIZE dvd p"
  obtains s' where "reserveFrame p s = Some s'" "pmm_rep s' (remove1 p fs)"
    "maxFrameIdx s' = maxFrameIdx s"
    "refCounts s' = (if p \<in> set fs \<and> p div PAGE_SIZE < maxFrameIdx s
       then (refCounts s)(p div PAGE_SIZE := 1) else refCounts s)"
proof (cases "p \<in> set fs")
  case False
  with reserve_loop_chain [of s "[]" fs "frameList s" 0 p] pmm_rep_chain [OF rep] p
  have "reserveFrame p s = Some s" by (simp add: reserveFrame_def)
  with False rep show thesis by (intro that [of s]) (simp_all add: remove1_idem)
next
  case True
  note ch = pmm_rep_chain [OF rep]
  from True obtain xs ys where fs: "fs = xs @ p # ys" "p \<notin> set xs" by (meson split_list_first)
  have tw: "takeWhile (\<lambda>x. x \<noteq> p) fs = xs" using fs by (simp add: takeWhile_append)
  have rm: "remove1 p fs = xs @ ys" using fs by (simp add: remove1_append)
  define s1 where "s1 = set_next (pred_of xs) (frame_next (mem s) p) s"
  define s2 where "s2 = s1\<lparr>freeCount := freeCount s1 - 1\<rparr>"
  note u = set_next_unlink [OF ch [unfolded fs(1)] refl, folded s1_def]
  have ed: "list_edit (set xs) s s2" unfolding s2_def by (rule u(4))
  have c: "freeCount s2 = word_of_nat (length (xs @ ys))"
    using rep u(3) fs(1) by (simp add: pmm_rep_def s2_def)
  have rep2: "pmm_rep s2 (xs @ ys)"
    by (rule pmm_rep_edit [OF rep ed]) (use u(1) c fs(1) in \<open>auto simp: s2_def\<close>)
  have np: "p \<notin> set (xs @ ys)" using chain_distinct [OF ch] fs(1) by simp
  define s' where "s' = (if p div PAGE_SIZE < maxFrameIdx s2
      then s2\<lparr>refCounts := (refCounts s2)(p div PAGE_SIZE := 1)\<rparr> else s2)"
  have eq: "maxFrameIdx s2 = maxFrameIdx s" "refCounts s2 = refCounts s"
    using ed by (auto simp: list_edit_def)
  have "reserveFrame p s = Some s'"
    using reserve_loop_chain [of s "[]" fs "frameList s" 0 p] ch p(1) True tw
    by (simp add: reserveFrame_def s1_def s2_def s'_def Let_def)
  moreover have "pmm_rep s' (remove1 p fs)"
    using rep2 rep_refcount [OF rep2 np p(2), of 1] by (simp add: rm s'_def)
  ultimately show thesis by (rule that) (use True eq in \<open>simp_all add: s'_def\<close>)
qed

section \<open>Reference counting\<close>

lemma freeFrameFast_fields [simp]:
  "refCounts (freeFrameFast p s) = refCounts s" "maxFrameIdx (freeFrameFast p s) = maxFrameIdx s"
  "allocCount (freeFrameFast p s) = allocCount s" "freeTotalCount (freeFrameFast p s) = freeTotalCount s"
  by (simp_all add: freeFrameFast_def)

text \<open>Dropping a reference with \<open>removeRef\<close> and \<open>freeFrameFast\<close> is \<open>freeFrame\<close>, up to the
  message of the panic.\<close>

lemma releaseFrame_eq:
  assumes "p div PAGE_SIZE < maxFrameIdx s" "refCounts s (p div PAGE_SIZE) \<noteq> 0" "p \<noteq> 0"
  shows "releaseFrame p s = freeFrame p s"
  using assms by (simp add: freeFrame_cases releaseFrame_def removeRef_def Let_def freeFrameFast_def)

text \<open>The pool: a free list all of whose frames have a reference count.\<close>

definition pool :: "'a pmm_scheme \<Rightarrow> nat list \<Rightarrow> bool" where
  "pool s fs \<longleftrightarrow> pmm_rep s fs \<and> (\<forall>p \<in> set fs. p div PAGE_SIZE < maxFrameIdx s)"

definition counted :: "'a pmm_scheme \<Rightarrow> nat \<Rightarrow> bool" where
  "counted s p \<longleftrightarrow> PAGE_SIZE dvd p \<and> 0 < p \<and> p < 4294967296 \<and> p div PAGE_SIZE < maxFrameIdx s"

lemma refCount_counted: "counted s p \<Longrightarrow> refCount p s = refCounts s (p div PAGE_SIZE)"
  by (simp add: counted_def refCount_def)

lemma pool_free: "pool s fs \<Longrightarrow> p \<in> set fs \<Longrightarrow> counted s p \<and> refCount p s = 0"
  using pmm_rep_frame by (fastforce simp: pool_def counted_def refCount_def)

lemma pool_distinct: "pool s fs \<Longrightarrow> distinct fs"
  using chain_distinct pmm_rep_chain unfolding pool_def by blast

lemma allocFrame_max: "allocFrame s = (p, s') \<Longrightarrow> maxFrameIdx s' = maxFrameIdx s"
  using allocFrame_fields(7) [of s p s'] by (cases "frameList s = 0") (auto simp: allocFrame_def)

lemma pool_allocFrame:
  assumes "pool s (p # fs)"
  obtains s' where "allocFrame s = (p, s')" "pool s' fs" "counted s' = counted s"
    "counted s p" "\<And>q. counted s q \<Longrightarrow> refCount q s' = (if q = p then 1 else refCount q s)"
    "mem s' = fill_page (mem s) p 0" "freeCount s' + allocCount s' - freeTotalCount s'
       = freeCount s + allocCount s - freeTotalCount s"
proof -
  from assms have rep: "pmm_rep s (p # fs)" and mx: "\<And>q. q \<in> set (p # fs) \<Longrightarrow> q div PAGE_SIZE < maxFrameIdx s"
    by (auto simp: pool_def)
  from rep obtain s' where al: "allocFrame s = (p, s')" and r: "pmm_rep s' fs" by (rule allocFrame_rep)
  have cp: "counted s p" using pool_free [OF assms, of p] by simp
  then have nz: "frameList s \<noteq> 0" using rep by (auto simp: pmm_rep_def)
  note f = allocFrame_fields [OF nz al]
  have c: "counted s' = counted s" by (rule ext) (simp add: counted_def f(7))
  have "refCount q s' = (if q = p then 1 else refCount q s)" if q: "counted s q" for q
    using q cp aligned_pfn_inj [of q p] by (auto simp: refCount_counted c counted_def f(8) refCount_def f(7))
  moreover have "pool s' fs" using r mx by (simp add: pool_def f(7))
  ultimately show thesis
    using that [OF al] c cp f(3-6) by simp
qed

lemma pool_releaseFrame:
  assumes pl: "pool s fs" and p: "counted s p" "refCount p s \<noteq> 0"
  obtains s' where "releaseFrame p s = Inr s'"
    "pool s' (if refCount p s = 1 then p # fs else fs)" "counted s' = counted s"
    "\<And>q. counted s q \<Longrightarrow> refCount q s' = (if q = p then refCount p s - 1 else refCount q s)"
    "freeCount s' + allocCount s' - freeTotalCount s' = freeCount s + allocCount s - freeTotalCount s"
proof -
  let ?i = "p div PAGE_SIZE"
  let ?s1 = "s\<lparr>refCounts := (refCounts s)(?i := refCounts s ?i - 1)\<rparr>"
  have i: "?i < maxFrameIdx s" "PAGE_SIZE dvd p" "0 < p" "p < 4294967296" and rc: "refCounts s ?i \<noteq> 0"
    using p by (auto simp: counted_def refCount_def)
  define s' where "s' = (if refCounts s ?i = 1
      then (freeFrameFast p ?s1)\<lparr>freeTotalCount := freeTotalCount s + 1\<rparr> else ?s1)"
  from pl have rep: "pmm_rep s fs" by (simp add: pool_def)
  have np: "p \<notin> set fs" using pmm_rep_referenced [OF rep i(1) rc] .
  have rep1: "pmm_rep ?s1 fs" by (rule rep_refcount [OF rep np i(2)])
  have "pmm_rep (freeFrameFast p ?s1) (p # fs)" if "refCounts s ?i = 1"
    using freeFrameFast_rep [OF rep1 i(2,3,4) np] that by simp
  with rep1 pl i have "pool s' (if refCount p s = 1 then p # fs else fs)"
    by (auto simp: pool_def s'_def refCount_def)
  moreover have eq: "releaseFrame p s = Inr s'"
    using i rc by (simp add: releaseFrame_eq freeFrame_cases s'_def Let_def)
  moreover have c: "counted s' = counted s" by (rule ext) (simp add: counted_def s'_def)
  moreover have "refCount q s' = (if q = p then refCount p s - 1 else refCount q s)" if q: "counted s q" for q
    using q p aligned_pfn_inj [of q p] by (auto simp: refCount_counted c s'_def counted_def refCount_def)
  moreover have "freeCount s' + allocCount s' - freeTotalCount s' = freeCount s + allocCount s - freeTotalCount s"
    using i(3) by (simp add: s'_def freeFrameFast_def)
  ultimately show thesis by (intro that)
qed

lemma pool_addRef:
  assumes pl: "pool s fs" and p: "counted s p" "refCount p s \<noteq> 0"
  shows "pool (addRef p s) fs" "counted (addRef p s) = counted s"
    "counted s q \<Longrightarrow> refCount q (addRef p s) =
       (if q = p \<and> refCount p s < MAX_REFCOUNT then refCount p s + 1 else refCount q s)"
    "freeCount (addRef p s) + allocCount (addRef p s) - freeTotalCount (addRef p s)
       = freeCount s + allocCount s - freeTotalCount s"
proof -
  let ?i = "p div PAGE_SIZE"
  have i: "?i < maxFrameIdx s" "PAGE_SIZE dvd p" and rc: "refCounts s ?i \<noteq> 0"
    using p by (auto simp: counted_def refCount_def)
  from pl have rep: "pmm_rep s fs" by (simp add: pool_def)
  note rep_refcount [OF rep pmm_rep_referenced [OF rep i(1) rc] i(2)]
  with pl i show "pool (addRef p s) fs" by (auto simp: addRef_def pool_def)
  show c: "counted (addRef p s) = counted s" by (rule ext) (auto simp: counted_def addRef_def split: option.splits)
  show "freeCount (addRef p s) + allocCount (addRef p s) - freeTotalCount (addRef p s)
       = freeCount s + allocCount s - freeTotalCount s" by (simp add: addRef_def i)
  show "refCount q (addRef p s) =
       (if q = p \<and> refCount p s < MAX_REFCOUNT then refCount p s + 1 else refCount q s)" if q: "counted s q"
    using q p aligned_pfn_inj [of q p] by (auto simp: refCount_counted c addRef_def counted_def refCount_def)
qed

section \<open>The frame-pool interface\<close>

text \<open>What the page-table code does with frames. The ghost component counts the references each
  frame is held by.\<close>

inductive frame_client ::
  "('s \<Rightarrow> nat \<times> 's) \<Rightarrow> (nat \<Rightarrow> 's \<Rightarrow> 's) \<Rightarrow> (nat \<Rightarrow> 's \<Rightarrow> string + 's) \<Rightarrow>
     's \<times> (nat \<Rightarrow> nat) \<Rightarrow> 's \<times> (nat \<Rightarrow> nat) \<Rightarrow> bool"
  for al rf rl where
  take_frame: "al s = (p, s') \<Longrightarrow> p \<noteq> 0 \<Longrightarrow> frame_client al rf rl (s, H) (s', H(p := 1))"
| take_none: "al s = (0, s') \<Longrightarrow> frame_client al rf rl (s, H) (s', H)"
| share: "0 < H p \<Longrightarrow> H p < 255 \<Longrightarrow> frame_client al rf rl (s, H) (rf p s, H(p := H p + 1))"
| drop: "0 < H p \<Longrightarrow> rl p s = Inr s' \<Longrightarrow> frame_client al rf rl (s, H) (s', H(p := H p - 1))"

locale frame_pool =
  fixes alloc :: "'s \<Rightarrow> nat \<times> 's"
    and ref :: "nat \<Rightarrow> 's \<Rightarrow> 's"
    and release :: "nat \<Rightarrow> 's \<Rightarrow> string + 's"
    and free_frames :: "'s \<Rightarrow> nat list \<Rightarrow> bool"
    and valid :: "'s \<Rightarrow> nat \<Rightarrow> bool"
    and count :: "nat \<Rightarrow> 's \<Rightarrow> nat"
  assumes valid_nonnull: "valid s p \<Longrightarrow> p \<noteq> 0"
    and alloc_none: "free_frames s [] \<Longrightarrow> alloc s = (0, s)"
    and alloc_frame: "free_frames s (p # fs) \<Longrightarrow> \<exists>s'. alloc s = (p, s') \<and> free_frames s' fs
      \<and> valid s' = valid s \<and> valid s p \<and> (\<forall>q. valid s q \<longrightarrow> count q s' = (if q = p then 1 else count q s))"
    and free_unreferenced: "free_frames s fs \<Longrightarrow> p \<in> set fs \<Longrightarrow> count p s = 0"
    and ref_law: "free_frames s fs \<Longrightarrow> valid s p \<Longrightarrow> 0 < count p s \<Longrightarrow> count p s < 255 \<Longrightarrow>
      free_frames (ref p s) fs \<and> valid (ref p s) = valid s
      \<and> (\<forall>q. valid s q \<longrightarrow> count q (ref p s) = (if q = p then count p s + 1 else count q s))"
    and release_law: "free_frames s fs \<Longrightarrow> valid s p \<Longrightarrow> 0 < count p s \<Longrightarrow>
      \<exists>s'. release p s = Inr s' \<and> free_frames s' (if count p s = 1 then p # fs else fs)
        \<and> valid s' = valid s
        \<and> (\<forall>q. valid s q \<longrightarrow> count q s' = (if q = p then count p s - 1 else count q s))"
begin

definition tracks :: "'s \<Rightarrow> (nat \<Rightarrow> nat) \<Rightarrow> bool" where
  "tracks s H \<longleftrightarrow> (\<exists>fs. free_frames s fs) \<and> (\<forall>p. 0 < H p \<longrightarrow> valid s p \<and> count p s = H p)"

lemma tracks_held:
  "tracks s H \<Longrightarrow> 0 < H p \<Longrightarrow> valid s p \<and> count p s = H p"
  by (simp add: tracks_def)

lemma client_step_tracks:
  assumes "frame_client alloc ref release (s, H) (s', H')" "tracks s H"
  shows "tracks s' H'"
  using assms(1)
proof (cases rule: frame_client.cases)
  case (take_frame p)
  from assms(2) obtain fs where fs: "free_frames s fs" by (auto simp: tracks_def)
  show ?thesis
  proof (cases fs)
    case Nil
    with fs alloc_none take_frame show ?thesis by auto
  next
    case (Cons q qs)
    from alloc_frame [OF fs [unfolded Cons]] take_frame(2) assms(2) fs show ?thesis
      unfolding take_frame(1) tracks_def by (auto split: if_splits)
  qed
next
  case take_none
  from assms(2) obtain fs where fs: "free_frames s fs" by (auto simp: tracks_def)
  show ?thesis
  proof (cases fs)
    case Nil
    with fs alloc_none take_none assms(2) show ?thesis by auto
  next
    case (Cons q qs)
    from alloc_frame [OF fs [unfolded Cons]] take_none valid_nonnull show ?thesis by auto
  qed
next
  case (share p)
  from assms(2) obtain fs where fs: "free_frames s fs" by (auto simp: tracks_def)
  from ref_law [OF fs, of p] tracks_held [OF assms(2) share(3)] share assms(2) show ?thesis
    by (auto simp: tracks_def)
next
  case (drop p)
  from assms(2) obtain fs where fs: "free_frames s fs" by (auto simp: tracks_def)
  from release_law [OF fs, of p] tracks_held [OF assms(2) drop(2)] drop assms(2) show ?thesis
    by (fastforce simp: tracks_def)
qed

lemma client_tracks:
  assumes "(frame_client alloc ref release)\<^sup>*\<^sup>* c c'" "tracks (fst c) (snd c)"
  shows "tracks (fst c') (snd c')"
  using assms
proof (induction rule: rtranclp_induct)
  case (step c c')
  then show ?case using client_step_tracks by (metis prod.collapse)
qed simp

lemma alloc_unheld:
  assumes "tracks s H" "alloc s = (p, s')" "p \<noteq> 0"
  shows "H p = 0"
proof (rule ccontr)
  assume "H p \<noteq> 0"
  from assms(1) obtain fs where fs: "free_frames s fs" by (auto simp: tracks_def)
  with alloc_none assms(2,3) obtain q qs where f: "fs = q # qs" by (cases fs) auto
  with alloc_frame fs assms(2) have "q = p" by fastforce
  with free_unreferenced [OF fs, of p] f tracks_held [OF assms(1), of p] \<open>H p \<noteq> 0\<close> show False by simp
qed

lemma release_held:
  "tracks s H \<Longrightarrow> 0 < H p \<Longrightarrow> \<exists>s'. release p s = Inr s'"
  using release_law tracks_held unfolding tracks_def by metis

end

interpretation pp: frame_pool allocFrame addRef releaseFrame pool counted "\<lambda>p s. unat (refCount p s)"
proof unfold_locales
  fix s :: "'a pmm_scheme" and p fs
  show "counted s p \<Longrightarrow> p \<noteq> 0" by (simp add: counted_def)
  show "pool s [] \<Longrightarrow> allocFrame s = (0, s)" by (simp add: pool_def allocFrame_empty)
  show "pool s fs \<Longrightarrow> p \<in> set fs \<Longrightarrow> unat (refCount p s) = 0" using pool_free by fastforce
  show "\<exists>s'. allocFrame s = (p, s') \<and> pool s' fs \<and> counted s' = counted s \<and> counted s p
      \<and> (\<forall>q. counted s q \<longrightarrow> unat (refCount q s') = (if q = p then 1 else unat (refCount q s)))"
    if "pool s (p # fs)"
    using that by (rule pool_allocFrame) auto
next
  fix s :: "'a pmm_scheme" and p fs
  assume a: "pool s fs" "counted s p" "0 < unat (refCount p s)"
  then have nz: "refCount p s \<noteq> 0" by auto
  have pred: "unat (refCount p s - 1) = unat (refCount p s) - 1"
    using a(3) by (simp add: unat_sub word_le_nat_alt)
  have one: "refCount p s = 1 \<longleftrightarrow> unat (refCount p s) = 1" by (simp add: word_unat_eq_iff)
  from pool_releaseFrame [OF a(1,2) nz] obtain s' where "releaseFrame p s = Inr s'"
    "pool s' (if refCount p s = 1 then p # fs else fs)" "counted s' = counted s"
    "\<And>q. counted s q \<Longrightarrow> refCount q s' = (if q = p then refCount p s - 1 else refCount q s)" by blast
  with pred one show "\<exists>s'. releaseFrame p s = Inr s' \<and> pool s' (if unat (refCount p s) = 1 then p # fs else fs)
      \<and> counted s' = counted s
      \<and> (\<forall>q. counted s q \<longrightarrow> unat (refCount q s') = (if q = p then unat (refCount p s) - 1 else unat (refCount q s)))"
    by (intro exI [of _ s']) simp
  assume lt: "unat (refCount p s) < 255"
  then have "refCount p s < MAX_REFCOUNT" "unat (refCount p s + 1) = unat (refCount p s) + 1"
    by (simp_all add: MAX_REFCOUNT_def word_less_nat_alt unat_word_ariths)
  with pool_addRef [OF a(1,2) nz]
  show "pool (addRef p s) fs \<and> counted (addRef p s) = counted s
      \<and> (\<forall>q. counted s q \<longrightarrow> unat (refCount q (addRef p s)) = (if q = p then unat (refCount p s) + 1 else unat (refCount q s)))"
    by simp
qed

section \<open>Building the free list at boot\<close>

lemma mask12: "(4095 :: u32) = mask 12"
  by (simp add: mask_eq_exp_minus_1)

lemma page_down_aligned: "PAGE_SIZE dvd unat (page_down a)"
  unfolding page_down_def mask12 unat_align_down by (simp add: PAGE_SIZE_def)

lemma page_up_aligned: "PAGE_SIZE dvd unat (page_up a)"
  unfolding page_up_def mask12 unat_align_down by (simp add: PAGE_SIZE_def)

function pages_from :: "nat \<Rightarrow> nat \<Rightarrow> nat list" where
  "pages_from a hi = (if a < hi then a # pages_from (a + PAGE_SIZE) hi else [])"
  by pat_completeness auto
termination by (relation "measure (\<lambda>(a, hi). hi - a)") (auto simp: PAGE_SIZE_def)

declare pages_from.simps [simp del]

lemma pages_from_set:
  "p \<in> set (pages_from a hi) \<longleftrightarrow> a \<le> p \<and> p < hi \<and> PAGE_SIZE dvd (p - a)"
proof (induction a hi rule: pages_from.induct)
  case (1 a hi)
  show ?case
  proof (cases "a < hi")
    case True
    have "a \<le> p \<and> PAGE_SIZE dvd p - a \<longleftrightarrow> p = a \<or> a + PAGE_SIZE \<le> p \<and> PAGE_SIZE dvd p - (a + PAGE_SIZE)"
    proof (cases "a + PAGE_SIZE \<le> p")
      case True
      then have "p - a = (p - (a + PAGE_SIZE)) + PAGE_SIZE" by simp
      then have "PAGE_SIZE dvd p - a \<longleftrightarrow> PAGE_SIZE dvd p - (a + PAGE_SIZE)" by (metis dvd_add_left_iff dvd_refl)
      with True show ?thesis by (auto simp: PAGE_SIZE_def)
    next
      case False
      then show ?thesis by (auto simp: PAGE_SIZE_def dest: dvd_imp_le)
    qed
    with 1 True show ?thesis by (subst pages_from.simps) auto
  next
    case False
    then show ?thesis by (subst pages_from.simps) auto
  qed
qed

lemma pages_from_distinct: "distinct (pages_from a hi)"
  by (induction a hi rule: pages_from.induct)
     (subst pages_from.simps, auto simp: pages_from_set PAGE_SIZE_def)

text \<open>The pages of one region that are handed to the list.\<close>

definition region_frames :: "nat \<Rightarrow> (u32 \<times> u32) list \<Rightarrow> u32 \<times> u64 \<times> u64 \<Rightarrow> nat list" where
  "region_frames kernelEnd modules e =
     (case e of (typ, base, len) \<Rightarrow>
        if typ = 1 then filter (\<lambda>p. 0 < p \<and> \<not> page_skipped kernelEnd modules p)
          (pages_from (unat (page_up (ucast base))) (unat (page_down (ucast (base + len)))))
        else [])"

lemma add_pages_rep:
  "pmm_rep s fs \<Longrightarrow> maxFrameIdx s = 0 \<Longrightarrow> PAGE_SIZE dvd a \<Longrightarrow> hi < 4294967296 \<Longrightarrow>
   set (filter (\<lambda>p. 0 < p \<and> \<not> page_skipped ke ms p) (pages_from a hi)) \<inter> set fs = {} \<Longrightarrow>
   pmm_rep (add_pages ke ms a hi s)
     (rev (filter (\<lambda>p. 0 < p \<and> \<not> page_skipped ke ms p) (pages_from a hi)) @ fs)
   \<and> maxFrameIdx (add_pages ke ms a hi s) = 0"
proof (induction ke ms a hi s arbitrary: fs rule: add_pages.induct)
  case (1 ke ms a hi s)
  let ?ok = "\<lambda>p. 0 < p \<and> \<not> page_skipped ke ms p"
  show ?case
  proof (cases "a < hi")
    case False
    with 1 show ?thesis by (simp add: add_pages.simps [of ke ms a] pages_from.simps [of a])
  next
    case True
    let ?s = "if page_skipped ke ms a then s else freeFrameFast a s"
    let ?fs = "if ?ok a then a # fs else fs"
    have pf: "pages_from a hi = a # pages_from (a + PAGE_SIZE) hi"
      using True by (subst pages_from.simps) simp
    have na: "a \<notin> set (pages_from (a + PAGE_SIZE) hi)" by (auto simp: pages_from_set PAGE_SIZE_def)
    have "pmm_rep ?s ?fs"
    proof (cases "?ok a")
      case True
      then have "a \<notin> set fs" using "1.prems"(5) pf by auto
      with True "1.prems" freeFrameFast_rep [of s fs a] \<open>a < hi\<close> show ?thesis by simp
    next
      case False
      with "1.prems"(1) show ?thesis by (auto simp: freeFrameFast_def)
    qed
    moreover have "maxFrameIdx ?s = 0" using "1.prems"(2) by simp
    moreover have "PAGE_SIZE dvd a + PAGE_SIZE" using "1.prems"(3) by simp
    moreover have "set (filter ?ok (pages_from (a + PAGE_SIZE) hi)) \<inter> set ?fs = {}"
      using "1.prems"(5) pf na by auto
    ultimately have "pmm_rep (add_pages ke ms (a + PAGE_SIZE) hi ?s)
        (rev (filter ?ok (pages_from (a + PAGE_SIZE) hi)) @ ?fs)
        \<and> maxFrameIdx (add_pages ke ms (a + PAGE_SIZE) hi ?s) = 0"
      using "1.IH" [OF True] "1.prems"(4) by blast
    moreover have "add_pages ke ms a hi s = add_pages ke ms (a + PAGE_SIZE) hi ?s"
      using True by (subst add_pages.simps) simp
    moreover have "rev (filter ?ok (pages_from a hi)) @ fs = rev (filter ?ok (pages_from (a + PAGE_SIZE) hi)) @ ?fs"
      by (simp add: pf)
    ultimately show ?thesis by (simp only:)
  qed
qed

lemma add_regions_rep:
  "pmm_rep s fs \<Longrightarrow> maxFrameIdx s = 0 \<Longrightarrow> distinct (concat (map (region_frames ke ms) es) @ fs) \<Longrightarrow>
   \<exists>s' h'. fold (add_region ke ms) es (s, h) = (s', h')
     \<and> pmm_rep s' (rev (concat (map (region_frames ke ms) es)) @ fs)"
proof (induction es arbitrary: s fs h)
  case Nil
  then show ?case by simp
next
  case (Cons e es)
  obtain ty base len where e: "e = (ty, base, len)" by (cases e) auto
  let ?r = "region_frames ke ms e"
  obtain s1 h1 where s1: "add_region ke ms e (s, h) = (s1, h1)" by fastforce
  have "pmm_rep s1 (rev ?r @ fs) \<and> maxFrameIdx s1 = 0"
  proof (cases "ty = 1")
    case True
    with add_pages_rep [OF Cons.prems(1,2) page_up_aligned, of "unat (page_down (ucast (base + len)))"
        ke ms "ucast base"] s1 e Cons.prems(3)
    show ?thesis by (auto simp: add_region_def region_frames_def Let_def unat_u32_bound)
  next
    case False
    with s1 e Cons.prems show ?thesis by (auto simp: add_region_def region_frames_def)
  qed
  moreover have "distinct (concat (map (region_frames ke ms) es) @ rev ?r @ fs)"
    using Cons.prems(3) by auto
  ultimately show ?case using Cons.IH [of s1 "rev ?r @ fs" h1] s1 by simp
qed

definition boot_modules :: "multiboot \<Rightarrow> 'a pmm_scheme \<Rightarrow> (u32 \<times> u32) list" where
  "boot_modules mbi s = collectModuleRanges (cacheModuleInfo mbi s)"

lemma region_frames_set:
  "p \<in> set (region_frames ke ms (typ, base, len)) \<longleftrightarrow>
     typ = 1 \<and> unat (page_up (ucast base)) \<le> p \<and> p < unat (page_down (ucast (base + len)))
     \<and> PAGE_SIZE dvd p \<and> 0 < p \<and> \<not> page_skipped ke ms p"
proof -
  let ?a = "unat (page_up (ucast base))"
  have "PAGE_SIZE dvd p - ?a \<longleftrightarrow> PAGE_SIZE dvd p" if "?a \<le> p"
    using page_up_aligned [of "ucast base"] that by (metis dvd_add_right_iff le_add_diff_inverse)
  then show ?thesis by (auto simp: region_frames_def pages_from_set)
qed

lemma pmm_init_rep:
  assumes s: "frameList s = 0" "freeCount s = 0" "maxFrameIdx s = 0"
    and d: "distinct (concat (map (region_frames ke (boot_modules mbi s)) (mb_mmap mbi)))"
  obtains s' where "pmm_init ke mbi s = Some s'"
    "pmm_rep s' (remove1 0xB8000 (rev (concat (map (region_frames ke (boot_modules mbi s)) (mb_mmap mbi)))))"
    "\<And>p. p \<noteq> 0xB8000 div PAGE_SIZE \<Longrightarrow> p < maxFrameIdx s' \<Longrightarrow> refCounts s' p = 0"
proof -
  define s1 where "s1 = cacheModuleInfo mbi s"
  let ?ms = "boot_modules mbi s"
  let ?fs = "rev (concat (map (region_frames ke ?ms) (mb_mmap mbi)))"
  have "pmm_rep s1 []" "maxFrameIdx s1 = 0"
    using s by (auto simp: pmm_rep_def s1_def cacheModuleInfo_def Let_def)
  from add_regions_rep [OF this, of ke ?ms "mb_mmap mbi" 0] d obtain s2 h where
    f: "fold (add_region ke ?ms) (mb_mmap mbi) (s1, 0) = (s2, h)" and rep2: "pmm_rep s2 ?fs" by auto
  define idx where "idx = (let i = unat ((h + 4096 - 1) div 4096) in if i > MAX_FRAMES then MAX_FRAMES else i)"
  define s3 where "s3 = s2\<lparr>maxFrameIdx := idx, refCounts := (\<lambda>i. if i < idx then 0 else refCounts s2 i)\<rparr>"
  have am: "addMemoryMapPages ke mbi ?ms s1 = s3"
    by (simp add: addMemoryMapPages_def f s3_def idx_def Let_def)
  have rep3: "pmm_rep s3 ?fs" using rep2 by (auto simp: pmm_rep_def s3_def)
  have vga: "0 < (0xB8000 :: nat)" "PAGE_SIZE dvd 0xB8000" by (simp_all add: PAGE_SIZE_def)
  from reserve_rep [OF rep3 vga] obtain s' where s': "reserveFrame 0xB8000 s3 = Some s'" "pmm_rep s' (remove1 0xB8000 ?fs)"
    "maxFrameIdx s' = maxFrameIdx s3"
    "refCounts s' = (if 0xB8000 \<in> set ?fs \<and> 0xB8000 div PAGE_SIZE < maxFrameIdx s3
       then (refCounts s3)(0xB8000 div PAGE_SIZE := 1) else refCounts s3)"
    by blast
  have "pmm_init ke mbi s = Some s'"
    using s'(1) by (simp add: pmm_init_def Let_def s1_def [symmetric] am [symmetric] boot_modules_def)
  then show thesis using s'(2) by (rule that) (use s'(3,4) in \<open>auto simp: s3_def\<close>)
qed

section \<open>Conservation\<close>

text \<open>Free frames plus frames in use (allocations minus releases), as the counters record them.\<close>

definition balance :: "'a pmm_scheme \<Rightarrow> u32" where
  "balance s = freeCount s + allocCount s - freeTotalCount s"

lemma step_balance:
  assumes "frame_client allocFrame addRef releaseFrame (s, H) (s', H')" "pp.tracks s H"
  shows "balance s' = balance s"
proof -
  from assms(2) obtain fs where fs: "pool s fs" by (auto simp: pp.tracks_def)
  have al: "balance s'' = balance s" if "allocFrame s = (p, s'')" for p s''
  proof (cases fs)
    case Nil
    with fs that show ?thesis by (simp add: pp.alloc_none)
  next
    case (Cons q qs)
    with fs that show ?thesis by (auto simp: balance_def elim!: pool_allocFrame)
  qed
  have held: "counted s p \<and> refCount p s \<noteq> 0" if "0 < H p" for p
    using pp.tracks_held [OF assms(2) that] that by auto
  from assms(1) show ?thesis
  proof (cases rule: frame_client.cases)
    case (drop p)
    with held have "counted s p" "refCount p s \<noteq> 0" by auto
    from pool_releaseFrame [OF fs this] drop(3) show ?thesis
      by (metis sum.inject(2) balance_def)
  next
    case (share p)
    with held pool_addRef(4) [OF fs] show ?thesis by (simp add: balance_def)
  qed (use al in auto)
qed

lemma client_balance:
  assumes "(frame_client allocFrame addRef releaseFrame)\<^sup>*\<^sup>* c c'" "pp.tracks (fst c) (snd c)"
  shows "pp.tracks (fst c') (snd c') \<and> balance (fst c') = balance (fst c)"
  using assms
proof (induction rule: rtranclp_induct)
  case (step c c')
  then show ?case using pp.client_step_tracks step_balance by (metis prod.collapse)
qed simp

section \<open>Properties of the frame allocator\<close>

text \<open>C4. Boot: with a memory map whose usable pages do not overlap, \<open>init\<close> returns, the free list
  holds exactly the page-aligned non-null pages of the type-1 regions outside the kernel
  image, outside every module and different from the VGA buffer, each once, and every one of
  them has reference count 0.\<close>

theorem pmm_init_correct:
  assumes "frameList s = 0" "freeCount s = 0" "maxFrameIdx s = 0"
    "distinct (concat (map (region_frames ke (boot_modules mbi s)) (mb_mmap mbi)))"
  shows "\<exists>s' fs. pmm_init ke mbi s = Some s' \<and> pmm_rep s' fs \<and> distinct fs
    \<and> (\<forall>p. p \<in> set fs \<longleftrightarrow> 0 < p \<and> p \<noteq> 0xB8000 \<and> PAGE_SIZE dvd p
         \<and> \<not> page_skipped ke (boot_modules mbi s) p
         \<and> (\<exists>base len. (1, base, len) \<in> set (mb_mmap mbi)
              \<and> unat (page_up (ucast base)) \<le> p \<and> p < unat (page_down (ucast (base + len)))))
    \<and> freeFrameCount s' = word_of_nat (length fs)"
proof -
  let ?all = "concat (map (region_frames ke (boot_modules mbi s)) (mb_mmap mbi))"
  from assms obtain s' where s': "pmm_init ke mbi s = Some s'" "pmm_rep s' (remove1 0xB8000 (rev ?all))"
    by (rule pmm_init_rep)
  have "p \<in> set ?all \<longleftrightarrow> (\<exists>base len. (1, base, len) \<in> set (mb_mmap mbi)
      \<and> p \<in> set (region_frames ke (boot_modules mbi s) (1, base, len)))" for p
    by (force simp: region_frames_def split: if_splits)
  then have "p \<in> set (remove1 0xB8000 (rev ?all)) \<longleftrightarrow> (\<exists>base len. (1, base, len) \<in> set (mb_mmap mbi)
      \<and> p \<in> set (region_frames ke (boot_modules mbi s) (1, base, len))) \<and> p \<noteq> 0xB8000" for p
    using assms(4) by (simp add: set_remove1_eq del: set_concat set_map)
  with s' assms(4) show ?thesis
    by (intro exI [of _ s'] exI [of _ "remove1 0xB8000 (rev ?all)"])
       (auto simp: region_frames_set freeFrameCount_def pmm_rep_def distinct_remove1)
qed

definition boot_pmm :: pmm where
  "boot_pmm = \<lparr>mem = \<lambda>_. 0, freeList = 0, heapStart = 0, heapEnd = 0, ready = False,
     frameList = 0, freeCount = 0, allocCount = 0, highWaterFrames = 0, freeTotalCount = 0,
     modStart = replicate 16 0, modSize = replicate 16 0, modCount = 0,
     refCounts = \<lambda>_. 0, maxFrameIdx = 0\<rparr>"

definition demo_mbi :: multiboot where
  "demo_mbi = \<lparr>mb_flags = 8, mb_mods = [(0x301000, 0x301800)], mb_mmap = [(1, 0x300000, 0x3000), (2, 0x400000, 0x1000)]\<rparr>"

lemma demo_pages:
  "pages_from 3145728 3158016 = [3145728, 3149824, 3153920]"
  by (simp add: pages_from.simps PAGE_SIZE_def)

theorem pmm_init_correct_witness:
  "\<exists>s' fs. pmm_init 0x200000 demo_mbi boot_pmm = Some s' \<and> pmm_rep s' fs \<and> 0x300000 \<in> set fs \<and> 0x301000 \<notin> set fs"
proof -
  have m: "boot_modules demo_mbi boot_pmm = [(0x301000, 0x302000)]"
    by (simp add: boot_modules_def collectModuleRanges_def cacheModuleInfo_def demo_mbi_def boot_pmm_def
        MAX_MODULE_RANGES_def page_up_def page_down_def)
  have "distinct (concat (map (region_frames 0x200000 (boot_modules demo_mbi boot_pmm)) (mb_mmap demo_mbi)))"
    unfolding m by (simp add: demo_mbi_def region_frames_def page_up_def page_down_def demo_pages)
  then obtain s' fs where s': "pmm_init 0x200000 demo_mbi boot_pmm = Some s'" "pmm_rep s' fs"
    and mem: "\<And>p. p \<in> set fs \<longleftrightarrow> 0 < p \<and> p \<noteq> 0xB8000 \<and> PAGE_SIZE dvd p
         \<and> \<not> page_skipped 0x200000 (boot_modules demo_mbi boot_pmm) p
         \<and> (\<exists>base len. (1, base, len) \<in> set (mb_mmap demo_mbi)
              \<and> unat (page_up (ucast base)) \<le> p \<and> p < unat (page_down (ucast (base + len))))"
    using pmm_init_correct [where s = boot_pmm and ke = "0x200000" and mbi = demo_mbi] by (auto simp: boot_pmm_def)
  have "0x300000 \<in> set fs"
    by (simp only: mem m) (auto simp: demo_mbi_def page_up_def page_down_def page_skipped_def PAGE_SIZE_def KERNEL_START_def)
  moreover have "0x301000 \<notin> set fs"
    by (simp only: mem m) (simp add: page_skipped_def)
  ultimately show ?thesis using s' by blast
qed


definition demo_pmm :: pmm where
  "demo_pmm = boot_pmm\<lparr>mem := (\<lambda>_. 0)(8192 := 12288), frameList := 8192, freeCount := 2, maxFrameIdx := 16\<rparr>"

lemma demo_pool: "pool demo_pmm [8192, 12288]"
  by (simp add: pool_def pmm_rep_def demo_pmm_def boot_pmm_def frame_next_def PAGE_SIZE_def)


text \<open>\<open>allocFrame\<close>: an empty list gives null and no change; otherwise the head frame is removed,
  all its cells are zero, no other cell changes, and its reference count becomes 1.\<close>

theorem allocFrame_correct:
  assumes "pool s fs"
  shows "case fs of [] \<Rightarrow> allocFrame s = (0, s)
    | p # ps \<Rightarrow> \<exists>s'. allocFrame s = (p, s') \<and> pool s' ps \<and> p \<notin> set ps \<and> refCount p s' = 1
        \<and> (\<forall>a. mem s' a = (if a \<in> page p then 0 else mem s a))
        \<and> (\<forall>q. counted s q \<and> q \<noteq> p \<longrightarrow> refCount q s' = refCount q s)"
proof (cases fs)
  case Nil
  with assms show ?thesis by (simp add: pp.alloc_none)
next
  case (Cons p ps)
  with assms have pl: "pool s (p # ps)" by simp
  then have "p \<notin> set ps" using pool_distinct by fastforce
  moreover from pl obtain s' where "allocFrame s = (p, s')" "pool s' ps" "counted s p"
    "\<And>q. counted s q \<Longrightarrow> refCount q s' = (if q = p then 1 else refCount q s)"
    "mem s' = fill_page (mem s) p 0" by (rule pool_allocFrame) blast
  ultimately show ?thesis using Cons by (auto simp: fill_page_def page_def)
qed

theorem allocFrame_correct_witness:
  "\<exists>s'. allocFrame demo_pmm = (8192, s') \<and> pool s' [12288]"
  using allocFrame_correct [OF demo_pool] by auto



text \<open>Reserving: \<open>reserveRegion\<close> and \<open>removeFramesAbove\<close> return and leave exactly the frames outside
  the (page-rounded) interval, respectively below the boundary, in their order, with an exact
  free count; besides list links nothing changes.\<close>

theorem pmm_reserve_correct:
  assumes "pmm_rep s fs"
  shows "(\<exists>s'. reserveRegion a b s = Some s' \<and> list_edit (set fs) s s'
      \<and> pmm_rep s' (filter (\<lambda>p. \<not> (unat (page_up (word_of_nat a)) \<le> p \<and> p < unat (page_down (word_of_nat b)))) fs))
    \<and> (\<exists>s'. removeFramesAbove boundary s = Some s' \<and> list_edit (set fs) s s'
      \<and> pmm_rep s' (filter (\<lambda>p. p < boundary) fs))"
proof -
  from assms obtain s1 where 1: "removeFramesAbove boundary s = Some s1"
    "pmm_rep s1 (filter (\<lambda>p. \<not> p \<ge> boundary) fs)" "list_edit (set fs) s s1"
    unfolding removeFramesAbove_def by (rule unlink_rep)
  let ?P = "\<lambda>p. unat (page_up (word_of_nat a)) \<le> p \<and> p < unat (page_down (word_of_nat b))"
  from assms obtain s2 where "reserveRegion a b s = Some s2"
    "pmm_rep s2 (filter (\<lambda>p. \<not> ?P p) fs)" "list_edit (set fs) s s2"
    unfolding reserveRegion_def Let_def by (rule unlink_rep)
  with 1 show ?thesis by (auto simp: not_le)
qed

theorem pmm_reserve_correct_witness:
  "\<exists>s'. reserveRegion 8000 12300 demo_pmm = Some s' \<and> pmm_rep s' [12288]"
  using pmm_reserve_correct [of demo_pmm "[8192, 12288]" 8000 12300 0] demo_pool
  by (auto simp: pool_def page_up_def page_down_def)

text \<open>Memory above 4 GiB is not skipped: a region of the map that starts \<open>2\<^sup>3\<^sup>2\<close> bytes higher is
  processed exactly like the region below 4 GiB with the same low address bits, so its pages
  alias low frames.\<close>

theorem pmm_high_memory_aliases:
  "add_region ke ms (ty, base + 0x100000000, len) acc = add_region ke ms (ty, base, len) acc"
proof -
  have "(ucast (x + 0x100000000 :: u64) :: u32) = ucast x" for x
    using mod_mod_cancel [of "2 ^ 32" "2 ^ 64" "unat x + 2 ^ 32"]
    by (simp add: word_unat_eq_iff unsigned_ucast_eq unat_word_ariths take_bit_eq_mod)
  note trunc = this
  have "base + 0x100000000 + len = base + len + 0x100000000" by simp
  with trunc [of base] trunc [of "base + len"] show ?thesis
    by (simp only: add_region_def prod.case)
qed

end
