(* ===== verification/Paging.thy ===== *)
theory Paging
  imports Pmm
begin

unbundle bit_operations_syntax

text \<open>
  Virtual memory (kernel/arch/i386/Paging.cc): two-level x86 page tables in frames of the
  physical memory manager, copy-on-write sharing of user frames, and the page directories of
  the kernel and of user tasks.

  Memory is addressed by physical address. A kernel pointer obtained with \<open>physToVirt32\<close> (the
  higher-half alias at \<open>0xC0000000\<close>) is represented by the physical address it aliases, so the two
  conversions are the identity here. Loading CR0/CR3 and flushing the TLB do not change
  memory. The corrupt-entry checks \<open>CHECK_PHYS_ADDR\<close> end in a panic, the left value of a sum.
\<close>

section \<open>Entries\<close>

definition PAGE_PRESENT :: u32 where "PAGE_PRESENT = 1"
definition PAGE_RW :: u32 where "PAGE_RW = 2"
definition PAGE_USER :: u32 where "PAGE_USER = 4"
definition PAGE_ADDR_MASK :: u32 where "PAGE_ADDR_MASK = 0xFFFFF000"
definition PAGE_COW :: u32 where "PAGE_COW = 0x200"

definition TRAMPOLINE_VADDR :: nat where "TRAMPOLINE_VADDR = 0xBF000000"
definition PDE_SIZE :: nat where "PDE_SIZE = 4 * 1024 * 1024"
definition HIGHER_HALF_PDE :: nat where "HIGHER_HALF_PDE = 768"
definition PDE_COUNT :: nat where "PDE_COUNT = 1024"
definition PTE_COUNT :: nat where "PTE_COUNT = 1024"

lemmas page_flag_defs = PAGE_PRESENT_def PAGE_RW_def PAGE_USER_def PAGE_ADDR_MASK_def PAGE_COW_def

text \<open>A flag test as the code writes it, \<open>entry & FLAG\<close>.\<close>

definition has :: "u32 \<Rightarrow> u32 \<Rightarrow> bool" where
  "has e flag \<longleftrightarrow> e AND flag \<noteq> 0"

definition frame_of :: "u32 \<Rightarrow> nat" where
  "frame_of e = unat (e AND PAGE_ADDR_MASK)"

record paging = pmm +
  kernelPageDir :: nat
  pageFaults :: u32
  cowFaults :: u32
  userPageFaults :: u32

definition entry :: "'a kmem_scheme \<Rightarrow> nat \<Rightarrow> nat \<Rightarrow> u32" where
  "entry s tab i = mem s (tab + 4 * i)"

definition set_entry :: "nat \<Rightarrow> nat \<Rightarrow> u32 \<Rightarrow> 'a kmem_scheme \<Rightarrow> 'a kmem_scheme" where
  "set_entry tab i e s = s\<lparr>mem := (mem s)(tab + 4 * i := e)\<rparr>"

definition roundUp4K :: "u32 \<Rightarrow> u32" where
  "roundUp4K v = (v + 0xFFF) AND PAGE_ADDR_MASK"

definition pdePhysAddr :: "u32 \<Rightarrow> nat" where
  "pdePhysAddr pde = unat (pde AND PAGE_ADDR_MASK)"

definition pde_index :: "nat \<Rightarrow> nat" where
  "pde_index virtAddr = virtAddr div PDE_SIZE"

definition pte_index :: "nat \<Rightarrow> nat" where
  "pte_index virtAddr = (virtAddr mod PDE_SIZE) div PAGE_SIZE"

section \<open>Page-table helpers\<close>

definition ensurePageTable ::
  "nat \<Rightarrow> nat \<Rightarrow> u32 \<Rightarrow> 'a paging_scheme \<Rightarrow> bool \<times> 'a paging_scheme" where
  "ensurePageTable pageDir pdeIdx flags s =
     (let (frame, s1) = allocFrame s
      in if frame = 0 then (False, s1)
         else let s2 = s1\<lparr>mem := fill_page (mem s1) frame 0\<rparr>
              in (True, set_entry pageDir pdeIdx
                          (word_of_nat frame OR PAGE_PRESENT OR PAGE_RW OR (flags AND PAGE_USER)) s2))"

text \<open>\<^const>\<open>None\<close> is the null result: the directory entry is not present.\<close>

definition resolvePageTable :: "nat \<Rightarrow> nat \<Rightarrow> 'a paging_scheme \<Rightarrow> string + nat option" where
  "resolvePageTable virtAddr pageDir s =
     (let pde = entry s pageDir (pde_index virtAddr)
      in if \<not> has pde PAGE_PRESENT then Inr None
         else let ptPhys = frame_of pde
              in if isBadPhysAddr ptPhys s then Inl ''resolvePageTable: corrupt PDE''
                 else Inr (Some ptPhys))"

definition tryFreePageTable :: "nat \<Rightarrow> nat \<Rightarrow> 'a paging_scheme \<Rightarrow> string + 'a paging_scheme" where
  "tryFreePageTable pageDir pdeIdx s =
     (let ptPhys = frame_of (entry s pageDir pdeIdx)
      in if isBadPhysAddr ptPhys s then Inl ''tryFreePageTable: corrupt PDE''
         else if list_ex (\<lambda>i. entry s ptPhys i \<noteq> 0) [0..<PTE_COUNT] then Inr s
         else freeFrame ptPhys (set_entry pageDir pdeIdx 0 s))"

section \<open>Mapping and unmapping\<close>

text \<open>The tail of \<open>mapPage\<close> once the page table is known: release the frame that was mapped there,
  write the entry, open the directory entry to user mode if asked.\<close>

definition write_pte ::
  "nat \<Rightarrow> nat \<Rightarrow> u32 \<Rightarrow> u32 \<Rightarrow> nat \<Rightarrow> 'a paging_scheme \<Rightarrow> string + 'a paging_scheme" where
  "write_pte pt virtAddr physAddr flags pageDir s =
     (let old = entry s pt (pte_index virtAddr);
          oldPhys = frame_of old;
          r = (if has old PAGE_PRESENT then
                 if isBadPhysAddr oldPhys s then Inl ''mapPage: corrupt PTE'' else releaseFrame oldPhys s
               else Inr s)
      in case r of Inl e \<Rightarrow> Inl e
         | Inr s1 \<Rightarrow>
             let s2 = set_entry pt (pte_index virtAddr)
                        ((physAddr AND PAGE_ADDR_MASK) OR PAGE_PRESENT OR (flags AND (PAGE_RW OR PAGE_USER))) s1;
                 pde = entry s2 pageDir (pde_index virtAddr)
             in Inr (if has flags PAGE_USER \<and> \<not> has pde PAGE_USER
                     then set_entry pageDir (pde_index virtAddr) (pde OR PAGE_USER) s2 else s2))"

definition mapPage ::
  "nat \<Rightarrow> u32 \<Rightarrow> u32 \<Rightarrow> nat \<Rightarrow> 'a paging_scheme \<Rightarrow> string + bool \<times> 'a paging_scheme" where
  "mapPage virtAddr physAddr flags pageDir s =
     (case resolvePageTable virtAddr pageDir s of
        Inl e \<Rightarrow> Inl e
      | Inr (Some pt) \<Rightarrow>
          (case write_pte pt virtAddr physAddr flags pageDir s of Inl e \<Rightarrow> Inl e | Inr s' \<Rightarrow> Inr (True, s'))
      | Inr None \<Rightarrow>
          (let (ok, s1) = ensurePageTable pageDir (pde_index virtAddr) flags s
           in if \<not> ok then Inr (False, s1)
              else case resolvePageTable virtAddr pageDir s1 of
                Inl e \<Rightarrow> Inl e
              | Inr None \<Rightarrow> Inl ''mapPage: null page table''
              | Inr (Some pt) \<Rightarrow>
                  (case write_pte pt virtAddr physAddr flags pageDir s1 of
                     Inl e \<Rightarrow> Inl e | Inr s' \<Rightarrow> Inr (True, s'))))"

definition unmapPage :: "nat \<Rightarrow> nat \<Rightarrow> 'a paging_scheme \<Rightarrow> string + 'a paging_scheme" where
  "unmapPage virtAddr pageDir s =
     (case resolvePageTable virtAddr pageDir s of
        Inl e \<Rightarrow> Inl e
      | Inr None \<Rightarrow> Inr s
      | Inr (Some pt) \<Rightarrow>
          let old = entry s pt (pte_index virtAddr);
              framePhys = frame_of old;
              r = (if has old PAGE_PRESENT then
                     if isBadPhysAddr framePhys s then Inl ''unmapPage: corrupt PTE''
                     else releaseFrame framePhys s
                   else Inr s)
          in case r of Inl e \<Rightarrow> Inl e
             | Inr s1 \<Rightarrow> tryFreePageTable pageDir (pde_index virtAddr) (set_entry pt (pte_index virtAddr) 0 s1))"

definition kernelPageDirPhys :: "'a paging_scheme \<Rightarrow> nat" where
  "kernelPageDirPhys s = kernelPageDir s"

text \<open>Releasing every present frame of a page table, the loop of \<open>clearPageTable\<close> and
  \<open>freePageDirectory\<close>.\<close>

definition release_entry :: "string \<Rightarrow> nat \<Rightarrow> nat \<Rightarrow> 'a paging_scheme \<Rightarrow> string + 'a paging_scheme" where
  "release_entry ctx pt i s =
     (let pte = entry s pt i
      in if \<not> has pte PAGE_PRESENT then Inr s
         else if isBadPhysAddr (frame_of pte) s then Inl (ctx @ '': corrupt PTE'')
         else releaseFrame (frame_of pte) s)"

definition clearPageTable :: "nat \<Rightarrow> nat \<Rightarrow> 'a paging_scheme \<Rightarrow> string + 'a paging_scheme" where
  "clearPageTable virtAddr pageDir s =
     (case resolvePageTable virtAddr pageDir s of
        Inl e \<Rightarrow> Inl e
      | Inr _ \<Rightarrow>
          let pdeIdx = pde_index virtAddr; pde = entry s pageDir pdeIdx
          in if \<not> has pde PAGE_PRESENT then Inr s
             else let oldPtPhys = frame_of pde
             in if isBadPhysAddr oldPtPhys s then Inl ''clearPageTable: corrupt PDE''
             else let (newFrame, s1) = allocFrame s
             in if newFrame = 0 then Inr s1
             else let s2 = s1\<lparr>mem := fill_page (mem s1) newFrame 0\<rparr>
             in case foldE (release_entry ''clearPageTable'' oldPtPhys) [0..<PTE_COUNT] s2 of
                  Inl e \<Rightarrow> Inl e
                | Inr s3 \<Rightarrow>
                    let pde' = entry s3 pageDir pdeIdx;
                        s4 = set_entry pageDir pdeIdx
                               (word_of_nat newFrame OR (pde' AND (PAGE_PRESENT OR PAGE_RW OR PAGE_USER))) s3
                    in freeFrame oldPtPhys s4)"

section \<open>Page directories\<close>

text \<open>The rollback of \<open>clonePageDir\<close>: drop the references taken for the entries below \<open>upTo\<close>.\<close>

definition rollback_entry :: "nat \<Rightarrow> nat \<Rightarrow> 'a paging_scheme \<Rightarrow> string + 'a paging_scheme" where
  "rollback_entry pt k s =
     (let pte = entry s pt k
      in if \<not> has pte PAGE_PRESENT then Inr s
         else case removeRef (frame_of pte) s of Inl e \<Rightarrow> Inl e | Inr (_, s') \<Rightarrow> Inr s')"

definition rollback_table :: "nat \<Rightarrow> nat \<Rightarrow> 'a paging_scheme \<Rightarrow> string + 'a paging_scheme" where
  "rollback_table newPd j s =
     (let pde = entry s newPd j
      in if \<not> has pde PAGE_PRESENT \<or> \<not> has pde PAGE_USER then Inr s
         else let pt = pdePhysAddr pde
              in case foldE (rollback_entry pt) [0..<PTE_COUNT] s of
                   Inl e \<Rightarrow> Inl e
                 | Inr s1 \<Rightarrow> freeFrame (pdePhysAddr (entry s1 newPd j)) s1)"

definition clone_rollback :: "nat \<Rightarrow> nat \<Rightarrow> 'a paging_scheme \<Rightarrow> string + 'a paging_scheme" where
  "clone_rollback newPd upTo s =
     (case foldE (rollback_table newPd) [0..<upTo] s of
        Inl e \<Rightarrow> Inl e
      | Inr s1 \<Rightarrow> freeFrame newPd s1)"

text \<open>\<open>memcpy\<close> of one frame.\<close>

definition copy_page :: "memory \<Rightarrow> nat \<Rightarrow> nat \<Rightarrow> memory" where
  "copy_page m dst src = (\<lambda>a. if dst \<le> a \<and> a < dst + PAGE_SIZE then m (src + (a - dst)) else m a)"

definition share_entry :: "nat \<Rightarrow> nat \<Rightarrow> 'a paging_scheme \<Rightarrow> string + 'a paging_scheme" where
  "share_entry newPt j s =
     (let pte = entry s newPt j
      in if \<not> has pte PAGE_PRESENT then Inr s
         else if isBadPhysAddr (frame_of pte) s then Inl ''clonePageDir: corrupt PTE''
         else Inr (addRef (frame_of pte) s))"

definition cow_entry :: "nat \<Rightarrow> nat \<Rightarrow> 'a paging_scheme \<Rightarrow> 'a paging_scheme" where
  "cow_entry newPt j s =
     (let pte = entry s newPt j
      in if has pte PAGE_PRESENT \<and> has pte PAGE_RW
         then let s1 = set_entry newPt j (pte AND NOT PAGE_RW) s
              in set_entry newPt j (entry s1 newPt j OR PAGE_COW) s1
         else s)"

text \<open>One iteration of the clone loop. \<open>Inr (False, s)\<close> is out of memory, after the rollback.\<close>

definition clone_pde ::
  "nat \<Rightarrow> nat \<Rightarrow> nat \<Rightarrow> 'a paging_scheme \<Rightarrow> string + bool \<times> 'a paging_scheme" where
  "clone_pde newPd srcPd i s =
     (let pde = entry s srcPd i
      in if \<not> has pde PAGE_PRESENT then Inr (True, s)
         else if has pde PAGE_USER then
           let (newPt, s1) = allocFrame s
           in if newPt = 0 then
                (case clone_rollback newPd i s1 of Inl e \<Rightarrow> Inl e | Inr s2 \<Rightarrow> Inr (False, s2))
              else let oldPt = pdePhysAddr pde
              in if isBadPhysAddr oldPt s1 then Inl ''clonePageDir: corrupt PDE''
              else let s2 = s1\<lparr>mem := copy_page (mem s1) newPt oldPt\<rparr>;
                       s3 = set_entry newPd i (word_of_nat newPt OR (pde AND NOT PAGE_ADDR_MASK)) s2
              in case foldE (share_entry newPt) [0..<PTE_COUNT] s3 of
                   Inl e \<Rightarrow> Inl e
                 | Inr s4 \<Rightarrow> Inr (True, fold (cow_entry newPt) [0..<PTE_COUNT] s4)
         else Inr (True, set_entry newPd i pde s))"

fun clone_loop ::
  "nat \<Rightarrow> nat \<Rightarrow> nat list \<Rightarrow> 'a paging_scheme \<Rightarrow> string + nat \<times> 'a paging_scheme" where
  "clone_loop newPd srcPd [] s = Inr (newPd, s)"
| "clone_loop newPd srcPd (i # is) s =
     (case clone_pde newPd srcPd i s of
        Inl e \<Rightarrow> Inl e
      | Inr (ok, s') \<Rightarrow> if ok then clone_loop newPd srcPd is s' else Inr (0, s'))"

definition clonePageDir :: "nat \<Rightarrow> 'a paging_scheme \<Rightarrow> string + nat \<times> 'a paging_scheme" where
  "clonePageDir srcDirPhys s =
     (let (newPd, s1) = allocFrame s
      in if newPd = 0 then Inr (0, s1)
         else clone_loop newPd srcDirPhys [0..<PDE_COUNT] (s1\<lparr>mem := fill_page (mem s1) newPd 0\<rparr>))"

definition free_pde :: "nat \<Rightarrow> nat \<Rightarrow> 'a paging_scheme \<Rightarrow> string + 'a paging_scheme" where
  "free_pde pd i s =
     (let pde = entry s pd i
      in if \<not> has pde PAGE_PRESENT \<or> \<not> has pde PAGE_USER then Inr s
         else let ptPhys = frame_of pde
              in if isBadPhysAddr ptPhys s then Inl ''freePageDirectory: corrupt PDE''
                 else case foldE (release_entry ''freePageDirectory'' ptPhys) [0..<PTE_COUNT] s of
                   Inl e \<Rightarrow> Inl e
                 | Inr s1 \<Rightarrow> freeFrame ptPhys s1)"

definition freePageDirectory :: "nat \<Rightarrow> 'a paging_scheme \<Rightarrow> string + 'a paging_scheme" where
  "freePageDirectory pageDirPhys s = foldE (free_pde pageDirPhys) [0..<PDE_COUNT] s"

section \<open>Copy on write\<close>

definition handleCowFault ::
  "nat \<Rightarrow> nat \<Rightarrow> 'a paging_scheme \<Rightarrow> string + bool \<times> 'a paging_scheme" where
  "handleCowFault faultAddr pageDirPhys s =
     (let pdeIdx = faultAddr div 2 ^ 22;
          pteIdx = faultAddr div 2 ^ 12 mod 1024;
          pde = entry s pageDirPhys pdeIdx
      in if \<not> has pde PAGE_PRESENT \<or> \<not> has pde PAGE_USER then Inr (False, s)
         else let ptPhys = frame_of pde
      in if isBadPhysAddr ptPhys s then Inl ''handleCowFault: corrupt PDE''
         else let oldPte = entry s ptPhys pteIdx
      in if \<not> has oldPte PAGE_PRESENT \<or> \<not> has oldPte PAGE_COW then Inr (False, s)
         else let oldFrame = frame_of oldPte
      in if isBadPhysAddr oldFrame s then Inl ''handleCowFault: corrupt PTE''
         else let s1 = s\<lparr>cowFaults := cowFaults s + 1\<rparr>
      in if refCount oldFrame s1 = 1 then
           let s2 = set_entry ptPhys pteIdx (oldPte OR PAGE_RW) s1
           in Inr (True, set_entry ptPhys pteIdx (entry s2 ptPhys pteIdx AND NOT PAGE_COW) s2)
         else let (newFrame, s2) = allocFrame s1
      in if newFrame = 0 then Inr (False, s2)
         else let s3 = s2\<lparr>mem := copy_page (mem s2) newFrame oldFrame\<rparr>
      in case removeRef oldFrame s3 of
           Inl e \<Rightarrow> Inl e
         | Inr (_, s4) \<Rightarrow>
             let s5 = set_entry ptPhys pteIdx ((oldPte AND NOT PAGE_ADDR_MASK) OR word_of_nat newFrame) s4;
                 s6 = set_entry ptPhys pteIdx (entry s5 ptPhys pteIdx OR PAGE_RW) s5
             in Inr (True, set_entry ptPhys pteIdx (entry s6 ptPhys pteIdx AND NOT PAGE_COW) s6))"

section \<open>Boot\<close>

definition calcNumPageTables :: "u32 \<Rightarrow> int" where
  "calcNumPageTables e =
     (let n = (e + word_of_nat PDE_SIZE - 1) div word_of_nat PDE_SIZE
      in if sint n < 1 then 1 else sint n)"

text \<open>The inner loop: identity-map the pages of one directory entry below the end.\<close>

definition identity_pte :: "nat \<Rightarrow> u32 \<Rightarrow> nat \<Rightarrow> nat \<Rightarrow> 'a paging_scheme \<Rightarrow> 'a paging_scheme" where
  "identity_pte pt identityMapEnd pdeIdx pteIdx s =
     (let pageAddr = word_of_nat pdeIdx * word_of_nat PDE_SIZE + word_of_nat pteIdx * 4096
      in if pageAddr < identityMapEnd then set_entry pt pteIdx (pageAddr OR PAGE_PRESENT OR PAGE_RW) s else s)"

definition free_tables :: "nat \<Rightarrow> nat \<Rightarrow> 'a paging_scheme \<Rightarrow> string + 'a paging_scheme" where
  "free_tables pageDir n s = foldE (\<lambda>i s. freeFrame (pdePhysAddr (entry s pageDir i)) s) [0..<n] s"

fun setup_loop ::
  "nat \<Rightarrow> u32 \<Rightarrow> nat list \<Rightarrow> 'a paging_scheme \<Rightarrow> string + bool \<times> 'a paging_scheme" where
  "setup_loop pageDir identityMapEnd [] s = Inr (True, s)"
| "setup_loop pageDir identityMapEnd (i # is) s =
     (let (pt, s1) = allocFrame s
      in if pt = 0 then
           (case free_tables pageDir i s1 of Inl e \<Rightarrow> Inl e | Inr s2 \<Rightarrow> Inr (False, s2))
         else
           let s2 = s1\<lparr>mem := fill_page (mem s1) pt 0\<rparr>;
               s3 = fold (identity_pte pt identityMapEnd i) [0..<PTE_COUNT] s2
           in setup_loop pageDir identityMapEnd is
                (set_entry pageDir i (word_of_nat pt OR PAGE_PRESENT OR PAGE_RW) s3))"

definition setupIdentityMap ::
  "nat \<Rightarrow> nat \<Rightarrow> u32 \<Rightarrow> 'a paging_scheme \<Rightarrow> string + bool \<times> 'a paging_scheme" where
  "setupIdentityMap pageDir numPageTables identityMapEnd s =
     setup_loop pageDir identityMapEnd [0..<numPageTables] s"

definition mirrorHigherHalf :: "nat \<Rightarrow> nat \<Rightarrow> 'a paging_scheme \<Rightarrow> 'a paging_scheme" where
  "mirrorHigherHalf pageDir numPageTables s =
     fold (\<lambda>i s. set_entry pageDir (HIGHER_HALF_PDE + i)
                   ((entry s pageDir i AND PAGE_ADDR_MASK) OR PAGE_PRESENT OR PAGE_RW) s)
       [0..<numPageTables] s"

definition mapTrampoline :: "'a paging_scheme \<Rightarrow> string + 'a paging_scheme" where
  "mapTrampoline s =
     (let (trampFrame, s1) = allocFrame s
      in if trampFrame = 0 then Inr s1
         else case mapPage TRAMPOLINE_VADDR (word_of_nat trampFrame) (PAGE_PRESENT OR PAGE_RW)
                     (kernelPageDirPhys s1) s1 of
           Inl e \<Rightarrow> Inl e
         | Inr (ok, s2) \<Rightarrow> if ok then Inr s2 else freeFrame trampFrame s2)"

text \<open>\<open>init\<close>: the outer option is the unbounded list walk of \<open>removeFramesAbove\<close>.\<close>

definition paging_init :: "u32 \<Rightarrow> 'a paging_scheme \<Rightarrow> (string + 'a paging_scheme) option" where
  "paging_init mapEnd s =
     (let identityMapEnd = roundUp4K mapEnd;
          numPageTables = nat (calcNumPageTables identityMapEnd);
          (pageDirPhys, s1) = allocFrame s
      in if pageDirPhys = 0 then Some (Inr s1)
         else case setupIdentityMap pageDirPhys numPageTables identityMapEnd
                     (s1\<lparr>mem := fill_page (mem s1) pageDirPhys 0\<rparr>) of
           Inl e \<Rightarrow> Some (Inl e)
         | Inr (False, s2) \<Rightarrow> Some (freeFrame pageDirPhys s2)
         | Inr (True, s2) \<Rightarrow>
             (case removeFramesAbove (unat identityMapEnd) (mirrorHigherHalf pageDirPhys numPageTables s2) of
                None \<Rightarrow> None
              | Some s3 \<Rightarrow>
                  let s4 = s3\<lparr>kernelPageDir := pageDirPhys\<rparr>
                  in if entry s4 pageDirPhys 0 AND PAGE_ADDR_MASK
                        \<noteq> entry s4 pageDirPhys HIGHER_HALF_PDE AND PAGE_ADDR_MASK
                     then Some (Inr s4) else Some (mapTrampoline s4)))"

section \<open>Entry words\<close>

lemma addr_mask: "PAGE_ADDR_MASK = NOT (mask 12)"
  by (simp add: PAGE_ADDR_MASK_def mask_eq_exp_minus_1)

lemma frame_of_alt: "frame_of e = unat e div PAGE_SIZE * PAGE_SIZE"
  unfolding frame_of_def addr_mask unat_align_down by (simp add: PAGE_SIZE_def)

lemma pdePhysAddr_frame_of: "pdePhysAddr e = frame_of e"
  by (simp add: pdePhysAddr_def frame_of_def)

lemma frame_of_aligned [simp]: "PAGE_SIZE dvd frame_of e"
  by (simp add: frame_of_alt)

lemma frame_of_bound: "frame_of e < 4294967296"
  by (simp add: frame_of_def unat_u32_bound)

text \<open>Flags do not disturb the frame address.\<close>

lemma frame_of_or_flags: "f AND PAGE_ADDR_MASK = 0 \<Longrightarrow> frame_of (e OR f) = frame_of e"
  by (simp add: frame_of_def bit.conj_disj_distrib2)

lemma and_addr_mask_idem: "(e AND PAGE_ADDR_MASK) AND PAGE_ADDR_MASK = e AND PAGE_ADDR_MASK"
  by (simp add: and.assoc)

lemma frame_of_nat: "PAGE_SIZE dvd p \<Longrightarrow> p < 4294967296 \<Longrightarrow> frame_of (word_of_nat p) = p"
  by (simp add: frame_of_alt unat_word_of_nat_u32)

lemma word_of_frame_of: "word_of_nat (frame_of e) = e AND PAGE_ADDR_MASK"
  by (simp add: frame_of_def)

lemma frame_of_pde:
  assumes "PAGE_SIZE dvd p" "p < 4294967296"
  shows "frame_of (word_of_nat p OR PAGE_PRESENT OR PAGE_RW OR (flags AND PAGE_USER)) = p"
proof -
  have "(PAGE_PRESENT OR PAGE_RW OR (flags AND PAGE_USER)) AND PAGE_ADDR_MASK = 0"
    by (simp add: page_flag_defs bit.conj_disj_distrib2 and.assoc)
  with assms show ?thesis by (simp add: frame_of_or_flags frame_of_nat or.assoc)
qed

lemma has_or: "has (e OR f) b \<longleftrightarrow> has e b \<or> has f b"
  by (simp add: has_def bit.conj_disj_distrib2 or_eq_0_iff)

lemma has_present [simp]: "has PAGE_PRESENT PAGE_PRESENT"
  by (simp add: has_def page_flag_defs)

section \<open>Tables in memory\<close>

lemma page_cell: "i < 1024 \<Longrightarrow> tab + 4 * i \<in> page tab"
  by (simp add: page_def PAGE_SIZE_def)

lemma entry_set_entry:
  assumes "i < 1024" "j < 1024" "PAGE_SIZE dvd a" "PAGE_SIZE dvd b"
  shows "entry (set_entry a i e s) b j = (if a = b \<and> i = j then e else entry s b j)"
proof -
  have "a = b \<and> i = j" if "a + 4 * i = b + 4 * j"
  proof -
    have "a = b"
      using aligned_pages [OF assms(3,4)] page_cell [OF assms(1), of a] page_cell [OF assms(2), of b] that by auto
    with that show ?thesis by simp
  qed
  then show ?thesis by (auto simp: entry_def set_entry_def)
qed

text \<open>Two states agree on a table.\<close>

lemma entry_same_page:
  assumes "\<And>x. x \<in> page b \<Longrightarrow> mem s' x = mem s x" "j < 1024"
  shows "entry s' b j = entry s b j"
  using assms(1) [OF page_cell [OF assms(2)]] by (simp add: entry_def)

lemma set_entry_fields [simp]:
  fixes s :: "'a paging_scheme"
  shows "frameList (set_entry t i e s) = frameList s" "freeCount (set_entry t i e s) = freeCount s"
    "refCounts (set_entry t i e s) = refCounts s" "maxFrameIdx (set_entry t i e s) = maxFrameIdx s"
    "allocCount (set_entry t i e s) = allocCount s" "freeTotalCount (set_entry t i e s) = freeTotalCount s"
  by (simp_all add: set_entry_def)

lemma isBad_same: "maxFrameIdx s' = maxFrameIdx s \<Longrightarrow> isBadPhysAddr p s' = isBadPhysAddr p s"
  by (simp add: isBadPhysAddr_def maxPhysAddr_def)

lemma counted_same: "maxFrameIdx s' = maxFrameIdx s \<Longrightarrow> counted s' = counted s"
  by (rule ext) (simp add: counted_def)

text \<open>Writing an entry of a table that is not a free frame does not disturb the pool.\<close>

lemma pool_set_entry:
  fixes s :: "'a paging_scheme"
  assumes "pool s fs" "PAGE_SIZE dvd t" "t \<notin> set fs" "i < 1024"
  shows "pool (set_entry t i e s) fs"
proof -
  have rep: "pmm_rep s fs" using assms(1) by (simp add: pool_def)
  have "p \<noteq> t + 4 * i" if "p \<in> set fs" for p
    using aligned_not_in_page [OF assms(2) pmm_rep_frame(1) [OF rep that]] page_cell [OF assms(4), of t] assms(3) that
    by auto
  then have "chain (frame_next (mem (set_entry t i e s))) (frameList s) fs"
    using pmm_rep_chain [OF rep] by (subst chain_cong [of _ _ "frame_next (mem s)"])
      (auto simp: frame_next_def set_entry_def)
  with assms(1) show ?thesis by (simp add: pool_def pmm_rep_def)
qed

lemma releaseFrame_mem:
  assumes "releaseFrame f s = Inr s'" "x \<noteq> f"
  shows "mem s' x = mem s x"
  using assms by (auto simp: releaseFrame_def removeRef_def freeFrameFast_def Let_def
      split: option.splits if_splits)

lemma releaseFrame_max: "releaseFrame f s = Inr s' \<Longrightarrow> maxFrameIdx s' = maxFrameIdx s"
  by (auto simp: releaseFrame_def removeRef_def Let_def split: option.splits if_splits)

lemma releaseFrame_entry:
  assumes "releaseFrame f s = Inr s'" "PAGE_SIZE dvd f" "PAGE_SIZE dvd t" "f \<noteq> t" "j < 1024"
  shows "entry s' t j = entry s t j"
proof (rule entry_same_page [OF _ assms(5)])
  fix x assume "x \<in> page t"
  then have "x \<noteq> f" using aligned_not_in_page [OF assms(3,2)] assms(4) by blast
  with releaseFrame_mem [OF assms(1)] show "mem s' x = mem s x" by simp
qed

section \<open>Address spaces\<close>

text \<open>The walk the processor does for a 4 KiB page: the page-table entry, if both levels are present.\<close>

definition translate :: "'a kmem_scheme \<Rightarrow> nat \<Rightarrow> nat \<Rightarrow> u32 option" where
  "translate s pd v =
     (let pde = entry s pd (pde_index v)
      in if has pde PAGE_PRESENT then
           let pte = entry s (frame_of pde) (pte_index v)
           in if has pte PAGE_PRESENT then Some pte else None
         else None)"

lemma pte_index_bound: "pte_index v < 1024"
  unfolding pte_index_def PAGE_SIZE_def PDE_SIZE_def by (rule less_mult_imp_div_less) simp

lemma pde_index_bound: "v < 4294967296 \<Longrightarrow> pde_index v < 1024"
  by (simp add: pde_index_def PDE_SIZE_def less_mult_imp_div_less)

text \<open>A well-formed directory over a frame pool: the directory and its tables are frames in use.\<close>

definition dir_ok :: "'a paging_scheme \<Rightarrow> nat \<Rightarrow> nat list \<Rightarrow> bool" where
  "dir_ok s pd fs \<longleftrightarrow> pool s fs \<and> PAGE_SIZE dvd pd \<and> pd \<notin> set fs
     \<and> (\<forall>i < 1024. has (entry s pd i) PAGE_PRESENT \<longrightarrow>
          frame_of (entry s pd i) \<notin> set fs \<and> frame_of (entry s pd i) \<noteq> pd
          \<and> \<not> isBadPhysAddr (frame_of (entry s pd i)) s)"

text \<open>A frame that is neither the directory nor one of its tables.\<close>

definition is_data :: "'a paging_scheme \<Rightarrow> nat \<Rightarrow> nat \<Rightarrow> bool" where
  "is_data s pd f \<longleftrightarrow> f \<noteq> pd \<and> (\<forall>i < 1024. has (entry s pd i) PAGE_PRESENT \<longrightarrow> frame_of (entry s pd i) \<noteq> f)"

lemma dir_ok_pde:
  assumes "dir_ok s pd fs" "i < 1024" "has (entry s pd i) PAGE_PRESENT"
  shows "frame_of (entry s pd i) \<notin> set fs" "frame_of (entry s pd i) \<noteq> pd"
    "\<not> isBadPhysAddr (frame_of (entry s pd i)) s"
  using assms unfolding dir_ok_def by blast+

lemma dir_ok_pool: "dir_ok s pd fs \<Longrightarrow> pool s fs \<and> PAGE_SIZE dvd pd \<and> pd \<notin> set fs"
  by (simp add: dir_ok_def)

lemma dir_okI:
  assumes "pool s fs" "PAGE_SIZE dvd pd" "pd \<notin> set fs"
    "\<And>i. i < 1024 \<Longrightarrow> has (entry s pd i) PAGE_PRESENT \<Longrightarrow>
       frame_of (entry s pd i) \<notin> set fs \<and> frame_of (entry s pd i) \<noteq> pd \<and> \<not> isBadPhysAddr (frame_of (entry s pd i)) s"
  shows "dir_ok s pd fs"
  using assms unfolding dir_ok_def by blast

section \<open>Mapping\<close>

text \<open>The entry \<open>mapPage\<close> writes.\<close>

definition new_pte :: "u32 \<Rightarrow> u32 \<Rightarrow> u32" where
  "new_pte phys flags = (phys AND PAGE_ADDR_MASK) OR PAGE_PRESENT OR (flags AND (PAGE_RW OR PAGE_USER))"

lemma new_pte_present [simp]: "has (new_pte phys flags) PAGE_PRESENT"
  by (simp add: new_pte_def has_or)

lemma frame_of_user [simp]: "frame_of (e OR PAGE_USER) = frame_of e"
  by (rule frame_of_or_flags) (simp add: page_flag_defs)

text \<open>The two addresses use the same entry of the same present table (a table can be reached
  through two directory entries: the higher half mirrors the identity map).\<close>

definition same_slot :: "'a kmem_scheme \<Rightarrow> nat \<Rightarrow> nat \<Rightarrow> nat \<Rightarrow> bool" where
  "same_slot s pd v v' \<longleftrightarrow> has (entry s pd (pde_index v)) PAGE_PRESENT
     \<and> has (entry s pd (pde_index v')) PAGE_PRESENT
     \<and> frame_of (entry s pd (pde_index v)) = frame_of (entry s pd (pde_index v'))
     \<and> pte_index v = pte_index v'"

lemma pool_releaseFrame':
  assumes "pool s fs" "counted s f" "refCount f s \<noteq> 0"
  obtains s' fs' where "releaseFrame f s = Inr s'" "pool s' fs'" "set fs' \<subseteq> insert f (set fs)"
    "\<And>q. counted s q \<Longrightarrow> q \<noteq> f \<Longrightarrow> refCount q s' = refCount q s"
proof -
  from assms obtain s' where s': "releaseFrame f s = Inr s'"
    "pool s' (if refCount f s = 1 then f # fs else fs)"
    "\<And>q. counted s q \<Longrightarrow> refCount q s' = (if q = f then refCount f s - 1 else refCount q s)"
    by (rule pool_releaseFrame) blast
  show thesis by (rule that [OF s'(1,2)]) (auto simp: s'(3))
qed

text \<open>Releasing the frame of the old entry keeps the directory.\<close>

lemma release_dir_ok:
  fixes s :: "'a paging_scheme"
  assumes ok: "dir_ok s pd fs" and f: "PAGE_SIZE dvd f" "is_data s pd f" "counted s f" "refCount f s \<noteq> 0"
  obtains s' fs' where "releaseFrame f s = Inr s'" "dir_ok s' pd fs'" "maxFrameIdx s' = maxFrameIdx s"
    "\<And>t j. PAGE_SIZE dvd t \<Longrightarrow> t \<noteq> f \<Longrightarrow> j < 1024 \<Longrightarrow> entry s' t j = entry s t j"
    "\<And>q. counted s q \<Longrightarrow> q \<noteq> f \<Longrightarrow> refCount q s' = refCount q s"
proof -
  note pl = dir_ok_pool [OF ok]
  obtain s' fs' where r: "releaseFrame f s = Inr s'" "pool s' fs'" "set fs' \<subseteq> insert f (set fs)"
    "\<And>q. counted s q \<Longrightarrow> q \<noteq> f \<Longrightarrow> refCount q s' = refCount q s"
    using pool_releaseFrame' [of s fs f] pl f by metis
  note ent = releaseFrame_entry [OF r(1) f(1)] and mx = releaseFrame_max [OF r(1)]
  have pd: "f \<noteq> pd" using f(2) by (simp add: is_data_def)
  have e: "entry s' pd i = entry s pd i" if "i < 1024" for i using ent [of pd i] pl pd that by simp
  have "dir_ok s' pd fs'"
  proof (rule dir_okI)
    show "pool s' fs'" "PAGE_SIZE dvd pd" using r(2) pl by auto
    show "pd \<notin> set fs'" using r(3) pl pd by auto
    fix i :: nat assume i: "i < 1024" "has (entry s' pd i) PAGE_PRESENT"
    then have p: "has (entry s pd i) PAGE_PRESENT" using e by simp
    have "frame_of (entry s pd i) \<noteq> f" using f(2) i(1) p by (simp add: is_data_def)
    with dir_ok_pde [OF ok i(1) p] r(3) isBad_same [OF mx]
    show "frame_of (entry s' pd i) \<notin> set fs' \<and> frame_of (entry s' pd i) \<noteq> pd
        \<and> \<not> isBadPhysAddr (frame_of (entry s' pd i)) s'"
      unfolding e [OF i(1)] by blast
  qed
  with r(1,4) mx ent show thesis using that by metis
qed

lemma dir_ok_table_write:
  fixes s :: "'a paging_scheme"
  assumes ok: "dir_ok s pd fs" and t: "PAGE_SIZE dvd t" "t \<noteq> pd" "t \<notin> set fs" "j < 1024"
  shows "dir_ok (set_entry t j e s) pd fs"
proof -
  note pl = dir_ok_pool [OF ok]
  have "entry (set_entry t j e s) pd i = entry s pd i" if "i < 1024" for i
    using entry_set_entry [of j i t pd] that t pl by auto
  moreover have "pool (set_entry t j e s) fs" using pool_set_entry [of s fs t j] pl t by blast
  ultimately show ?thesis using ok isBad_same [of "set_entry t j e s" s] by (auto simp: dir_ok_def)
qed

lemma dir_ok_pde_write:
  fixes s :: "'a paging_scheme"
  assumes ok: "dir_ok s pd fs" and i: "i < 1024"
    and e: "has e PAGE_PRESENT \<Longrightarrow> frame_of e \<notin> set fs \<and> frame_of e \<noteq> pd \<and> \<not> isBadPhysAddr (frame_of e) s"
  shows "dir_ok (set_entry pd i e s) pd fs"
proof -
  note pl = dir_ok_pool [OF ok]
  have "entry (set_entry pd i e s) pd k = (if k = i then e else entry s pd k)" if "k < 1024" for k
    using entry_set_entry [of i k pd pd] that i pl by auto
  moreover have "pool (set_entry pd i e s) fs" using pool_set_entry [of s fs pd i] pl i by blast
  ultimately show ?thesis using ok e isBad_same [of "set_entry pd i e s" s] by (auto simp: dir_ok_def)
qed

text \<open>What a present entry that may be overwritten points to: a referenced data frame.\<close>

definition slot_ok :: "'a paging_scheme \<Rightarrow> nat \<Rightarrow> u32 \<Rightarrow> bool" where
  "slot_ok s pd e \<longleftrightarrow> (has e PAGE_PRESENT \<longrightarrow> is_data s pd (frame_of e) \<and> counted s (frame_of e)
     \<and> refCount (frame_of e) s \<noteq> 0 \<and> \<not> isBadPhysAddr (frame_of e) s)"

definition is_table :: "'a paging_scheme \<Rightarrow> nat \<Rightarrow> nat \<Rightarrow> bool" where
  "is_table s pd t \<longleftrightarrow> (\<exists>m < 1024. has (entry s pd m) PAGE_PRESENT \<and> t = frame_of (entry s pd m))"

lemma is_tableI: "m < 1024 \<Longrightarrow> has (entry s pd m) PAGE_PRESENT \<Longrightarrow> is_table s pd (frame_of (entry s pd m))"
  unfolding is_table_def by blast

lemma release_slot:
  fixes s :: "'a paging_scheme"
  assumes ok: "dir_ok s pd fs" and old: "slot_ok s pd e"
  obtains s1 fs1 where "(if has e PAGE_PRESENT then
       if isBadPhysAddr (frame_of e) s then Inl err else releaseFrame (frame_of e) s else Inr s) = Inr s1"
    "dir_ok s1 pd fs1" "maxFrameIdx s1 = maxFrameIdx s"
    "\<And>t k. t = pd \<or> is_table s pd t \<Longrightarrow> k < 1024 \<Longrightarrow> entry s1 t k = entry s t k"
    "\<And>q. counted s q \<Longrightarrow> is_table s pd q \<Longrightarrow> refCount q s1 = refCount q s"
proof (cases "has e PAGE_PRESENT")
  case False
  with ok that [of s fs] show thesis by simp
next
  case True
  with old have d: "is_data s pd (frame_of e)" "counted s (frame_of e)" "refCount (frame_of e) s \<noteq> 0"
    "\<not> isBadPhysAddr (frame_of e) s" by (auto simp: slot_ok_def)
  obtain s1 fs1 where r: "releaseFrame (frame_of e) s = Inr s1" "dir_ok s1 pd fs1" "maxFrameIdx s1 = maxFrameIdx s"
    "\<And>t k. PAGE_SIZE dvd t \<Longrightarrow> t \<noteq> frame_of e \<Longrightarrow> k < 1024 \<Longrightarrow> entry s1 t k = entry s t k"
    "\<And>q. counted s q \<Longrightarrow> q \<noteq> frame_of e \<Longrightarrow> refCount q s1 = refCount q s"
    using release_dir_ok [OF ok frame_of_aligned d(1,2,3)] by metis
  show thesis
  proof (rule that [of s1 fs1])
    fix t k assume "t = pd \<or> is_table s pd t" and k: "(k :: nat) < 1024"
    then have "PAGE_SIZE dvd t" "t \<noteq> frame_of e"
      using d(1) dir_ok_pool [OF ok] by (auto simp: is_data_def is_table_def)
    with r(4) k show "entry s1 t k = entry s t k" by blast
  next
    fix q assume "counted s q" "is_table s pd q"
    with r(5) [of q] d(1) show "refCount q s1 = refCount q s" by (auto simp: is_data_def is_table_def)
  qed (use True d r in auto)
qed

lemma write_pte_ok:
  fixes s :: "'a paging_scheme"
  assumes ok: "dir_ok s pd fs" and v: "v < 4294967296"
    and pde: "has (entry s pd (pde_index v)) PAGE_PRESENT" "frame_of (entry s pd (pde_index v)) = pt"
    and old: "slot_ok s pd (entry s pt (pte_index v))"
  shows "\<exists>s' fs'. write_pte pt v phys flags pd s = Inr s' \<and> dir_ok s' pd fs'
    \<and> translate s' pd v = Some (new_pte phys flags)
    \<and> (\<forall>v' < 4294967296. \<not> same_slot s pd v v' \<longrightarrow> translate s' pd v' = translate s pd v')"
proof -
  let ?i = "pde_index v" and ?j = "pte_index v"
  note i = pde_index_bound [OF v] and j = pte_index_bound [of v]
  note pl = dir_ok_pool [OF ok] and pt = dir_ok_pde [OF ok i pde(1), unfolded pde(2)]
  have al: "PAGE_SIZE dvd pt" using pde(2) frame_of_aligned by metis
  obtain s1 fs1 where s1:
    "(if has (entry s pt ?j) PAGE_PRESENT then if isBadPhysAddr (frame_of (entry s pt ?j)) s
       then Inl ''mapPage: corrupt PTE'' else releaseFrame (frame_of (entry s pt ?j)) s else Inr s) = Inr s1"
    "dir_ok s1 pd fs1" "maxFrameIdx s1 = maxFrameIdx s"
    "\<And>t k. t = pd \<or> is_table s pd t \<Longrightarrow> k < 1024 \<Longrightarrow> entry s1 t k = entry s t k"
    "\<And>q. counted s q \<Longrightarrow> is_table s pd q \<Longrightarrow> refCount q s1 = refCount q s"
    by (rule release_slot [OF ok old, where err = "''mapPage: corrupt PTE''"]) (rule that)
  have e1: "entry s1 pd k = entry s pd k" if "k < 1024" for k using s1(4) that by blast
  define s2 where "s2 = set_entry pt ?j (new_pte phys flags) s1"
  define s3 where "s3 = (if has flags PAGE_USER \<and> \<not> has (entry s pd ?i) PAGE_USER
      then set_entry pd ?i (entry s pd ?i OR PAGE_USER) s2 else s2)"
  have pt1: "pt \<notin> set fs1" using dir_ok_pde [OF s1(2) i] e1 [OF i] pde by auto
  have ok2: "dir_ok s2 pd fs1"
    unfolding s2_def by (rule dir_ok_table_write [OF s1(2) al pt(2) pt1 j])
  have e2: "entry s2 pd k = entry s pd k" if "k < 1024" for k
    using that al pl pt(2) j e1 by (simp add: s2_def entry_set_entry)
  have ok3: "dir_ok s3 pd fs1"
    using dir_ok_pde_write [OF ok2 i, of "entry s pd ?i OR PAGE_USER"] dir_ok_pde [OF ok2 i] e2 [OF i] pde ok2
    by (auto simp: s3_def)
  have e3: "frame_of (entry s3 pd k) = frame_of (entry s pd k)"
    "has (entry s3 pd k) PAGE_PRESENT \<longleftrightarrow> has (entry s pd k) PAGE_PRESENT" if "k < 1024" for k
    using that pl i e2 pde(1) by (auto simp: s3_def has_or entry_set_entry)
  have tab: "entry s3 t k = (if t = pt \<and> k = ?j then new_pte phys flags else entry s t k)"
    if t: "is_table s pd t" and k: "k < 1024" for t k
  proof -
    have "t \<noteq> pd" "PAGE_SIZE dvd t" using dir_ok_pde [OF ok] t by (auto simp: is_table_def)
    then show ?thesis using i j k pl al s1(4) [of t k] t by (auto simp: s2_def s3_def entry_set_entry)
  qed
  have "write_pte pt v phys flags pd s = Inr s3"
    using s1(1) e2 [OF i] by (simp add: write_pte_def Let_def new_pte_def [symmetric] s2_def [symmetric] s3_def)
  moreover have "translate s3 pd v = Some (new_pte phys flags)"
    using e3 [OF i] tab [OF is_tableI [OF i pde(1)] j] pde by (simp add: translate_def Let_def)
  moreover have "translate s3 pd v' = translate s pd v'" if v': "v' < 4294967296" "\<not> same_slot s pd v v'" for v'
    using e3 [OF pde_index_bound [OF v'(1)]] tab [OF is_tableI [OF pde_index_bound [OF v'(1)]] pte_index_bound, of v']
      v'(2) pde by (auto simp: translate_def Let_def same_slot_def)
  ultimately show ?thesis using ok3 by blast
qed

text \<open>Adding an empty table for an absent directory entry.\<close>

lemma ensurePageTable_ok:
  fixes s :: "'a paging_scheme"
  assumes ok: "dir_ok s pd (p # fs)" and i: "i < 1024" "\<not> has (entry s pd i) PAGE_PRESENT"
    and bad: "\<not> isBadPhysAddr p s" and pd: "\<And>q. q \<in> set (p # fs) \<Longrightarrow> q \<noteq> pd"
  obtains s1 where "ensurePageTable pd i flags s = (True, s1)" "dir_ok s1 pd fs"
    "has (entry s1 pd i) PAGE_PRESENT" "frame_of (entry s1 pd i) = p" "\<And>j. j < 1024 \<Longrightarrow> entry s1 p j = 0"
    "\<And>k. k < 1024 \<Longrightarrow> k \<noteq> i \<Longrightarrow> entry s1 pd k = entry s pd k"
    "\<And>t k. is_table s pd t \<Longrightarrow> k < 1024 \<Longrightarrow> entry s1 t k = entry s t k" "maxFrameIdx s1 = maxFrameIdx s"
proof -
  note pl = dir_ok_pool [OF ok]
  then obtain s0 where al: "allocFrame s = (p, s0)" "pool s0 fs" "counted s p" "mem s0 = fill_page (mem s) p 0"
    using pool_allocFrame [of s p fs] by metis
  have c: "PAGE_SIZE dvd p" "0 < p" "p < 4294967296" using al(3) by (auto simp: counted_def)
  note mx = allocFrame_max [OF al(1)]
  have d: "p \<notin> set fs" using pl pool_distinct by fastforce
  let ?e = "word_of_nat p OR PAGE_PRESENT OR PAGE_RW OR (flags AND PAGE_USER)"
  have ff: "fill_page (mem s0) p 0 = mem s0" unfolding al(4) by (rule ext) (simp add: fill_page_def)
  define s1 where "s1 = set_entry pd i ?e s0"
  have zero: "entry s0 p j = 0" if "j < 1024" for j
    using page_cell [OF that, of p] by (simp add: entry_def al(4))
  have other: "entry s0 t k = entry s t k" if "PAGE_SIZE dvd t" "t \<noteq> p" "k < 1024" for t k
  proof (rule entry_same_page [OF _ that(3)])
    fix x assume "x \<in> page t"
    then have "x \<notin> page p" using aligned_pages [OF c(1) that(1)] that(2) by blast
    then show "mem s0 x = mem s x" by (simp add: al(4))
  qed
  have e1: "entry s1 pd k = (if k = i then ?e else entry s pd k)" if "k < 1024" for k
    using that i pl other [of pd k] pd [of p] by (simp add: s1_def entry_set_entry)
  have pde: "has ?e PAGE_PRESENT" "frame_of ?e = p" using frame_of_pde [OF c(1,3)] by (simp_all add: has_or)
  have "ensurePageTable pd i flags s = (True, s1)"
    using c(2) ff by (simp add: ensurePageTable_def al(1) s1_def)
  moreover have "dir_ok s1 pd fs"
  proof (rule dir_okI)
    show "pool s1 fs" unfolding s1_def using al(2) pl i by (intro pool_set_entry) auto
    show "PAGE_SIZE dvd pd" "pd \<notin> set fs" using pl by auto
    fix k :: nat assume k: "k < 1024" "has (entry s1 pd k) PAGE_PRESENT"
    with e1 [OF k(1)] pde d bad pd [of p] dir_ok_pde [OF ok k(1)]
    show "frame_of (entry s1 pd k) \<notin> set fs \<and> frame_of (entry s1 pd k) \<noteq> pd
        \<and> \<not> isBadPhysAddr (frame_of (entry s1 pd k)) s1"
      using isBad_same [of s1 s] mx by (auto simp: s1_def split: if_splits)
  qed
  moreover have "entry s1 t k = entry s t k" if t: "is_table s pd t" and k: "k < 1024" for t k
  proof -
    from t obtain m where m: "m < 1024" "has (entry s pd m) PAGE_PRESENT" "t = frame_of (entry s pd m)"
      by (auto simp: is_table_def)
    from dir_ok_pde [OF ok m(1,2)] m(3) have "t \<noteq> pd" "t \<noteq> p" "PAGE_SIZE dvd t" by auto
    with other [of t k] k i pl show ?thesis by (simp add: s1_def entry_set_entry)
  qed
  moreover have "entry s1 p j = 0" if "j < 1024" for j
    using that zero [OF that] i pl pd [of p] c(1) by (simp add: s1_def entry_set_entry)
  ultimately show thesis using that [of s1] e1 i pde mx by (simp add: s1_def)
qed

lemma resolve_present:
  assumes "dir_ok s pd fs" "v < 4294967296" "has (entry s pd (pde_index v)) PAGE_PRESENT"
  shows "resolvePageTable v pd s = Inr (Some (frame_of (entry s pd (pde_index v))))"
  using assms dir_ok_pde(3) [OF assms(1) pde_index_bound [OF assms(2)] assms(3)]
  by (simp add: resolvePageTable_def Let_def)

text \<open>The address of a new table must pass the corrupt-entry check; a pool of frames below the
  detected memory guarantees it.\<close>

definition frames_good :: "'a paging_scheme \<Rightarrow> nat list \<Rightarrow> bool" where
  "frames_good s fs \<longleftrightarrow> (\<forall>p \<in> set fs. \<not> isBadPhysAddr p s)"

lemma mapPage_fresh:
  fixes s :: "'a paging_scheme"
  assumes ok: "dir_ok s pd (p # ps)" and bad: "\<not> isBadPhysAddr p s" and v: "v < 4294967296"
    and absent: "\<not> has (entry s pd (pde_index v)) PAGE_PRESENT"
  shows "\<exists>s' fs'. mapPage v phys flags pd s = Inr (True, s') \<and> dir_ok s' pd fs'
    \<and> translate s' pd v = Some (new_pte phys flags)
    \<and> (\<forall>v' < 4294967296. (pde_index v', pte_index v') \<noteq> (pde_index v, pte_index v) \<longrightarrow>
         translate s' pd v' = translate s pd v')"
proof -
  note i = pde_index_bound [OF v] and pl = dir_ok_pool [OF ok(1)]
  have npd: "\<And>q. q \<in> set (p # ps) \<Longrightarrow> q \<noteq> pd" using pl by auto
  obtain s1 where s1: "ensurePageTable pd (pde_index v) flags s = (True, s1)" "dir_ok s1 pd ps"
    "has (entry s1 pd (pde_index v)) PAGE_PRESENT" "frame_of (entry s1 pd (pde_index v)) = p"
    "\<And>j. j < 1024 \<Longrightarrow> entry s1 p j = 0"
    "\<And>k. k < 1024 \<Longrightarrow> k \<noteq> pde_index v \<Longrightarrow> entry s1 pd k = entry s pd k"
    "\<And>t k. is_table s pd t \<Longrightarrow> k < 1024 \<Longrightarrow> entry s1 t k = entry s t k" "maxFrameIdx s1 = maxFrameIdx s"
    using ensurePageTable_ok [OF ok(1) i absent bad npd, of flags] by metis
  have z: "\<not> has 0 PAGE_PRESENT" by (simp add: has_def)
  have "slot_ok s1 pd (entry s1 p (pte_index v))"
    using s1(5) [OF pte_index_bound] z by (simp add: slot_ok_def)
  from write_pte_ok [OF s1(2) v s1(3,4) this, of phys flags] obtain s' fs' where w:
    "write_pte p v phys flags pd s1 = Inr s'" "dir_ok s' pd fs'"
    "translate s' pd v = Some (new_pte phys flags)"
    "\<And>v'. v' < 4294967296 \<Longrightarrow> \<not> same_slot s1 pd v v' \<Longrightarrow> translate s' pd v' = translate s1 pd v'" by blast
  have "mapPage v phys flags pd s = Inr (True, s')"
    using absent s1(1) w(1) resolve_present [OF s1(2) v s1(3)] s1(4)
    by (simp add: mapPage_def resolvePageTable_def [of v pd s] Let_def)
  moreover have "translate s' pd v' = translate s pd v'" if v': "v' < 4294967296"
    "(pde_index v', pte_index v') \<noteq> (pde_index v, pte_index v)" for v'
  proof (cases "pde_index v' = pde_index v")
    case True
    with v' have "translate s' pd v' = translate s1 pd v'" by (intro w(4)) (auto simp: same_slot_def)
    also have "\<dots> = None" using True s1(3,4,5) pte_index_bound [of v'] z by (simp add: translate_def Let_def)
    finally show ?thesis using True absent by (simp add: translate_def)
  next
    case ne: False
    note i' = pde_index_bound [OF v'(1)] and eq = s1(6) [OF pde_index_bound [OF v'(1)] ne]
    have ns: "\<not> same_slot s1 pd v v'"
      using dir_ok_pde(1) [OF ok(1) i'] s1(4) eq by (auto simp: same_slot_def)
    show ?thesis
      using w(4) [OF v'(1) ns] eq s1(7) [OF is_tableI [OF i'] pte_index_bound]
      by (cases "has (entry s pd (pde_index v')) PAGE_PRESENT") (simp_all add: translate_def Let_def)
  qed
  ultimately show ?thesis using w(2,3) by blast
qed

text \<open>C7. Mapping a page. In a well-formed directory whose entry for the page is absent or holds a
  referenced data frame, \<open>mapPage\<close> returns without panic. It fails only when a page table is
  needed and no frame is free, and then changes nothing. Otherwise the processor's walk of
  the page yields exactly the new frame with the requested permissions, the walk of every
  address in another table slot is unchanged, and the directory is well-formed again.\<close>

theorem mapPage_correct:
  fixes s :: "'a paging_scheme"
  assumes ok: "dir_ok s pd fs" "frames_good s fs" and v: "v < 4294967296"
    and slot: "has (entry s pd (pde_index v)) PAGE_PRESENT \<Longrightarrow>
      slot_ok s pd (entry s (frame_of (entry s pd (pde_index v))) (pte_index v))"
  shows "\<exists>ok s'. mapPage v phys flags pd s = Inr (ok, s')
    \<and> (if ok then translate s' pd v = Some (new_pte phys flags) \<and> (\<exists>fs'. dir_ok s' pd fs')
         \<and> (\<forall>v' < 4294967296. (pde_index v', pte_index v') \<noteq> (pde_index v, pte_index v)
              \<and> \<not> same_slot s pd v v' \<longrightarrow> translate s' pd v' = translate s pd v')
       else s' = s \<and> fs = [] \<and> \<not> has (entry s pd (pde_index v)) PAGE_PRESENT)"
proof (cases "has (entry s pd (pde_index v)) PAGE_PRESENT")
  case True
  from write_pte_ok [OF ok(1) v True refl slot [OF True], of phys flags] obtain s' fs' where
    "write_pte (frame_of (entry s pd (pde_index v))) v phys flags pd s = Inr s'" "dir_ok s' pd fs'"
    "translate s' pd v = Some (new_pte phys flags)"
    "\<And>v'. v' < 4294967296 \<Longrightarrow> \<not> same_slot s pd v v' \<Longrightarrow> translate s' pd v' = translate s pd v'" by blast
  with resolve_present [OF ok(1) v True] show ?thesis
    by (intro exI [of _ True] exI [of _ s']) (auto simp: mapPage_def same_slot_def)
next
  case False
  show ?thesis
  proof (cases fs)
    case Nil
    with dir_ok_pool [OF ok(1)] have "allocFrame s = (0, s)" by (simp add: pp.alloc_none)
    then have "mapPage v phys flags pd s = Inr (False, s)"
      using False by (simp add: mapPage_def resolvePageTable_def ensurePageTable_def Let_def)
    with False Nil show ?thesis by (intro exI [of _ False] exI [of _ s]) simp
  next
    case (Cons p ps)
    have bad: "\<not> isBadPhysAddr p s" using ok(2) Cons by (simp add: frames_good_def)
    from mapPage_fresh [OF ok(1) [unfolded Cons] bad v False, of phys flags] show ?thesis
      by (elim exE conjE, intro exI [of _ True] exI conjI) auto
  qed
qed

section \<open>Unmapping\<close>

lemma translate_cong:
  assumes "entry s' pd (pde_index v) = entry s pd (pde_index v)"
    "has (entry s pd (pde_index v)) PAGE_PRESENT \<Longrightarrow>
      entry s' (frame_of (entry s pd (pde_index v))) (pte_index v) = entry s (frame_of (entry s pd (pde_index v))) (pte_index v)"
  shows "translate s' pd v = translate s pd v"
  using assms by (auto simp: translate_def Let_def)

lemma freeFrame_releaseFrame:
  assumes "counted s p" "refCount p s \<noteq> 0"
  shows "freeFrame p s = releaseFrame p s"
  using assms releaseFrame_eq [of p s] by (auto simp: counted_def refCount_def)

text \<open>Freeing an empty page table.\<close>

lemma tryFree_ok:
  fixes s :: "'a paging_scheme"
  assumes ok: "dir_ok s pd fs" and i: "i < 1024" "has (entry s pd i) PAGE_PRESENT" and pt: "frame_of (entry s pd i) = pt"
    and own: "counted s pt" "refCount pt s \<noteq> 0"
      "\<And>m. m < 1024 \<Longrightarrow> m \<noteq> i \<Longrightarrow> has (entry s pd m) PAGE_PRESENT \<Longrightarrow> frame_of (entry s pd m) \<noteq> pt"
  shows "\<exists>s' fs'. tryFreePageTable pd i s = Inr s' \<and> dir_ok s' pd fs'
    \<and> (\<forall>v < 4294967296. translate s' pd v = translate s pd v)"
proof -
  note p = dir_ok_pde [OF ok i, unfolded pt] and pl = dir_ok_pool [OF ok]
  have al: "PAGE_SIZE dvd pt" using pt frame_of_aligned by metis
  show ?thesis
  proof (cases "list_ex (\<lambda>k. entry s pt k \<noteq> 0) [0..<PTE_COUNT]")
    case True
    with p pt ok show ?thesis by (auto simp: tryFreePageTable_def Let_def)
  next
    case False
    then have empty: "entry s pt k = 0" if "k < 1024" for k
      using that by (auto simp: list_ex_iff PTE_COUNT_def)
    define s1 where "s1 = set_entry pd i 0 s"
    have z: "\<not> has 0 PAGE_PRESENT" by (simp add: has_def)
    have e1: "entry s1 pd k = (if k = i then 0 else entry s pd k)" if "k < 1024" for k
      using that i pl by (simp add: s1_def entry_set_entry)
    have ok1: "dir_ok s1 pd fs" unfolding s1_def using z by (intro dir_ok_pde_write [OF ok i(1)]) simp
    have data: "is_data s1 pd pt" using own(3) p(2) e1 z by (auto simp: is_data_def)
    have c1: "counted s1 pt" "refCount pt s1 \<noteq> 0"
      using own by (auto simp: s1_def counted_def refCount_def refCountEntry_def)
    from release_dir_ok [OF ok1 al data c1] obtain s' fs' where r: "releaseFrame pt s1 = Inr s'" "dir_ok s' pd fs'"
      "\<And>t j. PAGE_SIZE dvd t \<Longrightarrow> t \<noteq> pt \<Longrightarrow> j < 1024 \<Longrightarrow> entry s' t j = entry s1 t j" by metis
    have "tryFreePageTable pd i s = Inr s'"
      using False p pt r(1) freeFrame_releaseFrame [OF c1] by (simp add: tryFreePageTable_def Let_def s1_def)
    moreover have "translate s' pd v = translate s pd v" if v: "v < 4294967296" for v
    proof -
      note iv = pde_index_bound [OF v] and jv = pte_index_bound [of v]
      have pd': "entry s' pd (pde_index v) = entry s1 pd (pde_index v)"
        using r(3) [OF _ _ iv, of pd] pl p(2) by simp
      show ?thesis
      proof (cases "pde_index v = i")
        case True
        with pd' e1 [OF iv] z empty [OF jv] pt show ?thesis by (simp add: translate_def Let_def)
      next
        case ne: False
        show ?thesis
        proof (rule translate_cong)
          show "entry s' pd (pde_index v) = entry s pd (pde_index v)" using pd' e1 [OF iv] ne by simp
          let ?t = "frame_of (entry s pd (pde_index v))"
          assume pr: "has (entry s pd (pde_index v)) PAGE_PRESENT"
          then have "?t \<noteq> pd" "?t \<noteq> pt" using dir_ok_pde [OF ok iv] own(3) iv ne by auto
          with r(3) [OF _ _ jv, of ?t] i jv pl show "entry s' ?t (pte_index v) = entry s ?t (pte_index v)"
            by (simp add: s1_def entry_set_entry)
        qed
      qed
    qed
    ultimately show ?thesis using r(2) by blast
  qed
qed


section \<open>Copy-on-write faults\<close>

lemma cow_pte_index: "v div 2 ^ 12 mod 1024 = pte_index v"
proof -
  have "v mod (4096 * 1024) = 4096 * (v div 4096 mod 1024) + v mod 4096" by (rule mod_mult2_eq)
  then show ?thesis by (simp add: pte_index_def PDE_SIZE_def PAGE_SIZE_def)
qed

lemma cow_pde_index: "v div 2 ^ 22 = pde_index v"
  by (simp add: pde_index_def PDE_SIZE_def)

lemma frame_of_clear_cow: "frame_of (e AND NOT PAGE_COW) = frame_of e"
  by (simp add: frame_of_def and.assoc page_flag_defs)

lemma frame_of_set_rw: "frame_of (e OR PAGE_RW) = frame_of e"
  by (rule frame_of_or_flags) (simp add: page_flag_defs)

lemma frame_of_replace:
  assumes "PAGE_SIZE dvd n" "n < 4294967296"
  shows "frame_of ((e AND NOT PAGE_ADDR_MASK) OR word_of_nat n) = n"
proof -
  have "(e AND NOT PAGE_ADDR_MASK) AND PAGE_ADDR_MASK = 0" by (simp add: and.assoc)
  then have "frame_of (word_of_nat n OR (e AND NOT PAGE_ADDR_MASK)) = n"
    using assms by (simp add: frame_of_or_flags frame_of_nat)
  then show ?thesis by (simp add: or.commute)
qed

lemma has_low_bits:
  assumes "f AND PAGE_ADDR_MASK = 0"
  shows "has (e AND NOT PAGE_ADDR_MASK) f \<longleftrightarrow> has e f"
proof -
  have "f = (f AND PAGE_ADDR_MASK) OR (f AND NOT PAGE_ADDR_MASK)"
    unfolding bit.conj_disj_distrib [symmetric] by simp
  then have "NOT PAGE_ADDR_MASK AND f = f" using assms by (simp add: and.commute)
  then show ?thesis by (simp add: has_def and.assoc)
qed

text \<open>The writable, private version of an entry.\<close>

definition own_pte :: "u32 \<Rightarrow> u32" where
  "own_pte e = (e OR PAGE_RW) AND NOT PAGE_COW"

lemma own_pte_props:
  "has (own_pte e) PAGE_RW" "\<not> has (own_pte e) PAGE_COW" "frame_of (own_pte e) = frame_of e"
  "has e PAGE_PRESENT \<Longrightarrow> has (own_pte e) PAGE_PRESENT"
  by (simp_all add: own_pte_def has_def frame_of_clear_cow frame_of_set_rw and.assoc)
    (simp_all add: page_flag_defs bit.conj_disj_distrib2)

lemma set_entry_twice: "set_entry t j e (set_entry t j e' s) = set_entry t j e s"
  by (simp add: set_entry_def)

lemma entry_set_same: "entry (set_entry t j e s) t j = e"
  by (simp add: entry_def set_entry_def)

lemma removeRef_shared:
  assumes "counted s f" "refCount f s \<noteq> 0" "refCount f s \<noteq> 1"
  shows "removeRef f s = Inr (False, s\<lparr>refCounts := (refCounts s)(f div PAGE_SIZE := refCount f s - 1)\<rparr>)"
  using assms by (auto simp: removeRef_def counted_def refCount_def Let_def)

text \<open>Replacing one entry of a page table by an entry with the same directory structure.\<close>

lemma slot_write:
  fixes s :: "'a paging_scheme"
  assumes ok: "dir_ok s pd fs" and v: "v < 4294967296"
    and pde: "has (entry s pd (pde_index v)) PAGE_PRESENT" "frame_of (entry s pd (pde_index v)) = pt"
    and e: "has e PAGE_PRESENT"
  shows "dir_ok (set_entry pt (pte_index v) e s) pd fs"
    "translate (set_entry pt (pte_index v) e s) pd v = Some e"
    "v' < 4294967296 \<Longrightarrow> \<not> same_slot s pd v v' \<Longrightarrow>
       translate (set_entry pt (pte_index v) e s) pd v' = translate s pd v'"
proof -
  note i = pde_index_bound [OF v] and j = pte_index_bound [of v] and pl = dir_ok_pool [OF ok]
  note pt = dir_ok_pde [OF ok i pde(1), unfolded pde(2)]
  have al: "PAGE_SIZE dvd pt" using pde(2) frame_of_aligned by metis
  show "dir_ok (set_entry pt (pte_index v) e s) pd fs" by (rule dir_ok_table_write [OF ok al pt(2,1) j])
  have d: "entry (set_entry pt (pte_index v) e s) pd k = entry s pd k" if "k < 1024" for k
    using that al pl pt(2) j by (simp add: entry_set_entry)
  show "translate (set_entry pt (pte_index v) e s) pd v = Some e"
    using d [OF i] pde e by (simp add: translate_def entry_set_same)
  show "translate (set_entry pt (pte_index v) e s) pd v' = translate s pd v'"
    if "v' < 4294967296" "\<not> same_slot s pd v v'"
    using d [OF pde_index_bound [OF that(1)]] that(2) pde j pte_index_bound [of v'] al
    by (intro translate_cong) (auto simp: same_slot_def entry_set_entry)
qed

lemma copy_page_simps:
  "x < PAGE_SIZE \<Longrightarrow> copy_page m n f (n + x) = m (f + x)"
  "a \<notin> page n \<Longrightarrow> copy_page m n f a = m a"
  by (auto simp: copy_page_def page_def)

text \<open>Copying into a frame taken from the pool leaves everything else alone.\<close>

lemma alloc_copy:
  fixes s :: "'a paging_scheme"
  assumes ok: "dir_ok s pd (n # fs)" and f: "counted s f" "refCount f s \<noteq> 0"
  obtains s2 where "allocFrame s = (n, s2)" "n \<noteq> f" "counted s n"
    "dir_ok (s2\<lparr>mem := copy_page (mem s2) n f\<rparr>) pd fs"
    "\<And>x. x < PAGE_SIZE \<Longrightarrow> copy_page (mem s2) n f (n + x) = mem s (f + x)"
    "\<And>a. a \<notin> page n \<Longrightarrow> copy_page (mem s2) n f a = mem s a"
    "\<And>q. counted s q \<Longrightarrow> refCount q s2 = (if q = n then 1 else refCount q s)"
    "maxFrameIdx s2 = maxFrameIdx s"
proof -
  note pl = dir_ok_pool [OF ok]
  then obtain s2 where al: "allocFrame s = (n, s2)" "pool s2 fs" "counted s n" "mem s2 = fill_page (mem s) n 0"
    "\<And>q. counted s q \<Longrightarrow> refCount q s2 = (if q = n then 1 else refCount q s)"
    using pool_allocFrame [of s n fs] by metis
  have c: "PAGE_SIZE dvd n" "0 < n" using al(3) by (auto simp: counted_def)
  have cf: "PAGE_SIZE dvd f" using f(1) by (simp add: counted_def)
  have nf: "n \<noteq> f" using pool_free [of s "n # fs" n] pl f by auto
  note mx = allocFrame_max [OF al(1)]
  let ?m = "copy_page (mem s2) n f" and ?s3 = "s2\<lparr>mem := copy_page (mem s2) n f\<rparr>"
  have out: "?m a = mem s a" if "a \<notin> page n" for a using that by (simp add: copy_page_simps al(4))
  have inn: "?m (n + x) = mem s (f + x)" if "x < PAGE_SIZE" for x
  proof -
    have "f + x \<notin> page n" using aligned_pages [OF c(1) cf nf] that by (auto simp: page_def)
    with that show ?thesis by (simp add: copy_page_simps al(4))
  qed
  have ent: "entry ?s3 t k = entry s t k" if "PAGE_SIZE dvd t" "t \<noteq> n" "k < 1024" for t k
  proof (rule entry_same_page [OF _ that(3)])
    fix x assume "x \<in> page t"
    then have "x \<notin> page n" using aligned_pages [OF c(1) that(1)] that(2) by blast
    then show "mem ?s3 x = mem s x" using out by simp
  qed
  have npd: "n \<noteq> pd" "n \<notin> set fs" using pl pool_distinct by fastforce+
  have pool3: "pool ?s3 fs"
  proof -
    have rep: "pmm_rep s2 fs" using al(2) by (simp add: pool_def)
    have "frame_next ?m q = frame_next (mem s2) q" if "q \<in> set fs" for q
    proof -
      have "q \<notin> page n" using aligned_not_in_page [OF c(1) pmm_rep_frame(1) [OF rep that]] npd(2) that by auto
      then show ?thesis by (simp add: frame_next_def copy_page_simps)
    qed
    then have "chain (frame_next ?m) (frameList s2) fs"
      using pmm_rep_chain [OF rep] by (subst chain_cong [of _ _ "frame_next (mem s2)"]) auto
    with al(2) show ?thesis by (simp add: pool_def pmm_rep_def)
  qed
  have "dir_ok ?s3 pd fs"
  proof (rule dir_okI [OF pool3])
    show "PAGE_SIZE dvd pd" "pd \<notin> set fs" using pl by auto
    fix k :: nat assume k: "k < 1024" "has (entry ?s3 pd k) PAGE_PRESENT"
    with ent [of pd k] pl npd(1) have e: "entry ?s3 pd k = entry s pd k" by simp
    with k(2) have "has (entry s pd k) PAGE_PRESENT" by simp
    from dir_ok_pde [OF ok k(1) this] isBad_same [of ?s3 s] mx
    show "frame_of (entry ?s3 pd k) \<notin> set fs \<and> frame_of (entry ?s3 pd k) \<noteq> pd
        \<and> \<not> isBadPhysAddr (frame_of (entry ?s3 pd k)) ?s3" unfolding e by simp
  qed
  with al(1,3,5) nf inn out mx show thesis using that by blast
qed

lemma pool_counts:
  assumes "pool s fs" "counted s f" "refCount f s \<noteq> 0"
  shows "pool (s\<lparr>refCounts := (refCounts s)(f div PAGE_SIZE := v)\<rparr>) fs"
proof -
  have f: "PAGE_SIZE dvd f" "f \<notin> set fs" using assms pool_free [OF assms(1)] by (auto simp: counted_def)
  have "pmm_rep s fs" using assms(1) by (simp add: pool_def)
  from rep_refcount [OF this f(2,1)] assms(1) show ?thesis by (simp add: pool_def)
qed

lemma dir_ok_counts:
  fixes s :: "'a paging_scheme"
  assumes ok: "dir_ok s pd fs" and f: "counted s f" "refCount f s \<noteq> 0"
  shows "dir_ok (s\<lparr>refCounts := (refCounts s)(f div PAGE_SIZE := v)\<rparr>) pd fs"
proof -
  let ?s = "s\<lparr>refCounts := (refCounts s)(f div PAGE_SIZE := v)\<rparr>"
  have "entry ?s t i = entry s t i" for t i by (simp add: entry_def)
  with ok pool_counts [OF _ f, of fs] isBad_same [of ?s s] show ?thesis by (simp add: dir_ok_def)
qed

text \<open>The preconditions of a copy-on-write fault at \<open>v\<close>: a present user table with a present
  copy-on-write entry to a referenced data frame.\<close>

definition cow_fault :: "'a paging_scheme \<Rightarrow> nat \<Rightarrow> nat \<Rightarrow> nat \<Rightarrow> u32 \<Rightarrow> bool" where
  "cow_fault s pd v pt e \<longleftrightarrow> v < 4294967296
     \<and> has (entry s pd (pde_index v)) PAGE_PRESENT \<and> has (entry s pd (pde_index v)) PAGE_USER
     \<and> pt = frame_of (entry s pd (pde_index v)) \<and> e = entry s pt (pte_index v)
     \<and> has e PAGE_PRESENT \<and> has e PAGE_COW \<and> slot_ok s pd e"

lemma handleCow_unfold:
  fixes s :: "'a paging_scheme"
  assumes ok: "dir_ok s pd fs" and c: "cow_fault s pd v pt e"
  defines "s1 \<equiv> s\<lparr>cowFaults := cowFaults s + 1\<rparr>" and "f \<equiv> frame_of e"
  shows "handleCowFault v pd s =
    (if refCount f s = 1 then Inr (True, set_entry pt (pte_index v) (own_pte e) s1)
     else let (n, s2) = allocFrame s1 in
       if n = 0 then Inr (False, s2)
       else case removeRef f (s2\<lparr>mem := copy_page (mem s2) n f\<rparr>) of
           Inl err \<Rightarrow> Inl err
         | Inr (_, s4) \<Rightarrow> Inr (True, set_entry pt (pte_index v)
             (own_pte ((e AND NOT PAGE_ADDR_MASK) OR word_of_nat n)) s4))"
proof -
  have pt: "\<not> isBadPhysAddr pt s"
    using dir_ok_pde(3) [OF ok pde_index_bound] c by (auto simp: cow_fault_def)
  have rc: "refCount f s1 = refCount f s" by (simp add: s1_def refCount_def refCountEntry_def Let_def)
  define pde where "pde = entry s pd (pde_index v)"
  have eqs: "entry s pd (pde_index v) = pde" "has pde PAGE_PRESENT" "has pde PAGE_USER" "frame_of pde = pt"
    "entry s pt (pte_index v) = e" "has e PAGE_PRESENT" "has e PAGE_COW" "\<not> isBadPhysAddr f s" "frame_of e = f"
    using c by (auto simp: cow_fault_def slot_ok_def pde_def f_def)
  have "handleCowFault v pd s =
    (if refCount f s1 = 1 then Inr (True, set_entry pt (pte_index v) (own_pte e) s1)
     else let (n, s2) = allocFrame s1 in
       if n = 0 then Inr (False, s2)
       else case removeRef f (s2\<lparr>mem := copy_page (mem s2) n f\<rparr>) of
           Inl err \<Rightarrow> Inl err
         | Inr (_, s4) \<Rightarrow> Inr (True, set_entry pt (pte_index v)
             (own_pte ((e AND NOT PAGE_ADDR_MASK) OR word_of_nat n)) s4))"
    using pt unfolding handleCowFault_def cow_pde_index cow_pte_index
    by (simp add: eqs Let_def entry_set_same set_entry_twice own_pte_def s1_def [symmetric]
        split: prod.split sum.split)
  then show ?thesis unfolding rc .
qed

lemma refCount_cong:
  "refCounts s' = refCounts s \<Longrightarrow> maxFrameIdx s' = maxFrameIdx s \<Longrightarrow> refCount p s' = refCount p s"
  by (simp add: refCount_def refCountEntry_def Let_def)

lemma cow_fields [simp]:
  fixes s :: "'a paging_scheme"
  shows "entry (s\<lparr>cowFaults := c\<rparr>) t i = entry s t i" "pool (s\<lparr>cowFaults := c\<rparr>) fs = pool s fs"
    "counted (s\<lparr>cowFaults := c\<rparr>) = counted s" "refCount p (s\<lparr>cowFaults := c\<rparr>) = refCount p s"
    "isBadPhysAddr p (s\<lparr>cowFaults := c\<rparr>) = isBadPhysAddr p s"
    "translate (s\<lparr>cowFaults := c\<rparr>) pd v = translate s pd v"
    "same_slot (s\<lparr>cowFaults := c\<rparr>) pd v v' = same_slot s pd v v'"
    "dir_ok (s\<lparr>cowFaults := c\<rparr>) pd fs = dir_ok s pd fs"
proof -
  show e: "entry (s\<lparr>cowFaults := c\<rparr>) t i = entry s t i" for t i by (simp add: entry_def)
  show p: "pool (s\<lparr>cowFaults := c\<rparr>) fs = pool s fs" by (simp add: pool_def pmm_rep_def)
  show "counted (s\<lparr>cowFaults := c\<rparr>) = counted s" by (rule counted_same) simp
  show "refCount p (s\<lparr>cowFaults := c\<rparr>) = refCount p s" by (simp add: refCount_def refCountEntry_def Let_def)
  show b: "isBadPhysAddr p (s\<lparr>cowFaults := c\<rparr>) = isBadPhysAddr p s" for p by (rule isBad_same) simp
  show "translate (s\<lparr>cowFaults := c\<rparr>) pd v = translate s pd v" by (simp add: translate_def e Let_def)
  show "same_slot (s\<lparr>cowFaults := c\<rparr>) pd v v' = same_slot s pd v v'" by (simp add: same_slot_def e)
  show "dir_ok (s\<lparr>cowFaults := c\<rparr>) pd fs = dir_ok s pd fs" by (simp add: dir_ok_def e p b)
qed

lemma cow_private:
  fixes s :: "'a paging_scheme"
  assumes ok: "dir_ok s pd fs" and c: "cow_fault s pd v pt e" and sole: "refCount (frame_of e) s = 1"
  obtains s' where "handleCowFault v pd s = Inr (True, s')" "dir_ok s' pd fs"
    "translate s' pd v = Some (own_pte e)"
    "\<And>v'. v' < 4294967296 \<Longrightarrow> \<not> same_slot s pd v v' \<Longrightarrow> translate s' pd v' = translate s pd v'"
    "refCount (frame_of e) s' = 1" "\<And>a. a \<in> page (frame_of e) \<Longrightarrow> mem s' a = mem s a"
proof -
  let ?s1 = "s\<lparr>cowFaults := cowFaults s + 1\<rparr>"
  let ?s' = "set_entry pt (pte_index v) (own_pte e) ?s1"
  have v: "v < 4294967296" and pde: "has (entry ?s1 pd (pde_index v)) PAGE_PRESENT"
    "frame_of (entry ?s1 pd (pde_index v)) = pt" and e: "has (own_pte e) PAGE_PRESENT"
    using c own_pte_props(4) by (auto simp: cow_fault_def)
  have ok1: "dir_ok ?s1 pd fs" using ok by simp
  note w = slot_write [OF ok1 v pde e]
  have data: "is_data s pd (frame_of e)" using c by (auto simp: cow_fault_def slot_ok_def)
  have al: "PAGE_SIZE dvd pt" and ne: "pt \<noteq> frame_of e"
    using data pde pde_index_bound [OF v] c by (auto simp: is_data_def cow_fault_def)
  have "mem ?s' a = mem s a" if "a \<in> page (frame_of e)" for a
    using aligned_pages [OF al _ ne] page_cell [OF pte_index_bound [of v], of pt] that
    by (auto simp: set_entry_def)
  moreover have "refCount (frame_of e) ?s' = 1"
    using sole refCount_cong [of ?s' s "frame_of e"] by simp
  ultimately show thesis
    using that [of ?s'] handleCow_unfold [OF ok c] sole w by simp
qed

lemma cow_copy:
  fixes s :: "'a paging_scheme"
  assumes ok: "dir_ok s pd (n # fs)" and c: "cow_fault s pd v pt e" and shared: "refCount (frame_of e) s \<noteq> 1"
  obtains s' where "handleCowFault v pd s = Inr (True, s')" "dir_ok s' pd fs" "n \<noteq> frame_of e"
    "translate s' pd v = Some (own_pte ((e AND NOT PAGE_ADDR_MASK) OR word_of_nat n))"
    "frame_of (own_pte ((e AND NOT PAGE_ADDR_MASK) OR word_of_nat n)) = n"
    "\<And>v'. v' < 4294967296 \<Longrightarrow> \<not> same_slot s pd v v' \<Longrightarrow> translate s' pd v' = translate s pd v'"
    "refCount (frame_of e) s' = refCount (frame_of e) s - 1" "refCount n s' = 1"
    "\<And>x. x < PAGE_SIZE \<Longrightarrow> mem s' (n + x) = mem s (frame_of e + x)"
    "\<And>a. a \<in> page (frame_of e) \<Longrightarrow> mem s' a = mem s a"
proof -
  let ?s1 = "s\<lparr>cowFaults := cowFaults s + 1\<rparr>" and ?f = "frame_of e" and ?j = "pte_index v"
  let ?e = "own_pte ((e AND NOT PAGE_ADDR_MASK) OR word_of_nat n)"
  have v: "v < 4294967296" and pde: "has (entry s pd (pde_index v)) PAGE_PRESENT"
    "frame_of (entry s pd (pde_index v)) = pt" and ep: "has e PAGE_PRESENT" "e = entry s pt ?j"
    and f: "is_data s pd ?f" "counted s ?f" "refCount ?f s \<noteq> 0"
    using c by (auto simp: cow_fault_def slot_ok_def)
  note i = pde_index_bound [OF v]
  have "dir_ok ?s1 pd (n # fs)" "counted ?s1 ?f" "refCount ?f ?s1 \<noteq> 0" using ok f by simp_all
  then obtain s2 where al: "allocFrame ?s1 = (n, s2)" "n \<noteq> ?f" "counted ?s1 n"
    "dir_ok (s2\<lparr>mem := copy_page (mem s2) n ?f\<rparr>) pd fs"
    "\<And>x. x < PAGE_SIZE \<Longrightarrow> copy_page (mem s2) n ?f (n + x) = mem ?s1 (?f + x)"
    "\<And>a. a \<notin> page n \<Longrightarrow> copy_page (mem s2) n ?f a = mem ?s1 a"
    "\<And>q. counted ?s1 q \<Longrightarrow> refCount q s2 = (if q = n then 1 else refCount q ?s1)"
    "maxFrameIdx s2 = maxFrameIdx ?s1"
    by (rule alloc_copy) (rule that)
  define s3 where "s3 = s2\<lparr>mem := copy_page (mem s2) n ?f\<rparr>"
  define s4 where "s4 = s3\<lparr>refCounts := (refCounts s3)(?f div PAGE_SIZE := refCount ?f s - 1)\<rparr>"
  define s' where "s' = set_entry pt ?j ?e s4"
  have mx: "maxFrameIdx s3 = maxFrameIdx s" "maxFrameIdx s4 = maxFrameIdx s" "maxFrameIdx s' = maxFrameIdx s"
    using al(8) by (simp_all add: s3_def s4_def s'_def)
  have cn: "PAGE_SIZE dvd n" "0 < n" "n < 4294967296" "n div PAGE_SIZE < maxFrameIdx s"
    using al(3) by (auto simp: counted_def)
  have cf: "PAGE_SIZE dvd ?f" "?f div PAGE_SIZE < maxFrameIdx s" using f(2) by (auto simp: counted_def)
  have f3: "counted s3 ?f" "refCount ?f s3 = refCount ?f s"
    using f(2) counted_same [OF mx(1)] al(2) al(7) [of ?f] refCount_cong [of s3 s2 ?f] by (simp_all add: s3_def)
  have rr: "removeRef ?f s3 = Inr (False, s4)"
    using removeRef_shared [OF f3(1)] f3(2) f(3) shared by (simp add: s4_def)
  have ok4: "dir_ok s4 pd fs" unfolding s4_def using al(4) f3 f(3) by (intro dir_ok_counts) (auto simp: s3_def)
  have pp: "pt \<noteq> ?f" "pt \<noteq> n" "pd \<noteq> n" "PAGE_SIZE dvd pt" and pd: "PAGE_SIZE dvd pd"
    using f(1) pde i dir_ok_pde(1) [OF ok i pde(1)] dir_ok_pool [OF ok] by (auto simp: is_data_def)
  have m4: "mem s4 a = mem s a" if "a \<notin> page n" for a using al(6) [OF that] by (simp add: s4_def s3_def)
  have ent: "entry s4 t k = entry s t k" if "PAGE_SIZE dvd t" "t \<noteq> n" "k < 1024" for t k
  proof (rule entry_same_page [OF _ that(3)])
    fix x assume "x \<in> page t"
    then show "mem s4 x = mem s x" using aligned_pages [OF cn(1) that(1)] that(2) m4 by blast
  qed
  have pde4: "has (entry s4 pd (pde_index v)) PAGE_PRESENT" "frame_of (entry s4 pd (pde_index v)) = pt"
    using ent [OF pd _ i] pp(3) pde by auto
  have "has ((e AND NOT PAGE_ADDR_MASK) OR word_of_nat n) PAGE_PRESENT"
    using ep(1) has_low_bits [of PAGE_PRESENT e] by (simp add: has_or) (simp add: page_flag_defs)
  then have ee: "has ?e PAGE_PRESENT" by (rule own_pte_props(4))
  note w = slot_write [OF ok4 v pde4 ee, folded s'_def]
  show thesis
  proof (rule that)
    show "handleCowFault v pd s = Inr (True, s')"
      using handleCow_unfold [OF ok c] shared al(1) cn(2) rr by (simp add: s'_def s3_def)
    show "dir_ok s' pd fs" "translate s' pd v = Some ?e" "n \<noteq> ?f" using w(1,2) al(2) by auto
    show "frame_of ?e = n" using frame_of_replace [OF cn(1,3)] by (simp add: own_pte_props(3))
    show "refCount ?f s' = refCount ?f s - 1"
      using cf(2) mx(3) by (simp add: refCount_def s'_def s4_def)
    show "refCount n s' = 1"
    proof -
      have "refCount n s2 = 1" using al(3,7) by simp
      then show ?thesis using cn(1,4) mx al(2,8) aligned_pfn_inj [OF cn(1) cf(1)]
        by (simp add: refCount_def s'_def s4_def s3_def)
    qed
    fix v' assume v': "(v' :: nat) < 4294967296" "\<not> same_slot s pd v v'"
    note i' = pde_index_bound [OF v'(1)]
    have d: "entry s4 pd k = entry s pd k" if "k < 1024" for k using ent [OF pd _ that] pp(3) by auto
    have "\<not> same_slot s4 pd v v'" using v'(2) d [OF i] d [OF i'] by (simp add: same_slot_def)
    then have "translate s' pd v' = translate s4 pd v'" by (rule w(3) [OF v'(1)])
    also have "\<dots> = translate s pd v'"
      using d [OF i'] ent [OF frame_of_aligned _ pte_index_bound] dir_ok_pde(1) [OF ok i']
      by (intro translate_cong) auto
    finally show "translate s' pd v' = translate s pd v'" .
  next
    have cell: "pt + 4 * ?j \<in> page pt" by (rule page_cell [OF pte_index_bound])
    show "mem s' (n + x) = mem s (?f + x)" if "x < PAGE_SIZE" for x
      using al(5) [OF that] aligned_pages [OF cn(1) pp(4)] pp(2) cell that
      by (auto simp: s'_def s4_def s3_def set_entry_def page_def)
    show "mem s' a = mem s a" if "a \<in> page ?f" for a
      using aligned_pages [OF cn(1) cf(1) al(2)] aligned_pages [OF pp(4) cf(1) pp(1)] cell that m4 [of a]
      by (auto simp: s'_def set_entry_def)
  qed
qed

text \<open>C9. Copy on write. A fault on a present copy-on-write page of a user table is handled without
  panic. It fails only when the frame is shared and no frame is free. Otherwise the page
  becomes writable and private: the only owner keeps its frame; a shared page gets a fresh frame
  with the same contents, whose reference count is 1, while the old frame loses one reference and
  keeps its contents for the other owners. Every other translation is unchanged.\<close>

theorem handleCowFault_correct:
  fixes s :: "'a paging_scheme"
  assumes ok: "dir_ok s pd fs" and c: "cow_fault s pd v pt e"
  shows "\<exists>r s'. handleCowFault v pd s = Inr (r, s')
    \<and> (if r then \<exists>e'. translate s' pd v = Some e' \<and> has e' PAGE_RW \<and> \<not> has e' PAGE_COW
         \<and> (\<forall>x < PAGE_SIZE. mem s' (frame_of e' + x) = mem s (frame_of e + x))
         \<and> (\<forall>a \<in> page (frame_of e). mem s' a = mem s a)
         \<and> refCount (frame_of e') s' = 1
         \<and> (if refCount (frame_of e) s = 1 then frame_of e' = frame_of e
            else frame_of e' \<noteq> frame_of e \<and> refCount (frame_of e) s' = refCount (frame_of e) s - 1)
         \<and> (\<forall>v' < 4294967296. \<not> same_slot s pd v v' \<longrightarrow> translate s' pd v' = translate s pd v')
         \<and> (\<exists>fs'. dir_ok s' pd fs')
       else refCount (frame_of e) s \<noteq> 1 \<and> fs = [])"
proof (cases "refCount (frame_of e) s = 1")
  case True
  obtain s' where s': "handleCowFault v pd s = Inr (True, s')" "dir_ok s' pd fs"
    "translate s' pd v = Some (own_pte e)"
    "\<And>v'. v' < 4294967296 \<Longrightarrow> \<not> same_slot s pd v v' \<Longrightarrow> translate s' pd v' = translate s pd v'"
    "refCount (frame_of e) s' = 1" "\<And>a. a \<in> page (frame_of e) \<Longrightarrow> mem s' a = mem s a"
    by (rule cow_private [OF ok c True]) (rule that)
  have "mem s' (frame_of e + x) = mem s (frame_of e + x)" if "x < PAGE_SIZE" for x
    using s'(6) [of "frame_of e + x"] that by (simp add: page_def)
  with s' True show ?thesis
    by (intro exI [of _ True] exI [of _ s']) (auto simp: own_pte_props)
next
  case shared: False
  show ?thesis
  proof (cases fs)
    case Nil
    then have "pool (s\<lparr>cowFaults := cowFaults s + 1\<rparr>) []" using dir_ok_pool [OF ok] by simp
    then have "allocFrame (s\<lparr>cowFaults := cowFaults s + 1\<rparr>) = (0, s\<lparr>cowFaults := cowFaults s + 1\<rparr>)"
      by (rule pp.alloc_none)
    with handleCow_unfold [OF ok c] shared
    have "handleCowFault v pd s = Inr (False, s\<lparr>cowFaults := cowFaults s + 1\<rparr>)" by simp
    with shared Nil show ?thesis by (intro exI [of _ False] exI) simp
  next
    case (Cons n ns)
    obtain s' where s': "handleCowFault v pd s = Inr (True, s')" "dir_ok s' pd ns" "n \<noteq> frame_of e"
      "translate s' pd v = Some (own_pte ((e AND NOT PAGE_ADDR_MASK) OR word_of_nat n))"
      "frame_of (own_pte ((e AND NOT PAGE_ADDR_MASK) OR word_of_nat n)) = n"
      "\<And>v'. v' < 4294967296 \<Longrightarrow> \<not> same_slot s pd v v' \<Longrightarrow> translate s' pd v' = translate s pd v'"
      "refCount (frame_of e) s' = refCount (frame_of e) s - 1" "refCount n s' = 1"
      "\<And>x. x < PAGE_SIZE \<Longrightarrow> mem s' (n + x) = mem s (frame_of e + x)"
      "\<And>a. a \<in> page (frame_of e) \<Longrightarrow> mem s' a = mem s a"
      by (rule cow_copy [OF ok [unfolded Cons] c shared]) (rule that)
    then show ?thesis using shared
      by (intro exI [of _ True] exI [of _ s']) (auto simp: own_pte_props)
  qed
qed

section \<open>A small address space\<close>

text \<open>A directory at \<open>0x10000\<close> with one user table at \<open>0x11000\<close>; page 3 is a shared copy-on-write page
  on frame \<open>0x12000\<close>, and \<open>0x13000\<close> is free.\<close>

definition demo_space :: paging where
  "demo_space = \<lparr>mem = (\<lambda>_. 0)(65536 := 0x11007, 69644 := 0x12205), freeList = 0, heapStart = 0, heapEnd = 0,
     ready = False, frameList = 77824, freeCount = 1, allocCount = 0, highWaterFrames = 0, freeTotalCount = 0,
     modStart = [], modSize = [], modCount = 0, refCounts = (\<lambda>_. 0)(16 := 1, 17 := 1, 18 := 2),
     maxFrameIdx = 32, kernelPageDir = 65536, pageFaults = 0, cowFaults = 0, userPageFaults = 0\<rparr>"

lemma demo_pde: "i < 1024 \<Longrightarrow> entry demo_space 65536 i = (if i = 0 then 0x11007 else 0)"
  by (auto simp: entry_def demo_space_def)

lemma demo_pte: "i < 1024 \<Longrightarrow> entry demo_space 69632 i = (if i = 3 then 0x12205 else 0)"
  by (auto simp: entry_def demo_space_def)

lemma demo_words [simp]:
  "frame_of 0x11007 = 69632" "frame_of 0x12205 = 73728"
  "has 0x11007 PAGE_PRESENT" "has 0x11007 PAGE_USER" "has 0x12205 PAGE_PRESENT" "has 0x12205 PAGE_COW"
  "\<not> has 0 PAGE_PRESENT"
  by (simp_all add: frame_of_def has_def page_flag_defs)

lemma demo_space_fields [simp]:
  "maxFrameIdx demo_space = 32" "refCounts demo_space = (\<lambda>_. 0)(16 := 1, 17 := 1, 18 := 2)"
  by (simp_all add: demo_space_def)

lemma demo_space_ok: "dir_ok demo_space 65536 [77824]" "frames_good demo_space [77824]"
proof -
  have "pool demo_space [77824]"
    by (simp add: pool_def pmm_rep_def demo_space_def frame_next_def PAGE_SIZE_def)
  then show "dir_ok demo_space 65536 [77824]"
    by (rule dir_okI) (auto simp: demo_pde PAGE_SIZE_def isBadPhysAddr_def maxPhysAddr_def
        split: if_splits)
  show "frames_good demo_space [77824]"
    by (simp add: frames_good_def isBadPhysAddr_def maxPhysAddr_def demo_space_def PAGE_SIZE_def)
qed

lemma demo_slot: "slot_ok demo_space 65536 0x12205"
  by (auto simp: slot_ok_def is_data_def demo_pde counted_def refCount_def isBadPhysAddr_def
      maxPhysAddr_def PAGE_SIZE_def split: if_splits)

lemma demo_index: "pde_index 0x3000 = 0" "pte_index 0x3000 = 3"
  by (simp_all add: pde_index_def pte_index_def PDE_SIZE_def PAGE_SIZE_def)

theorem handleCowFault_correct_witness:
  "\<exists>r s'. handleCowFault 0x3000 65536 demo_space = Inr (r, s')
     \<and> (r \<longrightarrow> (\<exists>e'. translate s' 65536 0x3000 = Some e' \<and> has e' PAGE_RW))"
proof -
  have "cow_fault demo_space 65536 0x3000 69632 0x12205"
    by (simp add: cow_fault_def demo_index demo_pde demo_pte demo_slot)
  from handleCowFault_correct [OF demo_space_ok(1) this] show ?thesis by (metis (mono_tags, lifting))
qed

theorem mapPage_correct_witness:
  "\<exists>r s'. mapPage 0x3000 0x14000 PAGE_USER 65536 demo_space = Inr (r, s')
     \<and> (r \<longrightarrow> translate s' 65536 0x3000 = Some (new_pte 0x14000 PAGE_USER))"
  using mapPage_correct [OF demo_space_ok, of "0x3000" "0x14000" PAGE_USER]
  by (simp add: demo_index demo_pde demo_pte demo_slot) (metis (mono_tags, lifting))


end
