(* ===== verification/Pit.thy ===== *)
theory Pit
  imports Paging
begin

unbundle bit_operations_syntax

text \<open>
  The programmable interval timer (kernel/arch/i386/Pit.cc) in tickless one-shot mode: the wall
  clock in milliseconds, the deadline of the programmed one-shot, and the divisor written to
  the device.
\<close>

definition PIT_BASE_CLOCK :: u32 where "PIT_BASE_CLOCK = 1193182"
definition PIT_MAX_DIVISOR :: u32 where "PIT_MAX_DIVISOR = 65535"
definition PIT_MAX_MS :: u32 where "PIT_MAX_MS = 54"

record pit = paging +
  pitTicks :: u64
  pitDeadlineMs :: u64
  pitDivisor :: u16

definition clamp32 :: "u32 \<Rightarrow> u32 \<Rightarrow> u32 \<Rightarrow> u32" where
  "clamp32 v lo hi = (if v < lo then lo else if hi < v then hi else v)"

definition setDivisor :: "u16 \<Rightarrow> 'a pit_scheme \<Rightarrow> 'a pit_scheme" where
  "setDivisor d s = s\<lparr>pitDivisor := d\<rparr>"

definition programForMs :: "u32 \<Rightarrow> 'a pit_scheme \<Rightarrow> 'a pit_scheme" where
  "programForMs ms0 s =
     (let ms1 = (if ms0 = 0 then 1 else ms0);
          ms = (if ms1 > PIT_MAX_MS then PIT_MAX_MS else ms1);
          ticks = clamp32 ((PIT_BASE_CLOCK * ms) div 1000) 1 PIT_MAX_DIVISOR
      in setDivisor (ucast ticks) (s\<lparr>pitDeadlineMs := pitTicks s + ucast ms\<rparr>))"

definition pit_init :: "'a pit_scheme \<Rightarrow> 'a pit_scheme" where
  "pit_init s = programForMs 1 (s\<lparr>pitTicks := 0, pitDeadlineMs := 0\<rparr>)"

definition pit_tick :: "'a pit_scheme \<Rightarrow> 'a pit_scheme" where
  "pit_tick s = s\<lparr>pitTicks := pitDeadlineMs s\<rparr>"

definition uptimeMs :: "'a pit_scheme \<Rightarrow> u64" where
  "uptimeMs s = pitTicks s"

definition uptimeSec :: "'a pit_scheme \<Rightarrow> u64" where
  "uptimeSec s = pitTicks s div 1000"

definition msSince :: "u64 \<Rightarrow> 'a pit_scheme \<Rightarrow> u64" where
  "msSince prev s = pitTicks s - prev"

definition pit_deadline :: "'a pit_scheme \<Rightarrow> u64" where
  "pit_deadline s = pitDeadlineMs s"

section \<open>Programming the one-shot\<close>

text \<open>The number of milliseconds that is programmed for a request.\<close>

definition shot_ms :: "u32 \<Rightarrow> nat" where
  "shot_ms ms = max 1 (min 54 (unat ms))"

lemma shot_ms_bounds: "1 \<le> shot_ms ms" "shot_ms ms \<le> 54"
  by (auto simp: shot_ms_def)

lemma programForMs_fields [simp]:
  "pitTicks (programForMs ms s) = pitTicks s" "mem (programForMs ms s) = mem s"
  by (simp_all add: programForMs_def setDivisor_def Let_def)

lemma programForMs_more [simp]: "pit.more (programForMs ms s) = pit.more s"
  by (simp add: programForMs_def setDivisor_def Let_def)

text \<open>Programming the timer: for every request the deadline lies 1 to 54 ms after the clock, at the
  request itself when it is in that range, and the divisor written is exactly the number of
  device ticks of that interval, computed without 32-bit overflow and without truncation to
  16 bits.\<close>

theorem programForMs_correct:
  "pitDeadlineMs (programForMs ms s) = pitTicks s + word_of_nat (shot_ms ms)
   \<and> unat (pitDivisor (programForMs ms s)) = 1193182 * shot_ms ms div 1000
   \<and> 1 \<le> unat (pitDivisor (programForMs ms s))"
proof -
  define k where "k = (if (if ms = 0 then 1 else ms) > PIT_MAX_MS then PIT_MAX_MS else (if ms = 0 then 1 else ms))"
  have k: "unat k = shot_ms ms"
  proof (cases "ms = 0")
    case True
    then show ?thesis by (simp add: k_def shot_ms_def PIT_MAX_MS_def)
  next
    case False
    then have "1 \<le> unat ms" using unat_eq_0 [of ms] by linarith
    with False show ?thesis by (auto simp: k_def shot_ms_def PIT_MAX_MS_def word_less_nat_alt)
  qed
  note b = shot_ms_bounds [of ms]
  have t: "unat (PIT_BASE_CLOCK * k div 1000) = 1193182 * shot_ms ms div 1000"
    using b by (simp add: unat_div PIT_BASE_CLOCK_def unat_word_ariths k)
  have r: "1 \<le> 1193182 * shot_ms ms div 1000" "1193182 * shot_ms ms div 1000 \<le> 65535" using b by auto
  have c: "clamp32 (PIT_BASE_CLOCK * k div 1000) 1 PIT_MAX_DIVISOR = PIT_BASE_CLOCK * k div 1000"
    using t r by (simp add: clamp32_def PIT_MAX_DIVISOR_def word_less_nat_alt)
  have p: "programForMs ms s = setDivisor (ucast (PIT_BASE_CLOCK * k div 1000))
      (s\<lparr>pitDeadlineMs := pitTicks s + ucast k\<rparr>)"
    by (simp add: programForMs_def Let_def k_def [symmetric] c)
  have "(ucast k :: u64) = word_of_nat (shot_ms ms)" by (simp add: k [symmetric])
  moreover have "unat (ucast (PIT_BASE_CLOCK * k div 1000) :: u16) = 1193182 * shot_ms ms div 1000"
    using t r by (simp add: unsigned_ucast_eq take_bit_eq_mod)
  ultimately show ?thesis using r by (simp add: p setDivisor_def)
qed

end
