(* ===== verification/Sched.thy ===== *)
theory Sched
  imports Pit
begin

unbundle bit_operations_syntax

text \<open>
  The scheduler (kernel/kernel/Scheduler.cc): the flat task table, priority round-robin selection,
  the sorted sleep queue, context switching, and task creation.

  \<open>sleepQueue\<close> and \<open>children\<close> hold the used prefix of the corresponding arrays, so \<open>sleepCount_\<close> and
  \<open>childCount\<close> are their lengths; the array bound of the sleep queue is an explicit error branch.
  Function pointers are addresses (0 is null). A task that waits in a \<open>sti; hlt; cli\<close> loop is modelled
  up to the loop: it is BLOCKED when the operation ends. CR3, CR0.TS, TSS.esp0 and the FPU
  registers are fields of the state.
\<close>

section \<open>Tasks\<close>

datatype TaskState = DEAD | READY | RUNNING | BLOCKED

record task =
  esp :: u32
  tstate :: TaskState
  tid :: u8
  tname :: string
  tentry :: nat
  stackBuf :: nat
  stackSize :: nat
  tflags :: u8
  priority :: u8
  wakeupMs :: u64
  runtimeMs :: u64
  onKill :: nat
  pageDir :: nat
  unblockOnExit :: int
  userStackPageCount :: nat
  userStackVaddr :: "nat list"
  userStackPhys :: "nat list"
  userCodeBuf :: nat
  elfPageCount :: nat
  elfVaddr :: "nat list"
  elfPhys :: "nat list"
  pid :: u8
  ppid :: u8
  exitCode :: int
  children :: "u8 list"
  pendingSignals :: u32
  signalHandlers :: "nat list"
  savedSignalEip :: u32
  savedSignalEflags :: u32
  savedSignalEsp :: u32
  fpuValid :: bool
  fpuState :: "u8 list"
  historyBuf :: nat
  historyCount :: int
  historyHead :: int
  historyPos :: int

definition MAX_TASKS :: nat where "MAX_TASKS = 8"
definition MAX_CHILDREN :: nat where "MAX_CHILDREN = 8"
definition SIGNAL_MAX :: nat where "SIGNAL_MAX = 32"
definition USER_STACK_PAGE_MAX :: nat where "USER_STACK_PAGE_MAX = 16"
definition ELF_PAGE_MAX :: nat where "ELF_PAGE_MAX = 64"
definition QUANTUM_MS :: u64 where "QUANTUM_MS = 20"
definition TASK_STACK_SIZE :: nat where "TASK_STACK_SIZE = 8192"
definition STACK_CANARY :: u32 where "STACK_CANARY = 0xDEADBEEF"
definition PRIORITY_HIGH :: u8 where "PRIORITY_HIGH = 0"
definition PRIORITY_NORMAL :: u8 where "PRIORITY_NORMAL = 4"
definition PRIORITY_LOW :: u8 where "PRIORITY_LOW = 8"
definition PRIORITY_IDLE :: u8 where "PRIORITY_IDLE = 9"
definition IDLE_TASK_ID :: u8 where "IDLE_TASK_ID = 0"
definition FLAG_SUPPRESS_TASKBAR :: u8 where "FLAG_SUPPRESS_TASKBAR = 1"

text \<open>\<open>Task{}\<close>: all members zero, \<open>unblockOnExit\<close> is -1.\<close>

definition empty_task :: task where
  "empty_task = \<lparr>esp = 0, tstate = DEAD, tid = 0, tname = [], tentry = 0, stackBuf = 0, stackSize = 0,
     tflags = 0, priority = 0, wakeupMs = 0, runtimeMs = 0, onKill = 0, pageDir = 0, unblockOnExit = - 1,
     userStackPageCount = 0, userStackVaddr = replicate USER_STACK_PAGE_MAX 0,
     userStackPhys = replicate USER_STACK_PAGE_MAX 0, userCodeBuf = 0, elfPageCount = 0,
     elfVaddr = replicate ELF_PAGE_MAX 0, elfPhys = replicate ELF_PAGE_MAX 0, pid = 0, ppid = 0,
     exitCode = 0, children = [], pendingSignals = 0, signalHandlers = replicate SIGNAL_MAX 0,
     savedSignalEip = 0, savedSignalEflags = 0, savedSignalEsp = 0, fpuValid = False,
     fpuState = replicate 512 0, historyBuf = 0, historyCount = 0, historyHead = 0, historyPos = 0\<rparr>"

record sched = pit +
  tasks :: "task list"
  taskCount :: int
  currentIdx :: int
  quantumStartMs :: u64
  initialized :: bool
  totalExited :: int
  totalContextSwitches :: int
  idleTicks :: int
  nextPid :: u8
  fpuOwner :: int
  sleepQueue :: "(u64 \<times> int) list"
  lastTickMs :: u64
  cr3 :: nat
  tssEsp0 :: u32
  crTS :: bool
  fpuRegs :: "u8 list"

text \<open>\<open>tasks_[i]\<close> and an update of it.\<close>

definition task_at :: "int \<Rightarrow> 'a sched_scheme \<Rightarrow> task" where
  "task_at i s = tasks s ! nat i"

definition upd_task :: "int \<Rightarrow> (task \<Rightarrow> task) \<Rightarrow> 'a sched_scheme \<Rightarrow> 'a sched_scheme" where
  "upd_task i f s = s\<lparr>tasks := (tasks s)[nat i := f (tasks s ! nat i)]\<rparr>"

definition idx_corrupt :: "'a sched_scheme \<Rightarrow> bool" where
  "idx_corrupt s \<longleftrightarrow> currentIdx s < 0 \<or> currentIdx s \<ge> int MAX_TASKS"

section \<open>Counting and queries\<close>

definition isNotDead :: "TaskState \<Rightarrow> bool" where "isNotDead st \<longleftrightarrow> st \<noteq> DEAD"

definition isRunningOrReady :: "TaskState \<Rightarrow> bool" where
  "isRunningOrReady st \<longleftrightarrow> st = READY \<or> st = RUNNING"

definition isBlocked :: "TaskState \<Rightarrow> bool" where "isBlocked st \<longleftrightarrow> st = BLOCKED"

definition isDead :: "TaskState \<Rightarrow> bool" where "isDead st \<longleftrightarrow> st = DEAD"

definition countIf :: "(TaskState \<Rightarrow> bool) \<Rightarrow> 'a sched_scheme \<Rightarrow> nat" where
  "countIf P s = length (filter (\<lambda>t. P (tstate t)) (take (nat (taskCount s)) (tasks s)))"

definition aliveTaskCount :: "'a sched_scheme \<Rightarrow> nat" where "aliveTaskCount s = countIf isNotDead s"
definition runningReadyCount :: "'a sched_scheme \<Rightarrow> nat" where "runningReadyCount s = countIf isRunningOrReady s"
definition blockedTaskCount :: "'a sched_scheme \<Rightarrow> nat" where "blockedTaskCount s = countIf isBlocked s"
definition deadTaskCount :: "'a sched_scheme \<Rightarrow> nat" where "deadTaskCount s = countIf isDead s"

text \<open>The getters share the range check on the id.\<close>

definition slot_get :: "(task \<Rightarrow> 'b) \<Rightarrow> int \<Rightarrow> 'a sched_scheme \<Rightarrow> 'b option" where
  "slot_get f i s = (if i < 0 \<or> i \<ge> taskCount s then None else Some (f (task_at i s)))"

definition taskName :: "int \<Rightarrow> 'a sched_scheme \<Rightarrow> string option" where "taskName = slot_get tname"
definition taskState :: "int \<Rightarrow> 'a sched_scheme \<Rightarrow> TaskState option" where "taskState = slot_get tstate"
definition taskFlags :: "int \<Rightarrow> 'a sched_scheme \<Rightarrow> u8 option" where "taskFlags = slot_get tflags"
definition taskPriority :: "int \<Rightarrow> 'a sched_scheme \<Rightarrow> u8 option" where "taskPriority = slot_get priority"
definition taskEsp :: "int \<Rightarrow> 'a sched_scheme \<Rightarrow> u32 option" where "taskEsp = slot_get esp"
definition taskStackBuf :: "int \<Rightarrow> 'a sched_scheme \<Rightarrow> nat option" where "taskStackBuf = slot_get stackBuf"
definition taskStackSize :: "int \<Rightarrow> 'a sched_scheme \<Rightarrow> nat option" where "taskStackSize = slot_get stackSize"
definition taskEntryAddr :: "int \<Rightarrow> 'a sched_scheme \<Rightarrow> nat option" where "taskEntryAddr = slot_get tentry"
definition taskWakeupMs :: "int \<Rightarrow> 'a sched_scheme \<Rightarrow> u64 option" where "taskWakeupMs = slot_get wakeupMs"
definition taskRuntimeMs :: "int \<Rightarrow> 'a sched_scheme \<Rightarrow> u64 option" where "taskRuntimeMs = slot_get runtimeMs"

definition currentTask :: "'a sched_scheme \<Rightarrow> task" where
  "currentTask s = task_at (currentIdx s) s"

definition quantumRemaining :: "'a sched_scheme \<Rightarrow> int" where
  "quantumRemaining s =
     (let elapsed = uptimeMs s - quantumStartMs s
      in if elapsed \<ge> QUANTUM_MS then 0 else sint (ucast (QUANTUM_MS - elapsed) :: u32))"

definition isTaskbarSuppressed :: "'a sched_scheme \<Rightarrow> bool" where
  "isTaskbarSuppressed s \<longleftrightarrow>
     list_ex (\<lambda>t. tstate t \<noteq> DEAD \<and> tflags t AND FLAG_SUPPRESS_TASKBAR \<noteq> 0)
       (take (nat (taskCount s)) (tasks s))"

section \<open>Initialisation and task creation\<close>

definition sched_init :: "'a sched_scheme \<Rightarrow> 'a sched_scheme" where
  "sched_init s =
     s\<lparr>tasks := (replicate MAX_TASKS empty_task)
         [0 := empty_task\<lparr>tstate := RUNNING, tid := IDLE_TASK_ID, pid := IDLE_TASK_ID, ppid := 0,
                tentry := 0, stackBuf := 0, stackSize := 0, tname := ''idle'', priority := PRIORITY_IDLE\<rparr>],
       taskCount := 1, currentIdx := 0, quantumStartMs := 0, sleepQueue := [], lastTickMs := 0,
       initialized := True\<rparr>"

text \<open>The first DEAD slot, as \<open>find_if\<close> returns it.\<close>

definition findSlot :: "'a sched_scheme \<Rightarrow> int option \<times> 'a sched_scheme" where
  "findSlot s =
     (case find (\<lambda>i. tstate (tasks s ! i) = DEAD) [0..<nat (taskCount s)] of
        Some i \<Rightarrow> (Some (int i), s)
      | None \<Rightarrow> if taskCount s \<ge> int MAX_TASKS then (None, s)
                else (Some (taskCount s), s\<lparr>taskCount := taskCount s + 1\<rparr>))"

definition allocKernelStack :: "'a sched_scheme \<Rightarrow> (nat \<times> 'a sched_scheme) option" where
  "allocKernelStack s =
     (case heap_alloc (word_of_nat TASK_STACK_SIZE) s of
        None \<Rightarrow> None
      | Some (stack, s1) \<Rightarrow>
          Some (stack, if stack \<noteq> 0 then s1\<lparr>mem := (mem s1)(stack := STACK_CANARY)\<rparr> else s1))"

text \<open>Writing \<open>stackTop[-k]\<close> for \<open>k = 1, 2, ...\<close>.\<close>

fun push_frame :: "nat \<Rightarrow> u32 list \<Rightarrow> memory \<Rightarrow> memory" where
  "push_frame tp [] m = m"
| "push_frame tp (v # vs) m = push_frame (tp - 4) vs (m(tp - 4 := v))"

definition initStackFrame :: "nat \<Rightarrow> nat \<Rightarrow> 'a sched_scheme \<Rightarrow> u32 \<times> 'a sched_scheme" where
  "initStackFrame stack entryAddr s =
     (let stackTop = stack + TASK_STACK_SIZE
      in (word_of_nat (stackTop - 44),
          s\<lparr>mem := push_frame stackTop
                     [0x202, 0x08, word_of_nat entryAddr, 0, 0, 0, 0, 0, 0, 0, 0] (mem s)\<rparr>))"

definition initUserStackFrame :: "nat \<Rightarrow> u32 \<Rightarrow> u32 \<Rightarrow> 'a sched_scheme \<Rightarrow> u32 \<times> 'a sched_scheme" where
  "initUserStackFrame stack userEip userEsp s =
     (let stackTop = stack + TASK_STACK_SIZE
      in (word_of_nat (stackTop - 52),
          s\<lparr>mem := push_frame stackTop
                     ([0x23, userEsp, 0x202, 0x1B, userEip] @ replicate 8 0) (mem s)\<rparr>))"

definition initProcessFields :: "int \<Rightarrow> 'a sched_scheme \<Rightarrow> 'a sched_scheme" where
  "initProcessFields i s =
     (let p = nextPid s;
          pp = (if idx_corrupt s then 0 else pid (currentTask s))
      in upd_task i (\<lambda>t. t\<lparr>pid := p, ppid := pp, exitCode := 0, children := []\<rparr>) (s\<lparr>nextPid := p + 1\<rparr>))"

text \<open>Filling a free slot: a stack left over from its last task is released first.
  \<open>taskWrapper\<close> is the entry point of every kernel task; its address is a parameter.\<close>

definition release_stack :: "int \<Rightarrow> 'a sched_scheme \<Rightarrow> 'a sched_scheme option" where
  "release_stack slot s =
     (if stackBuf (task_at slot s) \<noteq> 0
      then map_option (upd_task slot (\<lambda>t. t\<lparr>stackBuf := 0\<rparr>)) (heap_free (stackBuf (task_at slot s)) s)
      else Some s)"

definition fill_slot ::
  "nat \<Rightarrow> string \<Rightarrow> nat \<Rightarrow> nat \<Rightarrow> u8 \<Rightarrow> int \<Rightarrow> 'a sched_scheme \<Rightarrow> (int option \<times> 'a sched_scheme) option" where
  "fill_slot wrapper nm entryAddr pageDirPhys prio slot s =
     (let s3 = upd_task slot (\<lambda>t. t\<lparr>tflags := 0, priority := prio, wakeupMs := 0, runtimeMs := 0,
                                    onKill := 0, pageDir := pageDirPhys\<rparr>) s
      in case allocKernelStack s3 of
           None \<Rightarrow> None
         | Some (stack, s4) \<Rightarrow>
             if stack = 0 then Some (None, s4)
             else let (e, s5) = initStackFrame stack wrapper s4;
                      s6 = upd_task slot (\<lambda>t. t\<lparr>esp := e, tentry := entryAddr, tstate := READY,
                                               tid := word_of_int slot\<rparr>) s5;
                      s7 = initProcessFields slot s6;
                      s8 = upd_task slot (\<lambda>t. t\<lparr>stackBuf := stack, stackSize := TASK_STACK_SIZE,
                                               tname := take 15 nm\<rparr>) s7
                  in Some (Some slot, s8))"

definition addTaskImpl ::
  "nat \<Rightarrow> string option \<Rightarrow> nat \<Rightarrow> nat \<Rightarrow> u8 \<Rightarrow> 'a sched_scheme \<Rightarrow> (int option \<times> 'a sched_scheme) option" where
  "addTaskImpl wrapper name entryAddr pageDirPhys prio s =
     (case name of
        None \<Rightarrow> Some (None, s)
      | Some nm \<Rightarrow>
          (case findSlot s of
             (None, s1) \<Rightarrow> Some (None, s1)
           | (Some slot, s1) \<Rightarrow>
               (case release_stack slot s1 of
                  None \<Rightarrow> None
                | Some s2 \<Rightarrow> fill_slot wrapper nm entryAddr pageDirPhys prio slot s2)))"

definition addTask ::
  "nat \<Rightarrow> string option \<Rightarrow> nat \<Rightarrow> nat \<Rightarrow> u8 \<Rightarrow> 'a sched_scheme \<Rightarrow> (int option \<times> 'a sched_scheme) option" where
  "addTask = addTaskImpl"

section \<open>The sleep queue\<close>

fun remove_sleep :: "int \<Rightarrow> (u64 \<times> int) list \<Rightarrow> (u64 \<times> int) list" where
  "remove_sleep i [] = []"
| "remove_sleep i (e # q) = (if snd e = i then q else e # remove_sleep i q)"

definition removeFromSleepQueue :: "int \<Rightarrow> 'a sched_scheme \<Rightarrow> 'a sched_scheme" where
  "removeFromSleepQueue i s = s\<lparr>sleepQueue := remove_sleep i (sleepQueue s)\<rparr>"

text \<open>The insertion position, searched backwards from the end.\<close>

fun sleep_pos :: "(u64 \<times> int) list \<Rightarrow> u64 \<Rightarrow> nat \<Rightarrow> nat" where
  "sleep_pos q d 0 = 0"
| "sleep_pos q d (Suc p) = (if fst (q ! p) > d then sleep_pos q d p else Suc p)"

definition insert_sleep :: "u64 \<Rightarrow> int \<Rightarrow> (u64 \<times> int) list \<Rightarrow> (u64 \<times> int) list" where
  "insert_sleep d i q = (let p = sleep_pos q d (length q) in take p q @ (d, i) # drop p q)"

text \<open>\<open>sleep\<close> up to its wait loop. A ninth entry would be written behind the array.\<close>

definition sched_sleep :: "u64 \<Rightarrow> 'a sched_scheme \<Rightarrow> 'a sched_scheme kres" where
  "sched_sleep ms s =
     (if idx_corrupt s then kpanic ''Scheduler::sleep: corrupted currentIdx''
      else if length (sleepQueue s) \<ge> MAX_TASKS then kpanic ''sleepQueue_: index out of bounds''
      else let deadline = uptimeMs s + ms;
               s1 = upd_task (currentIdx s) (\<lambda>t. t\<lparr>wakeupMs := deadline, tstate := BLOCKED\<rparr>) s;
               s2 = s1\<lparr>sleepQueue := insert_sleep deadline (currentIdx s) (sleepQueue s1)\<rparr>
           in kret (if deadline < pit_deadline s2 then programForMs (ucast ms) s2 else s2))"

text \<open>The wake-up loop of \<open>tick\<close>.\<close>

fun wake_loop :: "u64 \<Rightarrow> (u64 \<times> int) list \<Rightarrow> task list \<Rightarrow> (u64 \<times> int) list \<times> task list" where
  "wake_loop now [] ts = ([], ts)"
| "wake_loop now ((d, i) # q) ts =
     (if d \<le> now then
        wake_loop now q
          (ts[nat i := (ts ! nat i)\<lparr>tstate := (if tstate (ts ! nat i) = BLOCKED then READY else tstate (ts ! nat i)),
                                     wakeupMs := 0\<rparr>])
      else ((d, i) # q, ts))"

definition wake_expired :: "u64 \<Rightarrow> 'a sched_scheme \<Rightarrow> 'a sched_scheme" where
  "wake_expired now s =
     (let (q, ts) = wake_loop now (sleepQueue s) (tasks s) in s\<lparr>sleepQueue := q, tasks := ts\<rparr>)"

definition programNextTick :: "'a sched_scheme \<Rightarrow> 'a sched_scheme" where
  "programNextTick s =
     (let now = uptimeMs s;
          n0 = PIT_MAX_MS;
          n1 = (case sleepQueue s of
                  [] \<Rightarrow> n0
                | (d, _) # _ \<Rightarrow> if d > now then ucast (d - now) else 1);
          elapsed = now - quantumStartMs s;
          n2 = (if elapsed < QUANTUM_MS then
                  (if QUANTUM_MS - elapsed < ucast n1 then ucast (QUANTUM_MS - elapsed) else n1)
                else n1)
      in programForMs (clamp32 n2 1 PIT_MAX_MS) s)"

section \<open>Blocking and unblocking\<close>

definition unblockTask :: "int \<Rightarrow> 'a sched_scheme \<Rightarrow> 'a sched_scheme" where
  "unblockTask i s =
     (if i \<ge> 0 \<and> i < taskCount s \<and> tstate (task_at i s) = BLOCKED then
        let s1 = upd_task i (\<lambda>t. t\<lparr>tstate := READY, wakeupMs := 0\<rparr>) s;
            s2 = removeFromSleepQueue i s1
        in if priority (task_at i s2) < priority (currentTask s2) then programForMs 1 s2 else s2
      else s)"

definition blockCurrentTask :: "'a sched_scheme \<Rightarrow> 'a sched_scheme kres" where
  "blockCurrentTask s =
     (if idx_corrupt s then kpanic ''Scheduler::blockCurrentTask: corrupted currentIdx''
      else kret (upd_task (currentIdx s) (\<lambda>t. t\<lparr>tstate := BLOCKED\<rparr>) s))"

definition blockCurrentTaskAndYield :: "'a sched_scheme \<Rightarrow> 'a sched_scheme kres" where
  "blockCurrentTaskAndYield s =
     (if idx_corrupt s then kpanic ''Scheduler::blockCurrentTaskAndYield: corrupted currentIdx''
      else kret (upd_task (currentIdx s) (\<lambda>t. t\<lparr>tstate := BLOCKED\<rparr>) s))"

text \<open>Conversion of an int to \<open>int8_t\<close>.\<close>

definition to_int8 :: "int \<Rightarrow> int" where
  "to_int8 n = sint (word_of_int n :: u8)"

definition setUnblockOnExit :: "int \<Rightarrow> int \<Rightarrow> 'a sched_scheme \<Rightarrow> 'a sched_scheme" where
  "setUnblockOnExit i unblockId s =
     (if i \<ge> 0 \<and> i < taskCount s then upd_task i (\<lambda>t. t\<lparr>unblockOnExit := to_int8 unblockId\<rparr>) s else s)"

definition suppressTaskbar :: "'a sched_scheme \<Rightarrow> 'a sched_scheme kres" where
  "suppressTaskbar s =
     (if idx_corrupt s then kpanic ''Scheduler::suppressTaskbar: corrupted currentIdx''
      else kret (upd_task (currentIdx s) (\<lambda>t. t\<lparr>tflags := tflags t OR FLAG_SUPPRESS_TASKBAR\<rparr>) s))"

definition setOnKill :: "nat \<Rightarrow> 'a sched_scheme \<Rightarrow> 'a sched_scheme kres" where
  "setOnKill handler s =
     (if idx_corrupt s then kpanic ''Scheduler::setOnKill: corrupted currentIdx''
      else kret (upd_task (currentIdx s) (\<lambda>t. t\<lparr>onKill := handler\<rparr>) s))"

section \<open>Selection and context switch\<close>

fun find_scan :: "task list \<Rightarrow> int \<Rightarrow> int \<Rightarrow> nat list \<Rightarrow> int \<Rightarrow> int \<Rightarrow> int" where
  "find_scan ts cur cnt [] bestPriority bestIdx = bestIdx"
| "find_scan ts cur cnt (i # is) bestPriority bestIdx =
     (let idx = (cur + 1 + int i) mod cnt;
          better = tstate (ts ! nat idx) = READY \<and> int (unat (priority (ts ! nat idx))) < bestPriority;
          bp = (if better then int (unat (priority (ts ! nat idx))) else bestPriority);
          bi = (if better then idx else bestIdx)
      in if bp = int (unat PRIORITY_HIGH) then bi else find_scan ts cur cnt is bp bi)"

definition findNext :: "'a sched_scheme \<Rightarrow> int option kres" where
  "findNext s =
     (if idx_corrupt s then kpanic ''Scheduler::findNext: corrupted currentIdx''
      else if taskCount s < 0 \<or> taskCount s > int MAX_TASKS then kpanic ''Scheduler::findNext: corrupted taskCount''
      else if taskCount s \<le> 1 then kret None
      else let bi = find_scan (tasks s) (currentIdx s) (taskCount s) [0..<nat (taskCount s - 1)]
                      (int (unat PRIORITY_IDLE) + 1) (- 1)
           in kret (Some (if bi \<ge> 0 then bi else 0)))"

definition switchTo :: "int \<Rightarrow> 'a sched_scheme \<Rightarrow> (u32 \<times> 'a sched_scheme) kres" where
  "switchTo next s =
     (let s1 = s\<lparr>totalContextSwitches := totalContextSwitches s + 1\<rparr>;
          s2 = (if tstate (currentTask s1) = RUNNING
                then upd_task (currentIdx s1) (\<lambda>t. t\<lparr>tstate := READY\<rparr>) s1 else s1)
      in if next < 0 \<or> next \<ge> int MAX_TASKS \<or> tstate (task_at next s2) \<noteq> READY
         then kpanic ''Scheduler::switchTo: target task is not READY''
         else let s3 = upd_task next (\<lambda>t. t\<lparr>tstate := RUNNING\<rparr>) (s2\<lparr>currentIdx := next\<rparr>);
                  t = task_at next s3;
                  s4 = s3\<lparr>quantumStartMs := uptimeMs s3,
                          cr3 := (if pageDir t \<noteq> 0 then pageDir t else kernelPageDirPhys s3),
                          tssEsp0 := (if userStackPageCount t > 0
                                      then word_of_nat (stackBuf t + TASK_STACK_SIZE) else tssEsp0 s3),
                          crTS := True\<rparr>;
                  s5 = programNextTick s4
              in kret (esp (task_at next s5), s5))"

definition checkCanary :: "task \<Rightarrow> 'a sched_scheme \<Rightarrow> unit kres" where
  "checkCanary t s =
     (if stackBuf t = 0 then kret ()
      else if tstate t = DEAD then kret ()
      else if mem s (stackBuf t) \<noteq> STACK_CANARY then kpanic ''stack overflow''
      else kret ())"

section \<open>Process bookkeeping\<close>

definition reparentChildren :: "u8 \<Rightarrow> 'a sched_scheme \<Rightarrow> 'a sched_scheme" where
  "reparentChildren parentId s =
     s\<lparr>tasks := map (\<lambda>t. if tstate t \<noteq> DEAD \<and> ppid t = parentId then t\<lparr>ppid := 0\<rparr> else t)
                  (take (nat (taskCount s)) (tasks s)) @ drop (nat (taskCount s)) (tasks s)\<rparr>"

text \<open>The index of a dead task with the pid, searched over the used slots.\<close>

definition find_dead :: "u8 \<Rightarrow> 'a sched_scheme \<Rightarrow> nat option" where
  "find_dead p s = find (\<lambda>k. pid (tasks s ! k) = p \<and> tstate (tasks s ! k) = DEAD) [0..<nat (taskCount s)]"

text \<open>\<open>children[i] = children[childCount - 1]; --childCount\<close>.\<close>

definition drop_child :: "nat \<Rightarrow> u8 list \<Rightarrow> u8 list" where
  "drop_child i cs = butlast (cs[i := last cs])"

text \<open>The result is the reaped pid with its exit code, or nothing (the source returns -1).\<close>

definition reapDeadChild :: "int \<Rightarrow> 'a sched_scheme \<Rightarrow> (u8 \<times> int) option \<times> 'a sched_scheme" where
  "reapDeadChild parent s =
     (let cs = children (task_at parent s)
      in case find (\<lambda>i. find_dead (cs ! i) s \<noteq> None) [0..<length cs] of
           None \<Rightarrow> (None, s)
         | Some i \<Rightarrow>
             (case find_dead (cs ! i) s of
                None \<Rightarrow> (None, s)
              | Some k \<Rightarrow> (Some (pid (tasks s ! k), exitCode (tasks s ! k)),
                           upd_task parent (\<lambda>t. t\<lparr>children := drop_child i cs\<rparr>) s)))"

section \<open>Selection: the best READY task in round-robin order\<close>

text \<open>What the scan leaves in \<open>bestIdx\<close>: the first slot of the least priority below the bound.\<close>

definition scan_slot :: "int \<Rightarrow> int \<Rightarrow> nat \<Rightarrow> int" where
  "scan_slot cur cnt i = (cur + 1 + int i) mod cnt"

definition ready_prio :: "task list \<Rightarrow> int \<Rightarrow> int option" where
  "ready_prio ts i =
     (if tstate (ts ! nat i) = READY then Some (int (unat (priority (ts ! nat i)))) else None)"

lemma ready_prio_nonneg: "ready_prio ts i = Some p \<Longrightarrow> 0 \<le> p"
  by (auto simp: ready_prio_def split: if_splits)

lemma find_scan_Cons:
  "find_scan ts cur cnt (i # is) bp bi =
     (case ready_prio ts (scan_slot cur cnt i) of
        None \<Rightarrow> if bp = 0 then bi else find_scan ts cur cnt is bp bi
      | Some p \<Rightarrow> if p < bp then (if p = 0 then scan_slot cur cnt i else find_scan ts cur cnt is p (scan_slot cur cnt i))
                  else if bp = 0 then bi else find_scan ts cur cnt is bp bi)"
  by (simp add: scan_slot_def ready_prio_def Let_def PRIORITY_HIGH_def)

declare find_scan.simps(2) [simp del]

text \<open>The winner of a list of scan positions, below a bound.\<close>

definition wins :: "task list \<Rightarrow> int \<Rightarrow> int \<Rightarrow> nat list \<Rightarrow> int \<Rightarrow> int \<Rightarrow> bool" where
  "wins ts cur cnt is bp n \<longleftrightarrow>
     (\<exists>xs i ys p. is = xs @ i # ys \<and> n = scan_slot cur cnt i \<and> ready_prio ts n = Some p \<and> p < bp
        \<and> (\<forall>j\<in>set xs. \<forall>r. ready_prio ts (scan_slot cur cnt j) = Some r \<longrightarrow> p < r)
        \<and> (\<forall>j\<in>set ys. \<forall>r. ready_prio ts (scan_slot cur cnt j) = Some r \<longrightarrow> p \<le> r))"

lemma wins_here:
  assumes "ready_prio ts (scan_slot cur cnt i) = Some p" "p < bp"
    and "\<And>j r. j \<in> set is \<Longrightarrow> ready_prio ts (scan_slot cur cnt j) = Some r \<Longrightarrow> p \<le> r"
  shows "wins ts cur cnt (i # is) bp (scan_slot cur cnt i)"
  unfolding wins_def using assms by (intro exI [of _ "[]"] exI [of _ i] exI [of _ "is"] exI [of _ p]) simp

lemma wins_later:
  assumes "wins ts cur cnt is bp n" "bp \<le> b"
    and "\<And>r. ready_prio ts (scan_slot cur cnt i) = Some r \<Longrightarrow> bp \<le> r"
  shows "wins ts cur cnt (i # is) b n"
proof -
  obtain xs j ys p where *: "is = xs @ j # ys" "n = scan_slot cur cnt j" "ready_prio ts n = Some p" "p < bp"
      "\<forall>j\<in>set xs. \<forall>r. ready_prio ts (scan_slot cur cnt j) = Some r \<longrightarrow> p < r"
      "\<forall>j\<in>set ys. \<forall>r. ready_prio ts (scan_slot cur cnt j) = Some r \<longrightarrow> p \<le> r"
    using assms(1) unfolding wins_def by blast
  have "\<forall>j\<in>set (i # xs). \<forall>r. ready_prio ts (scan_slot cur cnt j) = Some r \<longrightarrow> p < r"
    using *(4,5) assms(3) by fastforce
  with * assms(2) show ?thesis
    unfolding wins_def by (intro exI [of _ "i # xs"] exI [of _ j] exI [of _ ys] exI [of _ p]) simp
qed

lemma find_scan_correct:
  assumes "0 \<le> bp"
  shows "if \<exists>i\<in>set is. \<exists>p. ready_prio ts (scan_slot cur cnt i) = Some p \<and> p < bp
         then wins ts cur cnt is bp (find_scan ts cur cnt is bp bi)
         else find_scan ts cur cnt is bp bi = bi"
  using assms
proof (induction "is" arbitrary: bp bi)
  case Nil
  then show ?case by simp
next
  case (Cons i "is")
  let ?R = "ready_prio ts (scan_slot cur cnt i)"
  show ?case
  proof (cases "\<exists>p. ?R = Some p \<and> p < bp")
    case True
    then obtain p where p: "?R = Some p" "p < bp" by blast
    from p(1) have p0: "0 \<le> p" by (rule ready_prio_nonneg)
    have "wins ts cur cnt (i # is) bp (find_scan ts cur cnt (i # is) bp bi)"
    proof (cases "p = 0 \<or> (\<forall>j\<in>set is. \<forall>r. ready_prio ts (scan_slot cur cnt j) = Some r \<longrightarrow> p \<le> r)")
      case True
      then have "\<And>j r. j \<in> set is \<Longrightarrow> ready_prio ts (scan_slot cur cnt j) = Some r \<Longrightarrow> p \<le> r"
        using ready_prio_nonneg by blast
      moreover from this have "find_scan ts cur cnt (i # is) bp bi = scan_slot cur cnt i"
        using p p0 Cons.IH [of p "scan_slot cur cnt i"] by (fastforce simp: find_scan_Cons split: if_splits)
      ultimately show ?thesis using wins_here [OF p] by simp
    next
      case False
      with p p0 Cons.IH [of p "scan_slot cur cnt i"]
      have "wins ts cur cnt is p (find_scan ts cur cnt (i # is) bp bi)"
        by (fastforce simp: find_scan_Cons not_le split: if_splits)
      then show ?thesis using p by (intro wins_later [of _ _ _ _ p]) simp_all
    qed
    then show ?thesis using p by auto
  next
    case False
    then have le: "\<And>r. ?R = Some r \<Longrightarrow> bp \<le> r" by (meson not_less)
    have eq: "find_scan ts cur cnt (i # is) bp bi = (if bp = 0 then bi else find_scan ts cur cnt is bp bi)"
      using le by (fastforce simp: find_scan_Cons split: option.splits)
    show ?thesis
    proof (cases "bp = 0")
      case True
      then show ?thesis using eq ready_prio_nonneg by fastforce
    next
      case F: False
      show ?thesis
      proof (cases "\<exists>i\<in>set is. \<exists>p. ready_prio ts (scan_slot cur cnt i) = Some p \<and> p < bp")
        case True
        then have "wins ts cur cnt (i # is) bp (find_scan ts cur cnt (i # is) bp bi)"
          using Cons.IH [OF Cons.prems] eq F le by (intro wins_later [of _ _ _ _ bp]) auto
        then show ?thesis using True by auto
      next
        case N: False
        then show ?thesis using Cons.IH [OF Cons.prems, of bi] eq F False by auto
      qed
    qed
  qed
qed

text \<open>The positions scanned are all used slots but the current one, in round-robin order.\<close>

definition rr_dist :: "int \<Rightarrow> int \<Rightarrow> int \<Rightarrow> int" where
  "rr_dist cur cnt i = (i - cur - 1) mod cnt"

lemma rr_dist_scan:
  assumes "0 \<le> cur" "cur < cnt" "i < nat (cnt - 1)"
  shows "rr_dist cur cnt (scan_slot cur cnt i) = int i"
proof -
  have "rr_dist cur cnt (scan_slot cur cnt i) = (cur + 1 + int i - cur - 1) mod cnt"
    unfolding rr_dist_def scan_slot_def by (metis diff_diff_eq mod_diff_left_eq)
  with assms show ?thesis by simp
qed

lemma scan_rr_dist:
  assumes "0 \<le> cur" "cur < cnt" "0 \<le> i" "i < cnt"
  shows "scan_slot cur cnt (nat (rr_dist cur cnt i)) = i"
proof -
  have "0 \<le> rr_dist cur cnt i" using assms by (simp add: rr_dist_def)
  then have "scan_slot cur cnt (nat (rr_dist cur cnt i)) = (cur + 1 + rr_dist cur cnt i) mod cnt"
    by (simp add: scan_slot_def)
  also have "\<dots> = (cur + 1 + (i - cur - 1)) mod cnt"
    unfolding rr_dist_def by (rule mod_add_right_eq)
  finally show ?thesis using assms by simp
qed

lemma rr_dist_less:
  assumes "0 \<le> cur" "cur < cnt" "0 \<le> i" "i < cnt" "i \<noteq> cur"
  shows "nat (rr_dist cur cnt i) < nat (cnt - 1)"
proof -
  have "rr_dist cur cnt i \<noteq> cnt - 1"
  proof
    assume "rr_dist cur cnt i = cnt - 1"
    then have "i = (cur + 1 + (cnt - 1)) mod cnt"
      using scan_rr_dist [OF assms(1-4)] assms by (simp add: scan_slot_def)
    with assms show False by simp
  qed
  moreover have "rr_dist cur cnt i < cnt" "0 \<le> rr_dist cur cnt i" using assms by (simp_all add: rr_dist_def)
  ultimately show ?thesis by linarith
qed

lemma scan_slot_range:
  assumes "0 \<le> cur" "cur < cnt" "i < nat (cnt - 1)"
  shows "0 \<le> scan_slot cur cnt i" "scan_slot cur cnt i < cnt" "scan_slot cur cnt i \<noteq> cur"
proof -
  show "0 \<le> scan_slot cur cnt i" "scan_slot cur cnt i < cnt" using assms by (simp_all add: scan_slot_def)
  show "scan_slot cur cnt i \<noteq> cur"
  proof
    assume "scan_slot cur cnt i = cur"
    with rr_dist_scan [OF assms] have "(- 1) mod cnt = int i" by (simp add: rr_dist_def)
    with assms show False using zmod_minus1 [of cnt] by simp
  qed
qed

section \<open>The invariant of the task table\<close>

definition sleep_ok :: "task list \<Rightarrow> int \<Rightarrow> (u64 \<times> int) list \<Rightarrow> bool" where
  "sleep_ok ts cnt q \<longleftrightarrow>
     sorted (map fst q) \<and> distinct (map snd q) \<and>
     (\<forall>e\<in>set q. 0 \<le> snd e \<and> snd e < cnt \<and> tstate (ts ! nat (snd e)) = BLOCKED
        \<and> wakeupMs (ts ! nat (snd e)) = fst e)"

definition table_ok :: "task list \<Rightarrow> int \<Rightarrow> int \<Rightarrow> (u64 \<times> int) list \<Rightarrow> bool" where
  "table_ok ts cnt cur q \<longleftrightarrow>
     length ts = MAX_TASKS \<and> cnt \<le> int MAX_TASKS \<and> 0 \<le> cur \<and> cur < cnt \<and>
     (\<forall>k<MAX_TASKS. cnt \<le> int k \<longrightarrow> tstate (ts ! k) = DEAD) \<and>
     (\<forall>k<MAX_TASKS. tstate (ts ! k) = RUNNING \<longrightarrow> int k = cur) \<and>
     sleep_ok ts cnt q"

definition sched_ok :: "'a sched_scheme \<Rightarrow> bool" where
  "sched_ok s \<longleftrightarrow> table_ok (tasks s) (taskCount s) (currentIdx s) (sleepQueue s)"

lemma sched_okD:
  assumes "sched_ok s"
  shows "length (tasks s) = MAX_TASKS" "0 \<le> currentIdx s" "currentIdx s < taskCount s"
    "taskCount s \<le> int MAX_TASKS" "\<not> idx_corrupt s" "nat (currentIdx s) < length (tasks s)"
  using assms by (auto simp: sched_ok_def table_ok_def idx_corrupt_def)

text \<open>Replacing one slot. A queued task stays BLOCKED with its deadline, or is not queued.\<close>

lemma table_ok_upd:
  assumes "table_ok ts cnt cur q" "k < MAX_TASKS"
    and "cnt \<le> int k \<Longrightarrow> tstate t = DEAD"
    and "tstate t = RUNNING \<Longrightarrow> int k = cur"
    and "int k \<in> snd ` set q \<Longrightarrow> tstate t = BLOCKED \<and> wakeupMs t = wakeupMs (ts ! k)"
  shows "table_ok (ts[k := t]) cnt cur q"
proof -
  have l: "length ts = MAX_TASKS" using assms(1) by (simp add: table_ok_def)
  have "sleep_ok (ts[k := t]) cnt q"
    unfolding sleep_ok_def
  proof (intro conjI ballI)
    show "sorted (map fst q)" "distinct (map snd q)" using assms(1) by (simp_all add: table_ok_def sleep_ok_def)
    fix e assume e: "e \<in> set q"
    with assms(1) have *: "0 \<le> snd e" "snd e < cnt" "tstate (ts ! nat (snd e)) = BLOCKED"
        "wakeupMs (ts ! nat (snd e)) = fst e" by (auto simp: table_ok_def sleep_ok_def)
    show "0 \<le> snd e" "snd e < cnt" by (fact *)+
    show "tstate (ts[k := t] ! nat (snd e)) = BLOCKED" "wakeupMs (ts[k := t] ! nat (snd e)) = fst e"
    proof (atomize (full), cases "nat (snd e) = k")
      case True
      then have "int k \<in> snd ` set q" using e *(1) by force
      with assms(5) True * l assms(2)
      show "tstate (ts[k := t] ! nat (snd e)) = BLOCKED \<and> wakeupMs (ts[k := t] ! nat (snd e)) = fst e" by simp
    next
      case False
      with * show "tstate (ts[k := t] ! nat (snd e)) = BLOCKED \<and> wakeupMs (ts[k := t] ! nat (snd e)) = fst e" by simp
    qed
  qed
  moreover have st: "tstate (ts[k := t] ! j) = (if j = k then tstate t else tstate (ts ! j))" for j
    using l assms(2) by (simp add: nth_list_update)
  have "tstate (ts[k := t] ! j) = DEAD" if "j < MAX_TASKS" "cnt \<le> int j" for j
    using assms(1,3) that unfolding st table_ok_def by metis
  moreover have "int j = cur" if "j < MAX_TASKS" "tstate (ts[k := t] ! j) = RUNNING" for j
    using assms(1,4) that unfolding st table_ok_def by metis
  ultimately show ?thesis
    using assms(1) l unfolding table_ok_def by (simp only: length_list_update) blast
qed

lemma table_ok_queue:
  assumes "table_ok ts cnt cur q" "sleep_ok ts cnt q'"
  shows "table_ok ts cnt cur q'"
  using assms by (simp add: table_ok_def)

lemma sleep_ok_filter: "sleep_ok ts cnt q \<Longrightarrow> sleep_ok ts cnt (filter P q)"
  by (auto simp: sleep_ok_def sorted_filter distinct_map_filter)

lemma table_ok_filter: "table_ok ts cnt cur q \<Longrightarrow> table_ok ts cnt cur (filter P q)"
  by (simp add: table_ok_def sleep_ok_filter)

text \<open>A slot that is not BLOCKED is not in the sleep queue.\<close>

lemma not_queued:
  assumes "table_ok ts cnt cur q" "tstate (ts ! k) \<noteq> BLOCKED"
  shows "int k \<notin> snd ` set q"
proof
  assume "int k \<in> snd ` set q"
  then obtain e where e: "e \<in> set q" "snd e = int k" by auto
  from assms(1) have "sleep_ok ts cnt q" by (simp only: table_ok_def)
  with e(1) have "tstate (ts ! nat (snd e)) = BLOCKED" by (simp only: sleep_ok_def)
  with e(2) assms(2) show False by simp
qed

text \<open>Changes of fields that the invariant does not read.\<close>

lemma sched_ok_cong:
  assumes "sched_ok s" "tasks s' = tasks s" "taskCount s' = taskCount s" "currentIdx s' = currentIdx s"
    "sleepQueue s' = sleepQueue s"
  shows "sched_ok s'"
  using assms by (simp add: sched_ok_def)

lemma programForMs_sched [simp]:
  "tasks (programForMs ms s) = tasks s" "taskCount (programForMs ms s) = taskCount s"
  "currentIdx (programForMs ms s) = currentIdx s" "sleepQueue (programForMs ms s) = sleepQueue s"
  "quantumStartMs (programForMs ms s) = quantumStartMs s" "cr3 (programForMs ms s) = cr3 s"
  "tssEsp0 (programForMs ms s) = tssEsp0 s" "crTS (programForMs ms s) = crTS s"
  "initialized (programForMs ms s) = initialized s" "totalContextSwitches (programForMs ms s) = totalContextSwitches s"
  "kernelPageDirPhys (programForMs ms s) = kernelPageDirPhys s" "uptimeMs (programForMs ms s) = uptimeMs s"
  by (simp_all add: programForMs_def setDivisor_def Let_def kernelPageDirPhys_def uptimeMs_def)

lemma programNextTick_sched [simp]:
  "tasks (programNextTick s) = tasks s" "taskCount (programNextTick s) = taskCount s"
  "currentIdx (programNextTick s) = currentIdx s" "sleepQueue (programNextTick s) = sleepQueue s"
  "quantumStartMs (programNextTick s) = quantumStartMs s" "cr3 (programNextTick s) = cr3 s"
  "tssEsp0 (programNextTick s) = tssEsp0 s" "crTS (programNextTick s) = crTS s"
  "initialized (programNextTick s) = initialized s" "totalContextSwitches (programNextTick s) = totalContextSwitches s"
  "uptimeMs (programNextTick s) = uptimeMs s"
  by (simp_all add: programNextTick_def Let_def)

section \<open>findNext\<close>

text \<open>A slot that may be chosen: READY with one of the ten priorities.\<close>

definition candidate :: "'a sched_scheme \<Rightarrow> int \<Rightarrow> bool" where
  "candidate s i \<longleftrightarrow> 0 \<le> i \<and> i < taskCount s \<and> i \<noteq> currentIdx s \<and> tstate (task_at i s) = READY
     \<and> priority (task_at i s) \<le> PRIORITY_IDLE"

definition rr_before :: "'a sched_scheme \<Rightarrow> int \<Rightarrow> int \<Rightarrow> bool" where
  "rr_before s i j \<longleftrightarrow> rr_dist (currentIdx s) (taskCount s) i \<le> rr_dist (currentIdx s) (taskCount s) j"

lemma candidate_scan:
  assumes "sched_ok s"
  shows "candidate s i \<longleftrightarrow>
    (\<exists>k<nat (taskCount s - 1). i = scan_slot (currentIdx s) (taskCount s) k \<and>
       (\<exists>p. ready_prio (tasks s) i = Some p \<and> p < int (unat PRIORITY_IDLE) + 1))" (is "_ \<longleftrightarrow> (\<exists>k<_. ?S k)")
proof
  note b = sched_okD [OF assms]
  assume c: "candidate s i"
  then have r: "0 \<le> i" "i < taskCount s" "i \<noteq> currentIdx s" by (simp_all add: candidate_def)
  have "?S (nat (rr_dist (currentIdx s) (taskCount s) i))"
    using c scan_rr_dist [OF b(2,3) r(1,2)]
    by (simp add: candidate_def ready_prio_def task_at_def word_le_def)
  then show "\<exists>k<nat (taskCount s - 1). ?S k" using rr_dist_less [OF b(2,3) r] by blast
next
  note b = sched_okD [OF assms]
  assume "\<exists>k<nat (taskCount s - 1). ?S k"
  then obtain k where k: "k < nat (taskCount s - 1)" "?S k" by blast
  with scan_slot_range [OF b(2,3) k(1)] show "candidate s i"
    by (auto simp: candidate_def ready_prio_def task_at_def word_le_def split: if_splits)
qed

lemma findNext_unfold:
  assumes "sched_ok s" "1 < taskCount s"
  shows "findNext s = kret (Some (let bi = find_scan (tasks s) (currentIdx s) (taskCount s)
            [0..<nat (taskCount s - 1)] (int (unat PRIORITY_IDLE) + 1) (- 1) in if bi \<ge> 0 then bi else 0))"
  using sched_okD [OF assms(1)] assms(2) by (simp add: findNext_def Let_def)

lemma findNext_spec:
  assumes "sched_ok s" "1 < taskCount s"
  shows "\<exists>n. findNext s = kret (Some n) \<and>
    (if \<exists>i. candidate s i
     then candidate s n \<and>
       (\<forall>i. candidate s i \<longrightarrow> priority (task_at n s) < priority (task_at i s) \<or>
          priority (task_at n s) = priority (task_at i s) \<and> rr_before s n i)
     else n = 0)"
proof -
  note b = sched_okD [OF assms(1)] and cs = candidate_scan [OF assms(1)]
  let ?cur = "currentIdx s" and ?cnt = "taskCount s" and ?B = "int (unat PRIORITY_IDLE) + 1"
  let ?is = "[0..<nat (?cnt - 1)]"
  define n where "n = find_scan (tasks s) ?cur ?cnt ?is ?B (- 1)"
  have scan: "if \<exists>i\<in>set ?is. \<exists>p. ready_prio (tasks s) (scan_slot ?cur ?cnt i) = Some p \<and> p < ?B
      then wins (tasks s) ?cur ?cnt ?is ?B n else n = - 1"
    unfolding n_def by (rule find_scan_correct) simp
  have ex: "(\<exists>i\<in>set ?is. \<exists>p. ready_prio (tasks s) (scan_slot ?cur ?cnt i) = Some p \<and> p < ?B)
      \<longleftrightarrow> (\<exists>i. candidate s i)" unfolding cs by auto
  show ?thesis
  proof (cases "\<exists>i. candidate s i")
    case False
    with scan ex have "n = - 1" by auto
    then have "findNext s = kret (Some 0)" using findNext_unfold [OF assms] by (simp add: n_def Let_def)
    with False show ?thesis by auto
  next
    case True
    with scan ex have "wins (tasks s) ?cur ?cnt ?is ?B n" by auto
    then obtain xs k ys p where w: "?is = xs @ k # ys" "n = scan_slot ?cur ?cnt k" "ready_prio (tasks s) n = Some p" "p < ?B"
      "\<forall>j\<in>set xs. \<forall>r. ready_prio (tasks s) (scan_slot ?cur ?cnt j) = Some r \<longrightarrow> p < r"
      "\<forall>j\<in>set ys. \<forall>r. ready_prio (tasks s) (scan_slot ?cur ?cnt j) = Some r \<longrightarrow> p \<le> r"
      unfolding wins_def by blast
    have kl: "k < nat (?cnt - 1)" using w(1) by (metis atLeastLessThan_iff in_set_conv_decomp set_upt)
    have c: "candidate s n" unfolding cs using w(2-4) kl by blast
    have pn: "p = int (unat (priority (task_at n s)))"
      using w(3) by (simp add: ready_prio_def task_at_def split: if_splits)
    have "priority (task_at n s) < priority (task_at i s) \<or>
        priority (task_at n s) = priority (task_at i s) \<and> rr_before s n i" if i: "candidate s i" for i
    proof -
      obtain j r where j: "j < nat (?cnt - 1)" "i = scan_slot ?cur ?cnt j" "ready_prio (tasks s) i = Some r"
        using i unfolding cs by blast
      have r: "r = int (unat (priority (task_at i s)))"
        using j(3) by (simp add: ready_prio_def task_at_def split: if_splits)
      have "j \<in> set ?is" using j(1) by simp
      then consider "j \<in> set xs" | "j = k \<or> j \<in> set ys" unfolding w(1) by auto
      then show ?thesis
      proof cases
        case 1
        then have "p < r" using w(5) j by blast
        then show ?thesis by (simp add: pn r word_less_def)
      next
        case 2
        then have "p \<le> r" using w(6) j w(2,3) by auto
        moreover have "k \<le> j"
        proof -
          have "sorted (xs @ k # ys)" unfolding w(1) [symmetric] by simp
          with 2 show ?thesis by (auto simp: sorted_append)
        qed
        then have "rr_before s n i"
          using rr_dist_scan [OF b(2,3) kl] rr_dist_scan [OF b(2,3) j(1)] by (simp add: rr_before_def w(2) j(2))
        ultimately show ?thesis by (auto simp: pn r word_less_def word_uint_eq_iff)
      qed
    qed
    moreover have "findNext s = kret (Some n)"
      using findNext_unfold [OF assms] c by (simp add: n_def Let_def candidate_def)
    ultimately show ?thesis using c True by auto
  qed
qed

text \<open>Selection of the next task: with more than one slot in use \<open>findNext\<close> returns a slot. It is the
  READY slot other than the current one that has the best priority, and among those of that
  priority the one that comes first in round-robin order after the current slot; when no such slot
  exists it is the idle slot.\<close>

theorem findNext_correct:
  assumes "sched_ok s" "1 < taskCount s"
  shows "\<exists>n. findNext s = kret (Some n) \<and>
    (if \<exists>i. candidate s i
     then candidate s n \<and>
       (\<forall>i. candidate s i \<longrightarrow> priority (task_at n s) < priority (task_at i s) \<or>
          priority (task_at n s) = priority (task_at i s) \<and> rr_before s n i)
     else n = 0)"
  using assms by (rule findNext_spec)

section \<open>The sleep queue stays sorted\<close>

lemma sleep_pos_spec:
  "p \<le> length q \<Longrightarrow> sleep_pos q d p \<le> p \<and> (\<forall>j. sleep_pos q d p \<le> j \<and> j < p \<longrightarrow> d < fst (q ! j))
     \<and> (0 < sleep_pos q d p \<longrightarrow> fst (q ! (sleep_pos q d p - 1)) \<le> d)"
  by (induction q d p rule: sleep_pos.induct) (auto simp: less_Suc_eq not_less)

lemma insert_sleep_eq:
  assumes "sorted (map fst q)"
  shows "insert_sleep d i q = filter (\<lambda>e. fst e \<le> d) q @ (d, i) # filter (\<lambda>e. d < fst e) q"
proof -
  define p where "p = sleep_pos q d (length q)"
  have p: "p \<le> length q" "\<And>j. p \<le> j \<Longrightarrow> j < length q \<Longrightarrow> d < fst (q ! j)"
      "0 < p \<Longrightarrow> fst (q ! (p - 1)) \<le> d"
    using sleep_pos_spec [of "length q" q d] unfolding p_def by auto
  have lo: "fst e \<le> d" if e: "e \<in> set (take p q)" for e
  proof -
    obtain j where "j < length (take p q)" "e = take p q ! j" using e by (metis in_set_conv_nth)
    then have j: "j < p" "e = q ! j" by simp_all
    then have "fst (q ! j) \<le> fst (q ! (p - 1))"
      using sorted_nth_mono [OF assms, of j "p - 1"] p(1) by simp
    with p(3) j show ?thesis by simp
  qed
  have hi: "d < fst e" if "e \<in> set (drop p q)" for e
    using that p(1,2) by (auto simp: in_set_conv_nth)
  have "filter (\<lambda>e. fst e \<le> d) (take p q) = take p q" "filter (\<lambda>e. d < fst e) (drop p q) = drop p q"
    using lo hi by (simp_all add: filter_id_conv)
  moreover have "filter (\<lambda>e. fst e \<le> d) (drop p q) = []" "filter (\<lambda>e. d < fst e) (take p q) = []"
    using lo hi by (fastforce simp: filter_empty_conv not_less not_le)+
  ultimately have "filter (\<lambda>e. fst e \<le> d) (take p q @ drop p q) = take p q"
      "filter (\<lambda>e. d < fst e) (take p q @ drop p q) = drop p q"
    by (simp_all only: filter_append append_Nil append_Nil2)
  then show ?thesis by (simp add: insert_sleep_def Let_def p_def)
qed

lemma sorted_insert_sleep:
  assumes "sorted (map fst q)"
  shows "sorted (map fst (insert_sleep d i q))"
  unfolding insert_sleep_eq [OF assms]
  using assms by (auto simp: sorted_append sorted_filter)

lemma set_insert_sleep:
  assumes "sorted (map fst q)"
  shows "set (insert_sleep d i q) = insert (d, i) (set q)"
  unfolding insert_sleep_eq [OF assms] by auto

lemma distinct_insert_sleep:
  assumes "sorted (map fst q)" "distinct (map snd q)" "i \<notin> snd ` set q"
  shows "distinct (map snd (insert_sleep d i q))"
  unfolding insert_sleep_eq [OF assms(1)]
  using assms(2,3) by (auto simp: distinct_map_filter) (force simp: distinct_map inj_on_def)

lemma remove_sleep_eq: "distinct (map snd q) \<Longrightarrow> remove_sleep i q = filter (\<lambda>e. snd e \<noteq> i) q"
proof (induction q)
  case Nil
  then show ?case by simp
next
  case (Cons e q)
  have "filter (\<lambda>e. snd e \<noteq> i) q = q" if "snd e = i"
    using that Cons.prems by (intro filter_True) (metis distinct.simps(2) imageI list.map(2) list.set_map)
  with Cons show ?case by simp
qed

lemma sleep_len:
  assumes "table_ok ts cnt cur q"
  shows "length q \<le> MAX_TASKS" "k < MAX_TASKS \<Longrightarrow> int k \<notin> snd ` set q \<Longrightarrow> length q < MAX_TASKS"
proof -
  have sub: "snd ` set q \<subseteq> {0..<int MAX_TASKS}" using assms by (fastforce simp: table_ok_def sleep_ok_def)
  have c: "card (snd ` set q) = length q"
    using assms distinct_card [of "map snd q"] by (simp add: table_ok_def sleep_ok_def)
  show "length q \<le> MAX_TASKS" using card_mono [OF _ sub] c by simp
  assume k: "k < MAX_TASKS" "int k \<notin> snd ` set q"
  then have "snd ` set q \<subset> {0..<int MAX_TASKS}" using sub by auto
  from psubset_card_mono [OF _ this] c show "length q < MAX_TASKS" by simp
qed

section \<open>Operations keep the invariant\<close>

lemma sched_simps_upd [simp]:
  "tasks (upd_task i f s) = (tasks s)[nat i := f (tasks s ! nat i)]" "taskCount (upd_task i f s) = taskCount s"
  "currentIdx (upd_task i f s) = currentIdx s" "sleepQueue (upd_task i f s) = sleepQueue s"
  "uptimeMs (upd_task i f s) = uptimeMs s" "pit_deadline (upd_task i f s) = pit_deadline s"
  "quantumStartMs (upd_task i f s) = quantumStartMs s" "mem (upd_task i f s) = mem s"
  by (simp_all add: upd_task_def uptimeMs_def pit_deadline_def)

lemma task_at_upd:
  "0 \<le> i \<Longrightarrow> 0 \<le> j \<Longrightarrow> nat i < length (tasks s) \<Longrightarrow>
   task_at j (upd_task i f s) = (if j = i then f (task_at i s) else task_at j s)"
  by (auto simp: task_at_def nth_list_update)

lemma sched_ok_upd:
  assumes "sched_ok s" "0 \<le> i" "i < taskCount s"
    and "tstate (f (task_at i s)) = RUNNING \<Longrightarrow> i = currentIdx s"
    and "i \<in> snd ` set (sleepQueue s) \<Longrightarrow>
      tstate (f (task_at i s)) = BLOCKED \<and> wakeupMs (f (task_at i s)) = wakeupMs (task_at i s)"
  shows "sched_ok (upd_task i f s)"
  unfolding sched_ok_def sched_simps_upd
  using assms sched_okD [OF assms(1)]
  by (intro table_ok_upd) (simp_all add: sched_ok_def task_at_def)

text \<open>Fields of a slot other than the state and the wake-up time are free to change.\<close>

lemma sched_ok_upd_same:
  assumes "sched_ok s" "0 \<le> i" "i < taskCount s"
    and "tstate (f (task_at i s)) = tstate (task_at i s)" "wakeupMs (f (task_at i s)) = wakeupMs (task_at i s)"
  shows "sched_ok (upd_task i f s)"
proof (rule sched_ok_upd [OF assms(1-3)])
  have t: "table_ok (tasks s) (taskCount s) (currentIdx s) (sleepQueue s)" using assms(1) by (simp add: sched_ok_def)
  have n: "nat i < MAX_TASKS" using assms(2,3) sched_okD(4) [OF assms(1)] by simp
  show "i = currentIdx s" if "tstate (f (task_at i s)) = RUNNING"
  proof -
    have "int (nat i) = currentIdx s" using t n that assms(4) unfolding table_ok_def task_at_def by metis
    then show ?thesis using assms(2) by simp
  qed
  show "tstate (f (task_at i s)) = BLOCKED \<and> wakeupMs (f (task_at i s)) = wakeupMs (task_at i s)"
    if "i \<in> snd ` set (sleepQueue s)"
    using that not_queued [OF t, of "nat i"] assms by (auto simp: task_at_def)
qed

lemma sched_ok_remove:
  assumes "sched_ok s"
  shows "sched_ok (removeFromSleepQueue i s)"
    "sleepQueue (removeFromSleepQueue i s) = filter (\<lambda>e. snd e \<noteq> i) (sleepQueue s)"
proof -
  have "distinct (map snd (sleepQueue s))" using assms by (simp add: sched_ok_def table_ok_def sleep_ok_def)
  then show *: "sleepQueue (removeFromSleepQueue i s) = filter (\<lambda>e. snd e \<noteq> i) (sleepQueue s)"
    by (simp add: removeFromSleepQueue_def remove_sleep_eq)
  show "sched_ok (removeFromSleepQueue i s)"
    using assms * unfolding sched_ok_def by (simp add: table_ok_filter) (simp add: removeFromSleepQueue_def table_ok_filter)
qed

lemma removeFromSleepQueue_fields [simp]:
  "tasks (removeFromSleepQueue i s) = tasks s" "taskCount (removeFromSleepQueue i s) = taskCount s"
  "currentIdx (removeFromSleepQueue i s) = currentIdx s" "task_at j (removeFromSleepQueue i s) = task_at j s"
  by (simp_all add: removeFromSleepQueue_def task_at_def)

lemma remove_upd_comm: "removeFromSleepQueue i (upd_task j f s) = upd_task j f (removeFromSleepQueue i s)"
  by (simp add: removeFromSleepQueue_def upd_task_def)

text \<open>Dequeuing a slot and changing it (any new state but RUNNING elsewhere).\<close>

lemma sched_ok_dequeue:
  assumes "sched_ok s" "0 \<le> i" "i < taskCount s" "tstate (f (task_at i s)) = RUNNING \<Longrightarrow> i = currentIdx s"
  shows "sched_ok (removeFromSleepQueue i (upd_task i f s))"
  unfolding remove_upd_comm
  by (rule sched_ok_upd) (use assms sched_ok_remove [OF assms(1), of i] in \<open>auto simp: image_iff\<close>)

text \<open>\<open>unblockTask\<close> on a table that satisfies the invariant: a BLOCKED task becomes READY, leaves
  the sleep queue, and nothing else in the table changes; on any other id it does nothing. The invariant is kept.\<close>

lemma unblockTask_spec:
  assumes "sched_ok s"
  shows "sched_ok (unblockTask i s)
    \<and> (if 0 \<le> i \<and> i < taskCount s \<and> tstate (task_at i s) = BLOCKED
       then tasks (unblockTask i s) = (tasks s)[nat i := (task_at i s)\<lparr>tstate := READY, wakeupMs := 0\<rparr>]
         \<and> sleepQueue (unblockTask i s) = filter (\<lambda>e. snd e \<noteq> i) (sleepQueue s)
       else unblockTask i s = s)"
proof (cases "0 \<le> i \<and> i < taskCount s \<and> tstate (task_at i s) = BLOCKED")
  case True
  let ?f = "\<lambda>t. t\<lparr>tstate := READY, wakeupMs := 0\<rparr>"
  let ?s = "removeFromSleepQueue i (upd_task i ?f s)"
  have ok: "sched_ok ?s" by (rule sched_ok_dequeue) (use assms True in simp_all)
  have u: "unblockTask i s = ?s \<or> unblockTask i s = programForMs 1 ?s"
    using True by (simp add: unblockTask_def Let_def)
  have q: "sleepQueue ?s = filter (\<lambda>e. snd e \<noteq> i) (sleepQueue s)"
    using sched_ok_remove(2) [OF assms] by (simp add: removeFromSleepQueue_def)
  have "sched_ok (unblockTask i s)" using u ok sched_ok_cong [OF ok, of "programForMs 1 ?s"] by auto
  then show ?thesis using True u q by (auto simp: task_at_def)
next
  case False
  then have "unblockTask i s = s" unfolding unblockTask_def by (rule if_not_P)
  with False assms show ?thesis by auto
qed

text \<open>Going to sleep: the task is queued behind those with the same deadline.\<close>

lemma sched_sleep_spec:
  assumes "sched_ok s" "tstate (currentTask s) \<noteq> BLOCKED"
  shows "\<exists>s'. sched_sleep ms s = kret s' \<and> sched_ok s'
    \<and> tasks s' = (tasks s)[nat (currentIdx s) := (currentTask s)\<lparr>wakeupMs := uptimeMs s + ms, tstate := BLOCKED\<rparr>]
    \<and> sleepQueue s' = filter (\<lambda>e. fst e \<le> uptimeMs s + ms) (sleepQueue s)
        @ (uptimeMs s + ms, currentIdx s) # filter (\<lambda>e. uptimeMs s + ms < fst e) (sleepQueue s)"
proof -
  let ?c = "currentIdx s" and ?d = "uptimeMs s + ms"
  let ?f = "\<lambda>t. t\<lparr>wakeupMs := ?d, tstate := BLOCKED\<rparr>"
  let ?s1 = "upd_task ?c ?f s"
  let ?s2 = "?s1\<lparr>sleepQueue := insert_sleep ?d ?c (sleepQueue ?s1)\<rparr>"
  note b = sched_okD [OF assms(1)]
  have t: "table_ok (tasks s) (taskCount s) ?c (sleepQueue s)" using assms(1) by (simp add: sched_ok_def)
  have nq: "int (nat ?c) \<notin> snd ` set (sleepQueue s)"
    by (rule not_queued [OF t]) (use assms(2) in \<open>simp add: currentTask_def task_at_def\<close>)
  then have nq': "?c \<notin> snd ` set (sleepQueue s)" using b(2) by simp
  have len: "length (sleepQueue s) < MAX_TASKS"
    using sleep_len(2) [OF t, of "nat ?c"] nq b by simp
  have srt: "sorted (map fst (sleepQueue s))" "distinct (map snd (sleepQueue s))"
    using t by (simp_all add: table_ok_def sleep_ok_def)
  have ok1: "sched_ok ?s1" using assms(1) b nq' by (intro sched_ok_upd) simp_all
  have "sleep_ok (tasks ?s2) (taskCount ?s2) (sleepQueue ?s2)"
    unfolding sleep_ok_def
  proof (intro conjI ballI)
    show "sorted (map fst (sleepQueue ?s2))" using sorted_insert_sleep [OF srt(1)] by simp
    show "distinct (map snd (sleepQueue ?s2))" using distinct_insert_sleep [OF srt nq'] by simp
    fix e assume "e \<in> set (sleepQueue ?s2)"
    then have e: "e = (?d, ?c) \<or> e \<in> set (sleepQueue ?s1)" using set_insert_sleep [OF srt(1)] by auto
    have "0 \<le> snd e \<and> snd e < taskCount ?s2 \<and> tstate (tasks ?s2 ! nat (snd e)) = BLOCKED
        \<and> wakeupMs (tasks ?s2 ! nat (snd e)) = fst e"
      using e
    proof
      assume "e = (?d, ?c)"
      with b show ?thesis by simp
    next
      assume "e \<in> set (sleepQueue ?s1)"
      with ok1 show ?thesis by (simp add: sched_ok_def table_ok_def sleep_ok_def)
    qed
    then show "0 \<le> snd e" "snd e < taskCount ?s2" "tstate (tasks ?s2 ! nat (snd e)) = BLOCKED"
        "wakeupMs (tasks ?s2 ! nat (snd e)) = fst e" by auto
  qed
  then have ok2: "sched_ok ?s2" using ok1 table_ok_queue unfolding sched_ok_def by fastforce
  define s' where "s' = (if ?d < pit_deadline ?s2 then programForMs (ucast ms) ?s2 else ?s2)"
  have r: "sched_sleep ms s = kret s'"
    using b(5) len by (simp add: sched_sleep_def s'_def Let_def)
  have "sched_ok s'" using ok2 sched_ok_cong [OF ok2, of "programForMs (ucast ms) ?s2"] by (simp add: s'_def)
  moreover have "tasks s' = (tasks s)[nat ?c := ?f (currentTask s)]"
    by (simp add: s'_def currentTask_def task_at_def)
  moreover have "sleepQueue s' = insert_sleep ?d ?c (sleepQueue s)" by (simp add: s'_def)
  ultimately show ?thesis using r insert_sleep_eq [OF srt(1)] by auto
qed

text \<open>The wake-up loop of the timer tick.\<close>

definition woken :: "task \<Rightarrow> task" where
  "woken t = t\<lparr>tstate := (if tstate t = BLOCKED then READY else tstate t), wakeupMs := 0\<rparr>"

lemma wake_loop_Cons:
  "wake_loop now ((d, i) # q) ts =
     (if d \<le> now then wake_loop now q (ts[nat i := woken (ts ! nat i)]) else ((d, i) # q, ts))"
  by (simp add: woken_def)

lemma wake_loop_spec:
  assumes "sleep_ok ts cnt q" "cnt \<le> int (length ts)"
  shows "fst (wake_loop now q ts) = filter (\<lambda>e. now < fst e) q
    \<and> length (snd (wake_loop now q ts)) = length ts
    \<and> (\<forall>k<length ts. snd (wake_loop now q ts) ! k =
         (if \<exists>d\<le>now. (d, int k) \<in> set q then woken (ts ! k) else ts ! k))"
  using assms
proof (induction q arbitrary: ts)
  case Nil
  then show ?case by simp
next
  case (Cons e q)
  obtain d i where e: "e = (d, i)" by (cases e)
  from Cons.prems have so: "\<forall>x\<in>set q. d \<le> fst x" "distinct (i # map snd q)" "0 \<le> i" "i < cnt"
    by (auto simp: sleep_ok_def e)
  show ?case
  proof (cases "d \<le> now")
    case False
    then have "filter (\<lambda>e. now < fst e) q = q" using so(1) by (intro filter_True) auto
    moreover have "\<not> (\<exists>c\<le>now. (c, int k) \<in> set (e # q))" for k
      using so(1) False e by fastforce
    moreover have "wake_loop now (e # q) ts = (e # q, ts)" using False by (simp add: e)
    moreover have "now < fst e" using False by (simp add: e)
    ultimately show ?thesis by (simp only: fst_conv snd_conv filter.simps if_True if_False) simp
  next
    case True
    let ?ts = "ts[nat i := woken (ts ! nat i)]"
    have nq: "i \<notin> snd ` set q" using so(2) by simp
    have sq: "sleep_ok ts cnt q" using Cons.prems(1) by (simp add: sleep_ok_def)
    have "sleep_ok ?ts cnt q"
      unfolding sleep_ok_def
    proof (intro conjI ballI)
      show "sorted (map fst q)" "distinct (map snd q)" using sq by (simp_all add: sleep_ok_def)
      fix x assume x: "x \<in> set q"
      then have "snd x \<noteq> i" using nq by auto
      moreover have "0 \<le> snd x" using sq x by (simp add: sleep_ok_def)
      ultimately have "nat (snd x) \<noteq> nat i" using so(3) by simp
      then show "0 \<le> snd x" "snd x < cnt" "tstate (?ts ! nat (snd x)) = BLOCKED" "wakeupMs (?ts ! nat (snd x)) = fst x"
        using sq x by (simp_all add: sleep_ok_def)
    qed
    from Cons.IH [OF this] Cons.prems(2)
    have IH: "fst (wake_loop now q ?ts) = filter (\<lambda>e. now < fst e) q" "length (snd (wake_loop now q ?ts)) = length ts"
      "\<And>k. k < length ts \<Longrightarrow> snd (wake_loop now q ?ts) ! k =
         (if \<exists>d\<le>now. (d, int k) \<in> set q then woken (?ts ! k) else ?ts ! k)" by auto
    have w: "wake_loop now (e # q) ts = wake_loop now q ?ts" using True by (simp add: e wake_loop_Cons del: wake_loop.simps(2))
    have "snd (wake_loop now q ?ts) ! k = (if \<exists>d\<le>now. (d, int k) \<in> set (e # q) then woken (ts ! k) else ts ! k)"
      if k: "k < length ts" for k
    proof (cases "int k = i")
      case ki: True
      then have "\<not> (\<exists>d\<le>now. (d, int k) \<in> set q)" using nq by force
      moreover have "\<exists>d\<le>now. (d, int k) \<in> set (e # q)" using True e ki by auto
      moreover have "?ts ! k = woken (ts ! k)" using ki k by auto
      ultimately show ?thesis using IH(3) [OF k] by (simp only: if_True if_False)
    next
      case False
      then have "nat i \<noteq> k" using so(3) by auto
      then have "?ts ! k = ts ! k" by simp
      moreover have "(\<exists>d\<le>now. (d, int k) \<in> set (e # q)) = (\<exists>d\<le>now. (d, int k) \<in> set q)" using False e by auto
      ultimately show ?thesis using IH(3) [OF k] by (simp only:)
    qed
    with IH w True show ?thesis by (simp add: e)
  qed
qed

lemma wake_expired_fields [simp]:
  "taskCount (wake_expired now s) = taskCount s" "currentIdx (wake_expired now s) = currentIdx s"
  "uptimeMs (wake_expired now s) = uptimeMs s" "quantumStartMs (wake_expired now s) = quantumStartMs s"
  "mem (wake_expired now s) = mem s" "initialized (wake_expired now s) = initialized s"
  "kernelPageDirPhys (wake_expired now s) = kernelPageDirPhys s"
  by (simp_all add: wake_expired_def split_beta Let_def uptimeMs_def kernelPageDirPhys_def)

lemma wake_expired_spec:
  assumes "sched_ok s"
  shows "sched_ok (wake_expired now s)"
    and "sleepQueue (wake_expired now s) = filter (\<lambda>e. now < fst e) (sleepQueue s)"
    and "\<And>k. k < MAX_TASKS \<Longrightarrow> tasks (wake_expired now s) ! k =
          (if \<exists>d\<le>now. (d, int k) \<in> set (sleepQueue s) then (tasks s ! k)\<lparr>tstate := READY, wakeupMs := 0\<rparr> else tasks s ! k)"
proof -
  have t: "table_ok (tasks s) (taskCount s) (currentIdx s) (sleepQueue s)" using assms by (simp add: sched_ok_def)
  have so: "sleep_ok (tasks s) (taskCount s) (sleepQueue s)" and l: "length (tasks s) = MAX_TASKS"
    using t by (simp_all add: table_ok_def)
  let ?w = "wake_loop now (sleepQueue s) (tasks s)"
  have *: "fst ?w = filter (\<lambda>e. now < fst e) (sleepQueue s)" "length (snd ?w) = MAX_TASKS"
    "\<And>k. k < MAX_TASKS \<Longrightarrow> snd ?w ! k =
       (if \<exists>d\<le>now. (d, int k) \<in> set (sleepQueue s) then woken (tasks s ! k) else tasks s ! k)"
    using wake_loop_spec [OF so, of now] sched_okD [OF assms] by simp_all
  have b: "tstate (tasks s ! k) = BLOCKED" if "(d, int k) \<in> set (sleepQueue s)" for d k
    using so that unfolding sleep_ok_def by fastforce
  show q: "sleepQueue (wake_expired now s) = filter (\<lambda>e. now < fst e) (sleepQueue s)"
    using *(1) by (simp add: wake_expired_def split_beta Let_def)
  have tk: "tasks (wake_expired now s) = snd ?w" by (simp add: wake_expired_def split_beta Let_def)
  show st: "tasks (wake_expired now s) ! k =
      (if \<exists>d\<le>now. (d, int k) \<in> set (sleepQueue s) then (tasks s ! k)\<lparr>tstate := READY, wakeupMs := 0\<rparr> else tasks s ! k)"
    if "k < MAX_TASKS" for k
    using *(3) [OF that] b [of _ k] unfolding tk by (auto simp: woken_def)
  have so': "sleep_ok (snd ?w) (taskCount s) (filter (\<lambda>e. now < fst e) (sleepQueue s))"
    unfolding sleep_ok_def
  proof (intro conjI ballI)
    note f = sleep_ok_filter [OF so, of "\<lambda>e. now < fst e"]
    show "sorted (map fst (filter (\<lambda>e. now < fst e) (sleepQueue s)))"
      "distinct (map snd (filter (\<lambda>e. now < fst e) (sleepQueue s)))" using f by (simp_all add: sleep_ok_def)
    fix e assume e: "e \<in> set (filter (\<lambda>e. now < fst e) (sleepQueue s))"
    with f have r: "0 \<le> snd e" "snd e < taskCount s" "tstate (tasks s ! nat (snd e)) = BLOCKED"
        "wakeupMs (tasks s ! nat (snd e)) = fst e" by (simp_all only: sleep_ok_def)
    have "\<not> (\<exists>d\<le>now. (d, int (nat (snd e))) \<in> set (sleepQueue s))"
    proof
      assume "\<exists>d\<le>now. (d, int (nat (snd e))) \<in> set (sleepQueue s)"
      then obtain d where d: "d \<le> now" "(d, snd e) \<in> set (sleepQueue s)" using r(1) by auto
      then have "wakeupMs (tasks s ! nat (snd e)) = d" using so unfolding sleep_ok_def by fastforce
      with d(1) e r(4) show False by auto
    qed
    moreover have "nat (snd e) < MAX_TASKS" using r sched_okD(4) [OF assms] by linarith
    ultimately have "snd ?w ! nat (snd e) = tasks s ! nat (snd e)" using *(3) by (simp only: if_False)
    with r show "0 \<le> snd e" "snd e < taskCount s" "tstate (snd ?w ! nat (snd e)) = BLOCKED"
        "wakeupMs (snd ?w ! nat (snd e)) = fst e" by simp_all
  qed
  have wk: "tstate (snd ?w ! k) = READY \<and> tstate (tasks s ! k) = BLOCKED \<or> tstate (snd ?w ! k) = tstate (tasks s ! k)"
    if "k < MAX_TASKS" for k
  proof (cases "\<exists>d\<le>now. (d, int k) \<in> set (sleepQueue s)")
    case True
    then have "tstate (tasks s ! k) = BLOCKED" using b by blast
    then show ?thesis using *(3) [OF that] True by (simp add: woken_def)
  next
    case False
    then show ?thesis using *(3) [OF that] by (simp only: if_False) simp
  qed
  have dead: "tstate (snd ?w ! k) = DEAD" if "k < MAX_TASKS" "taskCount s \<le> int k" for k
    using wk [OF that(1)] t that unfolding table_ok_def by (metis TaskState.distinct(5))
  have run: "int k = currentIdx s" if "k < MAX_TASKS" "tstate (snd ?w ! k) = RUNNING" for k
    using wk [OF that(1)] t that unfolding table_ok_def by (metis TaskState.distinct(7))
  show "sched_ok (wake_expired now s)"
    using t so' dead run *(2) unfolding sched_ok_def tk q wake_expired_fields table_ok_def by blast
qed

section \<open>Context switch\<close>

text \<open>The shape of the table after a switch: the target runs, a running predecessor is READY.\<close>

definition switched :: "task list \<Rightarrow> int \<Rightarrow> int \<Rightarrow> task list" where
  "switched ts cur next =
     (let ts1 = (if tstate (ts ! nat cur) = RUNNING then ts[nat cur := (ts ! nat cur)\<lparr>tstate := READY\<rparr>] else ts)
      in ts1[nat next := (ts1 ! nat next)\<lparr>tstate := RUNNING\<rparr>])"

definition can_run :: "'a sched_scheme \<Rightarrow> int \<Rightarrow> bool" where
  "can_run s n \<longleftrightarrow> 0 \<le> n \<and> n < taskCount s \<and>
     (tstate (task_at n s) = READY \<or> n = currentIdx s \<and> tstate (task_at n s) = RUNNING)"

lemma switched_ok:
  assumes "table_ok ts cnt cur q" "0 \<le> n" "n < cnt"
    and "tstate (ts ! nat n) = READY \<or> n = cur \<and> tstate (ts ! nat n) = RUNNING"
  shows "table_ok (switched ts cur n) cnt n q"
proof -
  define ts1 where "ts1 = (if tstate (ts ! nat cur) = RUNNING then ts[nat cur := (ts ! nat cur)\<lparr>tstate := READY\<rparr>] else ts)"
  have b: "0 \<le> cur" "cur < cnt" "cnt \<le> int MAX_TASKS" "length ts = MAX_TASKS" using assms(1) by (simp_all add: table_ok_def)
  have t1: "table_ok ts1 cnt cur q"
  proof (cases "tstate (ts ! nat cur) = RUNNING")
    case True
    then have "int (nat cur) \<notin> snd ` set q" using not_queued [OF assms(1), of "nat cur"] by simp
    then have "table_ok (ts[nat cur := (ts ! nat cur)\<lparr>tstate := READY\<rparr>]) cnt cur q"
      using True b assms(1) by (intro table_ok_upd) simp_all
    with True show ?thesis by (simp add: ts1_def)
  next
    case False
    with assms(1) show ?thesis by (simp add: ts1_def)
  qed
  have nr: "tstate (ts1 ! k) \<noteq> RUNNING" if "k < MAX_TASKS" for k
  proof
    assume r: "tstate (ts1 ! k) = RUNNING"
    then have "int k = cur" using t1 that unfolding table_ok_def by metis
    with r that b(4) show False by (auto simp: ts1_def nth_list_update split: if_splits)
  qed
  then have t2: "table_ok ts1 cnt n q" using t1 assms(2,3) unfolding table_ok_def by metis
  have "tstate (ts1 ! nat n) = READY"
    using assms(2-4) b by (auto simp: ts1_def nth_list_update split: if_splits)
  then have "int (nat n) \<notin> snd ` set q" using not_queued [OF t2, of "nat n"] by simp
  then have "table_ok (ts1[nat n := (ts1 ! nat n)\<lparr>tstate := RUNNING\<rparr>]) cnt n q"
    using t2 assms(2,3) b by (intro table_ok_upd) simp_all
  then show ?thesis by (simp add: switched_def ts1_def Let_def)
qed

lemma switched_nth:
  assumes "k < length ts" "0 \<le> cur" "nat cur < length ts" "0 \<le> n"
  shows "switched ts cur n ! k =
    (if int k = n then (ts ! k)\<lparr>tstate := RUNNING\<rparr>
     else if int k = cur \<and> tstate (ts ! k) = RUNNING then (ts ! k)\<lparr>tstate := READY\<rparr> else ts ! k)"
  using assms by (auto simp: switched_def Let_def nth_list_update)

lemma switched_length [simp]: "length (switched ts cur n) = length ts"
  by (simp add: switched_def Let_def)

lemma switchTo_spec:
  assumes "sched_ok s"
  shows "if can_run s n then
      \<exists>s'. switchTo n s = kret (esp (task_at n s), s') \<and> sched_ok s' \<and> currentIdx s' = n
        \<and> tasks s' = switched (tasks s) (currentIdx s) n
        \<and> (\<forall>k<MAX_TASKS. tstate (tasks s' ! k) = RUNNING \<longleftrightarrow> int k = n)
        \<and> cr3 s' = (if pageDir (task_at n s) \<noteq> 0 then pageDir (task_at n s) else kernelPageDirPhys s)
        \<and> (userStackPageCount (task_at n s) > 0 \<longrightarrow>
             tssEsp0 s' = word_of_nat (stackBuf (task_at n s) + TASK_STACK_SIZE))
        \<and> crTS s' \<and> quantumStartMs s' = uptimeMs s' \<and> uptimeMs s' = uptimeMs s
        \<and> sleepQueue s' = sleepQueue s \<and> totalContextSwitches s' = totalContextSwitches s + 1
    else \<exists>msg. switchTo n s = kpanic msg"
proof -
  let ?cur = "currentIdx s"
  note b = sched_okD [OF assms]
  have t: "table_ok (tasks s) (taskCount s) ?cur (sleepQueue s)" using assms by (simp add: sched_ok_def)
  define s1 where "s1 = s\<lparr>totalContextSwitches := totalContextSwitches s + 1\<rparr>"
  define s2 where "s2 = (if tstate (currentTask s1) = RUNNING
                then upd_task (currentIdx s1) (\<lambda>t. t\<lparr>tstate := READY\<rparr>) s1 else s1)"
  have s2: "currentIdx s2 = ?cur" "taskCount s2 = taskCount s" "sleepQueue s2 = sleepQueue s" "uptimeMs s2 = uptimeMs s"
      "kernelPageDirPhys s2 = kernelPageDirPhys s" "totalContextSwitches s2 = totalContextSwitches s + 1"
      "tssEsp0 s2 = tssEsp0 s"
    by (simp_all add: s1_def s2_def upd_task_def uptimeMs_def kernelPageDirPhys_def)
  have ts2: "tasks s2 = (if tstate (tasks s ! nat ?cur) = RUNNING
      then (tasks s)[nat ?cur := (tasks s ! nat ?cur)\<lparr>tstate := READY\<rparr>] else tasks s)"
    by (simp add: s1_def s2_def currentTask_def task_at_def)
  have at: "task_at n s2 = (if n = ?cur \<and> tstate (task_at n s) = RUNNING then (task_at n s)\<lparr>tstate := READY\<rparr> else task_at n s)"
    if "0 \<le> n" using that b by (auto simp: task_at_def ts2 nth_list_update)
  define s3 where "s3 = upd_task n (\<lambda>t. t\<lparr>tstate := RUNNING\<rparr>) (s2\<lparr>currentIdx := n\<rparr>)"
  define s4 where "s4 = s3\<lparr>quantumStartMs := uptimeMs s3,
       cr3 := (if pageDir (task_at n s3) \<noteq> 0 then pageDir (task_at n s3) else kernelPageDirPhys s3),
       tssEsp0 := (if userStackPageCount (task_at n s3) > 0
                   then word_of_nat (stackBuf (task_at n s3) + TASK_STACK_SIZE) else tssEsp0 s3),
       crTS := True\<rparr>"
  have sw: "switchTo n s = (if n < 0 \<or> n \<ge> int MAX_TASKS \<or> tstate (task_at n s2) \<noteq> READY
      then kpanic ''Scheduler::switchTo: target task is not READY''
      else kret (esp (task_at n (programNextTick s4)), programNextTick s4))"
    unfolding switchTo_def Let_def s1_def [symmetric] s2_def [symmetric] s3_def [symmetric] s4_def [symmetric] by simp
  show ?thesis
  proof (cases "can_run s n")
    case False
    have "tstate (task_at n s2) \<noteq> READY" if n: "0 \<le> n" "n < int MAX_TASKS"
    proof
      assume r: "tstate (task_at n s2) = READY"
      then have "tstate (task_at n s) = READY \<or> n = ?cur \<and> tstate (task_at n s) = RUNNING"
        using at [OF n(1)] by (auto split: if_splits)
      moreover from this have "n < taskCount s"
        using t n b(3) unfolding table_ok_def task_at_def by (metis TaskState.distinct(1) int_nat_eq nat_less_iff not_less)
      ultimately show False using False n by (simp add: can_run_def)
    qed
    then have "switchTo n s = kpanic ''Scheduler::switchTo: target task is not READY''" using sw by auto
    with False show ?thesis by auto
  next
    case True
    then have n: "0 \<le> n" "n < taskCount s" "tstate (task_at n s) = READY \<or> n = ?cur \<and> tstate (task_at n s) = RUNNING"
      by (simp_all add: can_run_def)
    have l: "nat n < length (tasks s2)" using n b by (simp add: ts2)
    have r: "tstate (task_at n s2) = READY" using at [OF n(1)] n(3) by auto
    have tk: "tasks s3 = switched (tasks s) ?cur n" by (simp add: s3_def switched_def Let_def ts2)
    have a3: "task_at n s3 = (task_at n s)\<lparr>tstate := RUNNING\<rparr>"
      using at [OF n(1)] l by (auto simp: s3_def task_at_def)
    have f3: "currentIdx s3 = n" "taskCount s3 = taskCount s" "sleepQueue s3 = sleepQueue s" "uptimeMs s3 = uptimeMs s"
        "kernelPageDirPhys s3 = kernelPageDirPhys s" "totalContextSwitches s3 = totalContextSwitches s + 1"
      using s2 by (simp_all add: s3_def upd_task_def uptimeMs_def kernelPageDirPhys_def)
    have ok: "sched_ok (programNextTick s4)"
      using switched_ok [OF t n(1,2)] n(3) f3 tk by (simp add: sched_ok_def s4_def task_at_def)
    have run: "\<forall>k<MAX_TASKS. tstate (tasks (programNextTick s4) ! k) = RUNNING \<longleftrightarrow> int k = n"
    proof (intro allI impI)
      fix k assume k: "k < MAX_TASKS"
      have "tstate (tasks s ! k) = RUNNING \<longrightarrow> int k = ?cur" using t k unfolding table_ok_def by metis
      then show "tstate (tasks (programNextTick s4) ! k) = RUNNING \<longleftrightarrow> int k = n"
        using switched_nth [of k "tasks s" ?cur n] k b n(1) by (auto simp: s4_def tk)
    qed
    have "switchTo n s = kret (esp (task_at n s), programNextTick s4)"
      using sw r n b a3 by (simp add: s4_def task_at_def)
    with ok run True show ?thesis
      by (simp add: s4_def tk f3 a3) (simp add: uptimeMs_def s4_def f3 [unfolded uptimeMs_def])
  qed
qed

text \<open>C10. Context switch: from a table satisfying the invariant, switching to a runnable slot
  succeeds and returns the saved stack pointer of that task. Afterwards it is the current and the only
  RUNNING task, a task that was running is READY, no other slot changes, its address space (or the
  kernel's) is loaded, the kernel stack for ring-3 entries is set, the FPU is trapped, a new quantum
  has started, and the invariant holds. A slot that is not runnable is refused.\<close>

theorem switchTo_correct:
  assumes "sched_ok s"
  shows "if can_run s n then
      \<exists>s'. switchTo n s = kret (esp (task_at n s), s') \<and> sched_ok s' \<and> currentIdx s' = n
        \<and> tasks s' = switched (tasks s) (currentIdx s) n
        \<and> (\<forall>k<MAX_TASKS. tstate (tasks s' ! k) = RUNNING \<longleftrightarrow> int k = n)
        \<and> cr3 s' = (if pageDir (task_at n s) \<noteq> 0 then pageDir (task_at n s) else kernelPageDirPhys s)
        \<and> (userStackPageCount (task_at n s) > 0 \<longrightarrow>
             tssEsp0 s' = word_of_nat (stackBuf (task_at n s) + TASK_STACK_SIZE))
        \<and> crTS s' \<and> quantumStartMs s' = uptimeMs s' \<and> uptimeMs s' = uptimeMs s
        \<and> sleepQueue s' = sleepQueue s \<and> totalContextSwitches s' = totalContextSwitches s + 1
    else \<exists>msg. switchTo n s = kpanic msg"
  using assms by (rule switchTo_spec)

text \<open>C11. Going to sleep: a task that is not blocked is blocked with deadline \<open>now + ms\<close> and is inserted
  into the sleep queue behind all tasks with an earlier or equal deadline and before all later
  ones; the queue never overflows its array, and the invariant is kept.\<close>

theorem sched_sleep_correct:
  assumes "sched_ok s" "tstate (currentTask s) \<noteq> BLOCKED"
  shows "\<exists>s'. sched_sleep ms s = kret s' \<and> sched_ok s'
    \<and> tasks s' = (tasks s)[nat (currentIdx s) := (currentTask s)\<lparr>wakeupMs := uptimeMs s + ms, tstate := BLOCKED\<rparr>]
    \<and> sleepQueue s' = filter (\<lambda>e. fst e \<le> uptimeMs s + ms) (sleepQueue s)
        @ (uptimeMs s + ms, currentIdx s) # filter (\<lambda>e. uptimeMs s + ms < fst e) (sleepQueue s)"
  using assms by (rule sched_sleep_spec)

section \<open>Boot and a sample table\<close>

lemma sched_init_ok: "sched_ok (sched_init s)"
proof -
  have e: "tstate empty_task = DEAD" by (simp add: empty_task_def)
  show ?thesis
    by (simp add: sched_ok_def sched_init_def table_ok_def sleep_ok_def MAX_TASKS_def nth_list_update nth_Cons' e)
qed

text \<open>Idle in slot 0, two tasks of normal priority in slots 1 (running) and 2, a sleeper in slot 3.\<close>

definition demo_task :: "TaskState \<Rightarrow> u8 \<Rightarrow> u64 \<Rightarrow> task" where
  "demo_task st p w = empty_task\<lparr>tstate := st, priority := p, wakeupMs := w\<rparr>"

definition demo_sched :: sched where
  "demo_sched = \<lparr>mem = (\<lambda>_. 0), freeList = 0, heapStart = 0, heapEnd = 0,
     ready = False, frameList = 0, freeCount = 0, allocCount = 0, highWaterFrames = 0, freeTotalCount = 0,
     modStart = [], modSize = [], modCount = 0, refCounts = (\<lambda>_. 0),
     maxFrameIdx = 32, kernelPageDir = 65536, pageFaults = 0, cowFaults = 0, userPageFaults = 0,
     pitTicks = 100, pitDeadlineMs = 120, pitDivisor = 0,
     tasks = [demo_task READY PRIORITY_IDLE 0, demo_task RUNNING PRIORITY_NORMAL 0, demo_task READY PRIORITY_NORMAL 0,
              demo_task BLOCKED PRIORITY_NORMAL 110, empty_task, empty_task, empty_task, empty_task],
     taskCount = 4, currentIdx = 1, quantumStartMs = 90, initialized = True, totalExited = 0,
     totalContextSwitches = 0, idleTicks = 0, nextPid = 4, fpuOwner = - 1, sleepQueue = [(110, 3)], lastTickMs = 95,
     cr3 = 65536, tssEsp0 = 0, crTS = False, fpuRegs = []\<rparr>"

lemma demo_sched_fields [simp]:
  "tasks demo_sched = [demo_task READY PRIORITY_IDLE 0, demo_task RUNNING PRIORITY_NORMAL 0, demo_task READY PRIORITY_NORMAL 0,
              demo_task BLOCKED PRIORITY_NORMAL 110, empty_task, empty_task, empty_task, empty_task]"
  "taskCount demo_sched = 4" "currentIdx demo_sched = 1" "sleepQueue demo_sched = [(110, 3)]"
  "uptimeMs demo_sched = 100"
  by (simp_all add: demo_sched_def uptimeMs_def)

lemma demo_task_fields [simp]:
  "tstate (demo_task st p w) = st" "priority (demo_task st p w) = p" "wakeupMs (demo_task st p w) = w"
  by (simp_all add: demo_task_def)

lemma all_lt_8: "(\<forall>k<8. P k) \<longleftrightarrow> P 0 \<and> P 1 \<and> P 2 \<and> P 3 \<and> P 4 \<and> P 5 \<and> P 6 \<and> P (7 :: nat)"
  by (simp add: eval_nat_numeral All_less_Suc) auto

lemma demo_sched_ok: "sched_ok demo_sched"
  unfolding sched_ok_def table_ok_def MAX_TASKS_def all_lt_8
  by (simp add: sleep_ok_def empty_task_def)

theorem findNext_correct_witness:
  "\<exists>n. findNext demo_sched = kret (Some n) \<and> candidate demo_sched n"
proof -
  have "candidate demo_sched 2" by (simp add: candidate_def task_at_def PRIORITY_NORMAL_def PRIORITY_IDLE_def)
  moreover have "1 < taskCount demo_sched" by simp
  ultimately show ?thesis using findNext_correct [OF demo_sched_ok] by (metis (mono_tags, lifting))
qed

theorem switchTo_correct_witness:
  "\<exists>s'. switchTo 2 demo_sched = kret (esp (task_at 2 demo_sched), s') \<and> sched_ok s' \<and> currentIdx s' = 2"
proof -
  have "can_run demo_sched 2" by (simp add: can_run_def task_at_def)
  then show ?thesis using switchTo_correct [OF demo_sched_ok, of 2] by auto
qed

theorem sched_sleep_correct_witness:
  "\<exists>s'. sched_sleep 5 demo_sched = kret s' \<and> sched_ok s' \<and> sleepQueue s' = [(105, 1), (110, 3)]"
proof -
  have "tstate (currentTask demo_sched) \<noteq> BLOCKED" by (simp add: currentTask_def task_at_def)
  from sched_sleep_correct [OF demo_sched_ok this, of 5] show ?thesis by auto
qed

end
