(* ===== verification/Bytes.thy ===== *)
theory Bytes
  imports Prelude
begin

unbundle bit_operations_syntax

text \<open>
  Byte access to the dword memory (little endian): single bytes, \<open>memcpy\<close> and \<open>memset\<close>, and
  16- and 32-bit loads at any address.
\<close>

definition get_byte :: "memory \<Rightarrow> nat \<Rightarrow> u8" where
  "get_byte m a = ucast (drop_bit (8 * (a mod 4)) (m (a - a mod 4)))"

definition set_byte :: "nat \<Rightarrow> u8 \<Rightarrow> memory \<Rightarrow> memory" where
  "set_byte a b m =
     (let w = a - a mod 4; k = 8 * (a mod 4)
      in m(w := (m w AND NOT (push_bit k 0xFF)) OR push_bit k (ucast b)))"

definition read_bytes :: "memory \<Rightarrow> nat \<Rightarrow> nat \<Rightarrow> u8 list" where
  "read_bytes m a n = map (\<lambda>i. get_byte m (a + i)) [0..<n]"

primrec write_bytes :: "nat \<Rightarrow> u8 list \<Rightarrow> memory \<Rightarrow> memory" where
  "write_bytes a [] m = m"
| "write_bytes a (b # bs) m = write_bytes (Suc a) bs (set_byte a b m)"

definition memcpy_to :: "nat \<Rightarrow> nat \<Rightarrow> nat \<Rightarrow> memory \<Rightarrow> memory" where
  "memcpy_to dst src n m = write_bytes dst (read_bytes m src n) m"

definition memset_to :: "nat \<Rightarrow> u8 \<Rightarrow> nat \<Rightarrow> memory \<Rightarrow> memory" where
  "memset_to dst b n m = write_bytes dst (replicate n b) m"

definition read16 :: "memory \<Rightarrow> nat \<Rightarrow> u16" where
  "read16 m a = ucast (get_byte m a) OR push_bit 8 (ucast (get_byte m (a + 1)))"

definition read32 :: "memory \<Rightarrow> nat \<Rightarrow> u32" where
  "read32 m a = ucast (get_byte m a) OR push_bit 8 (ucast (get_byte m (a + 1)))
     OR push_bit 16 (ucast (get_byte m (a + 2))) OR push_bit 24 (ucast (get_byte m (a + 3)))"

definition bytes32 :: "u32 \<Rightarrow> u8 list" where
  "bytes32 w = [ucast w, ucast (drop_bit 8 w), ucast (drop_bit 16 w), ucast (drop_bit 24 w)]"

section \<open>Reads over writes\<close>

lemma bit_get_byte: "bit (get_byte m a) n \<longleftrightarrow> n < 8 \<and> bit (m (a - a mod 4)) (8 * (a mod 4) + n)"
  by (simp add: get_byte_def bit_ucast_iff bit_drop_bit_eq add.commute) arith

lemma bit_FF: "bit (0xFF :: int) n \<longleftrightarrow> n < 8"
proof -
  have "(0xFF :: int) = mask 8" by (simp add: mask_eq_exp_minus_1)
  moreover have "bit (mask 8 :: int) n \<longleftrightarrow> n < 8" by (simp only: bit_mask_iff possible_bit_int) simp
  ultimately show ?thesis by (simp only:)
qed

lemma lane_bit: "n < 8 \<Longrightarrow> 8 * (a mod 4) + n < (32 :: nat)"
proof -
  assume "n < 8"
  moreover have "a mod 4 < 4" by simp
  ultimately show ?thesis by linarith
qed

lemma get_set_byte_same [mem_simps]: "get_byte (set_byte a b m) a = b"
proof (rule bit_word_eqI)
  fix n assume "n < LENGTH(8)"
  then have n: "n < 8" by simp
  show "bit (get_byte (set_byte a b m) a) n = bit b n"
    using n lane_bit [OF n, of a]
    by (simp add: bit_get_byte set_byte_def Let_def bit_or_iff bit_and_iff bit_not_iff bit_push_bit_iff bit_FF bit_ucast_iff)
qed

lemma get_set_byte_other [mem_simps]: "a \<noteq> c \<Longrightarrow> get_byte (set_byte a b m) c = get_byte m c"
proof (rule bit_word_eqI)
  fix n assume ac: "a \<noteq> c" and "n < LENGTH(8)"
  then have n: "n < 8" by simp
  show "bit (get_byte (set_byte a b m) c) n = bit (get_byte m c) n"
  proof (cases "a - a mod 4 = c - c mod 4")
    case False
    then show ?thesis by (simp add: bit_get_byte set_byte_def Let_def)
  next
    case True
    have "a = (a - a mod 4) + a mod 4" "c = (c - c mod 4) + c mod 4" by simp_all
    with ac True have lane: "a mod 4 \<noteq> c mod 4" by metis
    then have "\<not> (8 * (a mod 4) \<le> 8 * (c mod 4) + n \<and> 8 * (c mod 4) + n - 8 * (a mod 4) < 8)"
      using n by linarith
    moreover have "\<not> (8 * (a mod 4) \<le> 8 * (c mod 4) + n \<and> bit b (8 * (c mod 4) + n - 8 * (a mod 4)))"
      using calculation bit_imp_le_length [of b] by fastforce
    ultimately show ?thesis using True n lane_bit [OF n, of c]
      by (simp add: bit_get_byte set_byte_def Let_def bit_or_iff bit_and_iff bit_not_iff bit_push_bit_iff bit_FF bit_ucast_iff)
         auto
  qed
qed

lemma get_write_bytes:
  "get_byte (write_bytes a bs m) c = (if a \<le> c \<and> c < a + length bs then bs ! (c - a) else get_byte m c)"
proof (induction bs arbitrary: a m)
  case Nil
  then show ?case by auto
next
  case (Cons b bs)
  have "get_byte (write_bytes a (b # bs) m) c =
      (if Suc a \<le> c \<and> c < Suc a + length bs then bs ! (c - Suc a) else get_byte (set_byte a b m) c)"
    by (simp only: write_bytes.simps Cons.IH)
  then show ?case by (cases "c = a") (auto simp: mem_simps nth_Cons')
qed

lemma write_bytes_other:
  "w < a - a mod 4 \<or> a + length bs \<le> w \<Longrightarrow> w mod 4 = 0 \<Longrightarrow> write_bytes a bs m w = m w"
proof (induction bs arbitrary: a m)
  case Nil
  then show ?case by simp
next
  case (Cons b bs)
  have "w \<noteq> a - a mod 4" using Cons.prems by auto
  then have s: "set_byte a b m w = m w" by (simp add: set_byte_def Let_def)
  have "a - a mod 4 \<le> Suc a - Suc a mod 4" by (metis Suc_n_not_le_n div_le_mono le_SucI minus_mod_eq_div_mult mult_le_mono1 nat_le_linear)
  then have "w < Suc a - Suc a mod 4 \<or> Suc a + length bs \<le> w" using Cons.prems(1) by auto
  from Cons.IH [OF this Cons.prems(2)] s show ?case by simp
qed

lemma length_read_bytes [simp]: "length (read_bytes m a n) = n"
  by (simp add: read_bytes_def)

lemma get_memcpy:
  "get_byte (memcpy_to dst src n m) c = (if dst \<le> c \<and> c < dst + n then get_byte m (src + (c - dst)) else get_byte m c)"
  by (auto simp: memcpy_to_def get_write_bytes read_bytes_def)

lemma get_memset:
  "get_byte (memset_to dst b n m) c = (if dst \<le> c \<and> c < dst + n then b else get_byte m c)"
  by (auto simp: memset_to_def get_write_bytes)

lemma read32_aligned: "a mod 4 = 0 \<Longrightarrow> read32 m a = m a"
proof (rule bit_word_eqI)
  fix n assume al: "a mod 4 = 0" and "n < LENGTH(32)"
  then have n: "n < 32" by simp
  have md: "(a + 1) mod 4 = 1" "(a + 2) mod 4 = 2" "(a + 3) mod 4 = 3"
      "a + 1 - 1 = a" "a + 2 - 2 = a" "a + 3 - 3 = a" using al by presburger+
  have g: "bit (get_byte m a) i \<longleftrightarrow> i < 8 \<and> bit (m a) i"
      "bit (get_byte m (a + 1)) i \<longleftrightarrow> i < 8 \<and> bit (m a) (8 + i)"
      "bit (get_byte m (a + 2)) i \<longleftrightarrow> i < 8 \<and> bit (m a) (16 + i)"
      "bit (get_byte m (a + 3)) i \<longleftrightarrow> i < 8 \<and> bit (m a) (24 + i)" for i
    unfolding bit_get_byte al md by simp_all
  have r: "bit (read32 m a) n \<longleftrightarrow> bit (get_byte m a) n \<or> 8 \<le> n \<and> bit (get_byte m (a + 1)) (n - 8)
      \<or> 16 \<le> n \<and> bit (get_byte m (a + 2)) (n - 16) \<or> 24 \<le> n \<and> bit (get_byte m (a + 3)) (n - 24)"
    using n by (simp add: read32_def bit_or_iff bit_push_bit_iff bit_ucast_iff del: One_nat_def add_2_eq_Suc') auto
  consider "n < 8" | "8 \<le> n \<and> n < 16" | "16 \<le> n \<and> n < 24" | "24 \<le> n \<and> n < 32" using n by linarith
  then show "bit (read32 m a) n = bit (m a) n"
    unfolding r g by cases auto
qed

end
