(* ===== verification/Elf.thy ===== *)
theory Elf
  imports Bytes Paging
begin

unbundle bit_operations_syntax

text \<open>
  The ELF loader (kernel/kernel/ElfLoader.cc): validation of the header, validation of a segment,
  mapping and filling of its pages, rollback, and the whole \<open>load\<close>. The image is read from memory
  through its address; \<open>size_t\<close> has 32 bits.
\<close>

section \<open>Headers\<close>

definition ELF_MAGIC :: u32 where "ELF_MAGIC = 0x464C457F"
definition ET_EXEC :: u16 where "ET_EXEC = 2"
definition EM_386 :: u16 where "EM_386 = 3"
definition PT_LOAD :: u32 where "PT_LOAD = 1"
definition EI_CLASS :: nat where "EI_CLASS = 4"
definition EI_DATA :: nat where "EI_DATA = 5"
definition EI_VERSION :: nat where "EI_VERSION = 6"
definition EV_CURRENT :: u8 where "EV_CURRENT = 1"
definition ELF_MIN_ADDR :: u32 where "ELF_MIN_ADDR = 0x10000"
definition KERNEL_VIRTUAL_BASE :: u32 where "KERNEL_VIRTUAL_BASE = 0xC0000000"
definition MAX_ELF_PAGES :: nat where "MAX_ELF_PAGES = 64"
definition SIZEOF_EHDR :: u32 where "SIZEOF_EHDR = 52"

record Elf32_Ehdr =
  e_type :: u16
  e_machine :: u16
  e_entry :: u32
  e_phoff :: u32
  e_phentsize :: u16
  e_phnum :: u16

record Elf32_Phdr =
  p_type :: u32
  p_offset :: u32
  p_vaddr :: u32
  p_filesz :: u32
  p_memsz :: u32

definition read_ehdr :: "memory \<Rightarrow> nat \<Rightarrow> Elf32_Ehdr" where
  "read_ehdr m a = \<lparr>e_type = read16 m (a + 16), e_machine = read16 m (a + 18), e_entry = read32 m (a + 24),
     e_phoff = read32 m (a + 28), e_phentsize = read16 m (a + 42), e_phnum = read16 m (a + 44)\<rparr>"

definition read_phdr :: "memory \<Rightarrow> nat \<Rightarrow> Elf32_Phdr" where
  "read_phdr m a = \<lparr>p_type = read32 m a, p_offset = read32 m (a + 4), p_vaddr = read32 m (a + 8),
     p_filesz = read32 m (a + 16), p_memsz = read32 m (a + 20)\<rparr>"

definition elf_validate :: "memory \<Rightarrow> nat \<Rightarrow> u32 \<Rightarrow> bool" where
  "elf_validate m elf sz =
     (if elf = 0 \<or> sz < SIZEOF_EHDR then False
      else let ehdr = read_ehdr m elf in
        if read32 m elf \<noteq> ELF_MAGIC then False
        else if get_byte m (elf + EI_CLASS) \<noteq> 1 then False
        else if get_byte m (elf + EI_DATA) \<noteq> 1 then False
        else if get_byte m (elf + EI_VERSION) \<noteq> EV_CURRENT then False
        else if e_type ehdr \<noteq> ET_EXEC then False
        else if e_machine ehdr \<noteq> EM_386 then False
        else e_phoff ehdr + ucast (e_phnum ehdr) * ucast (e_phentsize ehdr) \<le> sz)"

definition entryPoint :: "memory \<Rightarrow> nat \<Rightarrow> u32" where
  "entryPoint m elf = e_entry (read_ehdr m elf)"

section \<open>Segments\<close>

definition alignDown :: "u32 \<Rightarrow> u32 \<Rightarrow> u32" where
  "alignDown v align = v AND NOT (align - 1)"

definition alignUp32 :: "u32 \<Rightarrow> u32 \<Rightarrow> u32" where
  "alignUp32 v align = (v + align - 1) AND NOT (align - 1)"

definition pageRange :: "u32 \<Rightarrow> u32 \<Rightarrow> u32 \<Rightarrow> u32 \<times> u32" where
  "pageRange vaddr rangeStart rangeEnd =
     (let b = max vaddr rangeStart; e = min (vaddr + word_of_nat PAGE_SIZE) rangeEnd
      in if b < e then (b - vaddr, e - b) else (0, 0))"

definition validateSegment :: "Elf32_Phdr \<Rightarrow> bool" where
  "validateSegment ph =
     (if p_vaddr ph + p_memsz ph < p_vaddr ph then False
      else if p_vaddr ph < ELF_MIN_ADDR then False
      else if p_vaddr ph + p_memsz ph > KERNEL_VIRTUAL_BASE then False
      else True)"

text \<open>Filling one mapped page: the file part and the zero part that fall into it.\<close>

definition fill_segment_page :: "nat \<Rightarrow> Elf32_Phdr \<Rightarrow> u32 \<Rightarrow> nat \<Rightarrow> memory \<Rightarrow> memory" where
  "fill_segment_page elf ph vaddr phys m =
     (let (off, len) = pageRange vaddr (p_vaddr ph) (p_vaddr ph + p_filesz ph);
          fileOff = p_offset ph + (vaddr + off - p_vaddr ph);
          m1 = (if len \<noteq> 0 then memcpy_to (phys + unat off) (add32 elf (unat fileOff)) (unat len) m else m);
          (bssOff, bssLen) = pageRange vaddr (p_vaddr ph + p_filesz ph) (p_vaddr ph + p_memsz ph)
      in if bssLen \<noteq> 0 then memset_to (phys + unat bssOff) 0 (unat bssLen) m1 else m1)"

text \<open>One page of \<open>mapSegmentRange\<close>: the frame that backs it, mapped now or by an earlier segment.
  \<open>mapped\<close> is the used prefix of the array of (virtual, physical) pairs.\<close>

definition page_frame ::
  "u32 \<Rightarrow> (nat \<times> nat) list \<Rightarrow> nat \<Rightarrow> 'a paging_scheme
     \<Rightarrow> string + (nat option \<times> (nat \<times> nat) list) \<times> 'a paging_scheme" where
  "page_frame vaddr mapped pageDir s =
     (case find (\<lambda>p. fst p = unat vaddr) mapped of
        Some p \<Rightarrow> Inr ((Some (snd p), mapped), s)
      | None \<Rightarrow>
          let (phys, s1) = allocFrame s in
          if phys = 0 then Inr ((None, mapped), s1)
          else case mapPage (unat vaddr) (word_of_nat phys) (PAGE_PRESENT OR PAGE_RW OR PAGE_USER) pageDir s1 of
            Inl e \<Rightarrow> Inl e
          | Inr (False, s2) \<Rightarrow>
              (case freeFrame phys s2 of Inl e \<Rightarrow> Inl e | Inr s3 \<Rightarrow> Inr ((None, mapped), s3))
          | Inr (True, s2) \<Rightarrow>
              Inr ((Some phys, mapped @ [(unat vaddr, phys)]), s2\<lparr>mem := fill_page (mem s2) phys 0\<rparr>))"

fun map_pages ::
  "nat \<Rightarrow> Elf32_Phdr \<Rightarrow> nat \<Rightarrow> u32 list \<Rightarrow> (nat \<times> nat) list \<Rightarrow> 'a paging_scheme
     \<Rightarrow> string + (bool \<times> (nat \<times> nat) list) \<times> 'a paging_scheme" where
  "map_pages elf ph pageDir [] mapped s = Inr ((True, mapped), s)"
| "map_pages elf ph pageDir (vaddr # vs) mapped s =
     (if length mapped \<ge> MAX_ELF_PAGES then Inr ((False, mapped), s)
      else case page_frame vaddr mapped pageDir s of
        Inl e \<Rightarrow> Inl e
      | Inr ((None, mapped1), s1) \<Rightarrow> Inr ((False, mapped1), s1)
      | Inr ((Some phys, mapped1), s1) \<Rightarrow>
          map_pages elf ph pageDir vs mapped1
            (s1\<lparr>mem := fill_segment_page elf ph vaddr phys (mem s1)\<rparr>))"

text \<open>The values of \<open>vaddr\<close> in the page loop. Both bounds are page aligned, so the increment cannot
  pass the end bound.\<close>

definition page_list :: "u32 \<Rightarrow> u32 \<Rightarrow> u32 list" where
  "page_list lo hi = map (\<lambda>i. lo + word_of_nat (i * PAGE_SIZE)) [0..<(unat hi - unat lo) div PAGE_SIZE]"

definition mapSegmentRange ::
  "nat \<Rightarrow> Elf32_Phdr \<Rightarrow> (nat \<times> nat) list \<Rightarrow> nat \<Rightarrow> 'a paging_scheme
     \<Rightarrow> string + (bool \<times> (nat \<times> nat) list) \<times> 'a paging_scheme" where
  "mapSegmentRange elf ph mapped pageDir s =
     (let pageStart = alignDown (p_vaddr ph) (word_of_nat PAGE_SIZE);
          pageEnd = alignUp32 (p_vaddr ph + p_memsz ph) (word_of_nat PAGE_SIZE)
      in map_pages elf ph pageDir (page_list pageStart pageEnd) mapped s)"

definition rollbackMapped :: "(nat \<times> nat) list \<Rightarrow> 'a paging_scheme \<Rightarrow> string + 'a paging_scheme" where
  "rollbackMapped mapped s = foldE (\<lambda>p s. unmapPage (fst p) (kernelPageDirPhys s) s) mapped s"

section \<open>Loading\<close>

definition phdr_addr :: "nat \<Rightarrow> u32 \<Rightarrow> u16 \<Rightarrow> nat \<Rightarrow> nat" where
  "phdr_addr elf phoff phentsize i = add32 (add32 elf (unat phoff)) (i * unat phentsize)"

fun elf_range :: "Elf32_Phdr list \<Rightarrow> u32 \<times> u32 \<Rightarrow> u32 \<times> u32" where
  "elf_range [] r = r"
| "elf_range (ph # phs) (lo, hi) =
     (if p_type ph \<noteq> PT_LOAD \<or> p_memsz ph = 0 then elf_range phs (lo, hi)
      else elf_range phs (if p_vaddr ph < lo then p_vaddr ph else lo,
                          if p_vaddr ph + p_memsz ph > hi then p_vaddr ph + p_memsz ph else hi))"

definition computeElfRange :: "Elf32_Phdr list \<Rightarrow> u32 \<times> u32" where
  "computeElfRange phs = elf_range phs (0xFFFFFFFF, 0)"

fun load_segments ::
  "nat \<Rightarrow> nat list \<Rightarrow> (nat \<times> nat) list \<Rightarrow> nat \<Rightarrow> 'a paging_scheme
     \<Rightarrow> string + ((nat \<times> nat) list option) \<times> 'a paging_scheme" where
  "load_segments elf [] mapped pageDir s = Inr (Some mapped, s)"
| "load_segments elf (a # as) mapped pageDir s =
     (let ph = read_phdr (mem s) a in
      if p_type ph \<noteq> PT_LOAD then load_segments elf as mapped pageDir s
      else if p_memsz ph = 0 then load_segments elf as mapped pageDir s
      else if \<not> validateSegment ph then
        (case rollbackMapped mapped s of Inl e \<Rightarrow> Inl e | Inr s1 \<Rightarrow> Inr (None, s1))
      else case mapSegmentRange elf ph mapped pageDir s of
          Inl e \<Rightarrow> Inl e
        | Inr ((False, mapped1), s1) \<Rightarrow>
            (case rollbackMapped mapped1 s1 of Inl e \<Rightarrow> Inl e | Inr s2 \<Rightarrow> Inr (None, s2))
        | Inr ((True, mapped1), s1) \<Rightarrow> load_segments elf as mapped1 pageDir s1)"

record LoadResult =
  lr_entry :: u32
  lr_pages :: "(nat \<times> nat) list"

definition elf_load ::
  "nat \<Rightarrow> u32 \<Rightarrow> nat \<Rightarrow> 'a paging_scheme \<Rightarrow> string + LoadResult option \<times> 'a paging_scheme" where
  "elf_load elf sz pageDir s =
     (if \<not> elf_validate (mem s) elf sz then Inr (None, s)
      else let ehdr = read_ehdr (mem s) elf;
               addrs = map (phdr_addr elf (e_phoff ehdr) (e_phentsize ehdr)) [0..<unat (e_phnum ehdr)];
               (lo, hi) = computeElfRange (map (read_phdr (mem s)) addrs);
               r = (if lo \<noteq> 0xFFFFFFFF then clearPageTable (unat (alignDown lo (word_of_nat PAGE_SIZE))) pageDir s
                    else Inr s)
           in case r of Inl e \<Rightarrow> Inl e
              | Inr s1 \<Rightarrow>
                  (case load_segments elf addrs [] pageDir s1 of
                     Inl e \<Rightarrow> Inl e
                   | Inr (None, s2) \<Rightarrow> Inr (None, s2)
                   | Inr (Some mapped, s2) \<Rightarrow>
                       Inr (Some \<lparr>lr_entry = e_entry (read_ehdr (mem s2) elf), lr_pages = mapped\<rparr>, s2)))"

section \<open>What a page of a segment holds\<close>

text \<open>The bytes of a page after it has been filled, by their position in the segment.\<close>

lemma pageRange_spec:
  assumes "unat v + PAGE_SIZE < 4294967296"
  shows "unat (fst (pageRange v lo hi)) + unat (snd (pageRange v lo hi)) \<le> PAGE_SIZE
    \<and> (\<forall>k<PAGE_SIZE. (unat (fst (pageRange v lo hi)) \<le> k
          \<and> k < unat (fst (pageRange v lo hi)) + unat (snd (pageRange v lo hi)))
        \<longleftrightarrow> (unat lo \<le> unat v + k \<and> unat v + k < unat hi))"
proof -
  have ps: "PAGE_SIZE = 4096" by (simp add: PAGE_SIZE_def)
  have vp: "unat (v + word_of_nat PAGE_SIZE) = unat v + 4096"
    using assms by (simp add: unat_word_ariths ps)
  define b where "b = max v lo"
  define e where "e = min (v + word_of_nat PAGE_SIZE) hi"
  have ub: "unat b = max (unat v) (unat lo)" unfolding b_def by (auto simp: max_def word_le_nat_alt)
  have ue: "unat e = min (unat v + 4096) (unat hi)" unfolding e_def using vp by (auto simp: min_def word_le_nat_alt)
  show ?thesis
  proof (cases "b < e")
    case True
    then have "pageRange v lo hi = (b - v, e - b)"
      unfolding pageRange_def Let_def b_def [symmetric] e_def [symmetric] by (rule if_P)
    moreover have "unat (b - v) = unat b - unat v" by (rule unat_sub) (simp add: b_def)
    moreover have "unat (e - b) = unat e - unat b" by (rule unat_sub) (use True in simp)
    moreover have "unat b < unat e" using True by (simp add: word_less_nat_alt)
    ultimately show ?thesis unfolding ps using ub ue by (simp only: fst_conv snd_conv) linarith
  next
    case False
    then have "pageRange v lo hi = (0, 0)"
      unfolding pageRange_def Let_def b_def [symmetric] e_def [symmetric] by (rule if_not_P)
    moreover have "unat e \<le> unat b" using False by (simp add: word_less_nat_alt)
    ultimately show ?thesis using ub ue ps by auto
  qed
qed

text \<open>The source address of the copied bytes does not wrap.\<close>

lemma file_source:
  assumes "unat v + PAGE_SIZE < 4294967296" "unat off < PAGE_SIZE"
    and "unat (p_vaddr ph) \<le> unat v + unat off" "unat v + unat off < unat (p_vaddr ph) + unat (p_filesz ph)"
    and "elf + unat (p_offset ph) + unat (p_filesz ph) \<le> 4294967296"
  shows "add32 elf (unat (p_offset ph + (v + off - p_vaddr ph)))
    = elf + unat (p_offset ph) + (unat v + unat off - unat (p_vaddr ph))"
proof -
  let ?d = "unat v + unat off - unat (p_vaddr ph)"
  have "unat (v + off) = unat v + unat off" using assms(1,2) by (simp add: unat_word_ariths)
  then have u: "unat (v + off - p_vaddr ph) = ?d" using assms(3) by (simp add: unat_sub word_le_nat_alt)
  have "unat (p_offset ph) + ?d < 4294967296" using assms(3-5) by linarith
  then have "unat (p_offset ph + (v + off - p_vaddr ph)) = unat (p_offset ph) + ?d" by (simp add: unat_word_ariths u)
  then show ?thesis using assms(3-5) by (simp add: add32_def)
qed

text \<open>Filling a page of a segment: in a page of the segment's address range each byte that lies in
  the file part gets the byte of the image at the same distance from \<open>p_offset\<close>, each byte between the
  file size and the memory size is zero, and every other byte of memory keeps its value.\<close>

theorem fill_segment_page_correct:
  assumes "unat v + PAGE_SIZE < 4294967296" "unat (p_vaddr ph) + unat (p_memsz ph) < 4294967296"
    and "p_filesz ph \<le> p_memsz ph" "elf + unat (p_offset ph) + unat (p_filesz ph) \<le> 4294967296"
  shows "(\<forall>k<PAGE_SIZE. get_byte (fill_segment_page elf ph v phys m) (phys + k) =
      (let a = unat v + k; b = unat (p_vaddr ph)
       in if b \<le> a \<and> a < b + unat (p_filesz ph) then get_byte m (elf + unat (p_offset ph) + (a - b))
          else if b \<le> a \<and> a < b + unat (p_memsz ph) then 0 else get_byte m (phys + k)))
    \<and> (\<forall>a. a < phys \<or> phys + PAGE_SIZE \<le> a \<longrightarrow>
          get_byte (fill_segment_page elf ph v phys m) a = get_byte m a)"
proof -
  let ?b = "unat (p_vaddr ph)" and ?f = "unat (p_filesz ph)" and ?z = "unat (p_memsz ph)"
  let ?e1 = "p_vaddr ph + p_filesz ph" and ?e2 = "p_vaddr ph + p_memsz ph"
  have fz: "?f \<le> ?z" using assms(3) by (simp add: word_le_nat_alt)
  have e: "unat ?e1 = ?b + ?f" "unat ?e2 = ?b + ?z" using assms(2) fz by (simp_all add: unat_word_ariths)
  obtain off len where r1: "pageRange v (p_vaddr ph) ?e1 = (off, len)" by (metis surj_pair)
  obtain boff blen where r2: "pageRange v ?e1 ?e2 = (boff, blen)" by (metis surj_pair)
  have s1: "unat off + unat len \<le> PAGE_SIZE"
      "\<And>k. k < PAGE_SIZE \<Longrightarrow> unat off \<le> k \<and> k < unat off + unat len \<longleftrightarrow> ?b \<le> unat v + k \<and> unat v + k < ?b + ?f"
    using pageRange_spec [OF assms(1), of "p_vaddr ph" ?e1] unfolding r1 e by auto
  have s2: "unat boff + unat blen \<le> PAGE_SIZE"
      "\<And>k. k < PAGE_SIZE \<Longrightarrow> unat boff \<le> k \<and> k < unat boff + unat blen \<longleftrightarrow> ?b + ?f \<le> unat v + k \<and> unat v + k < ?b + ?z"
    using pageRange_spec [OF assms(1), of ?e1 ?e2] unfolding r2 e by auto
  define src where "src = add32 elf (unat (p_offset ph + (v + off - p_vaddr ph)))"
  define m1 where "m1 = (if len \<noteq> 0 then memcpy_to (phys + unat off) src (unat len) m else m)"
  have f: "fill_segment_page elf ph v phys m =
      (if blen \<noteq> 0 then memset_to (phys + unat boff) 0 (unat blen) m1 else m1)"
    by (simp add: fill_segment_page_def r1 r2 m1_def src_def Let_def)
  have srcv: "src = elf + unat (p_offset ph) + (unat v + unat off - ?b)" if ne: "len \<noteq> 0"
  proof -
    have "0 < unat len" using ne by (simp add: unat_gt_0)
    then have "unat off < PAGE_SIZE" "?b \<le> unat v + unat off" "unat v + unat off < ?b + ?f"
      using s1 s1(2) [of "unat off"] by auto
    then show ?thesis unfolding src_def using assms(1,4) by (intro file_source)
  qed
  have g1: "get_byte m1 a = (if phys + unat off \<le> a \<and> a < phys + unat off + unat len
      then get_byte m (src + (a - (phys + unat off))) else get_byte m a)" for a
    by (auto simp: m1_def get_memcpy)
  have g2: "get_byte (fill_segment_page elf ph v phys m) a = (if phys + unat boff \<le> a \<and> a < phys + unat boff + unat blen
      then 0 else get_byte m1 a)" for a
    by (auto simp: f get_memset)
  have "get_byte (fill_segment_page elf ph v phys m) (phys + k) =
      (let a = unat v + k; b = unat (p_vaddr ph)
       in if b \<le> a \<and> a < b + unat (p_filesz ph) then get_byte m (elf + unat (p_offset ph) + (a - b))
          else if b \<le> a \<and> a < b + unat (p_memsz ph) then 0 else get_byte m (phys + k))" if k: "k < PAGE_SIZE" for k
  proof -
    have "src + (k - unat off) = elf + unat (p_offset ph) + (unat v + k - ?b)"
      if "unat off \<le> k" "k < unat off + unat len"
    proof -
      have "len \<noteq> 0" "0 < unat len" using that by auto
      moreover have "?b \<le> unat v + unat off" using s1(2) [of "unat off"] that k by auto
      ultimately show ?thesis using srcv that(1) by simp
    qed
    then show ?thesis using g1 [of "phys + k"] g2 [of "phys + k"] s1(2) [OF k] s2(2) [OF k] fz
      by (auto simp: Let_def)
  qed
  moreover have "get_byte (fill_segment_page elf ph v phys m) a = get_byte m a" if "a < phys \<or> phys + PAGE_SIZE \<le> a" for a
    using that g1 [of a] g2 [of a] s1(1) s2(1) by auto
  ultimately show ?thesis by blast
qed

theorem fill_segment_page_correct_witness:
  "get_byte (fill_segment_page 0x1000
      \<lparr>p_type = 1, p_offset = 4, p_vaddr = 0x10000, p_filesz = 8, p_memsz = 16\<rparr> 0x10000 0x5000 ((\<lambda>_. 0)(0x1004 := 0x11223344))) (0x5000 + 3)
     = get_byte ((\<lambda>_. 0)(0x1004 := 0x11223344)) 0x1007"
proof -
  let ?ph = "\<lparr>p_type = 1, p_offset = 4, p_vaddr = 0x10000, p_filesz = 8, p_memsz = 16\<rparr>"
  have "(3 :: nat) < PAGE_SIZE" by (simp add: PAGE_SIZE_def)
  moreover have "unat (0x10000 :: u32) + PAGE_SIZE < 4294967296" "unat (p_vaddr ?ph) + unat (p_memsz ?ph) < 4294967296"
      "p_filesz ?ph \<le> p_memsz ?ph" "0x1000 + unat (p_offset ?ph) + unat (p_filesz ?ph) \<le> 4294967296"
    by (simp_all add: PAGE_SIZE_def)
  note fill_segment_page_correct [OF this, of "0x5000" "(\<lambda>_. 0)(0x1004 := 0x11223344)", THEN conjunct1, rule_format, of 3]
  ultimately show ?thesis by (simp add: Let_def)
qed

section \<open>Where segments are mapped\<close>

definition user_page :: "nat \<Rightarrow> bool" where
  "user_page v \<longleftrightarrow> v mod PAGE_SIZE = 0 \<and> unat ELF_MIN_ADDR \<le> v \<and> v + PAGE_SIZE \<le> unat KERNEL_VIRTUAL_BASE"

definition pages_ok :: "(nat \<times> nat) list \<Rightarrow> bool" where
  "pages_ok ps \<longleftrightarrow> length ps \<le> MAX_ELF_PAGES \<and> distinct (map fst ps) \<and> (\<forall>p\<in>set ps. user_page (fst p) \<and> snd p \<noteq> 0)"

lemma page_mask12: "(word_of_nat PAGE_SIZE :: u32) - 1 = mask 12"
  by (simp add: PAGE_SIZE_def mask_eq_exp_minus_1)

lemma validateSegment_bounds:
  assumes "validateSegment ph"
  shows "unat (p_vaddr ph + p_memsz ph) = unat (p_vaddr ph) + unat (p_memsz ph)"
    "unat ELF_MIN_ADDR \<le> unat (p_vaddr ph)" "unat (p_vaddr ph) + unat (p_memsz ph) \<le> unat KERNEL_VIRTUAL_BASE"
proof -
  from assms have a: "\<not> p_vaddr ph + p_memsz ph < p_vaddr ph" "\<not> p_vaddr ph < ELF_MIN_ADDR"
      "\<not> KERNEL_VIRTUAL_BASE < p_vaddr ph + p_memsz ph" by (auto simp: validateSegment_def split: if_splits)
  from a(1) show *: "unat (p_vaddr ph + p_memsz ph) = unat (p_vaddr ph) + unat (p_memsz ph)"
    by (metis no_olen_add_nat not_le word_le_nat_alt unat_plus_simple)
  show "unat ELF_MIN_ADDR \<le> unat (p_vaddr ph)" "unat (p_vaddr ph) + unat (p_memsz ph) \<le> unat KERNEL_VIRTUAL_BASE"
    using a(2,3) unfolding * [symmetric] by (simp_all add: word_less_nat_alt)
qed

lemma segment_pages:
  assumes "validateSegment ph"
    and v: "v \<in> set (page_list (alignDown (p_vaddr ph) (word_of_nat PAGE_SIZE))
                       (alignUp32 (p_vaddr ph + p_memsz ph) (word_of_nat PAGE_SIZE)))"
  shows "user_page (unat v)"
proof -
  note b = validateSegment_bounds [OF assms(1)]
  let ?lo = "alignDown (p_vaddr ph) (word_of_nat PAGE_SIZE)" and ?hi = "alignUp32 (p_vaddr ph + p_memsz ph) (word_of_nat PAGE_SIZE)"
  have lo: "unat ?lo = unat (p_vaddr ph) div 4096 * 4096"
    unfolding alignDown_def page_mask12 by (simp add: unat_align_down)
  have w: "p_vaddr ph + p_memsz ph + word_of_nat PAGE_SIZE - 1 = p_vaddr ph + p_memsz ph + 4095"
    by (simp add: PAGE_SIZE_def)
  have "unat (p_vaddr ph + p_memsz ph + 4095) = unat (p_vaddr ph) + unat (p_memsz ph) + 4095"
    using b(3) by (simp add: unat_word_ariths(1) [of "p_vaddr ph + p_memsz ph"] b(1) KERNEL_VIRTUAL_BASE_def)
  then have hi: "unat ?hi = (unat (p_vaddr ph) + unat (p_memsz ph) + 4095) div 4096 * 4096"
    unfolding alignUp32_def page_mask12 w by (simp add: unat_align_down)
  obtain i where i: "i < (unat ?hi - unat ?lo) div PAGE_SIZE" "v = ?lo + word_of_nat (i * PAGE_SIZE)"
    using v by (auto simp: page_list_def)
  have hi2: "unat ?hi \<le> 3221225472" using b(3) hi by (simp add: KERNEL_VIRTUAL_BASE_def)
  have le: "unat ?lo + (i + 1) * 4096 \<le> unat ?hi" using i(1) lo hi by (simp add: PAGE_SIZE_def)
  have "unat v = unat ?lo + i * 4096"
    using le hi2 by (simp add: i(2) unat_word_ariths PAGE_SIZE_def take_bit_nat_eq_self unsigned_of_nat)
  moreover have "65536 \<le> unat ?lo" using b(2) lo by (simp add: ELF_MIN_ADDR_def)
  ultimately show ?thesis using le hi2 lo
    by (simp add: user_page_def PAGE_SIZE_def ELF_MIN_ADDR_def KERNEL_VIRTUAL_BASE_def)
qed

lemma page_frame_ok:
  assumes "page_frame v mapped pd s = Inr ((r, mapped'), s')" "pages_ok mapped" "length mapped < MAX_ELF_PAGES" "user_page (unat v)"
  shows "pages_ok mapped' \<and> (\<forall>phys. r = Some phys \<longrightarrow> (unat v, phys) \<in> set mapped') \<and> set mapped \<subseteq> set mapped'"
proof (cases "find (\<lambda>p. fst p = unat v) mapped")
  case (Some p)
  then have "p \<in> set mapped" "fst p = unat v" by (auto simp: find_Some_iff)
  moreover from Some assms(1) have "r = Some (snd p)" "mapped' = mapped" by (auto simp: page_frame_def)
  ultimately show ?thesis using assms(2) by (metis option.inject prod.collapse subset_refl)
next
  case None
  obtain phys s1 where al: "allocFrame s = (phys, s1)" by (metis surj_pair)
  show ?thesis
  proof (cases "r")
    case N: None
    then have "mapped' = mapped"
      using assms(1) None al by (auto simp: page_frame_def Let_def split: if_splits sum.splits prod.splits bool.splits)
    then show ?thesis using assms(2) N by simp
  next
    case S: (Some f)
    then have m: "mapped' = mapped @ [(unat v, phys)]" "phys \<noteq> 0" "f = phys"
      using assms(1) None al by (auto simp: page_frame_def Let_def split: if_splits sum.splits prod.splits bool.splits)
    have "unat v \<notin> fst ` set mapped" using None by (auto simp: find_None_iff)
    then have "pages_ok mapped'" using assms(2-4) m by (auto simp: pages_ok_def)
    then show ?thesis using S m by auto
  qed
qed

lemma map_pages_ok:
  assumes "map_pages elf ph pd vs mapped s = Inr ((ok, mapped'), s')" "pages_ok mapped" "\<And>v. v \<in> set vs \<Longrightarrow> user_page (unat v)"
  shows "pages_ok mapped' \<and> set mapped \<subseteq> set mapped' \<and> (ok \<longrightarrow> unat ` set vs \<subseteq> fst ` set mapped')"
  using assms
proof (induction vs arbitrary: mapped s)
  case Nil
  then show ?case by simp
next
  case (Cons v vs)
  show ?case
  proof (cases "length mapped \<ge> MAX_ELF_PAGES")
    case True
    with Cons.prems show ?thesis by simp
  next
    case False
    then obtain r mapped1 s1 where pf: "page_frame v mapped pd s = Inr ((r, mapped1), s1)"
      using Cons.prems(1) by (auto split: sum.splits prod.splits option.splits)
    from page_frame_ok [OF pf Cons.prems(2)] False Cons.prems(3)
    have p1: "pages_ok mapped1" "set mapped \<subseteq> set mapped1" "\<And>phys. r = Some phys \<Longrightarrow> (unat v, phys) \<in> set mapped1" by auto
    show ?thesis
    proof (cases r)
      case None
      then show ?thesis using Cons.prems(1) False pf p1 by simp
    next
      case (Some phys)
      let ?s = "s1\<lparr>mem := fill_segment_page elf ph v phys (mem s1)\<rparr>"
      have "map_pages elf ph pd vs mapped1 ?s = Inr ((ok, mapped'), s')"
        using Cons.prems(1) False pf Some by simp
      from Cons.IH [OF this p1(1)] Cons.prems(3)
      have *: "pages_ok mapped'" "set mapped1 \<subseteq> set mapped'" "ok \<longrightarrow> unat ` set vs \<subseteq> fst ` set mapped'" by auto
      have "unat v \<in> fst ` set mapped'" using p1(3) [OF Some] *(2) by force
      then show ?thesis using * p1(2) by auto
    qed
  qed
qed

lemma load_segments_ok:
  assumes "load_segments elf as mapped pd s = Inr (Some mapped', s')" "pages_ok mapped"
  shows "pages_ok mapped'"
  using assms
proof (induction as arbitrary: mapped s)
  case Nil
  then show ?case by simp
next
  case (Cons a as)
  let ?ph = "read_phdr (mem s) a"
  show ?case
  proof (cases "p_type ?ph \<noteq> PT_LOAD \<or> p_memsz ?ph = 0")
    case True
    then have "load_segments elf as mapped pd s = Inr (Some mapped', s')" using Cons.prems(1) by (auto simp: Let_def split: if_splits)
    then show ?thesis using Cons by blast
  next
    case False
    then have val: "validateSegment ?ph"
      using Cons.prems(1) by (auto simp: Let_def split: sum.splits if_splits)
    with False obtain mapped1 s1 where ms: "mapSegmentRange elf ?ph mapped pd s = Inr ((True, mapped1), s1)"
        "load_segments elf as mapped1 pd s1 = Inr (Some mapped', s')"
      using Cons.prems(1) by (auto simp: Let_def split: sum.splits prod.splits bool.splits)
    have "pages_ok mapped1"
      using map_pages_ok ms(1) Cons.prems(2) segment_pages [OF val] unfolding mapSegmentRange_def Let_def by blast
    then show ?thesis using Cons.IH ms(2) by blast
  qed
qed

text \<open>C20. A successful load maps at most 64 pages (the size of the arrays that record them), no
  virtual page twice, and every one of them is a whole page of the user range between the
  lowest allowed address and the kernel base, backed by a real frame.\<close>

theorem elf_load_safe:
  fixes s :: "'a paging_scheme"
  assumes "elf_load elf sz pd s = Inr (Some r, s')"
  shows "length (lr_pages r) \<le> MAX_ELF_PAGES \<and> distinct (map fst (lr_pages r))
    \<and> (\<forall>p\<in>set (lr_pages r). user_page (fst p) \<and> snd p \<noteq> 0)"
proof -
  have "\<exists>as (s1 :: 'a paging_scheme) s2. load_segments elf as [] pd s1 = Inr (Some (lr_pages r), s2)"
    using assms by (auto simp: elf_load_def Let_def split: if_splits sum.splits prod.splits option.splits) blast+
  moreover have "pages_ok []" by (simp add: pages_ok_def)
  ultimately show ?thesis using load_segments_ok pages_ok_def by blast
qed

text \<open>An image at \<open>0x20000\<close> with one program header behind the ELF header (4 bytes of file data, 16 bytes of memory at
  \<open>0x400000\<close>).\<close>

definition demo_image :: memory where
  "demo_image = (\<lambda>_. 0)(0x20000 := 0x464C457F, 0x20004 := 0x00010101, 0x20010 := 0x00030002, 0x20018 := 0x400000,
     0x2001C := 52, 0x20028 := 0x00200000, 0x2002C := 1,
     0x20034 := 1, 0x20038 := 84, 0x2003C := 0x400000, 0x20044 := 4, 0x20048 := 16, 0x20054 := 0x11223344)"

definition demo_load_space :: paging where
  "demo_load_space = demo_space\<lparr>mem := demo_image(65536 := 0x11007, 77824 := 0x14000), frameList := 77824, freeCount := 2\<rparr>"


lemma demo_headers:
  "read_ehdr (mem demo_load_space) 0x20000 = \<lparr>e_type = 2, e_machine = 3, e_entry = 0x400000, e_phoff = 52,
     e_phentsize = 32, e_phnum = 1\<rparr>"
  "read_phdr (mem demo_load_space) 0x20034 = \<lparr>p_type = 1, p_offset = 84, p_vaddr = 0x400000, p_filesz = 4, p_memsz = 16\<rparr>"
  by (simp_all add: read_ehdr_def read_phdr_def read32_aligned read16_def get_byte_def demo_load_space_def demo_image_def)

lemma demo_valid: "elf_validate (mem demo_load_space) 0x20000 100"
  unfolding elf_validate_def demo_headers Let_def
  by (simp add: SIZEOF_EHDR_def read32_aligned get_byte_def demo_load_space_def demo_image_def ELF_MAGIC_def
      EI_CLASS_def EI_DATA_def EI_VERSION_def EV_CURRENT_def ET_EXEC_def EM_386_def)

lemma demo_range: "computeElfRange [\<lparr>p_type = 1, p_offset = 84, p_vaddr = 0x400000, p_filesz = 4, p_memsz = 16\<rparr>] = (0x400000, 0x400010)"
  by (simp add: computeElfRange_def PT_LOAD_def)

lemma demo_clear: "clearPageTable 0x400000 65536 demo_load_space = Inr demo_load_space"
  by (simp add: clearPageTable_def resolvePageTable_def pde_index_def PDE_SIZE_def entry_def demo_load_space_def demo_image_def has_def PAGE_PRESENT_def
      demo_space_def Let_def)

lemma demo_map: "\<exists>s'. page_frame 0x400000 [] 65536 demo_load_space = Inr ((Some 77824, [(0x400000, 77824)]), s')"
  by (simp add: page_frame_def mapPage_def resolvePageTable_def ensurePageTable_def write_pte_def allocFrame_def demo_load_space_def Let_def demo_space_def
     pde_index_def pte_index_def PDE_SIZE_def entry_def set_entry_def has_def fill_page_def PAGE_SIZE_def frame_next_def demo_image_def page_flag_defs
     refCountEntry_def isBadPhysAddr_def maxPhysAddr_def frame_of_def)

theorem elf_load_safe_witness:
  "\<exists>r s'. elf_load 0x20000 100 65536 demo_load_space = Inr (Some r, s') \<and> lr_pages r = [(0x400000, 77824)] \<and> user_page 0x400000"
proof -
  let ?ph = "\<lparr>p_type = 1, p_offset = 84, p_vaddr = 0x400000, p_filesz = 4, p_memsz = 16\<rparr>"
  have pl: "page_list (alignDown (p_vaddr ?ph) (word_of_nat PAGE_SIZE)) (alignUp32 (p_vaddr ?ph + p_memsz ?ph) (word_of_nat PAGE_SIZE))
      = [0x400000]"
    by (simp add: page_list_def alignDown_def alignUp32_def PAGE_SIZE_def)
  obtain s1 where s1: "page_frame 0x400000 [] 65536 demo_load_space = Inr ((Some 77824, [(0x400000, 77824)]), s1)"
    using demo_map by blast
  have v: "validateSegment ?ph" by (simp add: validateSegment_def ELF_MIN_ADDR_def KERNEL_VIRTUAL_BASE_def)
  have ms: "\<exists>s2. mapSegmentRange 0x20000 ?ph [] 65536 demo_load_space = Inr ((True, [(0x400000, 77824)]), s2)"
    unfolding mapSegmentRange_def Let_def pl by (simp add: s1 MAX_ELF_PAGES_def)
  have ad: "map (phdr_addr 0x20000 52 32) [0..<unat (1 :: u16)] = [0x20034]" by (simp add: phdr_addr_def add32_def)
  have al: "unat (alignDown 0x400000 (word_of_nat PAGE_SIZE)) = 0x400000" by (simp add: alignDown_def PAGE_SIZE_def)
  obtain s2 where ld: "load_segments 0x20000 [0x20034] [] 65536 demo_load_space = Inr (Some [(0x400000, 77824)], s2)"
    using ms v by (auto simp: demo_headers PT_LOAD_def)
  have rng: "computeElfRange (map (read_phdr (mem demo_load_space)) [0x20034]) = (0x400000, 0x400010)"
    by (simp only: list.map demo_headers(2) demo_range)
  obtain r s' where rs: "elf_load 0x20000 100 65536 demo_load_space = Inr (Some r, s')" "lr_pages r = [(0x400000, 77824)]"
    unfolding elf_load_def Let_def demo_headers(1) Elf32_Ehdr.select_convs ad rng prod.case
    by (simp add: demo_valid demo_clear al ld del: load_segments.simps)
  from elf_load_safe [OF rs(1)] rs show ?thesis by auto
qed

text \<open>The bound check of the program headers is computed modulo \<open>2 ^ 32\<close>: an accepted image can have
  its program headers behind its end.\<close>

theorem elf_validate_wraps:
  "\<exists>m. elf_validate m 0x20000 100 \<and>
     unat (e_phoff (read_ehdr m 0x20000))
       + unat (e_phnum (read_ehdr m 0x20000)) * unat (e_phentsize (read_ehdr m 0x20000)) > 100"
proof -
  let ?m = "demo_image(0x2001C := 0xFFFFFFE0)"
  have h: "read_ehdr ?m 0x20000 = \<lparr>e_type = 2, e_machine = 3, e_entry = 0x400000, e_phoff = 0xFFFFFFE0,
     e_phentsize = 32, e_phnum = 1\<rparr>"
    by (simp add: read_ehdr_def read32_aligned read16_def get_byte_def demo_image_def)
  have "elf_validate ?m 0x20000 100"
    unfolding elf_validate_def h Let_def
    by (simp add: SIZEOF_EHDR_def read32_aligned get_byte_def demo_image_def ELF_MAGIC_def
      EI_CLASS_def EI_DATA_def EI_VERSION_def EV_CURRENT_def ET_EXEC_def EM_386_def)
  then show ?thesis using h by (intro exI [of _ ?m]) simp
qed

end
