(* ===== verification/Process.thy ===== *)
theory Process
  imports Sched Elf
begin

unbundle bit_operations_syntax

text \<open>
  Processes (kernel/kernel/SchedulerProcess.cc and kernel/kernel/SchedulerSignals.cc) and the
  timer tick: user tasks, fork, exec, waitpid, lazy FPU switching, exit, kill, signals.

  Two things are parameters, collected in \<open>env\<close>: the kill handlers, called through a function
  pointer, and the deletion of a readline history array. Code that does not return to its caller
  (\<open>exitCurrentTask\<close> loads the stack pointer of the next task) has the outcome \<open>Switched\<close>.
\<close>

record 's env =
  runOnKill :: "nat \<Rightarrow> 's \<Rightarrow> 's"
  deleteHistory :: "nat \<Rightarrow> 's \<Rightarrow> 's"

record proc = sched +
  syscallFrameEsp :: nat
  tssSs0 :: u32

datatype 'a outcome = Returned 'a | Switched u32

definition USER_BASE :: nat where "USER_BASE = 0x10000000"
definition USER_STACK_VADDR :: nat where "USER_STACK_VADDR = 0xB0000000"
definition USER_STACK_PAGES :: nat where "USER_STACK_PAGES = 4"
definition FRAME_SIZE_USER :: nat where "FRAME_SIZE_USER = 52"
definition SIGKILL :: int where "SIGKILL = 9"
definition SIGSEGV :: nat where "SIGSEGV = 11"
definition EXIT_CODE_SIGNAL_BASE :: int where "EXIT_CODE_SIGNAL_BASE = 128"

section \<open>User pages\<close>

text \<open>\<open>MappedFrame\<close> is the frame that was mapped, if any.\<close>

definition allocAndMapUserPage ::
  "nat \<Rightarrow> nat \<Rightarrow> 'a paging_scheme \<Rightarrow> (nat option \<times> 'a paging_scheme) kres" where
  "allocAndMapUserPage vaddr dir s =
     (let (phys, s1) = allocFrame s in
      if phys = 0 then kret (None, s1)
      else kbind (Some (mapPage vaddr (word_of_nat phys) (PAGE_PRESENT OR PAGE_RW OR PAGE_USER) dir s1))
        (\<lambda>(ok, s2). if \<not> ok then kbind (Some (freeFrame phys s2)) (\<lambda>s3. kret (None, s3))
                    else kret (Some phys, s2)))"

text \<open>The loop of \<open>mapUserStackPages\<close>; pages mapped before a failure stay mapped.\<close>

fun map_stack_loop :: "nat list \<Rightarrow> int \<Rightarrow> nat \<Rightarrow> 'a sched_scheme \<Rightarrow> (bool \<times> 'a sched_scheme) kres" where
  "map_stack_loop [] t dir s = kret (True, s)"
| "map_stack_loop (i # is) t dir s =
     (let vaddr = USER_STACK_VADDR - i * PAGE_SIZE in
      kbind (allocAndMapUserPage vaddr dir s)
        (\<lambda>(r, s1). case r of
             None \<Rightarrow> kret (False, s1)
           | Some phys \<Rightarrow>
               map_stack_loop is t dir
                 (upd_task t (\<lambda>x. x\<lparr>userStackVaddr := (userStackVaddr x)[i := vaddr],
                                   userStackPhys := (userStackPhys x)[i := phys]\<rparr>) s1)))"

definition mapUserStackPages :: "int \<Rightarrow> nat \<Rightarrow> 'a sched_scheme \<Rightarrow> (bool \<times> 'a sched_scheme) kres" where
  "mapUserStackPages t dir s =
     kbind (map_stack_loop [0..<USER_STACK_PAGES] t dir s)
       (\<lambda>(ok, s1). kret (ok, if ok then upd_task t (\<lambda>x. x\<lparr>userStackPageCount := USER_STACK_PAGES\<rparr>) s1 else s1))"

definition freePageArray :: "nat \<Rightarrow> nat list \<Rightarrow> nat \<Rightarrow> 'a sched_scheme \<Rightarrow> 'a sched_scheme kres" where
  "freePageArray count vaddrs dir s = Some (foldE (\<lambda>v s. unmapPage v dir s) (take count vaddrs) s)"

section \<open>Creation of tasks\<close>

definition addTaskAndBlock ::
  "nat \<Rightarrow> string option \<Rightarrow> nat \<Rightarrow> nat \<Rightarrow> 'a sched_scheme \<Rightarrow> (int option \<times> 'a sched_scheme) kres" where
  "addTaskAndBlock wrapper name entryAddr dir s =
     kbind (of_opt (addTaskImpl wrapper name entryAddr dir PRIORITY_NORMAL s))
       (\<lambda>(r, s1). case r of
            None \<Rightarrow> kret (None, s1)
          | Some i \<Rightarrow>
              if idx_corrupt s1 then kpanic ''Scheduler::addTaskAndBlock: corrupted currentIdx''
              else kret (Some i, upd_task (currentIdx s1) (\<lambda>t. t\<lparr>tstate := BLOCKED\<rparr>) s1))"

text \<open>Both kinds of user task start by clearing the slot, and end by filling in the task.
  The terminator of the name is written at the length of the given name.\<close>

definition clear_slot :: "int \<Rightarrow> 'a sched_scheme \<Rightarrow> 'a sched_scheme kres" where
  "clear_slot slot s =
     (let t = task_at slot s in
      kbind (of_opt (if stackBuf t \<noteq> 0 then heap_free (stackBuf t) s else Some s))
        (\<lambda>s1. kret (upd_task slot (\<lambda>_. empty_task\<lparr>priority := PRIORITY_NORMAL\<rparr>) s1)))"

definition finish_user_task ::
  "int \<Rightarrow> string \<Rightarrow> nat \<Rightarrow> u32 \<Rightarrow> 'a proc_scheme \<Rightarrow> 'a proc_scheme kres" where
  "finish_user_task slot name kstack userEip s =
     (let (e, s1) = initUserStackFrame kstack userEip (word_of_nat (USER_STACK_VADDR + PAGE_SIZE)) s;
          s2 = upd_task slot (\<lambda>t. t\<lparr>esp := e, tentry := 0, tstate := READY, tid := word_of_int slot\<rparr>) s1;
          s3 = initProcessFields slot s2;
          s4 = upd_task slot (\<lambda>t. t\<lparr>stackBuf := kstack, stackSize := TASK_STACK_SIZE, tname := take 15 name\<rparr>) s3
      in if length name \<ge> 16 then kpanic ''Task::name: index out of bounds''
         else kret (s4\<lparr>tssEsp0 := word_of_nat (kstack + TASK_STACK_SIZE), tssSs0 := 0x10\<rparr>))"

text \<open>\<open>userTest\<close> is the code between the linker symbols \<open>userTestStart\<close> and \<open>userTestEnd\<close>.\<close>

definition finish_code_task ::
  "u8 list \<Rightarrow> string \<Rightarrow> int \<Rightarrow> nat \<Rightarrow> nat \<Rightarrow> 'a proc_scheme \<Rightarrow> (int option \<times> 'a proc_scheme) kres" where
  "finish_code_task userTest name slot kstack phys s =
     (let s1 = s\<lparr>mem := write_bytes phys userTest (mem s)\<rparr>
      in kbind (finish_user_task slot name kstack (word_of_nat USER_BASE) s1) (\<lambda>s2.
         kret (Some slot, upd_task slot (\<lambda>t. t\<lparr>userCodeBuf := phys\<rparr>) s2)))"

definition addUserTask :: "u8 list \<Rightarrow> string \<Rightarrow> 'a proc_scheme \<Rightarrow> (int option \<times> 'a proc_scheme) kres" where
  "addUserTask userTest name s =
     (case findSlot s of
        (None, s1) \<Rightarrow> kret (None, s1)
      | (Some slot, s1) \<Rightarrow>
          kbind (clear_slot slot s1) (\<lambda>s2.
          kbind (of_opt (allocKernelStack s2)) (\<lambda>(kstack, s3).
          if kstack = 0 then kret (None, s3)
          else
          kbind (allocAndMapUserPage USER_BASE (kernelPageDirPhys s3) s3) (\<lambda>(code, s4).
          case code of
            None \<Rightarrow> kbind (of_opt (heap_free kstack s4)) (\<lambda>s5. kret (None, s5))
          | Some phys \<Rightarrow>
              kbind (mapUserStackPages slot (kernelPageDirPhys s4) s4) (\<lambda>(ok, s5).
              if \<not> ok then
                kbind (Some (unmapPage USER_BASE (kernelPageDirPhys s5) s5)) (\<lambda>s6.
                kbind (of_opt (heap_free kstack s6)) (\<lambda>s7. kret (None, s7)))
              else
              kbind (Some (clonePageDir (kernelPageDirPhys s5) s5)) (\<lambda>(dir, s6).
              finish_code_task userTest name slot kstack phys (upd_task slot (\<lambda>t. t\<lparr>pageDir := dir\<rparr>) s6)))))))"

definition record_elf_pages :: "(nat \<times> nat) list \<Rightarrow> task \<Rightarrow> task" where
  "record_elf_pages ps t =
     t\<lparr>elfPageCount := length ps, elfVaddr := map fst ps @ drop (length ps) (elfVaddr t),
       elfPhys := map snd ps @ drop (length ps) (elfPhys t)\<rparr>"

definition addUserElfTask ::
  "string \<Rightarrow> nat \<Rightarrow> u32 \<Rightarrow> 'a proc_scheme \<Rightarrow> (int option \<times> 'a proc_scheme) kres" where
  "addUserElfTask name elfData elfSize s =
     (case findSlot s of
        (None, s1) \<Rightarrow> kret (None, s1)
      | (Some slot, s1) \<Rightarrow>
          kbind (clear_slot slot s1) (\<lambda>s2.
          kbind (of_opt (allocKernelStack s2)) (\<lambda>(kstack, s3).
          if kstack = 0 then kret (None, s3)
          else
          kbind (mapUserStackPages slot (kernelPageDirPhys s3) s3) (\<lambda>(ok, s4).
          if \<not> ok then kbind (of_opt (heap_free kstack s4)) (\<lambda>s5. kret (None, s5))
          else
          kbind (Some (clonePageDir (kernelPageDirPhys s4) s4)) (\<lambda>(dir, s5).
          let s6 = upd_task slot (\<lambda>t. t\<lparr>pageDir := dir\<rparr>) s5 in
          if dir = 0 then kbind (of_opt (heap_free kstack s6)) (\<lambda>s7. kret (None, s7))
          else
          kbind (Some (elf_load elfData elfSize dir s6)) (\<lambda>(r, s7).
          case r of
            None \<Rightarrow> kbind (of_opt (heap_free kstack s7)) (\<lambda>s8. kret (None, s8))
          | Some lr \<Rightarrow>
              kbind (finish_user_task slot name kstack (lr_entry lr) s7) (\<lambda>s8.
              kret (Some slot, upd_task slot (record_elf_pages (lr_pages lr)) s8))))))))"

section \<open>Fork\<close>

text \<open>Write-protecting one user page table of the parent.\<close>

definition protect_pte :: "nat \<Rightarrow> nat \<Rightarrow> 'a paging_scheme \<Rightarrow> 'a paging_scheme" where
  "protect_pte pt j s =
     (let e = entry s pt j in
      if has e PAGE_PRESENT \<and> has e PAGE_RW \<and> \<not> has e PAGE_COW
      then set_entry pt j ((e AND NOT PAGE_RW) OR PAGE_COW) s else s)"

definition protect_pde :: "nat \<Rightarrow> nat \<Rightarrow> 'a paging_scheme \<Rightarrow> string + 'a paging_scheme" where
  "protect_pde dir i s =
     (let e = entry s dir i in
      if \<not> has e PAGE_PRESENT \<or> \<not> has e PAGE_USER then Inr s
      else if isBadPhysAddr (frame_of e) s then Inl ''fork: corrupt parent PDE''
      else Inr (fold (protect_pte (frame_of e)) [0..<PTE_COUNT] s))"

definition copy_words :: "nat \<Rightarrow> nat \<Rightarrow> nat \<Rightarrow> memory \<Rightarrow> memory" where
  "copy_words dst src n m = fold (\<lambda>i m'. m'(dst + 4 * i := m (src + 4 * i))) [0..<n] m"

definition fork_child :: "int \<Rightarrow> nat \<Rightarrow> nat \<Rightarrow> nat \<Rightarrow> 'a proc_scheme \<Rightarrow> 'a proc_scheme" where
  "fork_child slot childStack frameOffset dir s =
     (let parent = currentTask s;
          p = nextPid s;
          fs = (if fpuValid parent \<and> fpuOwner s = int (unat (tid parent)) then fpuRegs s else fpuState parent);
          n = userStackPageCount parent;
          s1 = upd_task slot (\<lambda>c. c\<lparr>pageDir := dir,
                 userStackVaddr := take n (userStackVaddr parent) @ drop n (userStackVaddr c),
                 userStackPhys := take n (userStackPhys parent) @ drop n (userStackPhys c),
                 userStackPageCount := n, esp := word_of_nat (childStack + frameOffset), tentry := 0,
                 tstate := READY, tid := word_of_int slot, pid := p, ppid := pid parent, exitCode := 0,
                 children := [], priority := priority parent, stackBuf := childStack,
                 stackSize := TASK_STACK_SIZE, tname := ''fork'',
                 fpuState := (if fpuValid parent then fs else fpuState c), fpuValid := fpuValid parent\<rparr>)
                 (s\<lparr>nextPid := p + 1\<rparr>);
          s2 = upd_task (currentIdx s) (\<lambda>t. t\<lparr>fpuState := (if fpuValid parent then fs else fpuState t),
                 children := (if length (children t) < MAX_CHILDREN then children t @ [p] else children t)\<rparr>) s1
      in s2)"

text \<open>\<open>fork\<close> returns the pid of the child, or nothing (-1).\<close>

definition sched_fork :: "'a proc_scheme \<Rightarrow> (u8 option \<times> 'a proc_scheme) kres" where
  "sched_fork s =
     (if idx_corrupt s then kret (None, s)
      else if userStackPageCount (currentTask s) = 0 then kret (None, s)
      else if syscallFrameEsp s = 0 then kret (None, s)
      else case findSlot s of
        (None, s1) \<Rightarrow> kret (None, s1)
      | (Some slot, s1) \<Rightarrow>
          kbind (of_opt (if stackBuf (task_at slot s1) \<noteq> 0 then heap_free (stackBuf (task_at slot s1)) s1 else Some s1)) (\<lambda>s2.
          let s3 = upd_task slot (\<lambda>_. empty_task) s2 in
          kbind (of_opt (allocKernelStack s3)) (\<lambda>(childStack, s4).
          if childStack = 0 then kret (None, s4)
          else
          let frameOffset = TASK_STACK_SIZE - FRAME_SIZE_USER;
              m1 = copy_words (childStack + frameOffset) (syscallFrameEsp s4) (FRAME_SIZE_USER div 4) (mem s4);
              s5 = s4\<lparr>mem := m1(childStack + frameOffset + 28 := 0)\<rparr>;
              parentDir = (if pageDir (currentTask s5) \<noteq> 0 then pageDir (currentTask s5) else kernelPageDirPhys s5)
          in kbind (Some (clonePageDir parentDir s5)) (\<lambda>(dir, s6).
             let s6' = upd_task slot (\<lambda>c. c\<lparr>pageDir := dir\<rparr>) s6 in
             if dir = 0 then kbind (of_opt (heap_free childStack s6')) (\<lambda>s7. kret (None, s7))
             else
             kbind (Some (foldE (protect_pde parentDir) [0..<PDE_COUNT] s6')) (\<lambda>s7.
             let s8 = fork_child slot childStack frameOffset dir s7
             in kret (Some (pid (task_at slot s8)), s8))))))"

section \<open>Exit and kill\<close>

text \<open>The tail of \<open>killTask\<close>: the memory of the task is released.\<close>

definition free_kernel_stack :: "int \<Rightarrow> 'a sched_scheme \<Rightarrow> 'a sched_scheme kres" where
  "free_kernel_stack i s =
     (if stackBuf (task_at i s) \<noteq> 0
      then kbind (of_opt (heap_free (stackBuf (task_at i s)) s)) (\<lambda>s1. kret (upd_task i (\<lambda>t. t\<lparr>stackBuf := 0\<rparr>) s1))
      else kret s)"

definition free_address_space :: "int \<Rightarrow> 'a sched_scheme \<Rightarrow> 'a sched_scheme kres" where
  "free_address_space i s =
     (if pageDir (task_at i s) \<noteq> 0
      then kbind (Some (freePageDirectory (pageDir (task_at i s)) s)) (\<lambda>s1.
           kbind (Some (freeFrame (pageDir (task_at i s)) s1)) (\<lambda>s2. kret (upd_task i (\<lambda>t. t\<lparr>pageDir := 0\<rparr>) s2)))
      else kret s)"

definition free_code_page :: "int \<Rightarrow> 'a sched_scheme \<Rightarrow> 'a sched_scheme kres" where
  "free_code_page i s =
     (if userCodeBuf (task_at i s) \<noteq> 0
      then kbind (Some (unmapPage USER_BASE (kernelPageDirPhys s) s)) (\<lambda>s1. kret (upd_task i (\<lambda>t. t\<lparr>userCodeBuf := 0\<rparr>) s1))
      else kret s)"

definition free_history :: "'a proc_scheme env \<Rightarrow> int \<Rightarrow> 'a proc_scheme \<Rightarrow> 'a proc_scheme" where
  "free_history ev i s =
     (if historyBuf (task_at i s) \<noteq> 0
      then upd_task i (\<lambda>t. t\<lparr>historyBuf := 0\<rparr>) (deleteHistory ev (historyBuf (task_at i s)) s) else s)"

text \<open>Both ways to die: the slot becomes DEAD, leaves the sleep queue, and its children go to idle.\<close>

definition bury :: "int \<Rightarrow> (task \<Rightarrow> task) \<Rightarrow> 'a sched_scheme \<Rightarrow> 'a sched_scheme" where
  "bury i f s =
     (let s1 = (upd_task i (\<lambda>t. (f t)\<lparr>tstate := DEAD\<rparr>) s)\<lparr>totalExited := totalExited s + 1\<rparr>;
          s2 = removeFromSleepQueue i s1
      in reparentChildren (pid (task_at i s2)) s2)"

definition exitCurrentTask ::
  "'a proc_scheme env \<Rightarrow> int \<Rightarrow> 'a proc_scheme \<Rightarrow> (u32 \<times> 'a proc_scheme) kres" where
  "exitCurrentTask ev code s =
     (if idx_corrupt s then kpanic ''Scheduler::exitCurrentTask: corrupted currentIdx''
      else
      let c = currentIdx s;
          s1 = (if onKill (task_at c s) \<noteq> 0 then runOnKill ev (onKill (task_at c s)) s else s);
          s2 = free_history ev c (bury c (\<lambda>t. t\<lparr>exitCode := code\<rparr>) s1)
      in kbind (findNext s2) (\<lambda>r. case r of
           None \<Rightarrow> kpanic ''Scheduler::exitCurrentTask: no runnable task remaining''
         | Some next \<Rightarrow>
             let t = task_at c s2;
                 s3 = upd_task c (\<lambda>t. t\<lparr>pageDir := 0, userStackPageCount := 0, userCodeBuf := 0, elfPageCount := 0,
                                       unblockOnExit := - 1\<rparr>) s2
             in kbind (switchTo next s3) (\<lambda>(e, s4).
                kbind (if pageDir t \<noteq> 0
                       then kbind (Some (freePageDirectory (pageDir t) s4)) (\<lambda>s'. Some (freeFrame (pageDir t) s'))
                       else kret s4) (\<lambda>s5.
                kbind (if userCodeBuf t \<noteq> 0 then Some (unmapPage USER_BASE (kernelPageDirPhys s5) s5) else kret s5) (\<lambda>s6.
                kret (e, if unblockOnExit t \<noteq> - 1 then unblockTask (unblockOnExit t) s6 else s6))))))"

definition killFaultingTask :: "'a proc_scheme env \<Rightarrow> 'a proc_scheme \<Rightarrow> (u32 \<times> 'a proc_scheme) kres" where
  "killFaultingTask ev s = exitCurrentTask ev (EXIT_CODE_SIGNAL_BASE + int SIGSEGV) s"

text \<open>The wake-up id is read as an unsigned char, so -1 becomes 255 and is always passed on.\<close>

definition killTask :: "'a proc_scheme env \<Rightarrow> int \<Rightarrow> 'a proc_scheme \<Rightarrow> 'a proc_scheme kres" where
  "killTask ev i s =
     (if i < 0 \<or> i \<ge> taskCount s then kret s
      else if i = currentIdx s then kret s
      else if tstate (task_at i s) = DEAD then kret s
      else
      let s1 = (if onKill (task_at i s) \<noteq> 0 then runOnKill ev (onKill (task_at i s)) s else s);
          unblockId = unblockOnExit (task_at i s1) mod 256;
          s2 = upd_task i (\<lambda>t. t\<lparr>unblockOnExit := - 1\<rparr>) s1;
          s3 = (if unblockId \<noteq> - 1 then unblockTask unblockId s2 else s2);
          s4 = bury i (\<lambda>t. t) s3
      in kbind (free_kernel_stack i s4) (\<lambda>s5.
         kbind (free_address_space i s5) (\<lambda>s6.
         kbind (free_code_page i s6) (\<lambda>s7.
         let s8 = upd_task i (\<lambda>t. t\<lparr>userStackPageCount := 0, elfPageCount := 0\<rparr>) s7
         in kret (upd_task i (\<lambda>t. t\<lparr>stackSize := 0\<rparr>) (free_history ev i s8))))))"

section \<open>Exec\<close>

definition set_frame :: "nat \<Rightarrow> (nat \<times> u32) list \<Rightarrow> 'a kmem_scheme \<Rightarrow> 'a kmem_scheme" where
  "set_frame frame ws s = s\<lparr>mem := fold (\<lambda>(i, v) m. m(frame + 4 * i := v)) ws (mem s)\<rparr>"

text \<open>Releasing the old image, and loading the new one.\<close>

definition exec_release :: "int \<Rightarrow> nat \<Rightarrow> 'a sched_scheme \<Rightarrow> 'a sched_scheme kres" where
  "exec_release c dir s =
     kbind (freePageArray (elfPageCount (task_at c s)) (elfVaddr (task_at c s)) dir s) (\<lambda>s1.
     let s2 = upd_task c (\<lambda>t. t\<lparr>elfPageCount := 0\<rparr>) s1 in
     kbind (freePageArray (userStackPageCount (task_at c s2)) (userStackVaddr (task_at c s2)) dir s2) (\<lambda>s3.
     let s4 = upd_task c (\<lambda>t. t\<lparr>userStackPageCount := 0\<rparr>) s3 in
     if userCodeBuf (task_at c s4) \<noteq> 0
     then kbind (Some (unmapPage USER_BASE dir s4)) (\<lambda>s5.
          kbind (Some (freeFrame (userCodeBuf (task_at c s4)) s5)) (\<lambda>s6.
          kret (upd_task c (\<lambda>t. t\<lparr>userCodeBuf := 0\<rparr>) s6)))
     else kret s4))"

definition exec_load ::
  "'a proc_scheme env \<Rightarrow> int \<Rightarrow> nat \<Rightarrow> nat \<Rightarrow> u32 \<Rightarrow> 'a proc_scheme \<Rightarrow> (bool outcome \<times> 'a proc_scheme) kres" where
  "exec_load ev c dir modPtr modSz s =
     (let quit = (\<lambda>s'. kbind (exitCurrentTask ev 1 s') (\<lambda>(e, s''). kret (Switched e, s''))) in
      kbind (mapUserStackPages c dir s) (\<lambda>(ok, s1).
      if \<not> ok then quit s1
      else
      kbind (Some (elf_load modPtr modSz dir s1)) (\<lambda>(r, s2). case r of
        None \<Rightarrow>
          kbind (freePageArray (userStackPageCount (task_at c s2)) (userStackVaddr (task_at c s2)) dir s2) (\<lambda>s3.
          quit (upd_task c (\<lambda>t. t\<lparr>userStackPageCount := 0\<rparr>) s3))
      | Some lr \<Rightarrow>
          let s3 = upd_task c (record_elf_pages (lr_pages lr)) s2
          in kret (Returned True,
                   set_frame (syscallFrameEsp s3)
                     [(8, lr_entry lr), (10, 0x202), (11, word_of_nat (USER_STACK_VADDR + PAGE_SIZE)), (4, 0)] s3))))"

definition sched_exec ::
  "'a proc_scheme env \<Rightarrow> int \<Rightarrow> 'a proc_scheme \<Rightarrow> (bool outcome \<times> 'a proc_scheme) kres" where
  "sched_exec ev modIdx s =
     (let c = currentIdx s in
      if idx_corrupt s then kret (Returned False, s)
      else if modIdx < 0 \<or> modIdx \<ge> int (moduleCount s) then kret (Returned False, s)
      else if pageDir (task_at c s) = 0 then kret (Returned False, s)
      else
      let s1 = upd_task c (\<lambda>t. t\<lparr>fpuValid := False, signalHandlers := replicate SIGNAL_MAX 0,
                                savedSignalEip := 0, savedSignalEflags := 0, savedSignalEsp := 0\<rparr>) s;
          dir = pageDir (task_at c s1);
          modPtr = unat (modulePhysStart modIdx s1);
          modSz = modulePhysSize modIdx s1
      in if \<not> elf_validate (mem s1) modPtr modSz then kret (Returned False, s1)
         else kbind (exec_release c dir s1) (\<lambda>s2. exec_load ev c dir modPtr modSz s2))"

section \<open>Waiting\<close>

datatype wait_result = Wait_Error | Wait_Reaped u8 int | Wait_Blocked

definition mark_waiters :: "u8 list \<Rightarrow> int \<Rightarrow> nat \<Rightarrow> task list \<Rightarrow> task list" where
  "mark_waiters cs waiter cnt ts =
     map (\<lambda>t. if pid t \<in> set cs \<and> tstate t \<noteq> DEAD then t\<lparr>unblockOnExit := to_int8 waiter\<rparr> else t) (take cnt ts) @ drop cnt ts"

text \<open>\<open>waitpid\<close> up to its wait; on wake-up the caller goes on with \<^const>\<open>reapDeadChild\<close>.\<close>

definition waitpid :: "nat \<Rightarrow> 'a proc_scheme \<Rightarrow> (wait_result \<times> 'a proc_scheme) kres" where
  "waitpid status s =
     (if idx_corrupt s then kret (Wait_Error, s)
      else if status \<noteq> 0 \<and> status \<ge> unat KERNEL_VIRTUAL_BASE then kret (Wait_Error, s)
      else case reapDeadChild (currentIdx s) s of
        (Some (p, code), s1) \<Rightarrow> kret (Wait_Reaped p code, s1)
      | (None, s1) \<Rightarrow>
          if children (currentTask s1) = [] then kret (Wait_Error, s1)
          else let s2 = s1\<lparr>tasks := mark_waiters (children (currentTask s1)) (currentIdx s1) (nat (taskCount s1)) (tasks s1)\<rparr>
               in kbind (blockCurrentTaskAndYield s2) (\<lambda>s3. kret (Wait_Blocked, s3)))"

section \<open>Lazy FPU switching\<close>

text \<open>\<open>fninit\<close> loads the initial register image, a parameter.\<close>

definition handleNm :: "u8 list \<Rightarrow> 'a sched_scheme \<Rightarrow> 'a sched_scheme kres" where
  "handleNm fninit s =
     (if idx_corrupt s then kpanic ''Scheduler::handleNm: corrupted currentIdx''
      else
      let c = currentIdx s; w = fpuOwner s;
          s1 = (if w \<ge> 0 \<and> w \<noteq> c \<and> w < int MAX_TASKS \<and> fpuValid (task_at w s)
                then upd_task w (\<lambda>t. t\<lparr>fpuState := fpuRegs s\<rparr>) s else s);
          s2 = s1\<lparr>fpuRegs := (if fpuValid (task_at c s1) then fpuState (task_at c s1) else fninit)\<rparr>;
          s3 = upd_task c (\<lambda>t. t\<lparr>fpuValid := True\<rparr>) s2
      in kret (s3\<lparr>fpuOwner := c, crTS := False\<rparr>))"

section \<open>Signals\<close>

definition trampolineCode :: "u8 list" where
  "trampolineCode = [0xB8, 19, 0, 0, 0, 0xCD, 0x80, 0xF4]"

text \<open>\<open>writeAt\<close>: the first stack page that holds the address is written through its frame.\<close>

definition write_user :: "task \<Rightarrow> u32 \<Rightarrow> u8 list \<Rightarrow> memory \<Rightarrow> memory" where
  "write_user t vaddr bs m =
     (case find (\<lambda>i. word_of_nat (userStackVaddr t ! i) \<le> vaddr
                    \<and> vaddr < word_of_nat (userStackVaddr t ! i) + word_of_nat PAGE_SIZE) [0..<userStackPageCount t] of
        None \<Rightarrow> m
      | Some i \<Rightarrow> write_bytes (userStackPhys t ! i + unat (vaddr - word_of_nat (userStackVaddr t ! i))) bs m)"

definition writeSignalTrampoline :: "task \<Rightarrow> u32 \<Rightarrow> u32 \<Rightarrow> memory \<Rightarrow> u32 \<times> memory" where
  "writeSignalTrampoline t originalUserEsp sigNum m =
     (let tr = originalUserEsp - 16
      in (originalUserEsp - 8,
          write_user t (tr + 12) (bytes32 sigNum)
            (write_user t (tr + 8) (bytes32 tr) (write_user t tr trampolineCode m))))"

definition deliverSigsegvFromException :: "nat \<Rightarrow> 'a sched_scheme \<Rightarrow> bool \<times> 'a sched_scheme" where
  "deliverSigsegvFromException frame s =
     (if idx_corrupt s then (False, s)
      else
      let c = currentIdx s; t = task_at c s in
      if userStackPageCount t = 0 then (False, s)
      else if signalHandlers t ! SIGSEGV = 0 then (False, s)
      else
      let faultEip = mem s (frame + 36); faultEflags = mem s (frame + 44); faultUserEsp = mem s (frame + 48);
          s1 = upd_task c (\<lambda>t. t\<lparr>savedSignalEip := faultEip, savedSignalEflags := faultEflags,
                                savedSignalEsp := faultUserEsp\<rparr>) s;
          (newEsp, m1) = writeSignalTrampoline (task_at c s1) faultUserEsp (word_of_nat SIGSEGV) (mem s1);
          s2 = set_frame frame [(7, word_of_nat SIGSEGV), (9, word_of_nat (signalHandlers t ! SIGSEGV)), (11, 0x202), (12, newEsp)]
                 (s1\<lparr>mem := m1\<rparr>)
      in (True, upd_task c (\<lambda>t. t\<lparr>signalHandlers := (signalHandlers t)[SIGSEGV := 0]\<rparr>) s2))"

definition lowest_signal :: "u32 \<Rightarrow> nat option" where
  "lowest_signal w = find (\<lambda>i. bit w i) [1..<SIGNAL_MAX]"

definition deliverPendingSignals ::
  "'a proc_scheme env \<Rightarrow> 'a proc_scheme \<Rightarrow> (unit outcome \<times> 'a proc_scheme) kres" where
  "deliverPendingSignals ev s =
     (if idx_corrupt s then kret (Returned (), s)
      else
      let c = currentIdx s; t = task_at c s in
      if userStackPageCount t = 0 then kret (Returned (), upd_task c (\<lambda>t. t\<lparr>pendingSignals := 0\<rparr>) s)
      else if pendingSignals t = 0 then kret (Returned (), s)
      else case lowest_signal (pendingSignals t) of
        None \<Rightarrow> kret (Returned (), s)
      | Some sig \<Rightarrow>
          if signalHandlers t ! sig \<noteq> 0 then
            let frame = unat (esp t) in
            if mem s (frame + 36) AND 3 = 0 then kret (Returned (), s)
            else
            let s1 = upd_task c (\<lambda>t. t\<lparr>pendingSignals := unset_bit sig (pendingSignals t),
                                      savedSignalEip := mem s (frame + 32), savedSignalEflags := mem s (frame + 40),
                                      savedSignalEsp := mem s (frame + 44)\<rparr>) s;
                (newEsp, m1) = writeSignalTrampoline (task_at c s1) (mem s (frame + 44)) (word_of_nat sig) (mem s1)
            in kret (Returned (),
                     set_frame frame [(7, word_of_nat sig), (8, word_of_nat (signalHandlers t ! sig)), (10, 0x202), (11, newEsp)]
                       (s1\<lparr>mem := m1\<rparr>))
          else
            kbind (exitCurrentTask ev (EXIT_CODE_SIGNAL_BASE + int sig)
                     (upd_task c (\<lambda>t. t\<lparr>pendingSignals := unset_bit sig (pendingSignals t)\<rparr>) s))
              (\<lambda>(e, s'). kret (Switched e, s')))"

definition deliverPendingSignalsAtEsp ::
  "'a proc_scheme env \<Rightarrow> u32 \<Rightarrow> 'a proc_scheme \<Rightarrow> (unit outcome \<times> 'a proc_scheme) kres" where
  "deliverPendingSignalsAtEsp ev e s =
     (if idx_corrupt s then kret (Returned (), s)
      else deliverPendingSignals ev (upd_task (currentIdx s) (\<lambda>t. t\<lparr>esp := e\<rparr>) s))"

definition sendSignal ::
  "'a proc_scheme env \<Rightarrow> int \<Rightarrow> int \<Rightarrow> 'a proc_scheme \<Rightarrow> (unit outcome \<times> 'a proc_scheme) kres" where
  "sendSignal ev p sig s =
     (if sig < 0 \<or> sig \<ge> int SIGNAL_MAX then kret (Returned (), s)
      else case find (\<lambda>i. int (unat (pid (tasks s ! i))) = p \<and> tstate (tasks s ! i) \<noteq> DEAD \<and> i \<noteq> 0) [0..<nat (taskCount s)] of
        None \<Rightarrow> kret (Returned (), s)
      | Some k \<Rightarrow>
          let i = int k in
          if sig = SIGKILL then
            if i = currentIdx s
            then kbind (exitCurrentTask ev (EXIT_CODE_SIGNAL_BASE + SIGKILL) s) (\<lambda>(e, s'). kret (Switched e, s'))
            else kbind (killTask ev i (upd_task i (\<lambda>t. t\<lparr>exitCode := EXIT_CODE_SIGNAL_BASE + SIGKILL\<rparr>) s))
                   (\<lambda>s'. kret (Returned (), s'))
          else
            let s1 = upd_task i (\<lambda>t. t\<lparr>pendingSignals := set_bit (nat sig) (pendingSignals t)\<rparr>) s
            in kret (Returned (),
                 if tstate (task_at i s1) = BLOCKED
                 then removeFromSleepQueue i (upd_task i (\<lambda>t. t\<lparr>tstate := READY, wakeupMs := 0\<rparr>) s1) else s1))"

section \<open>The timer tick\<close>

text \<open>The part of \<open>tick\<close> after signal delivery.\<close>

definition tick_rest :: "'a proc_scheme \<Rightarrow> (u32 \<times> 'a proc_scheme) kres" where
  "tick_rest s =
     (let c = currentIdx s;
          s1 = (if c = 0 then s\<lparr>idleTicks := idleTicks s + 1\<rparr> else s);
          now = uptimeMs s1;
          elapsed = now - lastTickMs s1;
          s2 = upd_task c (\<lambda>t. t\<lparr>runtimeMs := runtimeMs t + elapsed\<rparr>) (s1\<lparr>lastTickMs := now\<rparr>);
          s3 = wake_expired now s2
      in if now - quantumStartMs s3 \<ge> QUANTUM_MS then
           kbind (findNext s3) (\<lambda>r. case r of
             None \<Rightarrow> kret (0, programNextTick (s3\<lparr>quantumStartMs := now\<rparr>))
           | Some n \<Rightarrow> if n = currentIdx s3 then kret (0, programNextTick (s3\<lparr>quantumStartMs := now\<rparr>))
                        else switchTo n s3)
         else kret (0, programNextTick s3))"

text \<open>\<open>tick\<close> returns 0 to stay in the interrupted task, or the stack pointer to switch to.\<close>

definition sched_tick ::
  "'a proc_scheme env \<Rightarrow> u32 \<Rightarrow> 'a proc_scheme \<Rightarrow> (u32 outcome \<times> 'a proc_scheme) kres" where
  "sched_tick ev currentEsp s =
     (if \<not> initialized s then kret (Returned 0, s)
      else if idx_corrupt s then kpanic ''Scheduler::tick: corrupted currentIdx''
      else
      let s1 = upd_task (currentIdx s) (\<lambda>t. t\<lparr>esp := currentEsp\<rparr>) s in
      kbind (checkCanary (currentTask s1) s1) (\<lambda>_.
      kbind (deliverPendingSignals ev s1) (\<lambda>(r, s2). case r of
        Switched e \<Rightarrow> kret (Switched e, s2)
      | Returned _ \<Rightarrow> kbind (tick_rest s2) (\<lambda>(e, s3). kret (Returned e, s3)))))"

text \<open>\<open>taskWrapper\<close>: the entry function is a parameter, then the task exits with code 0.\<close>

definition taskWrapper ::
  "'a proc_scheme env \<Rightarrow> (nat \<Rightarrow> 'a proc_scheme \<Rightarrow> 'a proc_scheme) \<Rightarrow> 'a proc_scheme \<Rightarrow> (u32 \<times> 'a proc_scheme) kres" where
  "taskWrapper ev run s =
     (if idx_corrupt s then kpanic ''Scheduler::taskWrapper: corrupted currentIdx''
      else exitCurrentTask ev 0 (if tentry (currentTask s) \<noteq> 0 then run (tentry (currentTask s)) s else s))"

section \<open>Memory management does not touch the task table\<close>

text \<open>The operations of the heap, the frame pool and the page tables change only fields of their own
  records. \<open>outer s\<close> is everything above them.\<close>

definition outer :: "'a paging_scheme \<Rightarrow> nat \<times> 'a" where
  "outer s = (kernelPageDir s, paging.more s)"

named_theorems outer_intros \<open>operations that keep the outer fields\<close>

lemma outer_of_heap:
  assumes "heap.more s' = heap.more s"
  shows "outer s' = outer s"
proof -
  have "paging.more s' = paging.more s" "kernelPageDir s' = kernelPageDir s"
    using assms by (cases s; cases s'; simp)+
  then show ?thesis by (simp add: outer_def)
qed

lemma outer_mem [simp]: "outer (s\<lparr>mem := m\<rparr>) = outer s" by (simp add: outer_def)

lemma coalesce_more: "coalesce p h = Some h' \<Longrightarrow> heap.more h' = heap.more h"
  by (auto simp: coalesce_def removeFromFreeList_def Let_def split: if_splits bind_splits)

lemma heap_free_outer [outer_intros]: "heap_free p s = Some s' \<Longrightarrow> outer s' = outer s"
  by (rule outer_of_heap)
     (auto simp: heap_free_def addToFreeList_def Let_def dest!: coalesce_more split: if_splits bind_splits)

lemma heap_alloc_outer [outer_intros]: "heap_alloc n s = Some (p, s') \<Longrightarrow> outer s' = outer s"
  by (rule outer_of_heap)
     (auto simp: heap_alloc_def take_block_def Let_def split: if_splits bind_splits option.splits)

lemma allocFrame_outer [outer_intros]: "allocFrame s = (p, s') \<Longrightarrow> outer s' = outer s"
  by (auto simp: allocFrame_def outer_def Let_def split: if_splits option.splits)

lemma freeFrame_outer [outer_intros]: "freeFrame p s = Inr s' \<Longrightarrow> outer s' = outer s"
  by (auto simp: freeFrame_def outer_def Let_def split: if_splits option.splits)

lemma releaseFrame_outer [outer_intros]: "releaseFrame p s = Inr s' \<Longrightarrow> outer s' = outer s"
  by (auto simp: releaseFrame_def removeRef_def freeFrameFast_def outer_def Let_def split: if_splits option.splits)

lemma addRef_outer [simp]: "outer (addRef p s) = outer s"
  by (auto simp: addRef_def outer_def split: option.splits)

lemma set_entry_outer [simp]: "outer (set_entry d i w s) = outer s"
  by (simp add: set_entry_def outer_def)

lemma foldE_outer:
  assumes "\<And>x s s'. f x s = Inr s' \<Longrightarrow> outer s' = outer s" "foldE f xs s = Inr s'"
  shows "outer s' = outer s"
  using assms(2)
proof (induction xs arbitrary: s)
  case Nil
  then show ?case by simp
next
  case (Cons x xs)
  then obtain s1 where "f x s = Inr s1" "foldE f xs s1 = Inr s'" by (auto split: sum.splits)
  with Cons.IH assms(1) show ?case by metis
qed

lemma ensurePageTable_outer [outer_intros]: "ensurePageTable d i fl s = (ok, s') \<Longrightarrow> outer s' = outer s"
  by (auto simp: ensurePageTable_def Let_def dest: allocFrame_outer split: if_splits prod.splits)

lemma tryFreePageTable_outer [outer_intros]: "tryFreePageTable d i s = Inr s' \<Longrightarrow> outer s' = outer s"
  by (auto simp: tryFreePageTable_def Let_def dest: freeFrame_outer split: if_splits)

lemma write_pte_outer [outer_intros]: "write_pte pt v ph fl d s = Inr s' \<Longrightarrow> outer s' = outer s"
  by (auto simp: write_pte_def Let_def dest: releaseFrame_outer split: if_splits sum.splits)

lemma mapPage_outer [outer_intros]: "mapPage v ph fl d s = Inr (ok, s') \<Longrightarrow> outer s' = outer s"
  by (auto simp: mapPage_def Let_def dest!: write_pte_outer ensurePageTable_outer
      split: if_splits sum.splits prod.splits option.splits)

lemma unmapPage_outer [outer_intros]: "unmapPage v d s = Inr s' \<Longrightarrow> outer s' = outer s"
  by (auto simp: unmapPage_def Let_def dest!: releaseFrame_outer tryFreePageTable_outer
      split: if_splits sum.splits option.splits)

lemma release_entry_outer [outer_intros]: "release_entry e pt i s = Inr s' \<Longrightarrow> outer s' = outer s"
  by (auto simp: release_entry_def Let_def dest!: releaseFrame_outer split: if_splits)

lemma free_pde_outer [outer_intros]: "free_pde d i s = Inr s' \<Longrightarrow> outer s' = outer s"
  by (auto simp: free_pde_def Let_def dest!: freeFrame_outer foldE_outer [rotated] intro: release_entry_outer
      split: if_splits sum.splits)

lemma freePageDirectory_outer [outer_intros]: "freePageDirectory d s = Inr s' \<Longrightarrow> outer s' = outer s"
  unfolding freePageDirectory_def by (erule foldE_outer [rotated]) (rule free_pde_outer)

lemma removeRef_outer [outer_intros]: "removeRef p s = Inr (b, s') \<Longrightarrow> outer s' = outer s"
  by (auto simp: removeRef_def outer_def Let_def split: if_splits option.splits)

lemma rollback_entry_outer [outer_intros]: "rollback_entry pt k s = Inr s' \<Longrightarrow> outer s' = outer s"
  by (auto simp: rollback_entry_def Let_def dest!: removeRef_outer split: if_splits sum.splits)

lemma rollback_table_outer [outer_intros]: "rollback_table d j s = Inr s' \<Longrightarrow> outer s' = outer s"
  by (auto simp: rollback_table_def Let_def dest!: freeFrame_outer foldE_outer [rotated] intro: rollback_entry_outer
      split: if_splits sum.splits)

lemma clone_rollback_outer [outer_intros]: "clone_rollback d u s = Inr s' \<Longrightarrow> outer s' = outer s"
  by (auto simp: clone_rollback_def dest!: freeFrame_outer foldE_outer [rotated] intro: rollback_table_outer
      split: sum.splits)

lemma share_entry_outer [outer_intros]: "share_entry pt j s = Inr s' \<Longrightarrow> outer s' = outer s"
  by (auto simp: share_entry_def Let_def split: if_splits)

lemma fold_outer: "(\<And>x s. outer (f x s) = outer s) \<Longrightarrow> outer (fold f xs s) = outer s"
  by (induction xs arbitrary: s) simp_all

lemma cow_entry_outer [simp]: "outer (cow_entry pt j s) = outer s"
  by (simp add: cow_entry_def Let_def)

lemma protect_pte_outer [simp]: "outer (protect_pte pt j s) = outer s"
  by (simp add: protect_pte_def Let_def)

lemma clone_pde_outer [outer_intros]: "clone_pde n d i s = Inr (ok, s') \<Longrightarrow> outer s' = outer s"
  by (auto simp: clone_pde_def Let_def fold_outer
      dest!: clone_rollback_outer allocFrame_outer foldE_outer [rotated] intro: share_entry_outer
      split: if_splits sum.splits prod.splits)

lemma clone_loop_outer: "clone_loop n d is s = Inr (r, s') \<Longrightarrow> outer s' = outer s"
  by (induction "is" arbitrary: s) (auto dest!: clone_pde_outer split: if_splits sum.splits prod.splits)

lemma clonePageDir_outer [outer_intros]: "clonePageDir d s = Inr (r, s') \<Longrightarrow> outer s' = outer s"
  by (auto simp: clonePageDir_def Let_def dest!: clone_loop_outer allocFrame_outer split: if_splits prod.splits)

lemma protect_pde_outer [outer_intros]: "protect_pde d i s = Inr s' \<Longrightarrow> outer s' = outer s"
  by (auto simp: protect_pde_def Let_def fold_outer split: if_splits)

lemma clearPageTable_outer [outer_intros]: "clearPageTable v d s = Inr s' \<Longrightarrow> outer s' = outer s"
  by (auto simp: clearPageTable_def Let_def dest!: freeFrame_outer allocFrame_outer foldE_outer [rotated] intro: release_entry_outer
      split: if_splits sum.splits prod.splits)

lemma page_frame_outer [outer_intros]: "page_frame v ms d s = Inr (r, s') \<Longrightarrow> outer s' = outer s"
  by (auto simp: page_frame_def Let_def dest!: freeFrame_outer allocFrame_outer mapPage_outer
      split: if_splits sum.splits prod.splits option.splits bool.splits)

lemma map_pages_outer: "map_pages e ph d vs ms s = Inr (r, s') \<Longrightarrow> outer s' = outer s"
proof (induction vs arbitrary: ms s)
  case Nil
  then show ?case by simp
next
  case (Cons v vs)
  then show ?case by (auto dest!: page_frame_outer split: if_splits sum.splits prod.splits option.splits)
qed

lemma rollbackMapped_outer [outer_intros]: "rollbackMapped ms s = Inr s' \<Longrightarrow> outer s' = outer s"
  unfolding rollbackMapped_def by (erule foldE_outer [rotated]) (rule unmapPage_outer)

lemma load_segments_outer: "load_segments e as ms d s = Inr (r, s') \<Longrightarrow> outer s' = outer s"
proof (induction "as" arbitrary: ms s)
  case Nil
  then show ?case by simp
next
  case (Cons a as)
  from Cons.prems show ?case
    by (auto simp: Let_def mapSegmentRange_def dest!: rollbackMapped_outer map_pages_outer Cons.IH
        split: if_splits sum.splits prod.splits bool.splits)
qed

lemma elf_load_outer [outer_intros]: "elf_load e n d s = Inr (r, s') \<Longrightarrow> outer s' = outer s"
  by (auto simp: elf_load_def Let_def dest!: load_segments_outer clearPageTable_outer
      split: if_splits sum.splits prod.splits option.splits)

text \<open>Equal outer fields: the scheduler's and all above.\<close>

lemma outer_eq:
  assumes "outer s' = outer s"
  shows "s' = s\<lparr>mem := mem s', freeList := freeList s', heapStart := heapStart s', heapEnd := heapEnd s', ready := ready s', frameList := frameList s', freeCount := freeCount s', allocCount := allocCount s', highWaterFrames := highWaterFrames s', freeTotalCount := freeTotalCount s', modStart := modStart s', modSize := modSize s', modCount := modCount s', refCounts := refCounts s', maxFrameIdx := maxFrameIdx s', pageFaults := pageFaults s', cowFaults := cowFaults s', userPageFaults := userPageFaults s'\<rparr>"
  using assms by (intro paging.equality) (simp_all add: outer_def)

lemma outer_sched:
  assumes "outer s' = outer s"
  shows "tasks s' = tasks s" "taskCount s' = taskCount s" "currentIdx s' = currentIdx s" "sleepQueue s' = sleepQueue s"
    "uptimeMs s' = uptimeMs s" "quantumStartMs s' = quantumStartMs s" "initialized s' = initialized s"
    "kernelPageDirPhys s' = kernelPageDirPhys s" "fpuOwner s' = fpuOwner s" "nextPid s' = nextPid s" "fpuRegs s' = fpuRegs s"
    "totalExited s' = totalExited s" "pitDeadlineMs s' = pitDeadlineMs s" "lastTickMs s' = lastTickMs s"
proof -
  obtain a1 a2 a3 a4 a5 a6 a7 a8 a9 a10 a11 a12 a13 a14 a15 a16 a17 a18 where
    e: "s' = s\<lparr>mem := a1, freeList := a2, heapStart := a3, heapEnd := a4, ready := a5, frameList := a6, freeCount := a7,
      allocCount := a8, highWaterFrames := a9, freeTotalCount := a10, modStart := a11, modSize := a12, modCount := a13,
      refCounts := a14, maxFrameIdx := a15, pageFaults := a16, cowFaults := a17, userPageFaults := a18\<rparr>"
    by (rule that) (rule outer_eq [OF assms])
  show "tasks s' = tasks s" "taskCount s' = taskCount s" "currentIdx s' = currentIdx s" "sleepQueue s' = sleepQueue s"
    "uptimeMs s' = uptimeMs s" "quantumStartMs s' = quantumStartMs s" "initialized s' = initialized s"
    "kernelPageDirPhys s' = kernelPageDirPhys s" "fpuOwner s' = fpuOwner s" "nextPid s' = nextPid s" "fpuRegs s' = fpuRegs s"
    "totalExited s' = totalExited s" "pitDeadlineMs s' = pitDeadlineMs s" "lastTickMs s' = lastTickMs s"
    unfolding e uptimeMs_def kernelPageDirPhys_def by simp_all
qed

lemma outer_ok: "outer s' = outer s \<Longrightarrow> sched_ok s \<Longrightarrow> sched_ok s'"
  using outer_sched(1-4) [of s' s] by (simp add: sched_ok_def)

section \<open>Returning results\<close>

text \<open>Every value returned satisfies a predicate.\<close>

definition kall :: "('a \<Rightarrow> bool) \<Rightarrow> 'a kres \<Rightarrow> bool" where
  "kall P m \<longleftrightarrow> (\<forall>x. m = kret x \<longrightarrow> P x)"

lemma kall_ret [simp]: "kall P (kret x) = P x" "kall P (kpanic e)" "kall P None"
  by (auto simp: kall_def kret_def kpanic_def)

lemma kall_bind:
  assumes "\<And>x. m = kret x \<Longrightarrow> kall P (f x)"
  shows "kall P (kbind m f)"
  using assms by (auto simp: kall_def kbind_def kret_def split: option.splits sum.splits)

lemma kall_some: "kall P (Some r) \<longleftrightarrow> (\<forall>x. r = Inr x \<longrightarrow> P x)"
  by (auto simp: kall_def kret_def)

lemma kall_of_opt: "kall P (of_opt m) \<longleftrightarrow> (\<forall>x. m = Some x \<longrightarrow> P x)"
  by (auto simp: kall_def of_opt_def kret_def split: option.splits)

lemma some_kret [simp]: "Some r = kret x \<longleftrightarrow> r = Inr x" "of_opt m = kret x \<longleftrightarrow> m = Some x"
  by (auto simp: kret_def of_opt_def split: option.splits)

section \<open>The shape of the task table\<close>

text \<open>The part of the state the scheduler invariant reads.\<close>

definition sched_shape :: "'a sched_scheme \<Rightarrow> int \<times> int \<times> (u64 \<times> int) list \<times> (TaskState \<times> u64) list" where
  "sched_shape s = (taskCount s, currentIdx s, sleepQueue s, map (\<lambda>t. (tstate t, wakeupMs t)) (tasks s))"

lemma shape_nth:
  assumes "sched_shape s' = sched_shape s"
  shows "taskCount s' = taskCount s" "currentIdx s' = currentIdx s" "sleepQueue s' = sleepQueue s"
    "length (tasks s') = length (tasks s)"
    "k < length (tasks s) \<Longrightarrow> tstate (tasks s' ! k) = tstate (tasks s ! k)"
    "k < length (tasks s) \<Longrightarrow> wakeupMs (tasks s' ! k) = wakeupMs (tasks s ! k)"
proof -
  have m: "map (\<lambda>t. (tstate t, wakeupMs t)) (tasks s') = map (\<lambda>t. (tstate t, wakeupMs t)) (tasks s)"
    using assms by (simp add: sched_shape_def)
  show "taskCount s' = taskCount s" "currentIdx s' = currentIdx s" "sleepQueue s' = sleepQueue s"
    using assms by (simp_all add: sched_shape_def)
  show l: "length (tasks s') = length (tasks s)" using map_eq_imp_length_eq [OF m] .
  assume k: "k < length (tasks s)"
  have "map (\<lambda>t. (tstate t, wakeupMs t)) (tasks s') ! k = map (\<lambda>t. (tstate t, wakeupMs t)) (tasks s) ! k"
    by (simp only: m)
  then have "(tstate (tasks s' ! k), wakeupMs (tasks s' ! k)) = (tstate (tasks s ! k), wakeupMs (tasks s ! k))"
    using k l by simp
  then show "tstate (tasks s' ! k) = tstate (tasks s ! k)" "wakeupMs (tasks s' ! k) = wakeupMs (tasks s ! k)" by simp_all
qed

lemma shape_ok:
  assumes "sched_shape s' = sched_shape s" "sched_ok s"
  shows "sched_ok s'"
proof -
  note n = shape_nth [OF assms(1)]
  have t: "table_ok (tasks s) (taskCount s) (currentIdx s) (sleepQueue s)" using assms(2) by (simp add: sched_ok_def)
  have l: "length (tasks s) = MAX_TASKS" using t by (simp add: table_ok_def)
  have "sleep_ok (tasks s') (taskCount s) (sleepQueue s)"
    unfolding sleep_ok_def
  proof (intro conjI ballI)
    show "sorted (map fst (sleepQueue s))" "distinct (map snd (sleepQueue s))" using t by (simp_all add: table_ok_def sleep_ok_def)
    fix e assume "e \<in> set (sleepQueue s)"
    with t have e: "0 \<le> snd e" "snd e < taskCount s" "tstate (tasks s ! nat (snd e)) = BLOCKED"
        "wakeupMs (tasks s ! nat (snd e)) = fst e" by (simp_all add: table_ok_def sleep_ok_def)
    have "nat (snd e) < length (tasks s)" using e sched_okD [OF assms(2)] by linarith
    with e n show "0 \<le> snd e" "snd e < taskCount s" "tstate (tasks s' ! nat (snd e)) = BLOCKED"
        "wakeupMs (tasks s' ! nat (snd e)) = fst e" by simp_all
  qed
  then show ?thesis using t n l unfolding sched_ok_def table_ok_def by simp
qed

lemma shape_outer: "outer s' = outer s \<Longrightarrow> sched_shape s' = sched_shape s"
  using outer_sched(1-4) [of s' s] by (simp add: sched_shape_def)

lemma shape_upd [simp]:
  assumes "\<And>t. tstate (f t) = tstate t" "\<And>t. wakeupMs (f t) = wakeupMs t"
  shows "sched_shape (upd_task i f s) = sched_shape s"
  using assms by (simp add: sched_shape_def map_update) (metis (no_types, lifting) list_update_id map_update)

lemma shape_fields [simp]:
  "sched_shape (s\<lparr>nextPid := p\<rparr>) = sched_shape s" "sched_shape (s\<lparr>mem := m\<rparr>) = sched_shape s"
  "sched_shape (s\<lparr>totalExited := k\<rparr>) = sched_shape s" "sched_shape (s\<lparr>fpuOwner := k\<rparr>) = sched_shape s"
  "sched_shape (s\<lparr>fpuRegs := r\<rparr>) = sched_shape s" "sched_shape (s\<lparr>crTS := b\<rparr>) = sched_shape s"
  "sched_shape (s\<lparr>idleTicks := k\<rparr>) = sched_shape s" "sched_shape (s\<lparr>lastTickMs := w\<rparr>) = sched_shape s"
  "sched_shape (s\<lparr>quantumStartMs := w\<rparr>) = sched_shape s" "sched_shape (s\<lparr>tssEsp0 := e\<rparr>) = sched_shape s"
  by (simp_all add: sched_shape_def)

lemma shape_tss [simp]: "sched_shape (p\<lparr>tssSs0 := e\<rparr>) = sched_shape p"
  by (simp add: sched_shape_def)

lemma shape_pit [simp]:
  "sched_shape (programForMs ms s) = sched_shape s" "sched_shape (programNextTick s) = sched_shape s"
  by (simp_all add: sched_shape_def)

lemma shape_set_frame [simp]: "sched_shape (set_frame a ws s) = sched_shape s"
  by (simp add: set_frame_def)

lemma shape_initProcessFields [simp]: "sched_shape (initProcessFields i s) = sched_shape s"
  by (simp add: initProcessFields_def Let_def)

lemma shape_reparent [simp]: "sched_shape (reparentChildren p s) = sched_shape s"
proof -
  have "map (\<lambda>t. (tstate t, wakeupMs t)) (tasks (reparentChildren p s))
      = map (\<lambda>t. (tstate t, wakeupMs t)) (take (nat (taskCount s)) (tasks s) @ drop (nat (taskCount s)) (tasks s))"
    unfolding reparentChildren_def map_append by (simp add: comp_def)
  then show ?thesis by (simp only: append_take_drop_id sched_shape_def) (simp add: reparentChildren_def)
qed

lemma shape_mark [simp]: "sched_shape (s\<lparr>tasks := mark_waiters cs w n (tasks s)\<rparr>) = sched_shape s"
proof -
  have "map (\<lambda>t. (tstate t, wakeupMs t)) (mark_waiters cs w n ts)
      = map (\<lambda>t. (tstate t, wakeupMs t)) (take n ts @ drop n ts)" for ts
    unfolding mark_waiters_def map_append by (simp add: comp_def)
  then show ?thesis by (simp add: sched_shape_def)
qed

section \<open>Results that keep the shape\<close>

lemma kbind_kret: "kbind m f = kret y \<longleftrightarrow> (\<exists>x. m = kret x \<and> f x = kret y)"
  by (auto simp: kbind_def kret_def split: option.splits sum.splits)

lemma allocAndMapUserPage_shape: "allocAndMapUserPage v d s = kret (r, s') \<Longrightarrow> outer s' = outer s"
  by (auto simp: allocAndMapUserPage_def Let_def kbind_kret dest!: allocFrame_outer mapPage_outer freeFrame_outer
      split: if_splits prod.splits)

lemma map_stack_loop_shape: "map_stack_loop is t d s = kret (ok, s') \<Longrightarrow> sched_shape s' = sched_shape s"
proof (induction "is" arbitrary: s)
  case Nil
  then show ?case by simp
next
  case (Cons i "is")
  then obtain r s1 where a: "allocAndMapUserPage (USER_STACK_VADDR - i * PAGE_SIZE) d s = kret (r, s1)"
    by (auto simp: kbind_kret Let_def)
  have "sched_shape s1 = sched_shape s" by (rule shape_outer) (rule allocAndMapUserPage_shape [OF a])
  with a Cons show ?case by (cases r) (auto simp: Let_def)
qed

lemma mapUserStackPages_shape: "mapUserStackPages t d s = kret (ok, s') \<Longrightarrow> sched_shape s' = sched_shape s"
  by (auto simp: mapUserStackPages_def kbind_kret dest!: map_stack_loop_shape split: if_splits)

lemma freePageArray_shape: "freePageArray n vs d s = kret s' \<Longrightarrow> outer s' = outer s"
  unfolding freePageArray_def by (auto dest!: foldE_outer [rotated] intro: unmapPage_outer)

lemma allocKernelStack_outer: "allocKernelStack s = Some (k, s') \<Longrightarrow> outer s' = outer s"
  by (auto simp: allocKernelStack_def dest!: heap_alloc_outer split: option.splits if_splits)


section \<open>Every operation keeps the invariant\<close>

text \<open>A free slot: DEAD and in use.\<close>

definition slot_free :: "'a sched_scheme \<Rightarrow> int \<Rightarrow> bool" where
  "slot_free s i \<longleftrightarrow> sched_ok s \<and> 0 \<le> i \<and> i < taskCount s \<and> tstate (task_at i s) = DEAD"

lemma slot_free_shape:
  assumes "slot_free s i" "sched_shape s' = sched_shape s"
  shows "slot_free s' i"
proof -
  have "nat i < length (tasks s)" using assms(1) sched_okD [of s] by (auto simp: slot_free_def)
  then show ?thesis
    using assms shape_ok [OF assms(2)] shape_nth [OF assms(2)] by (simp add: slot_free_def task_at_def)
qed

lemma slot_free_upd:
  assumes "slot_free s i" "tstate (f (task_at i s)) = DEAD"
  shows "slot_free (upd_task i f s) i"
proof -
  have n: "nat i < length (tasks s)" using assms(1) sched_okD [of s] by (auto simp: slot_free_def)
  have "i \<notin> snd ` set (sleepQueue s)"
    using not_queued [of "tasks s" "taskCount s" "currentIdx s" "sleepQueue s" "nat i"] assms(1)
    by (auto simp: slot_free_def sched_ok_def task_at_def)
  then have "sched_ok (upd_task i f s)" using assms by (intro sched_ok_upd) (auto simp: slot_free_def)
  then show ?thesis using assms n by (simp add: slot_free_def task_at_def)
qed

text \<open>Making a free slot runnable.\<close>

lemma slot_free_ready:
  assumes "slot_free s i" "tstate (f (task_at i s)) \<noteq> RUNNING"
  shows "sched_ok (upd_task i f s)"
proof -
  have "i \<notin> snd ` set (sleepQueue s)"
    using not_queued [of "tasks s" "taskCount s" "currentIdx s" "sleepQueue s" "nat i"] assms(1)
    by (auto simp: slot_free_def sched_ok_def task_at_def)
  then show ?thesis using assms by (intro sched_ok_upd) (auto simp: slot_free_def)
qed

lemma findSlot_free:
  assumes "sched_ok s" "findSlot s = (r, s1)"
  shows "sched_ok s1" "r = Some i \<Longrightarrow> slot_free s1 i" "currentIdx s1 = currentIdx s" "tasks s1 = tasks s"
    "r = None \<Longrightarrow> s1 = s"
proof -
  have t: "table_ok (tasks s) (taskCount s) (currentIdx s) (sleepQueue s)" using assms(1) by (simp add: sched_ok_def)
  consider (old) k where "s1 = s" "r = Some (int k)" "k < nat (taskCount s)" "tstate (tasks s ! k) = DEAD"
    | (new) "s1 = s\<lparr>taskCount := taskCount s + 1\<rparr>" "r = Some (taskCount s)" "taskCount s < int MAX_TASKS"
    | (full) "s1 = s" "r = None"
  proof (cases "find (\<lambda>i. tstate (tasks s ! i) = DEAD) [0..<nat (taskCount s)]")
    case (Some k)
    then have "k < nat (taskCount s)" "tstate (tasks s ! k) = DEAD" by (auto simp: find_Some_iff)
    with Some assms(2) show ?thesis using old [of k] by (simp add: findSlot_def)
  next
    case None
    show ?thesis
    proof (cases "taskCount s \<ge> int MAX_TASKS")
      case True
      with None assms(2) show ?thesis using full by (simp add: findSlot_def)
    next
      case False
      with None assms(2) show ?thesis using new by (simp add: findSlot_def)
    qed
  qed
  then have "sched_ok s1 \<and> (\<forall>i. r = Some i \<longrightarrow> slot_free s1 i) \<and> currentIdx s1 = currentIdx s \<and> tasks s1 = tasks s
      \<and> (r = None \<longrightarrow> s1 = s)"
  proof cases
    case (old k)
    then show ?thesis using assms(1) by (simp add: slot_free_def task_at_def)
  next
    case new
    have so: "sleep_ok (tasks s) (taskCount s + 1) (sleepQueue s)"
      using t by (auto simp: table_ok_def sleep_ok_def)
    have d: "tstate (tasks s ! nat (taskCount s)) = DEAD"
    proof -
      have "nat (taskCount s) < MAX_TASKS" "taskCount s \<le> int (nat (taskCount s))" using new(3) sched_okD [OF assms(1)] by simp_all
      with t show ?thesis unfolding table_ok_def by blast
    qed
    have "sched_ok s1" using t so new unfolding sched_ok_def table_ok_def by simp
    then show ?thesis using new d sched_okD [OF assms(1)] by (simp add: slot_free_def task_at_def)
  next
    case full
    then show ?thesis using assms(1) by simp
  qed
  then show "sched_ok s1" "r = Some i \<Longrightarrow> slot_free s1 i" "currentIdx s1 = currentIdx s" "tasks s1 = tasks s" "r = None \<Longrightarrow> s1 = s" by auto
qed

lemma clear_slot_free: "clear_slot i s = kret s' \<Longrightarrow> slot_free s i \<Longrightarrow> slot_free s' i"
  by (auto simp: clear_slot_def kbind_kret Let_def empty_task_def
      intro!: slot_free_upd dest!: heap_free_outer [THEN shape_outer] elim: slot_free_shape split: if_splits)

lemma finish_user_task_ok: "finish_user_task i nm k e s = kret s' \<Longrightarrow> slot_free s i \<Longrightarrow> sched_ok s'"
proof -
  assume f: "finish_user_task i nm k e s = kret s'" and sf: "slot_free s i"
  obtain e1 s1 where u: "initUserStackFrame k e (word_of_nat (USER_STACK_VADDR + PAGE_SIZE)) s = (e1, s1)"
    by (metis surj_pair)
  then have "sched_shape s1 = sched_shape s" by (auto simp: initUserStackFrame_def Let_def)
  from slot_free_shape [OF sf this] have sf1: "slot_free s1 i" .
  let ?s2 = "upd_task i (\<lambda>t. t\<lparr>esp := e1, tentry := 0, tstate := READY, tid := word_of_int i\<rparr>) s1"
  have ok2: "sched_ok ?s2" by (rule slot_free_ready [OF sf1]) simp
  have "sched_shape s' = sched_shape ?s2"
    using f u by (auto simp: finish_user_task_def Let_def split: if_splits)
  then show ?thesis using ok2 by (rule shape_ok)
qed

lemma release_stack_shape: "release_stack i s = Some s' \<Longrightarrow> sched_shape s' = sched_shape s"
  by (auto simp: release_stack_def dest!: heap_free_outer [THEN shape_outer] split: if_splits)

lemma fill_slot_ok:
  assumes "slot_free s i" "fill_slot w n e d p i s = Some (r, s')"
  shows "sched_ok s'"
proof -
  define s3 where "s3 = upd_task i (\<lambda>t. t\<lparr>tflags := 0, priority := p, wakeupMs := 0, runtimeMs := 0,
                                          onKill := 0, pageDir := d\<rparr>) s"
  have sf3: "slot_free s3 i" unfolding s3_def using assms(1) by (intro slot_free_upd) (simp_all add: slot_free_def)
  obtain k s4 where s4: "allocKernelStack s3 = Some (k, s4)"
    using assms(2) unfolding fill_slot_def Let_def s3_def [symmetric] by (auto split: option.splits)
  have sf4: "slot_free s4 i" by (rule slot_free_shape [OF sf3]) (rule shape_outer, rule allocKernelStack_outer [OF s4])
  obtain e1 s5 where s5: "initStackFrame k w s4 = (e1, s5)" by (metis surj_pair)
  have sf5: "slot_free s5 i" by (rule slot_free_shape [OF sf4]) (use s5 in \<open>auto simp: initStackFrame_def Let_def\<close>)
  let ?s6 = "upd_task i (\<lambda>t. t\<lparr>esp := e1, tentry := e, tstate := READY, tid := word_of_int i\<rparr>) s5"
  have ok6: "sched_ok ?s6" by (rule slot_free_ready [OF sf5]) simp
  have "s' = s4 \<or> sched_shape s' = sched_shape ?s6"
    using assms(2) s4 s5 unfolding fill_slot_def Let_def s3_def [symmetric] by (auto split: if_splits)
  then show ?thesis using shape_ok [OF _ ok6] sf4 by (auto simp: slot_free_def)
qed

lemma addTaskImpl_ok:
  assumes "sched_ok s" "addTaskImpl w nm e d p s = Some (r, s')"
  shows "sched_ok s'"
proof -
  obtain r1 s1 where fs: "findSlot s = (r1, s1)" by (metis surj_pair)
  note fr = findSlot_free [OF assms(1) fs]
  consider "s' = s" | "s' = s1"
    | i s2 n where "r1 = Some i" "release_stack i s1 = Some s2" "fill_slot w n e d p i s2 = Some (r, s')"
    using assms(2) fs by (auto simp: addTaskImpl_def split: option.splits)
  then show ?thesis
  proof cases
    case (3 i s2 n)
    have "slot_free s2 i" by (rule slot_free_shape [OF fr(2) [OF 3(1)]]) (rule release_stack_shape [OF 3(2)])
    then show ?thesis using 3(3) by (rule fill_slot_ok)
  qed (use assms(1) fr in auto)
qed

text \<open>Kill handlers and the deletion of a history array leave the task table alone.\<close>

definition env_ok :: "'a proc_scheme env \<Rightarrow> bool" where
  "env_ok ev \<longleftrightarrow> (\<forall>a s. sched_shape (runOnKill ev a s) = sched_shape s)
     \<and> (\<forall>a s. sched_shape (deleteHistory ev a s) = sched_shape s)"

lemma shape_remove:
  "sched_shape s' = sched_shape s \<Longrightarrow> sched_shape (removeFromSleepQueue i s') = sched_shape (removeFromSleepQueue i s)"
  by (simp add: sched_shape_def removeFromSleepQueue_def)

lemma switchTo_ok: "sched_ok s \<Longrightarrow> switchTo n s = kret (e, s') \<Longrightarrow> sched_ok s'"
  using switchTo_spec [of s n] by (auto split: if_splits)

lemma unblockTask_ok: "sched_ok s \<Longrightarrow> sched_ok (unblockTask i s)"
  using unblockTask_spec by blast

text \<open>A task that dies leaves the sleep queue.\<close>

lemma bury_ok:
  assumes "sched_ok s" "0 \<le> i" "i < taskCount s"
  shows "sched_ok (bury i f s)"
proof -
  let ?g = "\<lambda>t. (f t)\<lparr>tstate := DEAD\<rparr>"
  have "sched_ok (removeFromSleepQueue i (upd_task i ?g s))" using assms by (intro sched_ok_dequeue) simp_all
  moreover have "sched_shape (bury i f s) = sched_shape (removeFromSleepQueue i (upd_task i ?g s))"
    unfolding bury_def Let_def shape_reparent by (rule shape_remove) simp
  ultimately show ?thesis by (rule shape_ok [rotated])
qed

lemma free_history_shape: "env_ok ev \<Longrightarrow> sched_shape (free_history ev i s) = sched_shape s"
  by (simp add: free_history_def env_ok_def)

lemma free_kernel_stack_shape: "free_kernel_stack i s = kret s' \<Longrightarrow> sched_shape s' = sched_shape s"
  by (auto simp: free_kernel_stack_def kbind_kret dest!: heap_free_outer [THEN shape_outer] split: if_splits)

lemma free_address_space_shape: "free_address_space i s = kret s' \<Longrightarrow> sched_shape s' = sched_shape s"
  by (auto simp: free_address_space_def kbind_kret
      dest!: freePageDirectory_outer [THEN shape_outer] freeFrame_outer [THEN shape_outer] split: if_splits)

lemma free_code_page_shape: "free_code_page i s = kret s' \<Longrightarrow> sched_shape s' = sched_shape s"
  by (auto simp: free_code_page_def kbind_kret dest!: unmapPage_outer [THEN shape_outer] split: if_splits)

lemma exitCurrentTask_ok:
  assumes "env_ok ev" "sched_ok s" "exitCurrentTask ev code s = kret (e, s')"
  shows "sched_ok s'"
proof -
  let ?c = "currentIdx s"
  note b = sched_okD [OF assms(2)]
  define s1 where "s1 = (if onKill (task_at ?c s) \<noteq> 0 then runOnKill ev (onKill (task_at ?c s)) s else s)"
  define s2 where "s2 = free_history ev ?c (bury ?c (\<lambda>t. t\<lparr>exitCode := code\<rparr>) s1)"
  define t where "t = task_at ?c s2"
  define s3 where "s3 = upd_task ?c (\<lambda>t. t\<lparr>pageDir := 0, userStackPageCount := 0, userCodeBuf := 0, elfPageCount := 0,
                                       unblockOnExit := - 1\<rparr>) s2"
  have h1: "sched_shape s1 = sched_shape s" using assms(1) by (simp add: s1_def env_ok_def)
  have okb: "sched_ok (bury ?c (\<lambda>t. t\<lparr>exitCode := code\<rparr>) s1)"
    using shape_ok [OF h1 assms(2)] shape_nth(1) [OF h1] b by (intro bury_ok) simp_all
  have "sched_shape s3 = sched_shape (bury ?c (\<lambda>t. t\<lparr>exitCode := code\<rparr>) s1)"
    using assms(1) by (simp add: s3_def s2_def free_history_shape)
  then have ok3: "sched_ok s3" using okb by (rule shape_ok)
  obtain n e' s4 s5 s6 where k: "switchTo n s3 = kret (e', s4)"
      "(if pageDir t \<noteq> 0 then kbind (Some (freePageDirectory (pageDir t) s4)) (\<lambda>s'. Some (freeFrame (pageDir t) s')) else kret s4) = kret s5"
      "(if userCodeBuf t \<noteq> 0 then Some (unmapPage USER_BASE (kernelPageDirPhys s5) s5) else kret s5) = kret s6"
      "s' = (if unblockOnExit t \<noteq> - 1 then unblockTask (unblockOnExit t) s6 else s6)"
    using assms(3) b(5) unfolding exitCurrentTask_def Let_def s1_def [symmetric] s2_def [symmetric] t_def [symmetric] s3_def [symmetric]
    by (auto simp: kbind_kret split: option.splits)
  have "outer s5 = outer s4"
    using k(2) by (auto simp: kbind_kret dest!: freePageDirectory_outer freeFrame_outer split: if_splits)
  moreover have "outer s6 = outer s5" using k(3) by (auto dest!: unmapPage_outer split: if_splits)
  ultimately have "sched_ok s6" using outer_ok [of s6 s4] switchTo_ok [OF ok3 k(1)] by simp
  then show ?thesis using k(4) unblockTask_ok by auto
qed

lemma unblock_count [simp]: "taskCount (unblockTask i s) = taskCount s" "currentIdx (unblockTask i s) = currentIdx s"
  by (simp_all add: unblockTask_def Let_def)

lemma killTask_ok:
  assumes "env_ok ev" "sched_ok s" "killTask ev i s = kret s'"
  shows "sched_ok s'"
proof (cases "i < 0 \<or> i \<ge> taskCount s \<or> i = currentIdx s \<or> tstate (task_at i s) = DEAD")
  case True
  then have "killTask ev i s = kret s"
    unfolding killTask_def by (cases "i < 0 \<or> i \<ge> taskCount s"; cases "i = currentIdx s"; cases "tstate (task_at i s) = DEAD"; simp only: if_True if_False simp_thms)
  then show ?thesis using assms by simp
next
  case False
  define s1 where "s1 = (if onKill (task_at i s) \<noteq> 0 then runOnKill ev (onKill (task_at i s)) s else s)"
  define s2 where "s2 = upd_task i (\<lambda>t. t\<lparr>unblockOnExit := - 1\<rparr>) s1"
  define u where "u = unblockOnExit (task_at i s1) mod 256"
  define s3 where "s3 = (if u \<noteq> - 1 then unblockTask u s2 else s2)"
  define s4 where "s4 = bury i (\<lambda>t. t) s3"
  have h2: "sched_shape s2 = sched_shape s" using assms(1) by (simp add: s1_def s2_def env_ok_def)
  have "sched_ok s3" using shape_ok [OF h2 assms(2)] by (simp add: s3_def unblockTask_ok)
  then have ok4: "sched_ok s4" unfolding s4_def
    using False shape_nth(1) [OF h2] by (intro bury_ok) (simp_all add: s3_def)
  obtain s5 s6 s7 where k: "free_kernel_stack i s4 = kret s5" "free_address_space i s5 = kret s6" "free_code_page i s6 = kret s7"
      "s' = upd_task i (\<lambda>t. t\<lparr>stackSize := 0\<rparr>) (free_history ev i (upd_task i (\<lambda>t. t\<lparr>userStackPageCount := 0, elfPageCount := 0\<rparr>) s7))"
    using assms(3) False unfolding killTask_def Let_def s1_def [symmetric] s2_def [symmetric] u_def [symmetric] s3_def [symmetric]
      s4_def [symmetric] by (auto simp: kbind_kret)
  have "sched_shape s' = sched_shape s4"
    using assms(1) k by (simp add: free_history_shape free_kernel_stack_shape [OF k(1)] free_address_space_shape [OF k(2)] free_code_page_shape [OF k(3)])
  then show ?thesis using ok4 by (rule shape_ok)
qed

lemma block_ok:
  assumes "sched_ok s"
  shows "sched_ok (upd_task (currentIdx s) (\<lambda>t. t\<lparr>tstate := BLOCKED\<rparr>) s)"
  using assms sched_okD [OF assms] by (intro sched_ok_upd) simp_all

lemma addTaskAndBlock_ok:
  assumes "sched_ok s" "addTaskAndBlock w nm e d s = kret (r, s')"
  shows "sched_ok s'"
proof -
  obtain r1 s1 where a: "addTaskImpl w nm e d PRIORITY_NORMAL s = Some (r1, s1)"
    using assms(2) by (auto simp: addTaskAndBlock_def kbind_kret)
  have ok1: "sched_ok s1" using addTaskImpl_ok [OF assms(1) a] .
  have "s' = s1 \<or> s' = upd_task (currentIdx s1) (\<lambda>t. t\<lparr>tstate := BLOCKED\<rparr>) s1"
    using assms(2) a by (auto simp: addTaskAndBlock_def split: option.splits if_splits)
  then show ?thesis using ok1 block_ok [OF ok1] by auto
qed

lemma free_stack_shape:
  "(if stackBuf (task_at i s) \<noteq> 0 then heap_free (stackBuf (task_at i s)) s else Some s) = Some s' \<Longrightarrow> sched_shape s' = sched_shape s"
  by (auto dest!: heap_free_outer [THEN shape_outer] split: if_splits)

lemmas outer_shapes = heap_free_outer [THEN shape_outer] allocKernelStack_outer [THEN shape_outer]
  allocAndMapUserPage_shape [THEN shape_outer] clonePageDir_outer [THEN shape_outer] unmapPage_outer [THEN shape_outer]
  elf_load_outer [THEN shape_outer] freeFrame_outer [THEN shape_outer] mapUserStackPages_shape

lemma slot_free_ok: "slot_free s i \<Longrightarrow> sched_ok s"
  by (simp add: slot_free_def)

lemma finish_upd_ok:
  assumes "finish_user_task i nm k e s = kret s'" "slot_free s i" "\<And>t. tstate (g t) = tstate t" "\<And>t. wakeupMs (g t) = wakeupMs t"
  shows "sched_ok (upd_task i g s')"
  using shape_ok [OF shape_upd [of g, OF assms(3,4)] finish_user_task_ok [OF assms(1,2)]] .

lemma addUserElfTask_ok:
  assumes "sched_ok s" "addUserElfTask nm a n s = kret (r, s')"
  shows "sched_ok s'"
proof -
  obtain r1 s1 where fs: "findSlot s = (r1, s1)" by (metis surj_pair)
  note fr = findSlot_free [OF assms(1) fs]
  show ?thesis
  proof (cases r1)
    case None
    then show ?thesis using assms(2) fr fs by (simp add: addUserElfTask_def)
  next
    case (Some i)
    obtain s2 k s3 where c: "clear_slot i s1 = kret s2" "allocKernelStack s2 = Some (k, s3)"
      using assms(2) fs Some by (auto simp: addUserElfTask_def kbind_kret split: prod.splits)
    have sf3: "slot_free s3 i"
      using slot_free_shape [OF clear_slot_free [OF c(1) fr(2) [OF Some]] outer_shapes(2) [OF c(2)]] .
    note sf = slot_free_shape [OF sf3] shape_ok [OF _ slot_free_ok [OF sf3]]
    show ?thesis
      using assms(2) fs Some c
      by (auto simp: addUserElfTask_def kbind_kret Let_def record_elf_pages_def intro: sf(2) intro!: finish_upd_ok sf(1) dest!: outer_shapes
          split: prod.splits if_splits option.splits)
  qed
qed

lemma finish_code_task_ok:
  assumes "finish_code_task ut nm i k ph s = kret (r, s')" "slot_free s i"
  shows "sched_ok s'"
proof -
  let ?s1 = "s\<lparr>mem := write_bytes ph ut (mem s)\<rparr>"
  obtain s2 where f: "finish_user_task i nm k (word_of_nat USER_BASE) ?s1 = kret s2" "s' = upd_task i (\<lambda>t. t\<lparr>userCodeBuf := ph\<rparr>) s2"
    using assms(1) by (auto simp: finish_code_task_def kbind_kret Let_def)
  have "slot_free ?s1 i" by (rule slot_free_shape [OF assms(2)]) simp
  then show ?thesis unfolding f(2) by (rule finish_upd_ok [OF f(1)]) simp_all
qed

lemma addUserTask_ok:
  assumes "sched_ok s" "addUserTask ut nm s = kret (r, s')"
  shows "sched_ok s'"
proof -
  obtain r1 s1 where fs: "findSlot s = (r1, s1)" by (metis surj_pair)
  note fr = findSlot_free [OF assms(1) fs]
  show ?thesis
  proof (cases r1)
    case None
    then show ?thesis using assms(2) fr fs by (simp add: addUserTask_def)
  next
    case (Some i)
    obtain s2 k s3 where c: "clear_slot i s1 = kret s2" "allocKernelStack s2 = Some (k, s3)"
      using assms(2) fs Some by (auto simp: addUserTask_def kbind_kret split: prod.splits)
    have sf2: "slot_free s2 i" using clear_slot_free [OF c(1) fr(2) [OF Some]] .
    note sf = slot_free_shape [OF sf2] shape_ok [OF _ slot_free_ok [OF sf2]]
    show ?thesis
      using assms(2) fs Some c
      by (auto simp: addUserTask_def kbind_kret Let_def intro: sf(2) finish_code_task_ok [OF _ sf(1)] dest!: outer_shapes
          split: prod.splits if_splits option.splits) ((erule finish_code_task_ok, rule sf(1), simp) | simp add: sf)+
  qed
qed

lemma protect_all_shape: "foldE (protect_pde d) is s = Inr s' \<Longrightarrow> sched_shape s' = sched_shape s"
  by (rule shape_outer) (erule foldE_outer [rotated], rule protect_pde_outer)

lemma fork_child_ok:
  assumes "slot_free s i"
  shows "sched_ok (fork_child i k off d s)"
proof -
  define f where "f = (\<lambda>c. c\<lparr>pageDir := d,
                 userStackVaddr := take (userStackPageCount (currentTask s)) (userStackVaddr (currentTask s)) @ drop (userStackPageCount (currentTask s)) (userStackVaddr c),
                 userStackPhys := take (userStackPageCount (currentTask s)) (userStackPhys (currentTask s)) @ drop (userStackPageCount (currentTask s)) (userStackPhys c),
                 userStackPageCount := userStackPageCount (currentTask s), esp := word_of_nat (k + off), tentry := 0,
                 tstate := READY, tid := word_of_int i, pid := nextPid s, ppid := pid (currentTask s), exitCode := 0,
                 children := [], priority := priority (currentTask s), stackBuf := k,
                 stackSize := TASK_STACK_SIZE, tname := ''fork'',
                 fpuState := (if fpuValid (currentTask s) then (if fpuValid (currentTask s) \<and> fpuOwner s = int (unat (tid (currentTask s))) then fpuRegs s else fpuState (currentTask s)) else fpuState c),
                 fpuValid := fpuValid (currentTask s)\<rparr> :: task)"
  have "slot_free (s\<lparr>nextPid := nextPid s + 1\<rparr>) i" by (rule slot_free_shape [OF assms]) simp
  then have "sched_ok (upd_task i f (s\<lparr>nextPid := nextPid s + 1\<rparr>))" by (rule slot_free_ready) (simp add: f_def)
  moreover have "sched_shape (fork_child i k off d s) = sched_shape (upd_task i f (s\<lparr>nextPid := nextPid s + 1\<rparr>))"
    unfolding fork_child_def Let_def f_def by simp
  ultimately show ?thesis by (rule shape_ok [rotated])
qed

lemma sched_fork_ok:
  assumes "sched_ok s" "sched_fork s = kret (r, s')"
  shows "sched_ok s'"
proof -
  obtain r1 s1 where fs: "findSlot s = (r1, s1)" by (metis surj_pair)
  note fr = findSlot_free [OF assms(1) fs]
  show ?thesis
  proof (cases "idx_corrupt s \<or> userStackPageCount (currentTask s) = 0 \<or> syscallFrameEsp s = 0 \<or> r1 = None")
    case True
    then have "s' = s \<or> s' = s1"
      using assms(2) fs unfolding sched_fork_def by (auto split: if_splits)
    then show ?thesis using assms(1) fr by auto
  next
    case False
    then obtain i where i: "r1 = Some i" by auto
    obtain s2 where s2: "(if stackBuf (task_at i s1) \<noteq> 0 then heap_free (stackBuf (task_at i s1)) s1 else Some s1) = Some s2"
      using assms(2) False fs i by (auto simp: sched_fork_def kbind_kret split: if_splits)
    have "slot_free s2 i" using slot_free_shape [OF fr(2) [OF i] free_stack_shape [OF s2]] .
    then have sf3: "slot_free (upd_task i (\<lambda>_. empty_task) s2) i" by (rule slot_free_upd) (simp add: empty_task_def)
    note sf = slot_free_shape [OF sf3] shape_ok [OF _ slot_free_ok [OF sf3]]
    show ?thesis
      using assms(2) False fs i s2
      by (auto simp: sched_fork_def kbind_kret Let_def intro: sf(2) intro!: fork_child_ok sf(1) dest!: outer_shapes protect_all_shape
          split: prod.splits if_splits option.splits)
  qed
qed

lemma exec_release_shape: "exec_release c d s = kret s' \<Longrightarrow> sched_shape s' = sched_shape s"
proof -
  assume e: "exec_release c d s = kret s'"
  let ?u = "\<lambda>s. upd_task c (\<lambda>t. t\<lparr>elfPageCount := 0\<rparr>) s" and ?v = "\<lambda>s. upd_task c (\<lambda>t. t\<lparr>userStackPageCount := 0\<rparr>) s"
  obtain s1 s3 where s1: "freePageArray (elfPageCount (task_at c s)) (elfVaddr (task_at c s)) d s = kret s1"
      and s3: "freePageArray (userStackPageCount (task_at c (?u s1))) (userStackVaddr (task_at c (?u s1))) d (?u s1) = kret s3"
    using e by (auto simp: exec_release_def kbind_kret Let_def)
  have 3: "sched_shape (?v s3) = sched_shape s"
    using freePageArray_shape [THEN shape_outer, OF s1] freePageArray_shape [THEN shape_outer, OF s3] by simp
  show ?thesis
  proof (cases "userCodeBuf (task_at c (?v s3)) \<noteq> 0")
    case True
    then show ?thesis using e s1 s3 3
      by (auto simp: exec_release_def kbind_kret Let_def simp del: shape_upd dest!: outer_shapes) simp
  next
    case False
    then have "s' = ?v s3" using e s1 s3 by (simp add: exec_release_def Let_def)
    with 3 show ?thesis by simp
  qed
qed

lemma quit_ok:
  assumes "env_ok ev" "sched_ok s" "kbind (exitCurrentTask ev code s) (\<lambda>(e, s''). kret (Switched e, s'')) = kret (r, s')"
  shows "sched_ok s'"
  using assms exitCurrentTask_ok by (auto simp: kbind_kret)

lemma exec_load_ok:
  assumes "env_ok ev" "sched_ok s" "exec_load ev c d a n s = kret (r, s')"
  shows "sched_ok s'"
proof -
  obtain ok s1 where m: "mapUserStackPages c d s = kret (ok, s1)"
    using assms(3) by (auto simp: exec_load_def kbind_kret Let_def)
  have ok1: "sched_ok s1" using shape_ok [OF mapUserStackPages_shape [OF m] assms(2)] .
  show ?thesis
  proof (cases ok)
    case False
    then have "kbind (exitCurrentTask ev 1 s1) (\<lambda>(e, s''). kret (Switched e, s'')) = kret (r, s')"
      using assms(3) m by (simp add: exec_load_def)
    then show ?thesis by (rule quit_ok [OF assms(1) ok1])
  next
    case True
    then obtain lo s2 where l: "elf_load a n d s1 = Inr (lo, s2)"
      using assms(3) m by (auto simp: exec_load_def kbind_kret Let_def)
    have ok2: "sched_ok s2" using outer_ok [OF elf_load_outer [OF l] ok1] .
    show ?thesis
    proof (cases lo)
      case (Some lr)
      let ?s3 = "upd_task c (record_elf_pages (lr_pages lr)) s2"
      have rec: "sched_shape ?s3 = sched_shape s2" by (rule shape_upd) (simp_all add: record_elf_pages_def)
      have "sched_shape s' = sched_shape s2"
        using assms(3) m True l Some rec by (auto simp: exec_load_def Let_def)
      then show ?thesis using ok2 by (rule shape_ok)
    next
      case None
      then obtain s3 where f: "freePageArray (userStackPageCount (task_at c s2)) (userStackVaddr (task_at c s2)) d s2 = kret s3"
          "kbind (exitCurrentTask ev 1 (upd_task c (\<lambda>t. t\<lparr>userStackPageCount := 0\<rparr>) s3)) (\<lambda>(e, s''). kret (Switched e, s'')) = kret (r, s')"
        using assms(3) m True l by (auto simp: exec_load_def kbind_kret Let_def)
      have "sched_shape (upd_task c (\<lambda>t. t\<lparr>userStackPageCount := 0\<rparr>) s3) = sched_shape s2"
        using freePageArray_shape [THEN shape_outer, OF f(1)] by simp
      from quit_ok [OF assms(1) shape_ok [OF this ok2] f(2)] show ?thesis .
    qed
  qed
qed

lemma sched_exec_ok:
  assumes "env_ok ev" "sched_ok s" "sched_exec ev m s = kret (r, s')"
  shows "sched_ok s'"
proof -
  let ?s1 = "upd_task (currentIdx s) (\<lambda>t. t\<lparr>fpuValid := False, signalHandlers := replicate SIGNAL_MAX 0,
                                savedSignalEip := 0, savedSignalEflags := 0, savedSignalEsp := 0\<rparr>) s"
  have ok1: "sched_ok ?s1" by (rule shape_ok [OF _ assms(2)]) simp
  consider "s' = s" | "s' = ?s1"
    | d a n s2 where "exec_release (currentIdx s) d ?s1 = kret s2" "exec_load ev (currentIdx s) d a n s2 = kret (r, s')"
    using assms(3) unfolding sched_exec_def Let_def by (auto simp: kbind_kret split: if_splits)
  then show ?thesis
    by cases (use assms(2) ok1 shape_ok [OF exec_release_shape ok1] exec_load_ok [OF assms(1)] in blast)+
qed

lemma reap_shape: "reapDeadChild p s = (r, s') \<Longrightarrow> sched_shape s' = sched_shape s"
  by (auto simp: reapDeadChild_def Let_def split: option.splits)

lemma waitpid_ok:
  assumes "sched_ok s" "waitpid st s = kret (r, s')"
  shows "sched_ok s'"
proof -
  obtain x s1 where rp: "reapDeadChild (currentIdx s) s = (x, s1)" by (metis surj_pair)
  have ok1: "sched_ok s1" using shape_ok [OF reap_shape [OF rp] assms(1)] .
  let ?s2 = "s1\<lparr>tasks := mark_waiters (children (currentTask s1)) (currentIdx s1) (nat (taskCount s1)) (tasks s1)\<rparr>"
  have ok2: "sched_ok ?s2" by (rule shape_ok [OF shape_mark ok1])
  have "s' = s \<or> s' = s1 \<or> s' = upd_task (currentIdx ?s2) (\<lambda>t. t\<lparr>tstate := BLOCKED\<rparr>) ?s2"
    using assms(2) rp unfolding waitpid_def
    by (auto simp: kbind_kret blockCurrentTaskAndYield_def Let_def split: if_splits option.splits)
  then show ?thesis using assms(1) ok1 block_ok [OF ok2] by auto
qed

lemma handleNm_ok: "sched_ok s \<Longrightarrow> handleNm fi s = kret s' \<Longrightarrow> sched_ok s'"
  by (rule shape_ok [of s' s]) (auto simp: handleNm_def Let_def split: if_splits)

lemma deliverSigsegv_ok: "sched_ok s \<Longrightarrow> deliverSigsegvFromException f s = (b, s') \<Longrightarrow> sched_ok s'"
  by (rule shape_ok [of s' s]) (auto simp: deliverSigsegvFromException_def Let_def split: if_splits prod.splits)

lemma deliverPendingSignals_ok:
  assumes "env_ok ev" "sched_ok s" "deliverPendingSignals ev s = kret (r, s')"
  shows "sched_ok s'"
proof (cases "\<exists>code sig. kbind (exitCurrentTask ev code (upd_task (currentIdx s) (\<lambda>t. t\<lparr>pendingSignals := unset_bit sig (pendingSignals t)\<rparr>) s))
              (\<lambda>(e, s'). kret (Switched e, s')) = kret (r, s')")
  case True
  then obtain code sig where *: "kbind (exitCurrentTask ev code (upd_task (currentIdx s) (\<lambda>t. t\<lparr>pendingSignals := unset_bit sig (pendingSignals t)\<rparr>) s))
              (\<lambda>(e, s'). kret (Switched e, s')) = kret (r, s')" by blast
  show ?thesis by (rule quit_ok [OF assms(1) _ *]) (rule shape_ok [OF _ assms(2)], simp)
next
  case False
  then have "sched_shape s' = sched_shape s"
    using assms(3) unfolding deliverPendingSignals_def Let_def
    by (auto split: if_splits option.splits prod.splits)
  then show ?thesis using assms(2) by (rule shape_ok)
qed

lemma deliverPendingSignalsAtEsp_ok:
  assumes "env_ok ev" "sched_ok s" "deliverPendingSignalsAtEsp ev e s = kret (r, s')"
  shows "sched_ok s'"
proof (cases "idx_corrupt s")
  case True
  then show ?thesis using assms by (simp add: deliverPendingSignalsAtEsp_def)
next
  case False
  have "sched_ok (upd_task (currentIdx s) (\<lambda>t. t\<lparr>esp := e\<rparr>) s)" by (rule shape_ok [OF _ assms(2)]) simp
  then show ?thesis using assms(1,3) False deliverPendingSignals_ok by (auto simp: deliverPendingSignalsAtEsp_def)
qed

lemma sendSignal_ok:
  assumes "env_ok ev" "sched_ok s" "sendSignal ev p sig s = kret (r, s')"
  shows "sched_ok s'"
proof -
  let ?F = "find (\<lambda>i. int (unat (pid (tasks s ! i))) = p \<and> tstate (tasks s ! i) \<noteq> DEAD \<and> i \<noteq> 0) [0..<nat (taskCount s)]"
  show ?thesis
  proof (cases "sig < 0 \<or> sig \<ge> int SIGNAL_MAX \<or> ?F = None")
    case True
    then have "s' = s" using assms(3) by (auto simp: sendSignal_def split: if_splits option.splits)
    with assms(2) show ?thesis by simp
  next
    case False
    then obtain k where k: "?F = Some k" by auto
    then have "k < nat (taskCount s)" by (auto simp: find_Some_iff)
    then have kr: "0 \<le> int k" "int k < taskCount s" by auto
    let ?s1 = "upd_task (int k) (\<lambda>t. t\<lparr>pendingSignals := set_bit (nat sig) (pendingSignals t)\<rparr>) s"
    let ?sk = "upd_task (int k) (\<lambda>t. t\<lparr>exitCode := EXIT_CODE_SIGNAL_BASE + SIGKILL\<rparr>) s"
    have ok1: "sched_ok ?s1" "sched_ok ?sk" by (rule shape_ok [OF _ assms(2)], simp)+
    have okr: "sched_ok (removeFromSleepQueue (int k) (upd_task (int k) (\<lambda>t. t\<lparr>tstate := READY, wakeupMs := 0\<rparr>) ?s1))"
      using ok1(1) kr by (intro sched_ok_dequeue) simp_all
    consider "kbind (exitCurrentTask ev (EXIT_CODE_SIGNAL_BASE + SIGKILL) s) (\<lambda>(e, s'). kret (Switched e, s')) = kret (r, s')"
      | "killTask ev (int k) ?sk = kret s'" | "s' = ?s1"
      | "s' = removeFromSleepQueue (int k) (upd_task (int k) (\<lambda>t. t\<lparr>tstate := READY, wakeupMs := 0\<rparr>) ?s1)"
      using assms(3) False k unfolding sendSignal_def Let_def by (auto simp: kbind_kret split: if_splits)
    then show ?thesis
      by cases (use quit_ok [OF assms(1,2)] killTask_ok [OF assms(1) ok1(2)] ok1(1) okr in blast)+
  qed
qed

lemma tick_rest_ok:
  assumes "sched_ok s" "tick_rest s = kret (e, s')"
  shows "sched_ok s'"
proof -
  define s1 where "s1 = (if currentIdx s = 0 then s\<lparr>idleTicks := idleTicks s + 1\<rparr> else s)"
  define s2 where "s2 = upd_task (currentIdx s) (\<lambda>t. t\<lparr>runtimeMs := runtimeMs t + (uptimeMs s1 - lastTickMs s1)\<rparr>)
     (s1\<lparr>lastTickMs := uptimeMs s1\<rparr>)"
  define s3 where "s3 = wake_expired (uptimeMs s1) s2"
  have "sched_shape s2 = sched_shape s" by (simp add: s2_def s1_def)
  then have "sched_ok s2" using assms(1) by (rule shape_ok)
  then have ok3: "sched_ok s3" unfolding s3_def by (rule wake_expired_spec(1))
  have "sched_shape s' = sched_shape s3 \<or> (\<exists>n e. switchTo n s3 = kret (e, s'))"
    using assms(2) unfolding tick_rest_def Let_def s1_def [symmetric] s2_def [symmetric] s3_def [symmetric]
    by (auto simp: kbind_kret split: if_splits option.splits)
  then show ?thesis using ok3 shape_ok switchTo_ok by blast
qed

lemma sched_tick_ok:
  assumes "env_ok ev" "sched_ok s" "sched_tick ev e s = kret (r, s')"
  shows "sched_ok s'"
proof (cases "initialized s")
  case False
  then show ?thesis using assms by (simp add: sched_tick_def)
next
  case True
  let ?s1 = "upd_task (currentIdx s) (\<lambda>t. t\<lparr>esp := e\<rparr>) s"
  have ok1: "sched_ok ?s1" by (rule shape_ok [OF _ assms(2)]) simp
  obtain x s2 where d: "deliverPendingSignals ev ?s1 = kret (x, s2)"
      and c: "(case x of Switched e \<Rightarrow> kret (Switched e, s2) | Returned _ \<Rightarrow> kbind (tick_rest s2) (\<lambda>(e, s). kret (Returned e, s))) = kret (r, s')"
    using assms(3) True unfolding sched_tick_def Let_def by (auto simp: kbind_kret split: if_splits)
  have "s' = s2 \<or> (\<exists>e. tick_rest s2 = kret (e, s'))"
    using c by (cases x) (auto simp: kbind_kret)
  then show ?thesis using deliverPendingSignals_ok [OF assms(1) ok1 d] tick_rest_ok by blast
qed

end
