(* ===== verification/Semaphore.thy ===== *)
theory Semaphore
  imports Process
begin

text \<open>
  The counting semaphore (kernel/kernel/Semaphore.cc). \<open>waiters\<close> is the used prefix of \<open>waiters_\<close>, so
  \<open>waitCount_\<close> is its length. \<open>wait\<close> is modelled up to its halt loop: the caller is then BLOCKED and
  goes on when another task or the timer makes it READY. The counter is an unbounded integer.

  Shown: requests are served in order (a contract as a locale, interpreted on the code), \<open>wait\<close> returns
  a permit or suspends, \<open>signal\<close> wakes the head of the queue.
\<close>


section \<open>The semaphore\<close>

definition MAX_WAITERS :: nat where "MAX_WAITERS = MAX_TASKS"

record semaphore =
  sem_count :: int
  waiters :: "int list"

definition semaphore_new :: "int \<Rightarrow> semaphore" where
  "semaphore_new initialCount = \<lparr>sem_count = initialCount, waiters = []\<rparr>"

text \<open>\<open>Acquired\<close> is the return with a permit, \<open>Early_Boot\<close> the return before the scheduler runs,
  \<open>Suspended\<close> the state in which the caller waits for \<open>signal\<close>.\<close>

datatype sem_outcome = Acquired | Early_Boot | Suspended

definition sem_wait :: "semaphore \<Rightarrow> 'a sched_scheme \<Rightarrow> (sem_outcome \<times> semaphore \<times> 'a sched_scheme) kres" where
  "sem_wait m s =
     (if sem_count m > 0 then kret (Acquired, m\<lparr>sem_count := sem_count m - 1\<rparr>, s)
      else if taskCount s = 0 then kret (Early_Boot, m, s)
      else if length (waiters m) \<ge> MAX_WAITERS then kpanic ''Semaphore::wait: waiter count exceeds MAX_WAITERS''
      else kbind (blockCurrentTask s) (\<lambda>s1. kret (Suspended, m\<lparr>waiters := waiters m @ [currentIdx s]\<rparr>, s1)))"

definition sem_signal :: "semaphore \<Rightarrow> 'a sched_scheme \<Rightarrow> semaphore \<times> 'a sched_scheme" where
  "sem_signal m s =
     (case waiters m of
        w # rest \<Rightarrow> (m\<lparr>waiters := rest\<rparr>, unblockTask w s)
      | [] \<Rightarrow> (m\<lparr>sem_count := sem_count m + 1\<rparr>, s))"

section \<open>Permits are granted in the order of the requests\<close>

text \<open>The contract of a fair counting semaphore: \<open>permits\<close> so far (the initial count and one for
  each signal), the ids of the tasks that asked, in order; the first \<open>permits\<close> of them are served,
  the others wait. \<open>uses\<close> is what clients do with it, the scheduler being in any state when they do.\<close>

inductive uses ::
  "('q \<Rightarrow> 's \<Rightarrow> (sem_outcome \<times> 'q \<times> 's) kres) \<Rightarrow> ('q \<Rightarrow> 's \<Rightarrow> 'q \<times> 's) \<Rightarrow> ('s \<Rightarrow> int) \<Rightarrow> ('s \<Rightarrow> bool) \<Rightarrow>
     'q \<times> nat \<times> int list \<Rightarrow> 'q \<times> nat \<times> int list \<Rightarrow> bool"
  for wt sg me up where
  uses_refl: "uses wt sg me up x x"
| uses_wait: "uses wt sg me up x (q, n, rs) \<Longrightarrow> up s \<Longrightarrow> wt q s = kret (r, q', s') \<Longrightarrow>
     uses wt sg me up x (q', n, rs @ [me s])"
| uses_signal: "uses wt sg me up x (q, n, rs) \<Longrightarrow> up s \<Longrightarrow> sg q s = (q', s') \<Longrightarrow>
     uses wt sg me up x (q', Suc n, rs)"

locale fair_semaphore =
  fixes wt :: "'q \<Rightarrow> 's \<Rightarrow> (sem_outcome \<times> 'q \<times> 's) kres"
    and sg :: "'q \<Rightarrow> 's \<Rightarrow> 'q \<times> 's"
    and me :: "'s \<Rightarrow> int"
    and up :: "'s \<Rightarrow> bool"
    and permits_left :: "'q \<Rightarrow> nat"
    and queue :: "'q \<Rightarrow> int list"
    and ok :: "'q \<Rightarrow> bool"
  assumes idle_or_queue: "ok q \<Longrightarrow> permits_left q = 0 \<or> queue q = []"
    and wait_permit: "ok q \<Longrightarrow> up s \<Longrightarrow> wt q s = kret (r, q', s') \<Longrightarrow> permits_left q > 0 \<Longrightarrow>
      r = Acquired \<and> ok q' \<and> permits_left q' = permits_left q - 1 \<and> queue q' = []"
    and wait_queue: "ok q \<Longrightarrow> up s \<Longrightarrow> wt q s = kret (r, q', s') \<Longrightarrow> permits_left q = 0 \<Longrightarrow>
      r = Suspended \<and> ok q' \<and> permits_left q' = 0 \<and> queue q' = queue q @ [me s]"
    and signal_queue: "ok q \<Longrightarrow> up s \<Longrightarrow> sg q s = (q', s') \<Longrightarrow> queue q = w # ws \<Longrightarrow>
      ok q' \<and> permits_left q' = 0 \<and> queue q' = ws"
    and signal_idle: "ok q \<Longrightarrow> up s \<Longrightarrow> sg q s = (q', s') \<Longrightarrow> queue q = [] \<Longrightarrow>
      ok q' \<and> permits_left q' = Suc (permits_left q) \<and> queue q' = []"
begin

definition tickets :: "'q \<times> nat \<times> int list \<Rightarrow> bool" where
  "tickets x \<longleftrightarrow> (case x of (q, n, rs) \<Rightarrow> ok q \<and> queue q = drop n rs \<and> permits_left q = n - length rs)"

lemma tickets_wait:
  assumes "tickets (q, n, rs)" "up s" "wt q s = kret (r, q', s')"
  shows "tickets (q', n, rs @ [me s])"
proof (cases "permits_left q = 0")
  case True
  with assms wait_queue [of q s r q' s'] show ?thesis by (auto simp: tickets_def)
next
  case False
  with assms wait_permit [of q s r q' s'] show ?thesis by (auto simp: tickets_def)
qed

lemma tickets_signal:
  assumes "tickets (q, n, rs)" "up s" "sg q s = (q', s')"
  shows "tickets (q', Suc n, rs)"
proof (cases "queue q")
  case Nil
  with assms signal_idle [of q s q' s'] show ?thesis by (auto simp: tickets_def)
next
  case (Cons w ws)
  with assms(1) have d: "drop n rs = w # ws" by (simp add: tickets_def)
  then have "n < length rs" by (cases "n < length rs") simp_all
  moreover have "drop (Suc n) rs = ws" using d by (metis drop_Suc list.sel(3) tl_drop)
  ultimately show ?thesis using Cons assms signal_queue [of q s q' s' w ws] by (simp add: tickets_def)
qed

lemma uses_tickets: "uses wt sg me up x y \<Longrightarrow> tickets x \<Longrightarrow> tickets y"
  by (induction rule: uses.induct) (auto intro: tickets_wait tickets_signal)

end

definition semaphore_ok :: "semaphore \<Rightarrow> bool" where
  "semaphore_ok m \<longleftrightarrow> sem_count m \<ge> 0 \<and> (sem_count m = 0 \<or> waiters m = [])"

interpretation sq: fair_semaphore sem_wait sem_signal currentIdx sched_ok "\<lambda>m. nat (sem_count m)" waiters semaphore_ok
proof unfold_locales
  fix m m' :: semaphore and s s' :: "'a sched_scheme" and r w ws
  show "semaphore_ok m \<Longrightarrow> nat (sem_count m) = 0 \<or> waiters m = []" by (auto simp: semaphore_ok_def)
  show "r = Acquired \<and> semaphore_ok m' \<and> nat (sem_count m') = nat (sem_count m) - 1 \<and> waiters m' = []"
    if "semaphore_ok m" "sched_ok s" "sem_wait m s = kret (r, m', s')" "nat (sem_count m) > 0"
    using that by (auto simp: semaphore_ok_def sem_wait_def)
  show "r = Suspended \<and> semaphore_ok m' \<and> nat (sem_count m') = 0 \<and> waiters m' = waiters m @ [currentIdx s]"
    if "semaphore_ok m" "sched_ok s" "sem_wait m s = kret (r, m', s')" "nat (sem_count m) = 0"
    using that sched_okD(2,3) [OF that(2)] by (auto simp: semaphore_ok_def sem_wait_def kbind_kret split: if_splits)
  show "semaphore_ok m' \<and> nat (sem_count m') = 0 \<and> waiters m' = ws"
    if "semaphore_ok m" "sched_ok s" "sem_signal m s = (m', s')" "waiters m = w # ws"
    using that by (auto simp: semaphore_ok_def sem_signal_def)
  show "semaphore_ok m' \<and> nat (sem_count m') = Suc (nat (sem_count m)) \<and> waiters m' = []"
    if "semaphore_ok m" "sched_ok s" "sem_signal m s = (m', s')" "waiters m = []"
    using that by (auto simp: semaphore_ok_def sem_signal_def)
qed

lemma uses_semaphore:
  assumes "uses sem_wait sem_signal currentIdx sched_ok (semaphore_new (int n), n, []) (m, k, rs)"
  shows "waiters m = drop k rs \<and> sem_count m = int (k - length rs)"
proof -
  have "sq.tickets (semaphore_new (int n), n, [])" by (simp add: sq.tickets_def semaphore_new_def semaphore_ok_def)
  from sq.uses_tickets [OF assms this] show ?thesis by (auto simp: sq.tickets_def semaphore_ok_def)
qed

section \<open>Hand-over\<close>

text \<open>No task is queued twice, and every queued id is a slot of the table.\<close>

definition queued_once :: "semaphore \<Rightarrow> 'a sched_scheme \<Rightarrow> bool" where
  "queued_once m s \<longleftrightarrow> distinct (waiters m) \<and> (\<forall>i\<in>set (waiters m). 0 \<le> i \<and> i < taskCount s)"

lemma queued_room:
  assumes "sched_ok s" "queued_once m s" "currentIdx s \<notin> set (waiters m)"
  shows "length (waiters m) < MAX_WAITERS"
proof -
  let ?W = "insert (currentIdx s) (set (waiters m))"
  have "?W \<subseteq> {0..<int MAX_TASKS}" using assms(2) sched_okD(2-4) [OF assms(1)] by (auto simp: queued_once_def)
  then have "card ?W \<le> MAX_TASKS" using card_mono [of "{0..<int MAX_TASKS}" ?W] by simp
  moreover have "card ?W = Suc (length (waiters m))"
    using assms(2,3) by (simp add: queued_once_def distinct_card)
  ultimately show ?thesis by (simp add: MAX_WAITERS_def)
qed

lemma sem_wait_spec:
  assumes "sched_ok s" "semaphore_ok m" "queued_once m s" "currentIdx s \<notin> set (waiters m)"
  shows "sem_wait m s = (if sem_count m > 0 then kret (Acquired, m\<lparr>sem_count := sem_count m - 1\<rparr>, s)
    else kret (Suspended, m\<lparr>waiters := waiters m @ [currentIdx s]\<rparr>,
               upd_task (currentIdx s) (\<lambda>t. t\<lparr>tstate := BLOCKED\<rparr>) s))"
  using sched_okD [OF assms(1)] queued_room [OF assms(1,3,4)] by (simp add: sem_wait_def blockCurrentTask_def)

lemma sem_signal_head:
  assumes "sched_ok s" "waiters m = w # ws" "0 \<le> w" "w < taskCount s" "tstate (task_at w s) = BLOCKED"
    "sem_signal m s = (m', s')"
  shows "sched_ok s'" "waiters m' = ws" "sem_count m' = sem_count m"
    "tasks s' = (tasks s)[nat w := (task_at w s)\<lparr>tstate := READY, wakeupMs := 0\<rparr>]"
  using assms unblockTask_spec [OF assms(1), of w] by (auto simp: sem_signal_def)

text \<open>C19. Semaphore fairness (Semaphore::wait, Semaphore::signal). Take a semaphore created with count
  n and any sequence of waits and signals, the scheduler being in any consistent state at each of them.
  With \<open>k\<close> the initial count plus the number of signals and \<open>rs\<close> the tasks that called
  wait, in order: exactly the tasks after the first \<open>k\<close> are queued, in the order of their calls, and the
  counter is the number of permits nobody asked for. So permits are never lost or invented, and the
  longest waiting task is served first.\<close>

theorem semaphore_fair:
  assumes "uses sem_wait sem_signal currentIdx sched_ok (semaphore_new (int n), n, []) (m, k, rs)"
  shows "waiters m = drop k rs \<and> sem_count m = int (k - length rs)"
  using assms by (rule uses_semaphore)

theorem semaphore_fair_witness:
  "uses sem_wait sem_signal currentIdx (sched_ok :: sched \<Rightarrow> bool) (semaphore_new (int 0), 0, [])
     (\<lparr>sem_count = 0, waiters = [1]\<rparr>, 0, [1]) \<and> waiters \<lparr>sem_count = 0, waiters = [1]\<rparr> = drop 0 [1]"
proof -
  have c: "currentIdx demo_sched = 1" "taskCount demo_sched \<noteq> 0" by (simp_all add: demo_sched_def)
  have "\<exists>s'. sem_wait (semaphore_new (int 0)) demo_sched = kret (Suspended, \<lparr>sem_count = 0, waiters = [1]\<rparr>, s')"
    using c by (simp add: sem_wait_def semaphore_new_def blockCurrentTask_def MAX_WAITERS_def MAX_TASKS_def idx_corrupt_def)
  then obtain s' where w: "sem_wait (semaphore_new (int 0)) demo_sched = kret (Suspended, \<lparr>sem_count = 0, waiters = [1]\<rparr>, s')" ..
  have "uses sem_wait sem_signal currentIdx (sched_ok :: sched \<Rightarrow> bool) (semaphore_new (int 0), 0, [])
     (\<lparr>sem_count = 0, waiters = [1]\<rparr>, 0, [] @ [currentIdx demo_sched])"
    by (rule uses.uses_wait [where s = demo_sched and me = currentIdx and q = "semaphore_new (int 0)" and r = Suspended and s' = s']) (use demo_sched_ok w in \<open>simp_all add: uses.uses_refl\<close>)
  with semaphore_fair [of 0 "\<lparr>sem_count = 0, waiters = [1]\<rparr>" 0 "[1]"] c show ?thesis by simp
qed

text \<open>Semaphore::wait never panics and never returns without a permit. As long as no task is queued
  twice and the caller is not queued, the call returns: with a permit exactly when the counter was
  positive, and otherwise with the caller BLOCKED at the end of the queue, nothing else in the
  task table changed. The invariants of the semaphore and of the scheduler are kept.\<close>

theorem semaphore_wait_correct:
  assumes "sched_ok s" "semaphore_ok m" "queued_once m s" "currentIdx s \<notin> set (waiters m)"
  shows "\<exists>r m' s'. sem_wait m s = kret (r, m', s') \<and> sched_ok s' \<and> semaphore_ok m' \<and> queued_once m' s'
    \<and> (if sem_count m > 0 then r = Acquired \<and> sem_count m' = sem_count m - 1 \<and> s' = s
        else r = Suspended \<and> sem_count m' = sem_count m \<and> waiters m' = waiters m @ [currentIdx s]
          \<and> tasks s' = (tasks s)[nat (currentIdx s) := (currentTask s)\<lparr>tstate := BLOCKED\<rparr>])"
proof (cases "sem_count m > 0")
  case True
  with assms sem_wait_spec [OF assms] show ?thesis by (auto simp: semaphore_ok_def queued_once_def)
next
  case False
  then have "semaphore_ok (m\<lparr>waiters := waiters m @ [currentIdx s]\<rparr>)" using assms(2) by (simp add: semaphore_ok_def)
  moreover have "queued_once (m\<lparr>waiters := waiters m @ [currentIdx s]\<rparr>)
      (upd_task (currentIdx s) (\<lambda>t. t\<lparr>tstate := BLOCKED\<rparr>) s)"
    using assms(3,4) sched_okD(2,3) [OF assms(1)] by (auto simp: queued_once_def upd_task_def)
  moreover have "tasks (upd_task (currentIdx s) (\<lambda>t. t\<lparr>tstate := BLOCKED\<rparr>) s)
      = (tasks s)[nat (currentIdx s) := (currentTask s)\<lparr>tstate := BLOCKED\<rparr>]"
    by (simp add: upd_task_def currentTask_def task_at_def)
  ultimately show ?thesis using False sem_wait_spec [OF assms] block_ok [OF assms(1)] by auto
qed

theorem semaphore_wait_correct_witness:
  "\<exists>m' s'. sem_wait (semaphore_new 0) demo_sched = kret (Suspended, m', s') \<and> sched_ok s' \<and> waiters m' = [1]"
proof -
  let ?m = "semaphore_new 0"
  have "semaphore_ok ?m" "queued_once ?m demo_sched" "currentIdx demo_sched \<notin> set (waiters ?m)" "\<not> 0 < sem_count ?m"
    by (simp_all add: semaphore_ok_def semaphore_new_def queued_once_def)
  then show ?thesis using semaphore_wait_correct [OF demo_sched_ok, of ?m] by (auto simp: semaphore_new_def)
qed

text \<open>Semaphore::signal hands the permit to the task that has waited longest. If it is still
  BLOCKED it becomes READY, loses its sleep deadline and no other task changes; the counter does not move,
  so the permit cannot be taken by another task before it runs. With nobody waiting, the
  counter grows by one and the scheduler is not touched.\<close>

theorem semaphore_signal_correct:
  assumes "sched_ok s" "semaphore_ok m" "queued_once m s" "sem_signal m s = (m', s')"
  shows "sched_ok s' \<and> semaphore_ok m' \<and> queued_once m' s'
    \<and> (case waiters m of
          [] \<Rightarrow> sem_count m' = sem_count m + 1 \<and> s' = s
        | w # ws \<Rightarrow> sem_count m' = sem_count m \<and> waiters m' = ws \<and> w \<notin> set ws
            \<and> (if tstate (task_at w s) = BLOCKED
                then tasks s' = (tasks s)[nat w := (task_at w s)\<lparr>tstate := READY, wakeupMs := 0\<rparr>]
                else s' = s))"
proof (cases "waiters m")
  case Nil
  with assms show ?thesis by (auto simp: sem_signal_def semaphore_ok_def queued_once_def)
next
  case (Cons w ws)
  with assms(4) have e: "m' = m\<lparr>waiters := ws\<rparr>" "s' = unblockTask w s" by (simp_all add: sem_signal_def)
  have w: "0 \<le> w" "w < taskCount s" "w \<notin> set ws" using assms(3) Cons by (auto simp: queued_once_def)
  have "semaphore_ok m'" using assms(2) Cons e by (simp add: semaphore_ok_def)
  moreover have "queued_once m' s'" using assms(3) Cons e by (simp add: queued_once_def)
  ultimately show ?thesis using Cons e w unblockTask_spec [OF assms(1), of w] by simp
qed

theorem semaphore_signal_correct_witness:
  "\<exists>m' s'. sem_signal \<lparr>sem_count = 0, waiters = [3]\<rparr> demo_sched = (m', s') \<and> sched_ok s' \<and> waiters m' = []
     \<and> tstate (task_at 3 s') = READY"
proof -
  let ?m = "\<lparr>sem_count = 0, waiters = [3]\<rparr>"
  obtain m' s' where r: "sem_signal ?m demo_sched = (m', s')" by (metis surj_pair)
  have "semaphore_ok ?m" "queued_once ?m demo_sched" by (simp_all add: semaphore_ok_def queued_once_def)
  from semaphore_signal_correct [OF demo_sched_ok this r] r show ?thesis by (auto simp: task_at_def)
qed

end
