(* ===== verification/Kernel.thy ===== *)
theory Kernel
  imports Semaphore
begin

unbundle bit_operations_syntax

text \<open>
  The kernel as a transition system: \<open>kstep\<close> has one rule for each entry point of the scheduler, of the
  process layer and of the semaphore. The invariant of the task table holds in every reachable
  state; the timer tick, which ties sleeping, signals, selection and switching together, is specified here.
\<close>


section \<open>Transition systems\<close>

locale invariant_system =
  fixes start :: "'s \<Rightarrow> bool" and step :: "'s \<Rightarrow> 's \<Rightarrow> bool" and inv :: "'s \<Rightarrow> bool"
  assumes start_inv: "start s \<Longrightarrow> inv s"
    and step_inv: "inv s \<Longrightarrow> step s s' \<Longrightarrow> inv s'"
begin

inductive reachable :: "'s \<Rightarrow> bool" where
  reachable_start: "start s \<Longrightarrow> reachable s"
| reachable_step: "reachable s \<Longrightarrow> step s s' \<Longrightarrow> reachable s'"

lemma reachable_inv: "reachable s \<Longrightarrow> inv s"
  by (induction rule: reachable.induct) (auto intro: start_inv step_inv)

lemma star_reachable: "step\<^sup>*\<^sup>* s s' \<Longrightarrow> reachable s \<Longrightarrow> reachable s'"
  by (induction rule: rtranclp_induct) (auto intro: reachable_step)

lemma star_inv: "start s \<Longrightarrow> step\<^sup>*\<^sup>* s s' \<Longrightarrow> inv s'"
  using star_reachable reachable_start reachable_inv by blast

end

section \<open>Everything the kernel does to the task table\<close>

text \<open>One rule per entry point. A call that panics or does not return is no step. \<open>sleep\<close> is a
  call of the running task, which is not BLOCKED. Between the calls, code of the tasks writes memory and
  FPU registers, and the timer advances.\<close>

inductive kstep :: "'a proc_scheme env \<Rightarrow> 'a proc_scheme \<Rightarrow> 'a proc_scheme \<Rightarrow> bool" for ev where
  k_addTask: "addTask w nm e d p s = Some (r, s') \<Longrightarrow> kstep ev s s'"
| k_addTaskAndBlock: "addTaskAndBlock w nm e d s = kret (r, s') \<Longrightarrow> kstep ev s s'"
| k_addUserTask: "addUserTask ut n s = kret (r, s') \<Longrightarrow> kstep ev s s'"
| k_addUserElfTask: "addUserElfTask n a sz s = kret (r, s') \<Longrightarrow> kstep ev s s'"
| k_fork: "sched_fork s = kret (c, s') \<Longrightarrow> kstep ev s s'"
| k_exec: "sched_exec ev i s = kret (b, s') \<Longrightarrow> kstep ev s s'"
| k_exit: "exitCurrentTask ev code s = kret (e', s') \<Longrightarrow> kstep ev s s'"
| k_kill: "killTask ev i s = kret s' \<Longrightarrow> kstep ev s s'"
| k_waitpid: "waitpid st s = kret (wres, s') \<Longrightarrow> kstep ev s s'"
| k_handleNm: "handleNm fi s = kret s' \<Longrightarrow> kstep ev s s'"
| k_sigsegv: "deliverSigsegvFromException f s = (b', s') \<Longrightarrow> kstep ev s s'"
| k_pending: "deliverPendingSignalsAtEsp ev e' s = kret (u, s') \<Longrightarrow> kstep ev s s'"
| k_sendSignal: "sendSignal ev q sig s = kret (u, s') \<Longrightarrow> kstep ev s s'"
| k_tick: "sched_tick ev e' s = kret (t, s') \<Longrightarrow> kstep ev s s'"
| k_sleep: "tstate (currentTask s) \<noteq> BLOCKED \<Longrightarrow> sched_sleep ms s = kret s' \<Longrightarrow> kstep ev s s'"
| k_block: "blockCurrentTask s = kret s' \<Longrightarrow> kstep ev s s'"
| k_yield: "blockCurrentTaskAndYield s = kret s' \<Longrightarrow> kstep ev s s'"
| k_unblock: "kstep ev s (unblockTask i s)"
| k_sem_wait: "sem_wait m s = kret (o', m', s') \<Longrightarrow> kstep ev s s'"
| k_sem_signal: "sem_signal m s = (m', s') \<Longrightarrow> kstep ev s s'"
| k_setUnblockOnExit: "kstep ev s (setUnblockOnExit i j s)"
| k_suppressTaskbar: "suppressTaskbar s = kret s' \<Longrightarrow> kstep ev s s'"
| k_setOnKill: "setOnKill h s = kret s' \<Longrightarrow> kstep ev s s'"
| k_user: "kstep ev s (s\<lparr>mem := mm, fpuRegs := rr, syscallFrameEsp := fe\<rparr>)"
| k_timer: "kstep ev s (pit_tick s)"

inductive_cases kstepE: "kstep ev s s'"

lemma sem_wait_ok: "sched_ok s \<Longrightarrow> sem_wait m s = kret (r, m', s') \<Longrightarrow> sched_ok s'"
  using block_ok by (auto simp: sem_wait_def blockCurrentTask_def kbind_kret split: if_splits)

lemma sem_signal_ok: "sched_ok s \<Longrightarrow> sem_signal m s = (m', s') \<Longrightarrow> sched_ok s'"
  using unblockTask_ok by (auto simp: sem_signal_def split: list.splits)

lemma sched_sleep_ok: "sched_ok s \<Longrightarrow> tstate (currentTask s) \<noteq> BLOCKED \<Longrightarrow> sched_sleep ms s = kret s' \<Longrightarrow> sched_ok s'"
  using sched_sleep_spec [of s ms] by auto

lemma field_calls_ok:
  "sched_ok s \<Longrightarrow> suppressTaskbar s = kret s' \<Longrightarrow> sched_ok s'"
  "sched_ok s \<Longrightarrow> setOnKill h s = kret s' \<Longrightarrow> sched_ok s'"
  "sched_ok s \<Longrightarrow> sched_ok (setUnblockOnExit i j s)"
  by (auto intro: shape_ok simp: suppressTaskbar_def setOnKill_def setUnblockOnExit_def split: if_splits)

lemma block_calls_ok:
  "sched_ok s \<Longrightarrow> blockCurrentTask s = kret s' \<Longrightarrow> sched_ok s'"
  "sched_ok s \<Longrightarrow> blockCurrentTaskAndYield s = kret s' \<Longrightarrow> sched_ok s'"
  using block_ok by (auto simp: blockCurrentTask_def blockCurrentTaskAndYield_def split: if_splits)

lemma kstep_ok:
  assumes "env_ok ev" "sched_ok s" "kstep ev s s'"
  shows "sched_ok s'"
  using assms(3)
proof cases
  case k_addTask
  then show ?thesis using addTaskImpl_ok [OF assms(2)] by (simp add: addTask_def)
next
  case k_user
  then show ?thesis using assms(2) by (simp add: sched_ok_def)
next
  case k_timer
  then show ?thesis using assms(2) by (simp add: sched_ok_def pit_tick_def Let_def)
next
  case k_sleep
  then show ?thesis using assms(2) sched_sleep_ok by blast
qed (simp add: unblockTask_ok field_calls_ok(3) assms(2)
  | erule addTaskAndBlock_ok [OF assms(2)] addUserTask_ok [OF assms(2)] addUserElfTask_ok [OF assms(2)]
      sched_fork_ok [OF assms(2)] sched_exec_ok [OF assms(1,2)] exitCurrentTask_ok [OF assms(1,2)] killTask_ok [OF assms(1,2)]
      waitpid_ok [OF assms(2)] handleNm_ok [OF assms(2)] deliverSigsegv_ok [OF assms(2)]
      deliverPendingSignalsAtEsp_ok [OF assms(1,2)] sendSignal_ok [OF assms(1,2)] sched_tick_ok [OF assms(1,2)]
      block_calls_ok [OF assms(2)] sem_wait_ok [OF assms(2)] sem_signal_ok [OF assms(2)] field_calls_ok(1,2) [OF assms(2)])+

interpretation ks: invariant_system "\<lambda>s. \<exists>s0. s = sched_init s0" "\<lambda>s s'. env_ok ev \<and> kstep ev s s'" sched_ok for ev
  by unfold_locales (use sched_init_ok kstep_ok in blast)+


section \<open>The timer tick\<close>

definition idle_ready :: "'a sched_scheme \<Rightarrow> bool" where
  "idle_ready s \<longleftrightarrow> tstate (tasks s ! 0) = READY \<or> tstate (tasks s ! 0) = RUNNING"

text \<open>The choice after the quantum: the best candidate, or idle.\<close>

definition next_choice :: "'a sched_scheme \<Rightarrow> int \<Rightarrow> bool" where
  "next_choice s n \<longleftrightarrow>
     (if \<exists>i. candidate s i
      then candidate s n \<and> (\<forall>i. candidate s i \<longrightarrow> priority (task_at n s) < priority (task_at i s) \<or>
             priority (task_at n s) = priority (task_at i s) \<and> rr_before s n i)
      else n = 0)"

lemma next_choice_run:
  assumes "sched_ok s" "idle_ready s" "next_choice s n"
  shows "can_run s n"
proof (cases "\<exists>i. candidate s i")
  case True
  with assms(3) show ?thesis by (auto simp: next_choice_def candidate_def can_run_def split: if_splits)
next
  case False
  with assms(3) have "n = 0" by (simp add: next_choice_def)
  moreover have "tstate (tasks s ! 0) = RUNNING \<Longrightarrow> currentIdx s = 0"
    using assms(1) unfolding sched_ok_def table_ok_def MAX_TASKS_def by force
  ultimately show ?thesis using assms(2) sched_okD(2,3) [OF assms(1)] by (auto simp: can_run_def idle_ready_def task_at_def)
qed

lemma findNext_choice:
  assumes "sched_ok s"
  shows "findNext s = kret None \<and> next_choice s (currentIdx s) \<and> currentIdx s = 0 \<or> (\<exists>n. findNext s = kret (Some n) \<and> next_choice s n)"
proof (cases "1 < taskCount s")
  case True
  with findNext_spec [OF assms] show ?thesis unfolding next_choice_def by blast
next
  case False
  have "\<not> candidate s i" for i using False sched_okD(2,3) [OF assms] by (auto simp: candidate_def)
  with False sched_okD [OF assms] show ?thesis by (auto simp: findNext_def next_choice_def MAX_TASKS_def)
qed

text \<open>Candidates depend on the state and the priority of the slots only.\<close>

lemma next_choice_cong:
  assumes "taskCount s' = taskCount s" "currentIdx s' = currentIdx s"
    "\<And>i. 0 \<le> i \<Longrightarrow> i < taskCount s \<Longrightarrow> tstate (task_at i s') = tstate (task_at i s) \<and> priority (task_at i s') = priority (task_at i s)"
  shows "next_choice s' n \<longleftrightarrow> next_choice s n"
proof -
  have c: "candidate s' i \<longleftrightarrow> candidate s i" for i using assms by (auto simp: candidate_def)
  have p: "candidate s i \<Longrightarrow> priority (task_at i s') = priority (task_at i s)" for i using assms(3) by (simp add: candidate_def)
  show ?thesis unfolding next_choice_def c rr_before_def assms(1,2) using p by (auto split: if_splits)
qed

text \<open>The bookkeeping of a tick before the choice.\<close>

definition tick_account :: "'a sched_scheme \<Rightarrow> 'a sched_scheme" where
  "tick_account s =
     (let s1 = (if currentIdx s = 0 then s\<lparr>idleTicks := idleTicks s + 1\<rparr> else s)
      in upd_task (currentIdx s) (\<lambda>t. t\<lparr>runtimeMs := runtimeMs t + (uptimeMs s - lastTickMs s)\<rparr>)
           (s1\<lparr>lastTickMs := uptimeMs s\<rparr>))"

lemma tick_account_fields [simp]:
  "sleepQueue (tick_account s) = sleepQueue s" "currentIdx (tick_account s) = currentIdx s"
  "taskCount (tick_account s) = taskCount s" "uptimeMs (tick_account s) = uptimeMs s"
  "quantumStartMs (tick_account s) = quantumStartMs s"
  by (simp_all add: tick_account_def Let_def upd_task_def uptimeMs_def)

lemma tick_account_ok: "sched_ok s \<Longrightarrow> sched_ok (tick_account s)"
  by (rule shape_ok [of _ s]) (simp_all add: tick_account_def Let_def)

lemma tick_account_task:
  "nat (currentIdx s) < length (tasks s) \<Longrightarrow> k < length (tasks s) \<Longrightarrow>
    tasks (tick_account s) ! k = (if k = nat (currentIdx s)
      then (tasks s ! k)\<lparr>runtimeMs := runtimeMs (tasks s ! k) + (uptimeMs s - lastTickMs s)\<rparr> else tasks s ! k)"
  by (auto simp: tick_account_def Let_def upd_task_def)

lemma wake_expired_time [simp]:
  "currentIdx (wake_expired now s) = currentIdx s" "taskCount (wake_expired now s) = taskCount s"
  "uptimeMs (wake_expired now s) = uptimeMs s" "quantumStartMs (wake_expired now s) = quantumStartMs s"
  by (simp_all add: wake_expired_def split_beta Let_def uptimeMs_def)

lemma tick_rest_eq:
  "tick_rest s = (let w = wake_expired (uptimeMs s) (tick_account s) in
     if uptimeMs s - quantumStartMs s \<ge> QUANTUM_MS then
       kbind (findNext w) (\<lambda>r. case r of
           None \<Rightarrow> kret (0, programNextTick (w\<lparr>quantumStartMs := uptimeMs s\<rparr>))
         | Some n \<Rightarrow> if n = currentIdx s then kret (0, programNextTick (w\<lparr>quantumStartMs := uptimeMs s\<rparr>)) else switchTo n w)
     else kret (0, programNextTick w))"
  by (auto simp: tick_rest_def tick_account_def Let_def upd_task_def uptimeMs_def cong: if_cong)

lemma tick_rest_spec:
  assumes "sched_ok s" "idle_ready s"
  defines "w \<equiv> wake_expired (uptimeMs s) (tick_account s)"
  shows "\<exists>e s'. tick_rest s = kret (e, s') \<and> sched_ok s'
    \<and> sleepQueue s' = filter (\<lambda>x. uptimeMs s < fst x) (sleepQueue s)
    \<and> (if uptimeMs s - quantumStartMs s < QUANTUM_MS then currentIdx s' = currentIdx s else next_choice w (currentIdx s'))
    \<and> (if currentIdx s' = currentIdx s then e = 0 \<and> tasks s' = tasks w
        else e = esp (task_at (currentIdx s') s) \<and> tasks s' = switched (tasks w) (currentIdx s) (currentIdx s'))"
proof -
  note ok1 = tick_account_ok [OF assms(1)]
  have okw: "sched_ok w" and qw: "sleepQueue w = filter (\<lambda>x. uptimeMs s < fst x) (sleepQueue s)"
    unfolding w_def by (simp_all add: wake_expired_spec [OF ok1])
  have fw: "currentIdx w = currentIdx s" "taskCount w = taskCount s" by (simp_all add: w_def)
  have tw: "tasks w ! k = (if \<exists>d\<le>uptimeMs s. (d, int k) \<in> set (sleepQueue s)
       then (tasks (tick_account s) ! k)\<lparr>tstate := READY, wakeupMs := 0\<rparr> else tasks (tick_account s) ! k)" if "k < MAX_TASKS" for k
    unfolding w_def by (simp add: wake_expired_spec(3) [OF ok1 that])
  note b = sched_okD [OF assms(1)] and acc = tick_account_task [OF sched_okD(6) [OF assms(1)]]
  have "idle_ready w"
    using assms(2) tw [of 0] acc [of 0] b(1) by (auto simp: idle_ready_def MAX_TASKS_def)
  then have run: "next_choice w n \<Longrightarrow> can_run w n" for n using next_choice_run [OF okw] by blast
  have stay: "\<exists>e s'. tick_rest s = kret (e, s') \<and> sched_ok s' \<and> sleepQueue s' = sleepQueue w \<and> currentIdx s' = currentIdx s
      \<and> e = 0 \<and> tasks s' = tasks w"
    if "tick_rest s = kret (0, programNextTick v)" "v = w \<or> v = w\<lparr>quantumStartMs := uptimeMs s\<rparr>" for v
    using that okw fw by (auto intro: sched_ok_cong)
  show ?thesis
  proof (cases "uptimeMs s - quantumStartMs s < QUANTUM_MS")
    case True
    then have "tick_rest s = kret (0, programNextTick w)"
      by (simp add: tick_rest_eq w_def Let_def not_le [symmetric])
    with stay [of w] True qw show ?thesis by fastforce
  next
    case False
    then have q: "QUANTUM_MS \<le> uptimeMs s - quantumStartMs s" by simp
    let ?stay = "kret (0, programNextTick (w\<lparr>quantumStartMs := uptimeMs s\<rparr>))"
    have t0: "tick_rest s = kbind (findNext w) (\<lambda>r. case r of None \<Rightarrow> ?stay | Some n \<Rightarrow> if n = currentIdx s then ?stay else switchTo n w)"
      unfolding tick_rest_eq w_def Let_def using q by (simp only: if_True)
    obtain n where n: "next_choice w n" "findNext w = kret (Some n) \<or> findNext w = kret None \<and> n = currentIdx s"
      using findNext_choice [OF okw] unfolding fw(1) by metis
    have t: "tick_rest s = (if n = currentIdx s then ?stay else switchTo n w)"
      using n(2) unfolding t0 by (elim disjE conjE) simp_all
    show ?thesis
    proof (cases "n = currentIdx s")
      case True
      with t stay [of "w\<lparr>quantumStartMs := uptimeMs s\<rparr>"] False qw n(1) show ?thesis by fastforce
    next
      case ne: False
      have cr: "can_run w n" by (rule run [OF n(1)])
      have k: "nat n < MAX_TASKS" "0 \<le> n" using cr fw b(4) by (auto simp: can_run_def)
      have "esp (task_at n w) = esp (task_at n s)"
        using tw [OF k(1)] acc [of "nat n"] k b(1) by (auto simp: task_at_def)
      with switchTo_spec [OF okw, of n] cr t ne n(1) qw fw False show ?thesis by auto
    qed
  qed
qed

text \<open>The interrupted task before a tick: its stack canary is intact and it has no signal to deliver.\<close>

definition quiet :: "'a sched_scheme \<Rightarrow> bool" where
  "quiet s \<longleftrightarrow> (stackBuf (currentTask s) \<noteq> 0 \<longrightarrow> tstate (currentTask s) \<noteq> DEAD \<longrightarrow> mem s (stackBuf (currentTask s)) = STACK_CANARY)
     \<and> (userStackPageCount (currentTask s) = 0 \<or> pendingSignals (currentTask s) = 0)"

definition interrupted :: "u32 \<Rightarrow> 'a sched_scheme \<Rightarrow> 'a sched_scheme" where
  "interrupted e s = upd_task (currentIdx s) (\<lambda>t. t\<lparr>esp := e, pendingSignals := 0\<rparr>) s"

lemma interrupted_fields [simp]:
  "currentIdx (interrupted e s) = currentIdx s" "taskCount (interrupted e s) = taskCount s"
  "uptimeMs (interrupted e s) = uptimeMs s" "quantumStartMs (interrupted e s) = quantumStartMs s"
  "sleepQueue (interrupted e s) = sleepQueue s"
  by (simp_all add: interrupted_def upd_task_def uptimeMs_def)

lemma interrupted_task:
  "k < length (tasks s) \<Longrightarrow> tasks (interrupted e s) ! k =
     (if k = nat (currentIdx s) then (tasks s ! k)\<lparr>esp := e, pendingSignals := 0\<rparr> else tasks s ! k)"
  by (simp add: interrupted_def upd_task_def nth_list_update)

lemma interrupted_ok: "sched_ok s \<Longrightarrow> sched_ok (interrupted e s)"
  by (rule shape_ok [of _ s]) (simp_all add: interrupted_def)

lemma sched_tick_quiet:
  assumes "sched_ok s" "initialized s" "quiet s"
  shows "sched_tick ev e s = kbind (tick_rest (interrupted e s)) (\<lambda>(x, s'). kret (Returned x, s'))"
proof -
  note b = sched_okD [OF assms(1)]
  let ?c = "currentIdx s" and ?s1 = "upd_task (currentIdx s) (\<lambda>t. t\<lparr>esp := e\<rparr>) s"
  let ?t = "tasks s ! nat ?c"
  have t1: "tasks ?s1 ! nat ?c = ?t\<lparr>esp := e\<rparr>" "currentIdx ?s1 = ?c" "mem ?s1 = mem s"
    using b(6) by (simp_all add: upd_task_def)
  have ch: "checkCanary (currentTask ?s1) ?s1 = kret ()"
    using assms(3) t1 by (auto simp: checkCanary_def currentTask_def task_at_def quiet_def)
  have i2: "upd_task ?c (\<lambda>t. t\<lparr>pendingSignals := 0\<rparr>) ?s1 = interrupted e s"
    using b(6) by (simp add: upd_task_def interrupted_def)
  have i1: "?s1 = interrupted e s" if "pendingSignals ?t = 0"
  proof -
    have "?t\<lparr>esp := e, pendingSignals := 0\<rparr> = ?t\<lparr>esp := e\<rparr>" using that by (cases ?t) simp
    then show ?thesis by (simp add: upd_task_def interrupted_def)
  qed
  have ic: "\<not> idx_corrupt ?s1" using b(5) by (simp add: idx_corrupt_def upd_task_def)
  have "deliverPendingSignals ev ?s1 = kret (Returned (), interrupted e s)"
  proof (cases "userStackPageCount ?t = 0")
    case True
    then show ?thesis using ic t1 i2 by (simp add: deliverPendingSignals_def task_at_def Let_def)
  next
    case False
    with assms(3) have p: "pendingSignals ?t = 0" by (simp add: quiet_def currentTask_def task_at_def)
    with False ic t1 i1 [OF p] show ?thesis by (simp add: deliverPendingSignals_def task_at_def Let_def)
  qed
  with assms(2) b(5) ch show ?thesis by (simp add: sched_tick_def Let_def)
qed

lemma tick_spec:
  fixes e :: u32 and s :: "'a proc_scheme"
  assumes "sched_ok s" "initialized s" "idle_ready s" "quiet s"
  defines "w \<equiv> wake_expired (uptimeMs s) (tick_account (interrupted e s))"
  shows "\<exists>x s'. sched_tick ev e s = kret (Returned x, s') \<and> sched_ok s'
    \<and> sleepQueue s' = filter (\<lambda>x. uptimeMs s < fst x) (sleepQueue s)
    \<and> (if uptimeMs s - quantumStartMs s < QUANTUM_MS then currentIdx s' = currentIdx s else next_choice w (currentIdx s'))
    \<and> (if currentIdx s' = currentIdx s then x = 0 \<and> tasks s' = tasks w
        else x = esp (task_at (currentIdx s') s) \<and> tasks s' = switched (tasks w) (currentIdx s) (currentIdx s'))"
proof -
  let ?u = "interrupted e s"
  note b = sched_okD [OF assms(1)]
  have "idle_ready ?u" using assms(3) b(1) interrupted_task [of 0 s e] by (auto simp: idle_ready_def MAX_TASKS_def)
  from tick_rest_spec [OF interrupted_ok [OF assms(1)] this]
  obtain x s' where r: "tick_rest ?u = kret (x, s')" and k: "sched_ok s'"
      "sleepQueue s' = filter (\<lambda>x. uptimeMs s < fst x) (sleepQueue s)"
      "if uptimeMs s - quantumStartMs s < QUANTUM_MS then currentIdx s' = currentIdx s else next_choice w (currentIdx s')"
      "if currentIdx s' = currentIdx s then x = 0 \<and> tasks s' = tasks w
        else x = esp (task_at (currentIdx s') ?u) \<and> tasks s' = switched (tasks w) (currentIdx s) (currentIdx s')"
    unfolding w_def interrupted_fields by blast
  have "esp (task_at (currentIdx s') ?u) = esp (task_at (currentIdx s') s)" if "currentIdx s' \<noteq> currentIdx s"
  proof -
    have "nat (currentIdx s') < length (tasks s)" "nat (currentIdx s') \<noteq> nat (currentIdx s)"
      using sched_okD [OF k(1)] b that by auto
    then show ?thesis by (simp add: task_at_def interrupted_task)
  qed
  with r k sched_tick_quiet [OF assms(1,2,4), of ev e] show ?thesis by (auto split: if_splits)
qed

lemma next_choice_other: "next_choice w n \<Longrightarrow> currentIdx w \<noteq> 0 \<Longrightarrow> n \<noteq> currentIdx w"
  by (auto simp: next_choice_def candidate_def split: if_splits)

section \<open>Properties\<close>

definition no_handlers :: "'a proc_scheme env" where
  "no_handlers = \<lparr>runOnKill = (\<lambda>_ s. s), deleteHistory = (\<lambda>_ s. s)\<rparr>"

lemma no_handlers_ok: "env_ok no_handlers"
  by (simp add: env_ok_def no_handlers_def)

definition demo_proc :: proc where
  "demo_proc = sched.extend demo_sched (proc.fields 0 0)"

lemma demo_proc_sched [simp]:
  "tasks demo_proc = tasks demo_sched" "taskCount demo_proc = taskCount demo_sched"
  "currentIdx demo_proc = currentIdx demo_sched" "sleepQueue demo_proc = sleepQueue demo_sched"
  "uptimeMs demo_proc = uptimeMs demo_sched" "initialized demo_proc" "mem demo_proc a = 0"
  "quantumStartMs demo_proc = 90"
  by (simp_all add: demo_proc_def demo_sched_def sched.defs proc.defs uptimeMs_def)

lemma demo_proc_ok: "sched_ok demo_proc"
  using demo_sched_ok by (simp add: sched_ok_def del: demo_sched_fields)

text \<open>C12. The invariant of the task table. Start from Scheduler::init and let the kernel do
  anything, in any order: create kernel and user tasks, fork, exec, exit, kill, wait, signal, sleep, block,
  unblock, use semaphores, take timer ticks and FPU traps, with user code writing memory and
  registers in between. In every state so reached, at most one task is RUNNING, and it is the current one; the
  current index is a used slot, so none of the \<open>corrupted currentIdx\<close> panics can fire; unused slots are DEAD; and
  the sleep queue is sorted by deadline, names no task twice, fits its array, and names only BLOCKED tasks, with
  their deadlines. The kill handlers, called through function pointers, are assumed not to touch the
  task states.\<close>

theorem kernel_reachable_ok:
  assumes "env_ok ev" "(kstep ev)\<^sup>*\<^sup>* (sched_init s0) s"
  shows "(\<forall>k<MAX_TASKS. tstate (tasks s ! k) = RUNNING \<longrightarrow> int k = currentIdx s)
    \<and> \<not> idx_corrupt s \<and> currentIdx s < taskCount s \<and> taskCount s \<le> int MAX_TASKS
    \<and> (\<forall>k<MAX_TASKS. taskCount s \<le> int k \<longrightarrow> tstate (tasks s ! k) = DEAD)
    \<and> sorted (map fst (sleepQueue s)) \<and> distinct (map snd (sleepQueue s)) \<and> length (sleepQueue s) \<le> MAX_TASKS
    \<and> (\<forall>(d, i)\<in>set (sleepQueue s). tstate (task_at i s) = BLOCKED \<and> wakeupMs (task_at i s) = d)"
proof -
  have "(\<lambda>s s'. env_ok ev \<and> kstep ev s s')\<^sup>*\<^sup>* (sched_init s0) s" using assms by simp
  then have ok: "sched_ok s" using ks.star_inv [of "sched_init s0"] by blast
  then have t: "table_ok (tasks s) (taskCount s) (currentIdx s) (sleepQueue s)" by (simp add: sched_ok_def)
  then have q: "sleep_ok (tasks s) (taskCount s) (sleepQueue s)" by (simp only: table_ok_def)
  have "set (map snd (sleepQueue s)) \<subseteq> {0..<int MAX_TASKS}"
    using q sched_okD(4) [OF ok] unfolding sleep_ok_def by fastforce
  then have "card (set (map snd (sleepQueue s))) \<le> MAX_TASKS"
    using card_mono [of "{0..<int MAX_TASKS}" "set (map snd (sleepQueue s))"] by simp
  then have "length (sleepQueue s) \<le> MAX_TASKS"
    using q distinct_card [of "map snd (sleepQueue s)"] by (simp add: sleep_ok_def)
  then show ?thesis using t q sched_okD [OF ok] unfolding table_ok_def sleep_ok_def task_at_def
    by (simp add: case_prod_beta)
qed

theorem kernel_reachable_ok_witness:
  "\<exists>s :: proc. (kstep no_handlers)\<^sup>*\<^sup>* (sched_init demo_proc) s \<and> tstate (tasks s ! 0) = BLOCKED \<and> \<not> idx_corrupt s"
proof -
  let ?s = "upd_task 0 (\<lambda>t. t\<lparr>tstate := BLOCKED\<rparr>) (sched_init demo_proc)"
  have "blockCurrentTask (sched_init demo_proc) = kret ?s"
    by (simp add: blockCurrentTask_def sched_init_def idx_corrupt_def MAX_TASKS_def)
  then have "(kstep no_handlers)\<^sup>*\<^sup>* (sched_init demo_proc) ?s" by (simp add: k_block r_into_rtranclp)
  moreover have "tstate (tasks ?s ! 0) = BLOCKED" by (simp add: sched_init_def upd_task_def MAX_TASKS_def)
  ultimately show ?thesis using kernel_reachable_ok [OF no_handlers_ok] by blast
qed


lemma demo_quiet: "quiet demo_proc" "idle_ready demo_proc"
  by (simp_all add: quiet_def idle_ready_def currentTask_def task_at_def demo_task_def empty_task_def)


text \<open>C14. No task outlives its quantum: in such a state, when the quantum of a task other than idle has expired, the
  tick always switches away from it. So it is also preempted when it is the only runnable task: idle
  then runs for a quantum, although the comment in \<open>tick\<close> says such a task keeps running.\<close>

theorem tick_preempts:
  fixes e :: u32 and s :: "'a proc_scheme"
  assumes "sched_ok s" "initialized s" "idle_ready s" "quiet s"
    and "currentIdx s \<noteq> 0" "QUANTUM_MS \<le> uptimeMs s - quantumStartMs s"
  shows "\<exists>x s'. sched_tick ev e s = kret (Returned x, s') \<and> currentIdx s' \<noteq> currentIdx s
    \<and> x = esp (task_at (currentIdx s') s)
    \<and> ((\<forall>i. \<not> candidate (wake_expired (uptimeMs s) (tick_account (interrupted e s))) i) \<longrightarrow> currentIdx s' = 0)"
proof -
  let ?w = "wake_expired (uptimeMs s) (tick_account (interrupted e s))"
  obtain x s' where t: "sched_tick ev e s = kret (Returned x, s')" and n: "next_choice ?w (currentIdx s')"
      and x: "currentIdx s' \<noteq> currentIdx s \<longrightarrow> x = esp (task_at (currentIdx s') s)"
    using tick_spec [OF assms(1-4), of ev e] assms(6) by (auto simp: not_less [symmetric] split: if_splits)
  have "currentIdx s' \<noteq> currentIdx s" using next_choice_other [OF n] assms(5) by simp
  with t x n show ?thesis by (auto simp: next_choice_def)
qed

theorem tick_preempts_witness:
  "\<exists>x s'. sched_tick no_handlers 4096 (demo_proc\<lparr>quantumStartMs := 80\<rparr>) = kret (Returned x, s') \<and> currentIdx s' \<noteq> 1"
proof -
  let ?s = "demo_proc\<lparr>quantumStartMs := 80\<rparr>"
  have "sched_ok ?s" using demo_proc_ok by (simp add: sched_ok_def del: demo_sched_fields)
  moreover have "quiet ?s" "idle_ready ?s" "uptimeMs ?s = 100"
    using demo_quiet demo_proc_sched(5) demo_sched_fields(5)
    by (simp_all add: quiet_def idle_ready_def currentTask_def task_at_def uptimeMs_def del: demo_sched_fields(5))
  ultimately show ?thesis using tick_preempts [of ?s no_handlers 4096] by (auto simp: QUANTUM_MS_def)
qed

end
