(* ===== verification/Keymap.thy ===== *)
theory Keymap
  imports Prelude
begin

text \<open>
  Scan codes and key names (kernel/include/kernel/Scancodes.h, kernel/include/kernel/Keymap.h) and the translation
  of keys to characters (kernel/kernel/Keymap.cc). Characters are bytes. The two scan-code tables are written out.
\<close>

section \<open>Keys\<close>

type_synonym Key = u32

text \<open>The enumerators.\<close>

abbreviation Key_Backspace :: Key where "Key_Backspace \<equiv> 0x8"
abbreviation Key_Tab :: Key where "Key_Tab \<equiv> 0x9"
abbreviation Key_Enter :: Key where "Key_Enter \<equiv> 0xA"
abbreviation Key_Escape :: Key where "Key_Escape \<equiv> 0x1B"
abbreviation Key_Space :: Key where "Key_Space \<equiv> 0x20"
abbreviation Key_0 :: Key where "Key_0 \<equiv> 0x30"
abbreviation Key_1 :: Key where "Key_1 \<equiv> 0x31"
abbreviation Key_2 :: Key where "Key_2 \<equiv> 0x32"
abbreviation Key_3 :: Key where "Key_3 \<equiv> 0x33"
abbreviation Key_4 :: Key where "Key_4 \<equiv> 0x34"
abbreviation Key_5 :: Key where "Key_5 \<equiv> 0x35"
abbreviation Key_6 :: Key where "Key_6 \<equiv> 0x36"
abbreviation Key_7 :: Key where "Key_7 \<equiv> 0x37"
abbreviation Key_8 :: Key where "Key_8 \<equiv> 0x38"
abbreviation Key_9 :: Key where "Key_9 \<equiv> 0x39"
abbreviation Key_A :: Key where "Key_A \<equiv> 0x41"
abbreviation Key_B :: Key where "Key_B \<equiv> 0x42"
abbreviation Key_C :: Key where "Key_C \<equiv> 0x43"
abbreviation Key_D :: Key where "Key_D \<equiv> 0x44"
abbreviation Key_E :: Key where "Key_E \<equiv> 0x45"
abbreviation Key_F :: Key where "Key_F \<equiv> 0x46"
abbreviation Key_G :: Key where "Key_G \<equiv> 0x47"
abbreviation Key_H :: Key where "Key_H \<equiv> 0x48"
abbreviation Key_I :: Key where "Key_I \<equiv> 0x49"
abbreviation Key_J :: Key where "Key_J \<equiv> 0x4A"
abbreviation Key_K :: Key where "Key_K \<equiv> 0x4B"
abbreviation Key_L :: Key where "Key_L \<equiv> 0x4C"
abbreviation Key_M :: Key where "Key_M \<equiv> 0x4D"
abbreviation Key_N :: Key where "Key_N \<equiv> 0x4E"
abbreviation Key_O :: Key where "Key_O \<equiv> 0x4F"
abbreviation Key_P :: Key where "Key_P \<equiv> 0x50"
abbreviation Key_Q :: Key where "Key_Q \<equiv> 0x51"
abbreviation Key_R :: Key where "Key_R \<equiv> 0x52"
abbreviation Key_S :: Key where "Key_S \<equiv> 0x53"
abbreviation Key_T :: Key where "Key_T \<equiv> 0x54"
abbreviation Key_U :: Key where "Key_U \<equiv> 0x55"
abbreviation Key_V :: Key where "Key_V \<equiv> 0x56"
abbreviation Key_W :: Key where "Key_W \<equiv> 0x57"
abbreviation Key_X :: Key where "Key_X \<equiv> 0x58"
abbreviation Key_Y :: Key where "Key_Y \<equiv> 0x59"
abbreviation Key_Z :: Key where "Key_Z \<equiv> 0x5A"
abbreviation Key_Minus :: Key where "Key_Minus \<equiv> 0x5B"
abbreviation Key_Equals :: Key where "Key_Equals \<equiv> 0x5C"
abbreviation Key_LBracket :: Key where "Key_LBracket \<equiv> 0x5D"
abbreviation Key_RBracket :: Key where "Key_RBracket \<equiv> 0x5E"
abbreviation Key_Semicolon :: Key where "Key_Semicolon \<equiv> 0x5F"
abbreviation Key_Quote :: Key where "Key_Quote \<equiv> 0x60"
abbreviation Key_Backtick :: Key where "Key_Backtick \<equiv> 0x61"
abbreviation Key_Backslash :: Key where "Key_Backslash \<equiv> 0x62"
abbreviation Key_Comma :: Key where "Key_Comma \<equiv> 0x63"
abbreviation Key_Period :: Key where "Key_Period \<equiv> 0x64"
abbreviation Key_Slash :: Key where "Key_Slash \<equiv> 0x65"
abbreviation Key_LShift :: Key where "Key_LShift \<equiv> 0x66"
abbreviation Key_RShift :: Key where "Key_RShift \<equiv> 0x67"
abbreviation Key_LCtrl :: Key where "Key_LCtrl \<equiv> 0x68"
abbreviation Key_RCtrl :: Key where "Key_RCtrl \<equiv> 0x69"
abbreviation Key_LAlt :: Key where "Key_LAlt \<equiv> 0x6A"
abbreviation Key_RAlt :: Key where "Key_RAlt \<equiv> 0x6B"
abbreviation Key_CapsLock :: Key where "Key_CapsLock \<equiv> 0x6C"
abbreviation Key_NumLock :: Key where "Key_NumLock \<equiv> 0x6D"
abbreviation Key_ScrollLock :: Key where "Key_ScrollLock \<equiv> 0x6E"
abbreviation Key_Up :: Key where "Key_Up \<equiv> 0x6F"
abbreviation Key_Down :: Key where "Key_Down \<equiv> 0x70"
abbreviation Key_Left :: Key where "Key_Left \<equiv> 0x71"
abbreviation Key_Right :: Key where "Key_Right \<equiv> 0x72"
abbreviation Key_Home :: Key where "Key_Home \<equiv> 0x73"
abbreviation Key_End :: Key where "Key_End \<equiv> 0x74"
abbreviation Key_PageUp :: Key where "Key_PageUp \<equiv> 0x75"
abbreviation Key_PageDown :: Key where "Key_PageDown \<equiv> 0x76"
abbreviation Key_Insert :: Key where "Key_Insert \<equiv> 0x77"
abbreviation Key_Delete :: Key where "Key_Delete \<equiv> 0x78"
abbreviation Key_F1 :: Key where "Key_F1 \<equiv> 0x79"
abbreviation Key_F2 :: Key where "Key_F2 \<equiv> 0x7A"
abbreviation Key_F3 :: Key where "Key_F3 \<equiv> 0x7B"
abbreviation Key_F4 :: Key where "Key_F4 \<equiv> 0x7C"
abbreviation Key_F5 :: Key where "Key_F5 \<equiv> 0x7D"
abbreviation Key_F6 :: Key where "Key_F6 \<equiv> 0x7E"
abbreviation Key_F7 :: Key where "Key_F7 \<equiv> 0x7F"
abbreviation Key_F8 :: Key where "Key_F8 \<equiv> 0x80"
abbreviation Key_F9 :: Key where "Key_F9 \<equiv> 0x81"
abbreviation Key_F10 :: Key where "Key_F10 \<equiv> 0x82"
abbreviation Key_F11 :: Key where "Key_F11 \<equiv> 0x83"
abbreviation Key_F12 :: Key where "Key_F12 \<equiv> 0x84"
abbreviation Key_Keypad0 :: Key where "Key_Keypad0 \<equiv> 0x85"
abbreviation Key_Keypad1 :: Key where "Key_Keypad1 \<equiv> 0x86"
abbreviation Key_Keypad2 :: Key where "Key_Keypad2 \<equiv> 0x87"
abbreviation Key_Keypad3 :: Key where "Key_Keypad3 \<equiv> 0x88"
abbreviation Key_Keypad4 :: Key where "Key_Keypad4 \<equiv> 0x89"
abbreviation Key_Keypad5 :: Key where "Key_Keypad5 \<equiv> 0x8A"
abbreviation Key_Keypad6 :: Key where "Key_Keypad6 \<equiv> 0x8B"
abbreviation Key_Keypad7 :: Key where "Key_Keypad7 \<equiv> 0x8C"
abbreviation Key_Keypad8 :: Key where "Key_Keypad8 \<equiv> 0x8D"
abbreviation Key_Keypad9 :: Key where "Key_Keypad9 \<equiv> 0x8E"
abbreviation Key_KeypadPeriod :: Key where "Key_KeypadPeriod \<equiv> 0x8F"
abbreviation Key_KeypadAsterisk :: Key where "Key_KeypadAsterisk \<equiv> 0x90"
abbreviation Key_KeypadMinus :: Key where "Key_KeypadMinus \<equiv> 0x91"
abbreviation Key_KeypadPlus :: Key where "Key_KeypadPlus \<equiv> 0x92"
abbreviation Key_LGui :: Key where "Key_LGui \<equiv> 0x93"
abbreviation Key_RGui :: Key where "Key_RGui \<equiv> 0x94"
abbreviation Key_Apps :: Key where "Key_Apps \<equiv> 0x95"
abbreviation Key_Unknown :: Key where "Key_Unknown \<equiv> 0x1FFFFFFF"

section \<open>Scan codes\<close>

definition MOD_NONE :: u8 where "MOD_NONE = 0"
definition MOD_SHIFT :: u8 where "MOD_SHIFT = 1"
definition MOD_CTRL :: u8 where "MOD_CTRL = 2"
definition MOD_ALT :: u8 where "MOD_ALT = 4"
definition EXTENDED_TABLE_SIZE :: u8 where "EXTENDED_TABLE_SIZE = 128"

definition scancodeTable :: "(Key \<times> u8) list" where
  "scancodeTable =
    [(Key_Unknown, MOD_NONE), (Key_Escape, MOD_NONE), (Key_1, MOD_NONE), (Key_2, MOD_NONE), (Key_3, MOD_NONE), (Key_4, MOD_NONE),
     (Key_5, MOD_NONE), (Key_6, MOD_NONE), (Key_7, MOD_NONE), (Key_8, MOD_NONE), (Key_9, MOD_NONE), (Key_0, MOD_NONE),
     (Key_Minus, MOD_NONE), (Key_Equals, MOD_NONE), (Key_Backspace, MOD_NONE), (Key_Tab, MOD_NONE), (Key_Q, MOD_NONE),
     (Key_W, MOD_NONE), (Key_E, MOD_NONE), (Key_R, MOD_NONE), (Key_T, MOD_NONE), (Key_Y, MOD_NONE), (Key_U, MOD_NONE),
     (Key_I, MOD_NONE), (Key_O, MOD_NONE), (Key_P, MOD_NONE), (Key_LBracket, MOD_NONE), (Key_RBracket, MOD_NONE),
     (Key_Enter, MOD_NONE), (Key_LCtrl, MOD_CTRL), (Key_A, MOD_NONE), (Key_S, MOD_NONE), (Key_D, MOD_NONE), (Key_F, MOD_NONE),
     (Key_G, MOD_NONE), (Key_H, MOD_NONE), (Key_J, MOD_NONE), (Key_K, MOD_NONE), (Key_L, MOD_NONE), (Key_Semicolon, MOD_NONE),
     (Key_Quote, MOD_NONE), (Key_Backtick, MOD_NONE), (Key_LShift, MOD_SHIFT), (Key_Backslash, MOD_NONE), (Key_Z, MOD_NONE),
     (Key_X, MOD_NONE), (Key_C, MOD_NONE), (Key_V, MOD_NONE), (Key_B, MOD_NONE), (Key_N, MOD_NONE), (Key_M, MOD_NONE),
     (Key_Comma, MOD_NONE), (Key_Period, MOD_NONE), (Key_Slash, MOD_NONE), (Key_RShift, MOD_SHIFT), (Key_KeypadAsterisk, MOD_NONE),
     (Key_LAlt, MOD_ALT), (Key_Space, MOD_NONE), (Key_CapsLock, MOD_NONE), (Key_F1, MOD_NONE), (Key_F2, MOD_NONE), (Key_F3, MOD_NONE),
     (Key_F4, MOD_NONE), (Key_F5, MOD_NONE), (Key_F6, MOD_NONE), (Key_F7, MOD_NONE), (Key_F8, MOD_NONE), (Key_F9, MOD_NONE),
     (Key_F10, MOD_NONE), (Key_NumLock, MOD_NONE), (Key_ScrollLock, MOD_NONE), (Key_Keypad7, MOD_NONE), (Key_Keypad8, MOD_NONE),
     (Key_Keypad9, MOD_NONE), (Key_KeypadMinus, MOD_NONE), (Key_Keypad4, MOD_NONE), (Key_Keypad5, MOD_NONE), (Key_Keypad6, MOD_NONE),
     (Key_KeypadPlus, MOD_NONE), (Key_Keypad1, MOD_NONE), (Key_Keypad2, MOD_NONE), (Key_Keypad3, MOD_NONE), (Key_Keypad0, MOD_NONE),
     (Key_KeypadPeriod, MOD_NONE), (Key_F11, MOD_NONE), (Key_F12, MOD_NONE), (Key_Unknown, MOD_NONE), (Key_Unknown, MOD_NONE),
     (Key_Unknown, MOD_NONE), (Key_Unknown, MOD_NONE), (Key_Unknown, MOD_NONE), (Key_Unknown, MOD_NONE), (Key_Unknown, MOD_NONE),
     (Key_Unknown, MOD_NONE), (Key_Unknown, MOD_NONE), (Key_Unknown, MOD_NONE), (Key_Unknown, MOD_NONE), (Key_Unknown, MOD_NONE),
     (Key_Unknown, MOD_NONE), (Key_Unknown, MOD_NONE), (Key_Unknown, MOD_NONE), (Key_Unknown, MOD_NONE), (Key_Unknown, MOD_NONE),
     (Key_Unknown, MOD_NONE), (Key_Unknown, MOD_NONE), (Key_Unknown, MOD_NONE), (Key_Unknown, MOD_NONE), (Key_Unknown, MOD_NONE),
     (Key_Unknown, MOD_NONE), (Key_Unknown, MOD_NONE), (Key_Unknown, MOD_NONE), (Key_Unknown, MOD_NONE), (Key_Unknown, MOD_NONE),
     (Key_Unknown, MOD_NONE), (Key_Unknown, MOD_NONE), (Key_Unknown, MOD_NONE), (Key_Unknown, MOD_NONE), (Key_Unknown, MOD_NONE),
     (Key_Unknown, MOD_NONE), (Key_Unknown, MOD_NONE), (Key_Unknown, MOD_NONE), (Key_Unknown, MOD_NONE), (Key_Unknown, MOD_NONE),
     (Key_Unknown, MOD_NONE), (Key_Unknown, MOD_NONE), (Key_Unknown, MOD_NONE), (Key_Unknown, MOD_NONE), (Key_Unknown, MOD_NONE)]"

definition extendedTable :: "(Key \<times> u8) list" where
  "extendedTable =
    [(Key_Unknown, MOD_NONE), (Key_Unknown, MOD_NONE), (Key_Unknown, MOD_NONE), (Key_Unknown, MOD_NONE), (Key_Unknown, MOD_NONE),
     (Key_Unknown, MOD_NONE), (Key_Unknown, MOD_NONE), (Key_Unknown, MOD_NONE), (Key_Unknown, MOD_NONE), (Key_Unknown, MOD_NONE),
     (Key_Unknown, MOD_NONE), (Key_Unknown, MOD_NONE), (Key_Unknown, MOD_NONE), (Key_Unknown, MOD_NONE), (Key_Unknown, MOD_NONE),
     (Key_Unknown, MOD_NONE), (Key_Unknown, MOD_NONE), (Key_Unknown, MOD_NONE), (Key_Unknown, MOD_NONE), (Key_Unknown, MOD_NONE),
     (Key_Unknown, MOD_NONE), (Key_Unknown, MOD_NONE), (Key_Unknown, MOD_NONE), (Key_Unknown, MOD_NONE), (Key_Unknown, MOD_NONE),
     (Key_Unknown, MOD_NONE), (Key_Unknown, MOD_NONE), (Key_Unknown, MOD_NONE), (Key_Unknown, MOD_NONE), (Key_RCtrl, MOD_CTRL),
     (Key_Unknown, MOD_NONE), (Key_Unknown, MOD_NONE), (Key_Unknown, MOD_NONE), (Key_Unknown, MOD_NONE), (Key_Unknown, MOD_NONE),
     (Key_Unknown, MOD_NONE), (Key_Unknown, MOD_NONE), (Key_Unknown, MOD_NONE), (Key_Unknown, MOD_NONE), (Key_Unknown, MOD_NONE),
     (Key_Unknown, MOD_NONE), (Key_Unknown, MOD_NONE), (Key_Unknown, MOD_NONE), (Key_Unknown, MOD_NONE), (Key_Unknown, MOD_NONE),
     (Key_Unknown, MOD_NONE), (Key_Unknown, MOD_NONE), (Key_Unknown, MOD_NONE), (Key_Unknown, MOD_NONE), (Key_Unknown, MOD_NONE),
     (Key_Unknown, MOD_NONE), (Key_Unknown, MOD_NONE), (Key_Unknown, MOD_NONE), (Key_Unknown, MOD_NONE), (Key_Unknown, MOD_NONE),
     (Key_Unknown, MOD_NONE), (Key_RAlt, MOD_ALT), (Key_Unknown, MOD_NONE), (Key_Unknown, MOD_NONE), (Key_Unknown, MOD_NONE),
     (Key_Unknown, MOD_NONE), (Key_Unknown, MOD_NONE), (Key_Unknown, MOD_NONE), (Key_Unknown, MOD_NONE), (Key_Unknown, MOD_NONE),
     (Key_Unknown, MOD_NONE), (Key_Unknown, MOD_NONE), (Key_Unknown, MOD_NONE), (Key_Unknown, MOD_NONE), (Key_Unknown, MOD_NONE),
     (Key_Unknown, MOD_NONE), (Key_Home, MOD_NONE), (Key_Up, MOD_NONE), (Key_PageUp, MOD_NONE), (Key_Unknown, MOD_NONE),
     (Key_Left, MOD_NONE), (Key_Unknown, MOD_NONE), (Key_Right, MOD_NONE), (Key_Unknown, MOD_NONE), (Key_End, MOD_NONE),
     (Key_Down, MOD_NONE), (Key_PageDown, MOD_NONE), (Key_Insert, MOD_NONE), (Key_Delete, MOD_NONE), (Key_Unknown, MOD_NONE),
     (Key_Unknown, MOD_NONE), (Key_Unknown, MOD_NONE), (Key_Unknown, MOD_NONE), (Key_Unknown, MOD_NONE), (Key_Unknown, MOD_NONE),
     (Key_Unknown, MOD_NONE), (Key_LGui, MOD_NONE), (Key_RGui, MOD_NONE), (Key_Apps, MOD_NONE), (Key_Unknown, MOD_NONE),
     (Key_Unknown, MOD_NONE), (Key_Unknown, MOD_NONE), (Key_Unknown, MOD_NONE), (Key_Unknown, MOD_NONE), (Key_Unknown, MOD_NONE),
     (Key_Unknown, MOD_NONE), (Key_Unknown, MOD_NONE), (Key_Unknown, MOD_NONE), (Key_Unknown, MOD_NONE), (Key_Unknown, MOD_NONE),
     (Key_Unknown, MOD_NONE), (Key_Unknown, MOD_NONE), (Key_Unknown, MOD_NONE), (Key_Unknown, MOD_NONE), (Key_Unknown, MOD_NONE),
     (Key_Unknown, MOD_NONE), (Key_Unknown, MOD_NONE), (Key_Unknown, MOD_NONE), (Key_Unknown, MOD_NONE), (Key_Unknown, MOD_NONE),
     (Key_Unknown, MOD_NONE), (Key_Unknown, MOD_NONE), (Key_Unknown, MOD_NONE), (Key_Unknown, MOD_NONE), (Key_Unknown, MOD_NONE),
     (Key_Unknown, MOD_NONE), (Key_Unknown, MOD_NONE), (Key_Unknown, MOD_NONE), (Key_Unknown, MOD_NONE), (Key_Unknown, MOD_NONE),
     (Key_Unknown, MOD_NONE), (Key_Unknown, MOD_NONE), (Key_Unknown, MOD_NONE)]"

text \<open>Both table accesses are in range: the index is below 128.\<close>

definition lookupScancode :: "u8 \<Rightarrow> bool \<Rightarrow> Key \<times> u8" where
  "lookupScancode scancode extended =
     (if extended \<and> scancode < EXTENDED_TABLE_SIZE then extendedTable ! unat scancode
      else scancodeTable ! unat (and scancode 0x7F))"

definition scancodeToKey :: "u8 \<Rightarrow> bool \<Rightarrow> Key" where
  "scancodeToKey scancode extended = fst (lookupScancode scancode extended)"

section \<open>Characters\<close>

definition symbolTable :: "(Key \<times> u8 \<times> u8) list" where
  "symbolTable =
    [(Key_Space, 0x20, 0x20), (Key_Backtick, 0x60, 0x7E), (Key_Minus, 0x2D, 0x5F), (Key_Equals, 0x3D, 0x2B),
     (Key_LBracket, 0x5B, 0x7B), (Key_RBracket, 0x5D, 0x7D), (Key_Backslash, 0x5C, 0x7C), (Key_Semicolon, 0x3B, 0x3A),
     (Key_Quote, 0x27, 0x22), (Key_Comma, 0x2C, 0x3C), (Key_Period, 0x2E, 0x3E), (Key_Slash, 0x2F, 0x3F)]"

definition shiftedDigits :: "u8 list" where
  "shiftedDigits = [0x29, 0x21, 0x40, 0x23, 0x24, 0x25, 0x5E, 0x26, 0x2A, 0x28]"

definition toText :: "Key \<Rightarrow> bool \<Rightarrow> bool \<Rightarrow> bool \<Rightarrow> u8" where
  "toText key shift ctrl caps =
     (let ukey = key in
      if ctrl then
        (if ukey \<ge> Key_A \<and> ukey \<le> Key_Z then ucast (ukey - 0x40) else 0)
      else if ukey \<ge> Key_A \<and> ukey \<le> Key_Z then
        (if shift \<noteq> caps then ucast ukey else ucast (ukey + 0x20))
      else if ukey \<ge> Key_0 \<and> ukey \<le> Key_9 then
        (if shift then shiftedDigits ! unat (ukey - Key_0) else ucast ukey)
      else case find (\<lambda>e. fst e = key) symbolTable of
        Some (_, unshifted, shifted) \<Rightarrow> if shift then shifted else unshifted
      | None \<Rightarrow>
          if key = Key_Tab then 0x09 else if key = Key_Enter then 0x0A
          else if key = Key_Backspace then 0x08 else if key = Key_Escape then 0x1B else 0)"

lemma table_lengths [simp]: "length scancodeTable = 128" "length extendedTable = 128"
  by (simp_all add: scancodeTable_def extendedTable_def)

section \<open>Every printable character can be typed\<close>

text \<open>The key press (scan code and shift) for each character from the space to the tilde.\<close>

definition ascii_presses :: "(u8 \<times> bool) list" where
  "ascii_presses =
    [(0x39, False), (0x2, True), (0x28, True), (0x4, True), (0x5, True), (0x6, True), (0x8, True), (0x28, False), (0xA, True),
     (0xB, True), (0x9, True), (0xD, True), (0x33, False), (0xC, False), (0x34, False), (0x35, False), (0xB, False), (0x2, False),
     (0x3, False), (0x4, False), (0x5, False), (0x6, False), (0x7, False), (0x8, False), (0x9, False), (0xA, False), (0x27, True),
     (0x27, False), (0x33, True), (0xD, False), (0x34, True), (0x35, True), (0x3, True), (0x1E, True), (0x30, True), (0x2E, True),
     (0x20, True), (0x12, True), (0x21, True), (0x22, True), (0x23, True), (0x17, True), (0x24, True), (0x25, True), (0x26, True),
     (0x32, True), (0x31, True), (0x18, True), (0x19, True), (0x10, True), (0x13, True), (0x1F, True), (0x14, True), (0x16, True),
     (0x2F, True), (0x11, True), (0x2D, True), (0x15, True), (0x2C, True), (0x1A, False), (0x2B, False), (0x1B, False),
     (0x7, True), (0xC, True), (0x29, False), (0x1E, False), (0x30, False), (0x2E, False), (0x20, False), (0x12, False),
     (0x21, False), (0x22, False), (0x23, False), (0x17, False), (0x24, False), (0x25, False), (0x26, False), (0x32, False),
     (0x31, False), (0x18, False), (0x19, False), (0x10, False), (0x13, False), (0x1F, False), (0x14, False), (0x16, False),
     (0x2F, False), (0x11, False), (0x2D, False), (0x15, False), (0x2C, False), (0x1A, True), (0x2B, True), (0x1B, True),
     (0x29, True)]"

lemma ascii_presses_text:
  "map (\<lambda>(sc, sh). toText (scancodeToKey sc False) sh False False) ascii_presses = map word_of_nat [0x20..<0x7F]"
  by (simp add: ascii_presses_def scancodeToKey_def lookupScancode_def scancodeTable_def toText_def symbolTable_def shiftedDigits_def
      upt_rec)

lemma printable_typed:
  assumes "0x20 \<le> c" "c \<le> 0x7E"
  shows "\<exists>sc sh. toText (scancodeToKey sc False) sh False False = c"
proof -
  have "0x20 \<le> unat c \<and> unat c < 0x7F" using assms by (simp add: word_le_nat_alt)
  then have "unat c \<in> set [0x20..<0x7F]" by (simp only: set_upt atLeastLessThan_iff)
  then have "c \<in> set (map word_of_nat [0x20..<0x7F])" unfolding set_map by (intro image_eqI [of _ _ "unat c"]) simp_all
  then show ?thesis unfolding ascii_presses_text [symmetric] by auto
qed

end
