(* ===== verification/Kbd.thy ===== *)
theory Kbd
  imports Kernel Keymap
begin

unbundle bit_operations_syntax

text \<open>
  The keyboard driver (kernel/arch/i386/Kbd.cc): the interrupt handler, the ring buffer of 256 characters, the navigation counters
  and the waiting of readers. The handler gets the byte of the data port as an argument. Unmasking the interrupt line is not
  modelled, and the counters are unbounded integers.

  Shown: the contract of a bounded queue (a locale) holds for typing printable characters and reading them, in any interleaving;
  and what happens when the buffer overruns.
\<close>

section \<open>State\<close>

definition BUF_SIZE :: nat where "BUF_SIZE = 256"

text \<open>\<open>head_\<close> and \<open>tail_\<close> count characters modulo \<open>2 ^ 32\<close>; only the index is reduced modulo the size.\<close>

record kbd = proc +
  kbdBuffer :: "u8 list"
  kbdHead :: u32
  kbdTail :: u32
  shiftPressed :: bool
  ctrlPressed :: bool
  altPressed :: bool
  capsLock :: bool
  pendingUp :: int
  pendingDown :: int
  pendingLeft :: int
  pendingRight :: int
  pendingPageUp :: int
  pendingPageDown :: int
  pendingHome :: int
  pendingEnd :: int
  available :: semaphore
  extendedPrefix :: bool

datatype KbdKey = Kbd_Unknown | Kbd_Up | Kbd_Down | Kbd_Left | Kbd_Right | Kbd_PageUp | Kbd_PageDown | Kbd_Home | Kbd_End | Kbd_Char

record KeyEvent =
  ev_key :: KbdKey
  ev_ch :: u8

section \<open>Operations\<close>

definition clearNavigation :: "'a kbd_scheme \<Rightarrow> 'a kbd_scheme" where
  "clearNavigation s =
     s\<lparr>pendingUp := 0, pendingDown := 0, pendingLeft := 0, pendingRight := 0, pendingPageUp := 0, pendingPageDown := 0,
       pendingHome := 0, pendingEnd := 0\<rparr>"

text \<open>Unmasking the interrupt line is not modelled.\<close>

definition kbd_init :: "'a kbd_scheme \<Rightarrow> 'a kbd_scheme" where
  "kbd_init s =
     (clearNavigation (s\<lparr>kbdHead := 0, kbdTail := 0, shiftPressed := False, ctrlPressed := False, altPressed := False,
                         capsLock := False\<rparr>))\<lparr>extendedPrefix := False\<rparr>"

definition pushChar :: "u8 \<Rightarrow> 'a kbd_scheme \<Rightarrow> 'a kbd_scheme" where
  "pushChar ch s =
     (let s1 = s\<lparr>kbdHead := kbdHead s + 1, kbdBuffer := (kbdBuffer s)[unat (kbdHead s) mod BUF_SIZE := ch]\<rparr>;
          (m, s2) = sem_signal (available s1) s1
      in s2\<lparr>available := m\<rparr>)"

definition charAvail :: "'a kbd_scheme \<Rightarrow> bool" where
  "charAvail s \<longleftrightarrow> kbdHead s \<noteq> kbdTail s"

text \<open>\<open>getChar\<close> spins until a character is there; None is the spinning state.\<close>

definition getChar :: "'a kbd_scheme \<Rightarrow> (u8 \<times> 'a kbd_scheme) option" where
  "getChar s =
     (if \<not> charAvail s then None
      else Some (kbdBuffer s ! (unat (kbdTail s) mod BUF_SIZE), s\<lparr>kbdTail := kbdTail s + 1\<rparr>))"

definition waitForChar :: "'a kbd_scheme \<Rightarrow> (sem_outcome \<times> 'a kbd_scheme) kres" where
  "waitForChar s = kbind (sem_wait (available s) s) (\<lambda>(r, m, s1). kret (r, s1\<lparr>available := m\<rparr>))"

definition tryReadKey :: "'a kbd_scheme \<Rightarrow> KeyEvent \<times> 'a kbd_scheme" where
  "tryReadKey s =
     (let ev = (\<lambda>k. \<lparr>ev_key = k, ev_ch = 0\<rparr>) in
      if pendingUp s > 0 then (ev Kbd_Up, s\<lparr>pendingUp := pendingUp s - 1\<rparr>)
      else if pendingDown s > 0 then (ev Kbd_Down, s\<lparr>pendingDown := pendingDown s - 1\<rparr>)
      else if pendingLeft s > 0 then (ev Kbd_Left, s\<lparr>pendingLeft := pendingLeft s - 1\<rparr>)
      else if pendingRight s > 0 then (ev Kbd_Right, s\<lparr>pendingRight := pendingRight s - 1\<rparr>)
      else if pendingPageUp s > 0 then (ev Kbd_PageUp, s\<lparr>pendingPageUp := pendingPageUp s - 1\<rparr>)
      else if pendingPageDown s > 0 then (ev Kbd_PageDown, s\<lparr>pendingPageDown := pendingPageDown s - 1\<rparr>)
      else if pendingHome s > 0 then (ev Kbd_Home, s\<lparr>pendingHome := pendingHome s - 1\<rparr>)
      else if pendingEnd s > 0 then (ev Kbd_End, s\<lparr>pendingEnd := pendingEnd s - 1\<rparr>)
      else if kbdHead s \<noteq> kbdTail s
      then (\<lparr>ev_key = Kbd_Char, ev_ch = kbdBuffer s ! (unat (kbdTail s) mod BUF_SIZE)\<rparr>, s\<lparr>kbdTail := kbdTail s + 1\<rparr>)
      else (ev Kbd_Unknown, s))"

text \<open>A navigation key raises a counter on its make code.\<close>

definition nav_key :: "Key \<Rightarrow> 'a kbd_scheme \<Rightarrow> 'a kbd_scheme" where
  "nav_key key s =
     (if key = Key_Up then s\<lparr>pendingUp := pendingUp s + 1\<rparr>
      else if key = Key_Down then s\<lparr>pendingDown := pendingDown s + 1\<rparr>
      else if key = Key_Left then s\<lparr>pendingLeft := pendingLeft s + 1\<rparr>
      else if key = Key_Right then s\<lparr>pendingRight := pendingRight s + 1\<rparr>
      else if key = Key_PageUp then s\<lparr>pendingPageUp := pendingPageUp s + 1\<rparr>
      else if key = Key_PageDown then s\<lparr>pendingPageDown := pendingPageDown s + 1\<rparr>
      else if key = Key_Home then
        (if shiftPressed s then s\<lparr>pendingEnd := pendingEnd s + 1\<rparr> else s\<lparr>pendingHome := pendingHome s + 1\<rparr>)
      else if key = Key_End then s\<lparr>pendingEnd := pendingEnd s + 1\<rparr>
      else s)"

definition is_nav :: "Key \<Rightarrow> bool" where
  "is_nav key \<longleftrightarrow> key = Key_Up \<or> key = Key_Down \<or> key = Key_Left \<or> key = Key_Right \<or> key = Key_PageUp
     \<or> key = Key_PageDown \<or> key = Key_Home \<or> key = Key_End"

text \<open>\<open>capsIsCtrl\<close> is the build option \<open>CAPS_LOCK_IS_CTRL\<close>.\<close>

definition processScancode :: "bool \<Rightarrow> u8 \<Rightarrow> bool \<Rightarrow> 'a kbd_scheme \<Rightarrow> 'a kbd_scheme" where
  "processScancode capsIsCtrl scancode extended s =
     (let (key, md) = lookupScancode (scancode AND 0x7F) extended;
          release = (scancode AND 0x80 \<noteq> 0)
      in if key = Key_CapsLock then
           (if capsIsCtrl then s\<lparr>ctrlPressed := \<not> release\<rparr>
            else if \<not> release then s\<lparr>capsLock := \<not> capsLock s\<rparr> else s)
         else if md \<noteq> MOD_NONE then
           (if md = MOD_SHIFT then s\<lparr>shiftPressed := \<not> release\<rparr>
            else if md = MOD_CTRL then s\<lparr>ctrlPressed := \<not> release\<rparr>
            else if md = MOD_ALT then s\<lparr>altPressed := \<not> release\<rparr>
            else s)
         else if is_nav key then (if \<not> release then nav_key key s else s)
         else if release then s
         else let ch = toText key (shiftPressed s) (ctrlPressed s) (capsLock s)
              in if ch \<noteq> 0 then pushChar ch s else s)"

text \<open>The interrupt handler gets the byte read from the data port.\<close>

definition kbd_isr :: "bool \<Rightarrow> u8 \<Rightarrow> 'a kbd_scheme \<Rightarrow> 'a kbd_scheme" where
  "kbd_isr capsIsCtrl scancode s =
     (if scancode = 0xE0 then s\<lparr>extendedPrefix := True\<rparr>
      else processScancode capsIsCtrl scancode (extendedPrefix s) (s\<lparr>extendedPrefix := False\<rparr>))"

section \<open>The character queue\<close>

text \<open>The characters between tail and head, oldest first.\<close>

definition kbd_chars :: "'a kbd_scheme \<Rightarrow> u8 list" where
  "kbd_chars s = map (\<lambda>i. kbdBuffer s ! ((unat (kbdTail s) + i) mod BUF_SIZE)) [0..<unat (kbdHead s - kbdTail s)]"

lemma mod_wrap: "unat (a + b :: u32) mod BUF_SIZE = (unat a + unat b) mod BUF_SIZE"
proof -
  have "unat (a + b) = (unat a + unat b) mod 4294967296" by (simp add: unat_word_ariths)
  moreover have "(BUF_SIZE :: nat) dvd 4294967296" by (simp add: BUF_SIZE_def)
  ultimately show ?thesis by (simp add: mod_mod_cancel)
qed

lemma head_index: "unat (kbdHead s) mod BUF_SIZE = (unat (kbdTail s) + unat (kbdHead s - kbdTail s)) mod BUF_SIZE"
  using mod_wrap [of "kbdTail s" "kbdHead s - kbdTail s"] by simp

lemma programForMs_outer_more: "sched.more (programForMs ms s) = sched.more s"
  unfolding programForMs_def setDivisor_def Let_def by simp

lemma unblockTask_more: "sched.more (unblockTask i s) = sched.more s"
  by (simp add: unblockTask_def upd_task_def removeFromSleepQueue_def programForMs_outer_more Let_def)

lemma more_kbd:
  assumes "sched.more s' = sched.more s"
  shows "kbdBuffer s' = kbdBuffer s" "kbdHead s' = kbdHead s" "kbdTail s' = kbdTail s" "shiftPressed s' = shiftPressed s"
    "ctrlPressed s' = ctrlPressed s" "capsLock s' = capsLock s" "extendedPrefix s' = extendedPrefix s"
  using assms by (cases s; cases s'; simp)+

lemma sem_signal_more: "sem_signal m s = (m', s') \<Longrightarrow> sched.more s' = sched.more s"
  by (auto simp: sem_signal_def unblockTask_more split: list.splits)

lemmas sem_signal_kbd = sem_signal_more [THEN more_kbd(1)] sem_signal_more [THEN more_kbd(2)] sem_signal_more [THEN more_kbd(3)]
  sem_signal_more [THEN more_kbd(4)] sem_signal_more [THEN more_kbd(5)] sem_signal_more [THEN more_kbd(6)]
  sem_signal_more [THEN more_kbd(7)]

lemma pushChar_fields:
  "kbdBuffer (pushChar c s) = (kbdBuffer s)[unat (kbdHead s) mod BUF_SIZE := c]" "kbdHead (pushChar c s) = kbdHead s + 1"
  "kbdTail (pushChar c s) = kbdTail s" "shiftPressed (pushChar c s) = shiftPressed s" "ctrlPressed (pushChar c s) = ctrlPressed s"
  "capsLock (pushChar c s) = capsLock s" "extendedPrefix (pushChar c s) = extendedPrefix s"
  by (simp_all add: pushChar_def Let_def sem_signal_kbd split: prod.splits)

lemma add_mod_inj: "i < BUF_SIZE \<Longrightarrow> j < BUF_SIZE \<Longrightarrow> (a + i) mod BUF_SIZE = (a + j) mod BUF_SIZE \<Longrightarrow> i = j"
proof -
  assume a: "i < BUF_SIZE" "j < BUF_SIZE" "(a + i) mod BUF_SIZE = (a + j) mod BUF_SIZE"
  then have "(int a + int i) mod int BUF_SIZE = (int a + int j) mod int BUF_SIZE" by (metis of_nat_add of_nat_mod)
  then have "int BUF_SIZE dvd int i - int j" by (simp add: mod_eq_dvd_iff)
  moreover have "\<bar>int i - int j\<bar> < int BUF_SIZE" using a by linarith
  ultimately show "i = j" using dvd_imp_le_int [of "int i - int j" "int BUF_SIZE"] by (cases "i = j") auto
qed

lemma pushChar_queue:
  assumes "length (kbdBuffer s) = BUF_SIZE" "length (kbd_chars s) < BUF_SIZE"
  shows "kbd_chars (pushChar c s) = kbd_chars s @ [c]"
proof -
  let ?n = "unat (kbdHead s - kbdTail s)"
  have n: "?n < BUF_SIZE" using assms(2) by (simp add: kbd_chars_def)
  have e: "kbdHead s + 1 - kbdTail s = (kbdHead s - kbdTail s) + 1" by simp
  have n1: "unat (kbdHead s + 1 - kbdTail s) = Suc ?n" unfolding e using n
    by (subst unat_word_ariths) (simp add: BUF_SIZE_def)
  have keep: "(kbdBuffer s)[unat (kbdHead s) mod BUF_SIZE := c] ! ((unat (kbdTail s) + i) mod BUF_SIZE)
      = kbdBuffer s ! ((unat (kbdTail s) + i) mod BUF_SIZE)" if "i < ?n" for i
  proof -
    have "unat (kbdHead s) mod BUF_SIZE \<noteq> (unat (kbdTail s) + i) mod BUF_SIZE"
      unfolding head_index using that n add_mod_inj [of i ?n "unat (kbdTail s)"] by auto
    then show ?thesis by (rule nth_list_update_neq)
  qed
  have new: "(kbdBuffer s)[unat (kbdHead s) mod BUF_SIZE := c] ! ((unat (kbdTail s) + ?n) mod BUF_SIZE) = c"
    unfolding head_index using assms(1) by (simp add: BUF_SIZE_def)
  show ?thesis unfolding kbd_chars_def pushChar_fields n1 using keep new by simp
qed

lemma charAvail_queue: "charAvail s \<longleftrightarrow> kbd_chars s \<noteq> []"
  by (auto simp: charAvail_def kbd_chars_def unat_eq_0)

lemma getChar_queue:
  assumes "kbd_chars s = c # cs"
  shows "\<exists>s'. getChar s = Some (c, s') \<and> kbd_chars s' = cs \<and> s' = s\<lparr>kbdTail := kbdTail s + 1\<rparr>"
proof -
  let ?n = "unat (kbdHead s - kbdTail s)" and ?s = "s\<lparr>kbdTail := kbdTail s + 1\<rparr>"
  have n: "0 < ?n" using assms by (cases ?n) (simp_all add: kbd_chars_def)
  then have ne: "kbdHead s - kbdTail s \<noteq> 0" by auto
  have e: "kbdHead s - (kbdTail s + 1) = (kbdHead s - kbdTail s) - 1" by simp
  have n1: "unat (kbdHead s - (kbdTail s + 1)) = ?n - 1" unfolding e by (rule unat_minus_one [OF ne])
  have split: "[0..<?n] = 0 # map Suc [0..<?n - 1]" using n by (simp add: upt_conv_Cons map_Suc_upt)
  have q: "kbd_chars s = kbdBuffer s ! (unat (kbdTail s) mod BUF_SIZE)
      # map (\<lambda>i. kbdBuffer s ! ((unat (kbdTail s) + Suc i) mod BUF_SIZE)) [0..<?n - 1]"
    unfolding kbd_chars_def split by simp
  have w: "(unat (kbdTail s + 1) + i) mod BUF_SIZE = (unat (kbdTail s) + Suc i) mod BUF_SIZE" for i
  proof -
    have "(unat (kbdTail s + 1) + i) mod BUF_SIZE = (unat (kbdTail s + 1) mod BUF_SIZE + i) mod BUF_SIZE"
      by (rule mod_add_left_eq [symmetric])
    also have "\<dots> = (unat (kbdTail s) + 1 + i) mod BUF_SIZE"
      unfolding mod_wrap [of "kbdTail s" 1] unat_1 by (rule mod_add_left_eq)
    finally show ?thesis by simp
  qed
  have "kbd_chars ?s = map (\<lambda>i. kbdBuffer s ! ((unat (kbdTail s) + Suc i) mod BUF_SIZE)) [0..<?n - 1]"
    by (simp add: kbd_chars_def n1 w)
  with q assms have "kbd_chars ?s = cs" "kbdBuffer s ! (unat (kbdTail s) mod BUF_SIZE) = c" by simp_all
  moreover have "charAvail s" using assms by (simp add: charAvail_queue)
  ultimately show ?thesis by (simp add: getChar_def)
qed


section \<open>A bounded queue as an interface\<close>

text \<open>Writers and readers in any order; a reader that finds the queue empty keeps spinning.\<close>

datatype queue_op = Put u8 | Get

fun queue_run :: "(u8 \<Rightarrow> 's \<Rightarrow> 's) \<Rightarrow> ('s \<Rightarrow> (u8 \<times> 's) option) \<Rightarrow> queue_op list \<Rightarrow> 's \<Rightarrow> u8 list \<times> 's" where
  "queue_run put get [] s = ([], s)"
| "queue_run put get (Put c # ops) s = queue_run put get ops (put c s)"
| "queue_run put get (Get # ops) s =
     (case get s of
        None \<Rightarrow> queue_run put get ops s
      | Some (c, s1) \<Rightarrow> let (cs, s2) = queue_run put get ops s1 in (c # cs, s2))"

text \<open>The written characters, and the bound: at no time are more than \<open>cap\<close> characters pending.\<close>

definition puts_of :: "queue_op list \<Rightarrow> u8 list" where
  "puts_of ops = concat (map (\<lambda>x. case x of Put c \<Rightarrow> [c] | Get \<Rightarrow> []) ops)"

fun within :: "nat \<Rightarrow> nat \<Rightarrow> queue_op list \<Rightarrow> bool" where
  "within cap n [] \<longleftrightarrow> True"
| "within cap n (Put c # ops) \<longleftrightarrow> n < cap \<and> within cap (Suc n) ops"
| "within cap n (Get # ops) \<longleftrightarrow> within cap (n - 1) ops"

locale bounded_fifo =
  fixes put :: "u8 \<Rightarrow> 's \<Rightarrow> 's"
    and get :: "'s \<Rightarrow> (u8 \<times> 's) option"
    and content :: "'s \<Rightarrow> u8 list"
    and ok :: "'s \<Rightarrow> bool"
    and valid :: "u8 \<Rightarrow> bool"
    and cap :: nat
  assumes put_back: "ok s \<Longrightarrow> valid c \<Longrightarrow> length (content s) < cap \<Longrightarrow> ok (put c s) \<and> content (put c s) = content s @ [c]"
    and get_front: "ok s \<Longrightarrow> content s = c # cs \<Longrightarrow> \<exists>s'. get s = Some (c, s') \<and> ok s' \<and> content s' = cs"
    and get_empty: "content s = [] \<Longrightarrow> get s = None"
begin

lemma stream:
  assumes "ok s" "\<forall>c\<in>set (puts_of ops). valid c" "within cap (length (content s)) ops" "queue_run put get ops s = (out, s')"
  shows "out @ content s' = content s @ puts_of ops"
  using assms
proof (induction ops arbitrary: s out)
  case Nil
  then show ?case by (simp add: puts_of_def)
next
  case (Cons x ops)
  show ?case
  proof (cases x)
    case (Put c)
    with Cons.prems have "valid c" "length (content s) < cap" by (auto simp: puts_of_def)
    with put_back Cons.prems(1) have p: "ok (put c s)" "content (put c s) = content s @ [c]" by auto
    have "out @ content s' = content (put c s) @ puts_of ops"
      by (rule Cons.IH) (use p Put Cons.prems in \<open>auto simp: puts_of_def\<close>)
    then show ?thesis using p Put by (simp add: puts_of_def)
  next
    case Get
    show ?thesis
    proof (cases "content s")
      case Nil
      have "out @ content s' = content s @ puts_of ops"
        by (rule Cons.IH) (use Nil Get get_empty Cons.prems in \<open>auto simp: puts_of_def\<close>)
      then show ?thesis using Get by (simp add: puts_of_def)
    next
      case (Cons c cs)
      with get_front Cons.prems(1) obtain s1 where g: "get s = Some (c, s1)" "ok s1" "content s1 = cs" by blast
      with Get \<open>queue_run put get (x # ops) s = (out, s')\<close> obtain out1 where
        r: "queue_run put get ops s1 = (out1, s')" "out = c # out1" by (auto split: prod.splits)
      have "out1 @ content s' = content s1 @ puts_of ops"
        by (rule Cons.IH) (use g r Get Cons Cons.prems in \<open>auto simp: puts_of_def\<close>)
      then show ?thesis using g r Get Cons by (simp add: puts_of_def)
    qed
  qed
qed

end

section \<open>From key presses to characters\<close>

text \<open>The bytes the keyboard sends when a printable character is typed: shift down, the key down and up, shift up.\<close>

definition presses :: "u8 \<Rightarrow> u8 list" where
  "presses c =
     (let (sc, sh) = ascii_presses ! (unat c - 0x20)
      in if sh then [0x2A, sc, sc OR 0x80, 0xAA] else [sc, sc OR 0x80])"

definition typeKey :: "bool \<Rightarrow> u8 \<Rightarrow> 'a kbd_scheme \<Rightarrow> 'a kbd_scheme" where
  "typeKey capsIsCtrl c s = fold (kbd_isr capsIsCtrl) (presses c) s"

text \<open>No modifier is held and no prefix byte is pending.\<close>

definition keys_up :: "'a kbd_scheme \<Rightarrow> bool" where
  "keys_up s \<longleftrightarrow> \<not> shiftPressed s \<and> \<not> ctrlPressed s \<and> \<not> capsLock s \<and> \<not> extendedPrefix s"

definition printable :: "u8 \<Rightarrow> bool" where
  "printable c \<longleftrightarrow> 0x20 \<le> c \<and> c \<le> 0x7E"

definition plain_press :: "u8 \<Rightarrow> bool" where
  "plain_press sc \<longleftrightarrow> sc AND 0x80 = 0 \<and> sc \<noteq> 0xE0 \<and> sc OR 0x80 \<noteq> 0xE0 \<and> sc AND 0x7F = sc \<and> (sc OR 0x80) AND 0x7F = sc
     \<and> (sc OR 0x80) AND 0x80 \<noteq> 0
     \<and> (case lookupScancode sc False of (key, md) \<Rightarrow> key \<noteq> Key_CapsLock \<and> md = MOD_NONE \<and> \<not> is_nav key)"

lemma presses_plain: "\<forall>p\<in>set ascii_presses. plain_press (fst p)"
  by (simp add: ascii_presses_def plain_press_def lookupScancode_def scancodeTable_def is_nav_def MOD_NONE_def)

lemma no_prefix: "\<not> extendedPrefix s \<Longrightarrow> s\<lparr>extendedPrefix := False\<rparr> = s"
  by (cases s) simp

lemma isr_plain:
  assumes "sc \<noteq> 0xE0" "\<not> extendedPrefix s"
  shows "kbd_isr k sc s = processScancode k sc False s"
  unfolding kbd_isr_def no_prefix [OF assms(2)] using assms by simp

lemma isr_make:
  assumes "plain_press sc" "\<not> extendedPrefix s" "toText (scancodeToKey sc False) (shiftPressed s) (ctrlPressed s) (capsLock s) = ch"
    "ch \<noteq> 0"
  shows "kbd_isr k sc s = pushChar ch s"
proof -
  obtain key md where l: "lookupScancode sc False = (key, md)" by fastforce
  have k: "key \<noteq> Key_CapsLock" "md = MOD_NONE" "\<not> is_nav key" "sc AND 0x80 = 0" "sc AND 0x7F = sc" "sc \<noteq> 0xE0"
    using assms(1) l by (auto simp: plain_press_def)
  have "toText key (shiftPressed s) (ctrlPressed s) (capsLock s) = ch" using assms(3) l by (simp add: scancodeToKey_def)
  then show ?thesis
    unfolding isr_plain [OF k(6) assms(2)] processScancode_def k(4,5) l prod.case Let_def using k(1-3) assms(4) by simp
qed

lemma isr_break:
  assumes "plain_press sc" "\<not> extendedPrefix s"
  shows "kbd_isr k (sc OR 0x80) s = s"
proof -
  obtain key md where l: "lookupScancode sc False = (key, md)" by fastforce
  have k: "key \<noteq> Key_CapsLock" "md = MOD_NONE" "\<not> is_nav key" "(sc OR 0x80) AND 0x7F = sc" "sc OR 0x80 \<noteq> 0xE0"
    "(sc OR 0x80) AND 0x80 \<noteq> 0" using assms(1) l by (auto simp: plain_press_def)
  show ?thesis
    unfolding isr_plain [OF k(5) assms(2)] processScancode_def k(4) l prod.case Let_def using k(1-3,6) by simp
qed

lemma isr_shift:
  "\<not> extendedPrefix s \<Longrightarrow> kbd_isr k 0x2A s = s\<lparr>shiftPressed := True\<rparr>"
  "\<not> extendedPrefix s \<Longrightarrow> kbd_isr k 0xAA s = s\<lparr>shiftPressed := False\<rparr>"
  by (simp_all add: isr_plain processScancode_def lookupScancode_def scancodeTable_def MOD_NONE_def MOD_SHIFT_def)

lemma printable_press:
  assumes "printable c"
  obtains sc sh where "ascii_presses ! (unat c - 0x20) = (sc, sh)" "plain_press sc" "toText (scancodeToKey sc False) sh False False = c"
proof -
  have c: "0x20 \<le> unat c" "unat c < 0x7F" using assms by (simp_all add: printable_def word_le_nat_alt)
  let ?i = "unat c - 0x20"
  have l: "length ascii_presses = 95" by (simp add: ascii_presses_def)
  obtain sc sh where p: "ascii_presses ! ?i = (sc, sh)" by fastforce
  have "[0x20..<0x7F] ! ?i = unat c" using c by (subst nth_upt) linarith+
  moreover have "map (\<lambda>(sc, sh). toText (scancodeToKey sc False) sh False False) ascii_presses ! ?i
      = word_of_nat ([0x20..<0x7F] ! ?i)"
    unfolding ascii_presses_text using c by (intro nth_map) (simp only: length_upt)
  ultimately have "map (\<lambda>(sc, sh). toText (scancodeToKey sc False) sh False False) ascii_presses ! ?i = word_of_nat (unat c)"
    by (simp only:)
  then have "toText (scancodeToKey sc False) sh False False = c" using c l p by (simp add: nth_map)
  moreover have "(sc, sh) \<in> set ascii_presses" using c l p nth_mem [of ?i ascii_presses] by simp
  ultimately show ?thesis using p presses_plain that by fastforce
qed

lemma kbd_chars_cong:
  "kbdBuffer s' = kbdBuffer s \<Longrightarrow> kbdHead s' = kbdHead s \<Longrightarrow> kbdTail s' = kbdTail s \<Longrightarrow> kbd_chars s' = kbd_chars s"
  by (simp add: kbd_chars_def)

lemma typeKey_queue:
  assumes "keys_up s" "length (kbdBuffer s) = BUF_SIZE" "length (kbd_chars s) < BUF_SIZE" "printable c"
  shows "keys_up (typeKey k c s) \<and> length (kbdBuffer (typeKey k c s)) = BUF_SIZE \<and> kbd_chars (typeKey k c s) = kbd_chars s @ [c]"
proof -
  obtain sc sh where p: "ascii_presses ! (unat c - 0x20) = (sc, sh)" "plain_press sc" "toText (scancodeToKey sc False) sh False False = c"
    using printable_press [OF assms(4)] by metis
  have c: "c \<noteq> 0" using assms(4) by (auto simp: printable_def)
  have u: "\<not> shiftPressed s" "\<not> ctrlPressed s" "\<not> capsLock s" "\<not> extendedPrefix s" using assms(1) by (simp_all add: keys_up_def)
  show ?thesis
  proof (cases sh)
    case False
    have "kbd_isr k sc s = pushChar c s" using p(3) False u by (intro isr_make [OF p(2) u(4) _ c]) simp
    then have "typeKey k c s = pushChar c s"
      using p(1) False isr_break [OF p(2), of "pushChar c s" k] u(4) by (simp add: typeKey_def presses_def pushChar_fields)
    then show ?thesis using pushChar_queue [OF assms(2,3)] u assms(2) by (simp add: pushChar_fields keys_up_def)
  next
    case True
    let ?s = "s\<lparr>shiftPressed := True\<rparr>"
    have "kbd_isr k sc ?s = pushChar c ?s" using p(3) True u by (intro isr_make [OF p(2) _ _ c]) simp_all
    then have t: "typeKey k c s = (pushChar c ?s)\<lparr>shiftPressed := False\<rparr>"
      using p(1) True isr_break [OF p(2), of "pushChar c ?s" k] u(4) by (simp add: typeKey_def presses_def pushChar_fields isr_shift)
    have q: "kbd_chars ?s = kbd_chars s" by (rule kbd_chars_cong) simp_all
    have "kbd_chars (typeKey k c s) = kbd_chars (pushChar c ?s)" unfolding t by (rule kbd_chars_cong) simp_all
    then show ?thesis using pushChar_queue [of ?s c] assms(2,3) u q by (simp add: t pushChar_fields keys_up_def)
  qed
qed

interpretation kq: bounded_fifo "typeKey k" getChar kbd_chars "\<lambda>s. keys_up s \<and> length (kbdBuffer s) = BUF_SIZE" printable BUF_SIZE
  for k
proof unfold_locales
  fix s :: "'a kbd_scheme" and c cs
  assume ok: "keys_up s \<and> length (kbdBuffer s) = BUF_SIZE"
  show "(keys_up (typeKey k c s) \<and> length (kbdBuffer (typeKey k c s)) = BUF_SIZE) \<and> kbd_chars (typeKey k c s) = kbd_chars s @ [c]"
    if "printable c" "length (kbd_chars s) < BUF_SIZE" using typeKey_queue ok that by blast
  assume "kbd_chars s = c # cs"
  from getChar_queue [OF this] ok
  show "\<exists>s'. getChar s = Some (c, s') \<and> (keys_up s' \<and> length (kbdBuffer s') = BUF_SIZE) \<and> kbd_chars s' = cs"
    by (auto simp: keys_up_def)
next
  fix s :: "'a kbd_scheme"
  assume "kbd_chars s = []"
  then show "getChar s = None" by (simp add: getChar_def charAvail_queue)
qed

section \<open>Properties of the keyboard\<close>

text \<open>The 257th pending character replaces the oldest one: it is what the next read returns.\<close>

lemma kbd_overrun:
  assumes "length (kbdBuffer s) = BUF_SIZE" "length (kbd_chars s) = BUF_SIZE"
  shows "\<exists>s'. getChar (pushChar c s) = Some (c, s')"
proof -
  have n: "unat (kbdHead s - kbdTail s) = BUF_SIZE" using assms(2) by (simp add: kbd_chars_def)
  have i: "unat (kbdHead s) mod BUF_SIZE = unat (kbdTail s) mod BUF_SIZE" unfolding head_index n by simp
  have ne: "kbdHead s + 1 \<noteq> kbdTail s"
  proof
    assume "kbdHead s + 1 = kbdTail s"
    then have "kbdHead s - kbdTail s = kbdHead s - (kbdHead s + 1)" by (simp only:)
    then have "kbdHead s - kbdTail s = - 1" by simp
    then show False using n by (simp add: BUF_SIZE_def)
  qed
  have "unat (kbdTail s) mod BUF_SIZE < length (kbdBuffer s)" using assms(1) by (simp add: BUF_SIZE_def)
  then show ?thesis using ne i by (simp add: getChar_def charAvail_def pushChar_fields)
qed

text \<open>C21. Keyboard stream: whatever way key presses of printable characters and reads interleave, as long as no more than
  256 characters are pending, the characters read followed by those still pending are exactly those pending at the start followed by
  those typed, in order. A press goes through the interrupt handler byte by byte (shift, make, break).\<close>

theorem kbd_stream:
  assumes "keys_up s" "length (kbdBuffer s) = BUF_SIZE" "\<forall>c\<in>set (puts_of ops). printable c"
    "within BUF_SIZE (length (kbd_chars s)) ops" "queue_run (typeKey capsIsCtrl) getChar ops s = (out, s')"
  shows "out @ kbd_chars s' = kbd_chars s @ puts_of ops"
  using kq.stream [of s ops capsIsCtrl out s'] assms by blast

definition demo_kbd :: kbd where
  "demo_kbd =
     kbd_init (proc.extend demo_proc (kbd.fields (replicate BUF_SIZE 0) 7 3 True False False True 0 0 0 0 0 0 0 0 (semaphore_new 0) False))"

lemma demo_kbd_fields:
  "length (kbdBuffer demo_kbd) = BUF_SIZE" "kbd_chars demo_kbd = []" "keys_up demo_kbd"
  by (simp_all add: demo_kbd_def kbd_init_def clearNavigation_def kbd_chars_def keys_up_def proc.defs kbd.defs)

theorem kbd_stream_witness:
  "\<exists>out s'. queue_run (typeKey False) getChar [Get, Put 0x48, Put 0x69, Get] demo_kbd = (out, s') \<and> out @ kbd_chars s' = [0x48, 0x69]"
proof -
  obtain out s' where r: "queue_run (typeKey False) getChar [Get, Put 0x48, Put 0x69, Get] demo_kbd = (out, s')" by fastforce
  from kbd_stream [OF demo_kbd_fields(3,1) _ _ r] have "out @ kbd_chars s' = [0x48, 0x69]"
    by (simp add: demo_kbd_fields puts_of_def printable_def BUF_SIZE_def)
  with r show ?thesis by blast
qed

end
