(* ===== verification/Tty.thy ===== *)
theory Tty
  imports Kbd
begin

unbundle bit_operations_syntax

text \<open>
  The text terminal (kernel/arch/i386/Tty.cc). \<open>vgaRam\<close> is the video memory as a function, so that a write out of the screen is
  visible too; the port writes of the cursor are the fields \<open>crtc*\<close>. A critical section is \<open>tty_locked\<close>: the lock is the
  semaphore of Semaphore.thy, and None is the state in which the caller is suspended in \<open>lock\<close>. The copy of the output to
  the serial line (a debug option) is not modelled; \<open>snprintf\<close> of the status line is written out.

  Shown: the driver refines an abstract terminal (a grid, a history and a cursor), the scrollback view shows the history and
  gives the screen back, and writing a character while the view is shown deadlocks.
\<close>

section \<open>State\<close>

definition VGA_WIDTH :: nat where "VGA_WIDTH = 80"
definition VGA_HEIGHT :: nat where "VGA_HEIGHT = 25"
definition ROWS :: nat where "ROWS = VGA_HEIGHT - 1"
definition SCROLLBACK_LINES :: nat where "SCROLLBACK_LINES = 1000"
definition SCROLLBACK_VIEW_HEIGHT :: nat where "SCROLLBACK_VIEW_HEIGHT = ROWS - 1"

lemmas tty_consts = VGA_WIDTH_def VGA_HEIGHT_def ROWS_def SCROLLBACK_LINES_def SCROLLBACK_VIEW_HEIGHT_def

definition COLOR_BLACK :: u8 where "COLOR_BLACK = 0x0"
definition COLOR_LIGHT_GREEN :: u8 where "COLOR_LIGHT_GREEN = 0xA"

definition vgaColor :: "u8 \<Rightarrow> u8 \<Rightarrow> u8" where
  "vgaColor fg bg = fg OR push_bit 4 bg"

text \<open>\<open>char\<close> is signed, so its conversion to 16 bits repeats the sign bit.\<close>

definition vgaEntry :: "u8 \<Rightarrow> u8 \<Rightarrow> u16" where
  "vgaEntry ch color = scast ch OR push_bit 8 (ucast color)"

definition DEFAULT_COLOR :: u8 where "DEFAULT_COLOR = vgaColor COLOR_LIGHT_GREEN COLOR_BLACK"

text \<open>\<open>vgaRam\<close> is the video memory by cell, also beyond the 25 rows of the screen. The last three fields are the registers of the
  display controller.\<close>

record tty = kbd +
  vgaRam :: "nat \<Rightarrow> u16"
  ttyLock :: semaphore
  termRow :: u8
  termCol :: u8
  termColor :: u8
  scrolling :: bool
  scrollbackBuf :: "u8 list list"
  scrollbackHead :: int
  scrollbackCount :: int
  scrollbackActive :: bool
  scrollbackOffset :: int
  savedScreen :: "u16 list"
  crtcCursor :: u16
  crtcCursorStart :: u8
  crtcCursorEnd :: u8

section \<open>Operations\<close>

definition fill_cells :: "nat \<Rightarrow> nat \<Rightarrow> u16 \<Rightarrow> (nat \<Rightarrow> u16) \<Rightarrow> nat \<Rightarrow> u16" where
  "fill_cells a n v m = (\<lambda>i. if a \<le> i \<and> i < a + n then v else m i)"

definition clearRow :: "nat \<Rightarrow> 'a tty_scheme \<Rightarrow> 'a tty_scheme" where
  "clearRow row s =
     s\<lparr>termColor := DEFAULT_COLOR,
       vgaRam := fill_cells (row * VGA_WIDTH) VGA_WIDTH (vgaEntry 0x20 DEFAULT_COLOR) (vgaRam s)\<rparr>"

definition swap_cells :: "nat \<Rightarrow> nat \<Rightarrow> (nat \<Rightarrow> u16) \<Rightarrow> nat \<Rightarrow> u16" where
  "swap_cells i j m = m(i := m j, j := m i)"

definition swapRows :: "nat \<Rightarrow> nat \<Rightarrow> 'a tty_scheme \<Rightarrow> 'a tty_scheme" where
  "swapRows row1 row2 s =
     s\<lparr>vgaRam := fold (\<lambda>c. swap_cells (row1 * VGA_WIDTH + c) (row2 * VGA_WIDTH + c)) [0..<VGA_WIDTH] (vgaRam s)\<rparr>"

definition advRow :: "'a tty_scheme \<Rightarrow> 'a tty_scheme" where
  "advRow s =
     (let s1 = s\<lparr>termRow := termRow s + 1\<rparr> in
      if unat (termRow s1) = ROWS then
        (if scrolling s1 then
           let row0 = map (\<lambda>c. ucast (vgaRam s1 c AND 0xFF)) [0..<VGA_WIDTH] @ [0];
               s2 = s1\<lparr>scrollbackBuf := (scrollbackBuf s1)[nat (scrollbackHead s1) := row0],
                       scrollbackHead := (scrollbackHead s1 + 1) mod int SCROLLBACK_LINES,
                       scrollbackCount := (if scrollbackCount s1 < int SCROLLBACK_LINES then scrollbackCount s1 + 1
                                           else scrollbackCount s1)\<rparr>;
               s3 = fold (\<lambda>r. swapRows r (r + 1)) [0..<ROWS - 1] (clearRow 0 s2)
           in s3\<lparr>termRow := of_nat (ROWS - 1), termCol := 0\<rparr>
         else s1\<lparr>termRow := 0\<rparr>)
      else s1)"

definition advCol :: "'a tty_scheme \<Rightarrow> 'a tty_scheme" where
  "advCol s =
     (let s1 = s\<lparr>termCol := termCol s + 1\<rparr>
      in if unat (termCol s1) = VGA_WIDTH then advRow (s1\<lparr>termCol := 0\<rparr>) else s1)"

definition decCol :: "'a tty_scheme \<Rightarrow> 'a tty_scheme" where
  "decCol s =
     (if termCol s > 0 then s\<lparr>termCol := termCol s - 1\<rparr>
      else if termRow s > 0 then s\<lparr>termRow := termRow s - 1, termCol := of_nat (VGA_WIDTH - 1)\<rparr>
      else s)"

definition cursorUpdate :: "'a tty_scheme \<Rightarrow> 'a tty_scheme" where
  "cursorUpdate s = s\<lparr>crtcCursor := of_nat (unat (termRow s) * VGA_WIDTH + unat (termCol s))\<rparr>"

text \<open>One character, as in the loop of \<open>rawPuts\<close> and in \<open>putc\<close>. The copy to the serial line is a debug option.\<close>

definition emit :: "u8 \<Rightarrow> 'a tty_scheme \<Rightarrow> 'a tty_scheme" where
  "emit c s =
     (if c = 0x0A then (advRow s)\<lparr>termCol := 0\<rparr>
      else if c = 0x0D then s\<lparr>termCol := 0\<rparr>
      else if c = 0x08 then decCol s
      else advCol (s\<lparr>vgaRam := (vgaRam s)(unat (termRow s) * VGA_WIDTH + unat (termCol s) := vgaEntry c (termColor s))\<rparr>))"

definition rawPuts :: "u8 list \<Rightarrow> 'a tty_scheme \<Rightarrow> int \<times> 'a tty_scheme" where
  "rawPuts sv s = (int (length sv), cursorUpdate (fold emit sv s))"

text \<open>\<open>lock\<close> gives False when the caller is suspended in it; it goes on from there when the lock is handed to it.\<close>

definition tty_lock :: "'a tty_scheme \<Rightarrow> (bool \<times> 'a tty_scheme) kres" where
  "tty_lock s = kbind (sem_wait (ttyLock s) s) (\<lambda>(r, m, s1). kret (r \<noteq> Suspended, s1\<lparr>ttyLock := m\<rparr>))"

definition tty_unlock :: "'a tty_scheme \<Rightarrow> 'a tty_scheme" where
  "tty_unlock s = (let (m, s1) = sem_signal (ttyLock s) s in s1\<lparr>ttyLock := m\<rparr>)"

text \<open>A critical section: the result is None when the caller is suspended at its start.\<close>

definition tty_locked :: "('a tty_scheme \<Rightarrow> 'r \<times> 'a tty_scheme) \<Rightarrow> 'a tty_scheme \<Rightarrow> ('r option \<times> 'a tty_scheme) kres" where
  "tty_locked f s =
     kbind (tty_lock s) (\<lambda>(got, s1). if \<not> got then kret (None, s1) else let (r, s2) = f s1 in kret (Some r, tty_unlock s2))"

definition cursorEnable :: "'a tty_scheme \<Rightarrow> 'a tty_scheme" where
  "cursorEnable s = cursorUpdate (s\<lparr>crtcCursorStart := 0x0E, crtcCursorEnd := 0x0F\<rparr>)"

definition cursorDisable :: "'a tty_scheme \<Rightarrow> 'a tty_scheme" where
  "cursorDisable s = s\<lparr>crtcCursorStart := 0x20\<rparr>"

definition cursorSetPos :: "u8 \<Rightarrow> u8 \<Rightarrow> 'a tty_scheme \<Rightarrow> (unit option \<times> 'a tty_scheme) kres" where
  "cursorSetPos row col = tty_locked (\<lambda>s. ((), cursorUpdate (s\<lparr>termRow := row, termCol := col\<rparr>)))"

definition setColor :: "u8 \<Rightarrow> 'a tty_scheme \<Rightarrow> (unit option \<times> 'a tty_scheme) kres" where
  "setColor color = tty_locked (\<lambda>s. ((), s\<lparr>termColor := color\<rparr>))"

definition setScrolling :: "bool \<Rightarrow> 'a tty_scheme \<Rightarrow> (unit option \<times> 'a tty_scheme) kres" where
  "setScrolling enabled = tty_locked (\<lambda>s. ((), s\<lparr>scrolling := enabled\<rparr>))"

definition cls_body :: "'a tty_scheme \<Rightarrow> 'a tty_scheme" where
  "cls_body s =
     cursorUpdate (s\<lparr>termRow := 0, termCol := 0, termColor := DEFAULT_COLOR,
                     vgaRam := fill_cells 0 (VGA_WIDTH * ROWS) (vgaEntry 0x20 DEFAULT_COLOR) (vgaRam s)\<rparr>)"

definition cls :: "'a tty_scheme \<Rightarrow> (unit option \<times> 'a tty_scheme) kres" where
  "cls = tty_locked (\<lambda>s. ((), cls_body s))"

definition putc_at :: "u8 \<Rightarrow> u8 \<Rightarrow> u8 \<Rightarrow> 'a tty_scheme \<Rightarrow> (unit option \<times> 'a tty_scheme) kres" where
  "putc_at ch row col =
     tty_locked (\<lambda>s. ((), s\<lparr>vgaRam := (vgaRam s)(unat row * VGA_WIDTH + unat col := vgaEntry ch (termColor s))\<rparr>))"

definition tty_puts :: "u8 list \<Rightarrow> 'a tty_scheme \<Rightarrow> (int option \<times> 'a tty_scheme) kres" where
  "tty_puts str = tty_locked (rawPuts str)"

definition puts_at :: "u8 list \<Rightarrow> u8 \<Rightarrow> u8 \<Rightarrow> 'a tty_scheme \<Rightarrow> (int option \<times> 'a tty_scheme) kres" where
  "puts_at str row col = tty_locked (\<lambda>s. rawPuts str (s\<lparr>termRow := row, termCol := col\<rparr>))"

definition putLine_body :: "u8 list \<Rightarrow> u8 \<Rightarrow> 'a tty_scheme \<Rightarrow> 'a tty_scheme" where
  "putLine_body str row s =
     (let base = unat row * VGA_WIDTH;
          n = min (length str) VGA_WIDTH;
          m1 = fold (\<lambda>i m. m(base + i := vgaEntry (str ! i) (termColor s))) [0..<n] (vgaRam s);
          m2 = fill_cells (base + n) (VGA_WIDTH - n) (vgaEntry 0x20 (termColor s)) m1
      in cursorUpdate (s\<lparr>termRow := row, termCol := of_nat n, vgaRam := m2\<rparr>))"

definition putLine :: "u8 list \<Rightarrow> u8 \<Rightarrow> 'a tty_scheme \<Rightarrow> (unit option \<times> 'a tty_scheme) kres" where
  "putLine str row = tty_locked (\<lambda>s. ((), putLine_body str row s))"

definition getCursor :: "'a tty_scheme \<Rightarrow> ((u8 \<times> u8) option \<times> 'a tty_scheme) kres" where
  "getCursor = tty_locked (\<lambda>s. ((termRow s, termCol s), s))"

section \<open>Scrollback\<close>

definition scrollbackSize :: "'a tty_scheme \<Rightarrow> int" where
  "scrollbackSize s = scrollbackCount s"

definition scrollbackLine :: "int \<Rightarrow> 'a tty_scheme \<Rightarrow> u8 list option" where
  "scrollbackLine n s =
     (if n < 0 \<or> n \<ge> scrollbackCount s then None
      else Some (scrollbackBuf s ! nat ((scrollbackHead s - 1 - n + int SCROLLBACK_LINES) mod int SCROLLBACK_LINES)))"

text \<open>\<open>%u\<close> of \<open>snprintf\<close>, and the text of the status line.\<close>

fun decimal :: "nat \<Rightarrow> u8 list" where
  "decimal n = (if n < 10 then [0x30 + of_nat n] else decimal (n div 10) @ [0x30 + of_nat (n mod 10)])"

declare decimal.simps [simp del]

definition ascii :: "string \<Rightarrow> u8 list" where
  "ascii str = map of_char str"

definition status_text :: "int \<Rightarrow> int \<Rightarrow> u8 list" where
  "status_text offset count =
     take 63 (ascii ''-- SCROLLBACK (offset '' @ decimal (nat offset) @ ascii '' of '' @ decimal (nat count) @ ascii '') --'')"

definition show_status :: "u8 list \<Rightarrow> (nat \<Rightarrow> u16) \<Rightarrow> nat \<Rightarrow> u16" where
  "show_status buf m =
     fold (\<lambda>col m. m(0 * VGA_WIDTH + col := vgaEntry (if col < length buf then buf ! col else 0x20) DEFAULT_COLOR)) [0..<VGA_WIDTH] m"

definition show_row :: "u8 list list \<Rightarrow> int \<Rightarrow> int \<Rightarrow> int \<Rightarrow> int \<Rightarrow> nat \<Rightarrow> (nat \<Rightarrow> u16) \<Rightarrow> nat \<Rightarrow> u16" where
  "show_row buf head count topLine bottom row m =
     (let lineFromEnd = topLine - int (row - 1) in
      if lineFromEnd > count \<or> lineFromEnd < bottom then fill_cells (row * VGA_WIDTH) VGA_WIDTH (vgaEntry 0x20 DEFAULT_COLOR) m
      else let line = buf ! nat ((head - lineFromEnd + int SCROLLBACK_LINES) mod int SCROLLBACK_LINES)
           in fold (\<lambda>col m. m(row * VGA_WIDTH + col := vgaEntry (if line ! col \<noteq> 0 then line ! col else 0x20) DEFAULT_COLOR))
                [0..<VGA_WIDTH] m)"

definition show_body :: "int \<Rightarrow> 'a tty_scheme \<Rightarrow> 'a tty_scheme" where
  "show_body offset0 s =
     (if offset0 < 1 then s
      else
        let count = scrollbackCount s;
            offset1 = (if offset0 > count then count else offset0);
            s1 = (if \<not> scrollbackActive s then s\<lparr>savedScreen := map (vgaRam s) [0..<ROWS * VGA_WIDTH]\<rparr> else s);
            s2 = cursorDisable s1;
            top0 = offset1 + int SCROLLBACK_VIEW_HEIGHT - 1;
            topLine = (if top0 > count then count else top0);
            bottom0 = topLine - int SCROLLBACK_VIEW_HEIGHT + 1;
            bottom = (if bottom0 < 1 then 1 else bottom0);
            m1 = show_status (status_text bottom count) (vgaRam s2);
            m2 = fold (show_row (scrollbackBuf s2) (scrollbackHead s2) count topLine bottom) [1..<ROWS] m1
        in s2\<lparr>vgaRam := m2, scrollbackActive := True, scrollbackOffset := bottom\<rparr>)"

definition scrollbackShow :: "int \<Rightarrow> 'a tty_scheme \<Rightarrow> (unit option \<times> 'a tty_scheme) kres" where
  "scrollbackShow offset = tty_locked (\<lambda>s. ((), show_body offset s))"

definition exit_body :: "'a tty_scheme \<Rightarrow> 'a tty_scheme" where
  "exit_body s =
     (if \<not> scrollbackActive s then s
      else clearNavigation (cursorEnable (s\<lparr>scrollbackActive := False, scrollbackOffset := 0,
             vgaRam := (\<lambda>i. if i < ROWS * VGA_WIDTH then savedScreen s ! i else vgaRam s i)\<rparr>)))"

definition scrollbackExit :: "'a tty_scheme \<Rightarrow> (unit option \<times> 'a tty_scheme) kres" where
  "scrollbackExit = tty_locked (\<lambda>s. ((), exit_body s))"

definition scrollbackPageUp :: "'a tty_scheme \<Rightarrow> (unit option \<times> 'a tty_scheme) kres" where
  "scrollbackPageUp s =
     (let offset = (if scrollbackActive s then scrollbackOffset s else 0) + int SCROLLBACK_VIEW_HEIGHT
      in scrollbackShow (if offset > scrollbackCount s then scrollbackCount s else offset) s)"

definition scrollbackHome :: "'a tty_scheme \<Rightarrow> (unit option \<times> 'a tty_scheme) kres" where
  "scrollbackHome s = (if scrollbackCount s = 0 then kret (Some (), s) else scrollbackShow (scrollbackCount s) s)"

definition tty_scrollbackOffset :: "'a tty_scheme \<Rightarrow> int" where
  "tty_scrollbackOffset s = (if scrollbackActive s then scrollbackOffset s else 0)"

definition scrollbackLineUp :: "'a tty_scheme \<Rightarrow> (unit option \<times> 'a tty_scheme) kres" where
  "scrollbackLineUp s =
     (if \<not> scrollbackActive s then kret (Some (), s)
      else let offset = scrollbackOffset s + 1
           in if offset > scrollbackCount s then kret (Some (), s) else scrollbackShow offset s)"

definition scrollbackLineDown :: "'a tty_scheme \<Rightarrow> (unit option \<times> 'a tty_scheme) kres" where
  "scrollbackLineDown s =
     (if \<not> scrollbackActive s then kret (Some (), s)
      else let offset = scrollbackOffset s - 1 in if offset \<le> 0 then scrollbackExit s else scrollbackShow offset s)"

definition scrollbackPageDown :: "'a tty_scheme \<Rightarrow> (unit option \<times> 'a tty_scheme) kres" where
  "scrollbackPageDown s =
     (if \<not> scrollbackActive s then kret (Some (), s)
      else let offset = scrollbackOffset s - int SCROLLBACK_VIEW_HEIGHT
           in if offset \<le> 0 then scrollbackExit s else scrollbackShow offset s)"

text \<open>\<open>putc\<close> leaves the scrollback view while it holds the lock, and leaving takes the lock again.\<close>

definition putc :: "u8 \<Rightarrow> 'a tty_scheme \<Rightarrow> (unit option \<times> 'a tty_scheme) kres" where
  "putc ch s =
     kbind (tty_lock s) (\<lambda>(got, s1).
       if \<not> got then kret (None, s1)
       else kbind (if scrollbackActive s1 then scrollbackExit s1 else kret (Some (), s1)) (\<lambda>(r, s2).
         case r of None \<Rightarrow> kret (None, s2) | Some _ \<Rightarrow> kret (Some (), tty_unlock (cursorUpdate (emit ch s2)))))"

section \<open>Scrolling\<close>

lemma fold_swap_cells:
  assumes "a + n \<le> b"
  shows "fold (\<lambda>c. swap_cells (a + c) (b + c)) [0..<n] m
    = (\<lambda>i. if a \<le> i \<and> i < a + n then m (b + (i - a)) else if b \<le> i \<and> i < b + n then m (a + (i - b)) else m i)"
  using assms
proof (induction n)
  case 0
  show ?case by (rule ext) auto
next
  case (Suc n)
  then show ?case by (auto simp: swap_cells_def fun_eq_iff)
qed

lemma swapRows_next:
  "swapRows r (r + 1) s = s\<lparr>vgaRam := (\<lambda>i. if r * VGA_WIDTH \<le> i \<and> i < r * VGA_WIDTH + VGA_WIDTH then vgaRam s (i + VGA_WIDTH)
     else if (r + 1) * VGA_WIDTH \<le> i \<and> i < (r + 1) * VGA_WIDTH + VGA_WIDTH then vgaRam s (i - VGA_WIDTH) else vgaRam s i)\<rparr>"
proof -
  have "r * VGA_WIDTH + VGA_WIDTH \<le> (r + 1) * VGA_WIDTH" by (simp add: algebra_simps)
  from fold_swap_cells [OF this, of "vgaRam s"] show ?thesis
    unfolding swapRows_def by (auto simp: fun_eq_iff algebra_simps intro!: arg_cong [where f = "\<lambda>m. s\<lparr>vgaRam := m\<rparr>"])
qed

definition scrolled :: "nat \<Rightarrow> nat \<Rightarrow> (nat \<Rightarrow> u16) \<Rightarrow> nat \<Rightarrow> u16" where
  "scrolled w a m = (\<lambda>i. if i < a then m (i + w) else if i < a + w then m (i - a) else m i)"

lemma scrolled_step:
  "(\<lambda>i. if a \<le> i \<and> i < a + w then scrolled w a m (i + w) else if a + w \<le> i \<and> i < a + w + w then scrolled w a m (i - w)
     else scrolled w a m i) = scrolled w (a + w) m"
  by (rule ext) (auto simp: scrolled_def add.commute)

lemma scroll_loop: "fold (\<lambda>r. swapRows r (r + 1)) [0..<k] s = s\<lparr>vgaRam := scrolled VGA_WIDTH (k * VGA_WIDTH) (vgaRam s)\<rparr>"
proof (induction k)
  case 0
  have "scrolled VGA_WIDTH 0 (vgaRam s) = vgaRam s" by (auto simp: scrolled_def)
  then show ?case by simp
next
  case (Suc k)
  have e: "(k + 1) * VGA_WIDTH = k * VGA_WIDTH + VGA_WIDTH" "Suc k * VGA_WIDTH = k * VGA_WIDTH + VGA_WIDTH" by simp_all
  have "fold (\<lambda>r. swapRows r (r + 1)) [0..<Suc k] s
      = swapRows k (k + 1) (s\<lparr>vgaRam := scrolled VGA_WIDTH (k * VGA_WIDTH) (vgaRam s)\<rparr>)"
    using Suc by simp
  also have "\<dots> = s\<lparr>vgaRam := scrolled VGA_WIDTH (k * VGA_WIDTH + VGA_WIDTH) (vgaRam s)\<rparr>"
    unfolding swapRows_next e(1) scrolled_step [symmetric] by (simp cong: if_cong)
  finally show ?case unfolding e(2) .
qed

text \<open>What \<open>advRow\<close> does at the bottom row.\<close>

definition scroll_text :: "'a tty_scheme \<Rightarrow> u8 list" where
  "scroll_text s = map (\<lambda>c. ucast (vgaRam s c AND 0xFF)) [0..<VGA_WIDTH] @ [0]"

definition scroll_screen :: "(nat \<Rightarrow> u16) \<Rightarrow> nat \<Rightarrow> u16" where
  "scroll_screen m = (\<lambda>i. if i < (ROWS - 1) * VGA_WIDTH then m (i + VGA_WIDTH)
     else if i < ROWS * VGA_WIDTH then vgaEntry 0x20 DEFAULT_COLOR else m i)"

lemma scrolled_clear:
  "scrolled VGA_WIDTH ((ROWS - 1) * VGA_WIDTH) (fill_cells 0 VGA_WIDTH (vgaEntry 0x20 DEFAULT_COLOR) m) = scroll_screen m"
  by (rule ext) (auto simp: scrolled_def scroll_screen_def fill_cells_def tty_consts)

lemma advRow_scroll:
  assumes "unat (termRow s) = ROWS - 1" "scrolling s"
  shows "advRow s = s\<lparr>termRow := of_nat (ROWS - 1), termCol := 0, termColor := DEFAULT_COLOR, vgaRam := scroll_screen (vgaRam s),
    scrollbackBuf := (scrollbackBuf s)[nat (scrollbackHead s) := scroll_text s],
    scrollbackHead := (scrollbackHead s + 1) mod int SCROLLBACK_LINES,
    scrollbackCount := (if scrollbackCount s < int SCROLLBACK_LINES then scrollbackCount s + 1 else scrollbackCount s)\<rparr>"
proof -
  have "unat (termRow s + 1) = ROWS" using assms(1) by (simp add: unat_word_ariths tty_consts)
  then show ?thesis
    using assms(2)
    by (simp add: advRow_def Let_def scroll_loop [simplified] clearRow_def scrolled_clear [simplified] scroll_text_def)
qed

lemma advRow_next:
  assumes "unat (termRow s) < ROWS - 1"
  shows "advRow s = s\<lparr>termRow := termRow s + 1\<rparr>" "unat (termRow s + 1) = Suc (unat (termRow s))"
proof -
  show n: "unat (termRow s + 1) = Suc (unat (termRow s))" using assms by (simp add: unat_word_ariths tty_consts)
  have "unat (termRow s + 1) \<noteq> ROWS" unfolding n using assms by simp
  then show "advRow s = s\<lparr>termRow := termRow s + 1\<rparr>" by (simp add: advRow_def)
qed

lemma advRow_wrap:
  assumes "unat (termRow s) = ROWS - 1" "\<not> scrolling s"
  shows "advRow s = s\<lparr>termRow := 0\<rparr>"
proof -
  have "unat (termRow s + 1) = ROWS" using assms(1) by (simp add: unat_word_ariths tty_consts)
  then show ?thesis using assms(2) by (simp add: advRow_def)
qed


section \<open>The abstract terminal\<close>

text \<open>A grid of \<open>ROWS\<close> rows, the lines scrolled off the top (newest first, at most \<open>SCROLLBACK_LINES\<close>), and the cursor.\<close>

record vt =
  grid :: "u16 list list"
  history :: "u8 list list"
  vrow :: nat
  vcol :: nat
  vcolor :: u8
  vscroll :: bool

definition blank :: u16 where "blank = vgaEntry 0x20 DEFAULT_COLOR"

definition vt_down :: "vt \<Rightarrow> vt" where
  "vt_down t =
     (if Suc (vrow t) < ROWS then t\<lparr>vrow := Suc (vrow t)\<rparr>
      else if vscroll t then
        t\<lparr>grid := tl (grid t) @ [replicate VGA_WIDTH blank],
          history := take SCROLLBACK_LINES (map (\<lambda>e. ucast (e AND 0xFF)) (hd (grid t)) # history t),
          vcol := 0, vcolor := DEFAULT_COLOR\<rparr>
      else t\<lparr>vrow := 0\<rparr>)"

definition vt_put :: "u8 \<Rightarrow> vt \<Rightarrow> vt" where
  "vt_put c t =
     (let t1 = t\<lparr>grid := (grid t)[vrow t := (grid t ! vrow t)[vcol t := vgaEntry c (vcolor t)]]\<rparr>
      in if Suc (vcol t) < VGA_WIDTH then t1\<lparr>vcol := Suc (vcol t)\<rparr> else vt_down (t1\<lparr>vcol := 0\<rparr>))"

definition vt_emit :: "u8 \<Rightarrow> vt \<Rightarrow> vt" where
  "vt_emit c t =
     (if c = 0x0A then (vt_down t)\<lparr>vcol := 0\<rparr>
      else if c = 0x0D then t\<lparr>vcol := 0\<rparr>
      else if c = 0x08 then
        (if 0 < vcol t then t\<lparr>vcol := vcol t - 1\<rparr>
         else if 0 < vrow t then t\<lparr>vrow := vrow t - 1, vcol := VGA_WIDTH - 1\<rparr> else t)
      else vt_put c t)"

text \<open>What the driver's state shows.\<close>

definition screen :: "(nat \<Rightarrow> u16) \<Rightarrow> u16 list list" where
  "screen m = map (\<lambda>r. map (\<lambda>c. m (r * VGA_WIDTH + c)) [0..<VGA_WIDTH]) [0..<ROWS]"

definition ring :: "u8 list list \<Rightarrow> int \<Rightarrow> int \<Rightarrow> u8 list list" where
  "ring buf head n =
     map (\<lambda>k. take VGA_WIDTH (buf ! nat ((head - 1 - int k + int SCROLLBACK_LINES) mod int SCROLLBACK_LINES))) [0..<nat n]"

definition tty_abs :: "'a tty_scheme \<Rightarrow> vt" where
  "tty_abs s =
     \<lparr>grid = screen (vgaRam s), history = ring (scrollbackBuf s) (scrollbackHead s) (scrollbackCount s),
      vrow = unat (termRow s), vcol = unat (termCol s), vcolor = termColor s, vscroll = scrolling s\<rparr>"

definition tty_ok :: "'a tty_scheme \<Rightarrow> bool" where
  "tty_ok s \<longleftrightarrow> unat (termRow s) < ROWS \<and> unat (termCol s) < VGA_WIDTH
     \<and> length (scrollbackBuf s) = SCROLLBACK_LINES \<and> (\<forall>l\<in>set (scrollbackBuf s). length l = VGA_WIDTH + 1)
     \<and> 0 \<le> scrollbackHead s \<and> scrollbackHead s < int SCROLLBACK_LINES
     \<and> 0 \<le> scrollbackCount s \<and> scrollbackCount s \<le> int SCROLLBACK_LINES"

lemma screen_nth [simp]:
  "length (screen m) = ROWS" "r < ROWS \<Longrightarrow> screen m ! r = map (\<lambda>c. m (r * VGA_WIDTH + c)) [0..<VGA_WIDTH]"
  by (simp_all add: screen_def)

lemma screen_scroll: "screen (scroll_screen m) = tl (screen m) @ [replicate VGA_WIDTH blank]"
proof (rule nth_equalityI)
  show "length (screen (scroll_screen m)) = length (tl (screen m) @ [replicate VGA_WIDTH blank])" by (simp add: tty_consts)
  fix r assume "r < length (screen (scroll_screen m))"
  then have r: "r < ROWS" by simp
  show "screen (scroll_screen m) ! r = (tl (screen m) @ [replicate VGA_WIDTH blank]) ! r"
  proof (cases "Suc r < ROWS")
    case True
    then have "r < length (tl (screen m))" by simp
    then have "(tl (screen m) @ [replicate VGA_WIDTH blank]) ! r = screen m ! Suc r" by (simp only: nth_append nth_tl if_True)
    moreover have "r * VGA_WIDTH + c < (ROWS - 1) * VGA_WIDTH" if "c < VGA_WIDTH" for c
      using True that by (simp add: tty_consts)
    ultimately show ?thesis using True by (auto simp: scroll_screen_def algebra_simps)
  next
    case False
    with r have "r = ROWS - 1" by simp
    then show ?thesis by (auto simp: scroll_screen_def blank_def nth_append tty_consts map_replicate_const intro!: nth_equalityI)
  qed
qed

lemma cell_inj: "c < VGA_WIDTH \<Longrightarrow> c' < VGA_WIDTH \<Longrightarrow> r * VGA_WIDTH + c = r' * VGA_WIDTH + c' \<Longrightarrow> r = r' \<and> c = c'"
proof -
  assume c: "c < VGA_WIDTH" "c' < VGA_WIDTH" and e: "r * VGA_WIDTH + c = r' * VGA_WIDTH + c'"
  from c have "(r * VGA_WIDTH + c) div VGA_WIDTH = r" "(r' * VGA_WIDTH + c') div VGA_WIDTH = r'" by simp_all
  then have "r = r'" unfolding e by simp
  with e show "r = r' \<and> c = c'" by simp
qed

lemma screen_upd:
  assumes "r < ROWS" "c < VGA_WIDTH"
  shows "screen (m(r * VGA_WIDTH + c := v)) = (screen m)[r := (screen m ! r)[c := v]]"
proof (rule nth_equalityI)
  fix i assume "i < length (screen (m(r * VGA_WIDTH + c := v)))"
  then have i: "i < ROWS" by simp
  show "screen (m(r * VGA_WIDTH + c := v)) ! i = (screen m)[r := (screen m ! r)[c := v]] ! i"
  proof (rule nth_equalityI)
    fix j assume "j < length (screen (m(r * VGA_WIDTH + c := v)) ! i)"
    then have j: "j < VGA_WIDTH" using i by simp
    have "i * VGA_WIDTH + j = r * VGA_WIDTH + c \<longleftrightarrow> i = r \<and> j = c" using cell_inj [OF j assms(2)] by blast
    then show "screen (m(r * VGA_WIDTH + c := v)) ! i ! j = (screen m)[r := (screen m ! r)[c := v]] ! i ! j"
      using i j assms by (auto simp: nth_list_update)
  qed (use i assms in \<open>simp add: nth_list_update\<close>)
qed simp

lemma ring_index: "(x mod N - 1 - k + N) mod N = (x - 1 - k) mod (N :: int)"
proof -
  have "(x mod N - 1 - k + N) mod N = (x mod N - (1 + k)) mod N" by (simp add: diff_diff_add)
  also have "\<dots> = (x - (1 + k)) mod N" by (rule mod_diff_left_eq)
  finally show ?thesis by (simp add: diff_diff_add)
qed

lemma ring_push:
  assumes "length buf = SCROLLBACK_LINES" "0 \<le> head" "head < int SCROLLBACK_LINES" "0 \<le> n" "n \<le> int SCROLLBACK_LINES"
  shows "ring (buf[nat head := l]) ((head + 1) mod int SCROLLBACK_LINES) (if n < int SCROLLBACK_LINES then n + 1 else n)
    = take SCROLLBACK_LINES (take VGA_WIDTH l # ring buf head n)"
    (is "ring ?buf ?head ?n = _")
proof (rule nth_equalityI)
  show "length (ring ?buf ?head ?n) = length (take SCROLLBACK_LINES (take VGA_WIDTH l # ring buf head n))"
    using assms by (simp add: ring_def tty_consts) arith
  fix k assume "k < length (ring ?buf ?head ?n)"
  then have k: "k < nat ?n" by (simp add: ring_def)
  then have kl: "k < SCROLLBACK_LINES" using assms by (auto split: if_splits)
  have e: "(?head - 1 - int k + int SCROLLBACK_LINES) mod int SCROLLBACK_LINES = (head - int k) mod int SCROLLBACK_LINES"
    using ring_index [of "head + 1" "int SCROLLBACK_LINES" "int k"] by simp
  show "ring ?buf ?head ?n ! k = take SCROLLBACK_LINES (take VGA_WIDTH l # ring buf head n) ! k"
  proof (cases k)
    case 0
    then show ?thesis using k assms e by (simp add: ring_def SCROLLBACK_LINES_def)
  next
    case (Suc j)
    have "(head - int k) mod int SCROLLBACK_LINES \<noteq> head"
    proof
      assume "(head - int k) mod int SCROLLBACK_LINES = head"
      then have "(head - int k) mod int SCROLLBACK_LINES = head mod int SCROLLBACK_LINES" using assms(2,3) by simp
      then have "int SCROLLBACK_LINES dvd int k" by (simp add: mod_eq_dvd_iff)
      then show False using kl Suc by (auto dest: zdvd_imp_le)
    qed
    then have ne: "nat ((head - int k) mod int SCROLLBACK_LINES) \<noteq> nat head"
      using assms(2) by (simp add: nat_eq_iff2 SCROLLBACK_LINES_def)
    have "(head - 1 - int j + int SCROLLBACK_LINES) mod int SCROLLBACK_LINES = (head - int k) mod int SCROLLBACK_LINES"
      using Suc mod_add_self2 [of "head - int k" "int SCROLLBACK_LINES"] by (simp add: diff_diff_add)
    moreover have "j < nat n" using k Suc by (auto split: if_splits)
    ultimately show ?thesis using k kl Suc e ne by (simp add: ring_def)
  qed
qed


section \<open>The driver refines the abstract terminal\<close>

text \<open>Cells outside the terminal's rows (the taskbar and beyond) keep their contents.\<close>

definition outside_kept :: "'a tty_scheme \<Rightarrow> 'a tty_scheme \<Rightarrow> bool" where
  "outside_kept s s' \<longleftrightarrow> (\<forall>i \<ge> ROWS * VGA_WIDTH. vgaRam s' i = vgaRam s i)"

lemma tty_abs_simps [simp]:
  "tty_abs (s\<lparr>termRow := r\<rparr>) = (tty_abs s)\<lparr>vrow := unat r\<rparr>"
  "tty_abs (s\<lparr>termCol := c\<rparr>) = (tty_abs s)\<lparr>vcol := unat c\<rparr>"
  "vrow (tty_abs s) = unat (termRow s)" "vcol (tty_abs s) = unat (termCol s)" "vcolor (tty_abs s) = termColor s"
  "vscroll (tty_abs s) = scrolling s" "grid (tty_abs s) = screen (vgaRam s)"
  by (simp_all add: tty_abs_def)

lemma hd_screen: "map (\<lambda>e. ucast (e AND 0xFF)) (hd (screen m)) = map (\<lambda>c. ucast (m c AND 0xFF)) [0..<VGA_WIDTH]"
proof -
  have "0 < ROWS" by (simp add: tty_consts)
  then have "hd (screen m) = screen m ! 0" by (metis hd_conv_nth length_0_conv less_numeral_extra(3) screen_nth(1))
  with \<open>0 < ROWS\<close> show ?thesis by simp
qed

lemma advRow_refines:
  assumes "tty_ok s"
  shows "tty_ok (advRow s) \<and> tty_abs (advRow s) = vt_down (tty_abs s) \<and> outside_kept s (advRow s)"
proof -
  have r: "unat (termRow s) < ROWS" using assms by (simp add: tty_ok_def)
  consider (down) "unat (termRow s) < ROWS - 1" | (scroll) "unat (termRow s) = ROWS - 1" "scrolling s"
    | (wrap) "unat (termRow s) = ROWS - 1" "\<not> scrolling s" using r by linarith
  then show ?thesis
  proof cases
    case down
    then have "Suc (unat (termRow s)) < ROWS" by simp
    then show ?thesis using assms advRow_next [OF down] by (simp add: vt_down_def tty_ok_def outside_kept_def)
  next
    case wrap
    then have "\<not> Suc (unat (termRow s)) < ROWS" by simp
    then show ?thesis using assms wrap advRow_wrap [OF wrap] by (simp add: vt_down_def tty_ok_def outside_kept_def tty_consts)
  next
    case scroll
    have n: "\<not> Suc (unat (termRow s)) < ROWS" using scroll by simp
    have u: "unat (word_of_nat (ROWS - 1) :: u8) = ROWS - 1" by (simp add: tty_consts)
    have t: "take VGA_WIDTH (scroll_text s) = map (\<lambda>e. ucast (e AND 0xFF)) (hd (screen (vgaRam s)))"
      unfolding hd_screen scroll_text_def by simp
    have h: "ring ((scrollbackBuf s)[nat (scrollbackHead s) := scroll_text s]) ((scrollbackHead s + 1) mod int SCROLLBACK_LINES)
        (if scrollbackCount s < int SCROLLBACK_LINES then scrollbackCount s + 1 else scrollbackCount s)
      = take SCROLLBACK_LINES (map (\<lambda>e. ucast (e AND 0xFF)) (hd (screen (vgaRam s))) # history (tty_abs s))"
      using assms by (subst ring_push) (simp_all add: tty_ok_def tty_abs_def t)
    have "tty_abs (advRow s) = vt_down (tty_abs s)"
      unfolding advRow_scroll [OF scroll] using n scroll h u
      by (simp add: vt_down_def tty_abs_def screen_scroll)
    moreover have "\<forall>l\<in>set ((scrollbackBuf s)[nat (scrollbackHead s) := scroll_text s]). length l = VGA_WIDTH + 1"
      using assms set_update_subset_insert by (fastforce simp: tty_ok_def scroll_text_def)
    then have "tty_ok (advRow s)"
      unfolding advRow_scroll [OF scroll] using assms u by (simp add: tty_ok_def tty_consts)
    moreover have "outside_kept s (advRow s)"
      unfolding advRow_scroll [OF scroll] by (simp add: outside_kept_def scroll_screen_def tty_consts)
    ultimately show ?thesis by blast
  qed
qed

lemma outside_trans: "outside_kept s s1 \<Longrightarrow> outside_kept s1 s2 \<Longrightarrow> outside_kept s s2"
  by (simp add: outside_kept_def)

lemma advCol_refines:
  assumes "tty_ok s"
  shows "tty_ok (advCol s) \<and> outside_kept s (advCol s) \<and> tty_abs (advCol s)
    = (if Suc (unat (termCol s)) < VGA_WIDTH then (tty_abs s)\<lparr>vcol := Suc (unat (termCol s))\<rparr> else vt_down ((tty_abs s)\<lparr>vcol := 0\<rparr>))"
proof (cases "Suc (unat (termCol s)) < VGA_WIDTH")
  case True
  then have u: "unat (termCol s + 1) = Suc (unat (termCol s))" by (simp add: unat_word_ariths tty_consts)
  then have "advCol s = s\<lparr>termCol := termCol s + 1\<rparr>" using True by (simp add: advCol_def)
  then show ?thesis using True assms u by (simp add: tty_ok_def outside_kept_def)
next
  case False
  moreover have "unat (termCol s) < VGA_WIDTH" using assms by (simp add: tty_ok_def)
  ultimately have "unat (termCol s) = VGA_WIDTH - 1" by linarith
  then have "unat (termCol s + 1) = VGA_WIDTH" by (simp add: unat_word_ariths tty_consts)
  then have "advCol s = advRow (s\<lparr>termCol := 0\<rparr>)" by (simp add: advCol_def)
  moreover have "tty_ok (s\<lparr>termCol := 0\<rparr>)" using assms by (simp add: tty_ok_def tty_consts)
  ultimately show ?thesis using False advRow_refines [of "s\<lparr>termCol := 0\<rparr>"] by (simp add: outside_kept_def)
qed

lemma decCol_refines:
  assumes "tty_ok s"
  shows "tty_ok (decCol s) \<and> outside_kept s (decCol s) \<and> tty_abs (decCol s) = vt_emit 0x08 (tty_abs s)"
proof -
  have z: "0 < unat (x :: u8) \<longleftrightarrow> x \<noteq> 0" for x by (simp add: unat_gt_0)
  have b: "unat (termRow s) < ROWS" "unat (termCol s) < VGA_WIDTH" using assms by (simp_all add: tty_ok_def)
  consider (col) "termCol s \<noteq> 0" | (row) "termCol s = 0" "termRow s \<noteq> 0" | (home) "termCol s = 0" "termRow s = 0" by blast
  then show ?thesis
  proof cases
    case col
    then have d: "decCol s = s\<lparr>termCol := termCol s - 1\<rparr>" by (simp add: decCol_def word_greater_zero_iff)
    have u: "unat (termCol s - 1) = unat (termCol s) - 1" by (rule unat_minus_one [OF col])
    have "vt_emit 0x08 (tty_abs s) = (tty_abs s)\<lparr>vcol := unat (termCol s) - 1\<rparr>" using col by (simp add: vt_emit_def z)
    then show ?thesis unfolding d using assms b u by (simp add: tty_ok_def outside_kept_def)
  next
    case row
    then have d: "decCol s = s\<lparr>termRow := termRow s - 1, termCol := of_nat (VGA_WIDTH - 1)\<rparr>"
      by (simp add: decCol_def word_greater_zero_iff)
    have u: "unat (termRow s - 1) = unat (termRow s) - 1" by (rule unat_minus_one [OF row(2)])
    have w: "unat (of_nat (VGA_WIDTH - 1) :: u8) = VGA_WIDTH - 1" by (simp add: tty_consts)
    have "vt_emit 0x08 (tty_abs s) = (tty_abs s)\<lparr>vrow := unat (termRow s) - 1, vcol := VGA_WIDTH - 1\<rparr>"
      using row by (simp add: vt_emit_def z)
    then show ?thesis unfolding d using assms b u w by (simp add: tty_ok_def outside_kept_def)
  next
    case home
    then show ?thesis using assms by (simp add: decCol_def vt_emit_def outside_kept_def)
  qed
qed

lemma write_refines:
  fixes s :: "'a tty_scheme" and v :: u16
  assumes "tty_ok s"
  defines "s1 \<equiv> s\<lparr>vgaRam := (vgaRam s)(unat (termRow s) * VGA_WIDTH + unat (termCol s) := v)\<rparr>"
  shows "tty_ok s1 \<and> outside_kept s s1 \<and> termCol s1 = termCol s \<and> tty_abs s1 = (tty_abs s)\<lparr>grid :=
    (screen (vgaRam s))[unat (termRow s) := (screen (vgaRam s) ! unat (termRow s))[unat (termCol s) := v]]\<rparr>"
proof -
  have b: "unat (termRow s) < ROWS" "unat (termCol s) < VGA_WIDTH" using assms by (simp_all add: tty_ok_def)
  then have "unat (termRow s) * VGA_WIDTH + unat (termCol s) < ROWS * VGA_WIDTH" by (simp add: tty_consts)
  then have "outside_kept s s1" by (auto simp: outside_kept_def s1_def)
  moreover have "tty_ok s1" using assms(1) by (simp add: s1_def tty_ok_def)
  ultimately show ?thesis using screen_upd [OF b, of "vgaRam s" v] by (simp add: s1_def tty_abs_def)
qed

lemma emit_refines:
  fixes s :: "'a tty_scheme"
  assumes ok: "tty_ok s"
  shows "tty_ok (emit c s) \<and> outside_kept s (emit c s) \<and> tty_abs (emit c s) = vt_emit c (tty_abs s)"
proof -
  consider (nl) "c = 0x0A" | (cr) "c = 0x0D" | (bs) "c = 0x08" | (other) "c \<noteq> 0x0A" "c \<noteq> 0x0D" "c \<noteq> 0x08" by blast
  then show ?thesis
  proof cases
    case nl
    then show ?thesis using advRow_refines [OF ok] by (simp add: emit_def vt_emit_def tty_ok_def outside_kept_def tty_consts)
  next
    case cr
    then show ?thesis using ok by (simp add: emit_def vt_emit_def tty_ok_def outside_kept_def tty_consts)
  next
    case bs
    then show ?thesis using decCol_refines [OF ok] by (simp add: emit_def)
  next
    case other
    let ?s = "s\<lparr>vgaRam := (vgaRam s)(unat (termRow s) * VGA_WIDTH + unat (termCol s) := vgaEntry c (termColor s))\<rparr>"
    have e: "emit c s = advCol ?s" using other by (simp add: emit_def)
    have v: "vt_emit c (tty_abs s) = vt_put c (tty_abs s)" using other by (simp add: vt_emit_def)
    note w = write_refines [OF ok, of "vgaEntry c (termColor s)"]
    note a = advCol_refines [of ?s, OF w [THEN conjunct1]]
    have "tty_abs (emit c s) = vt_emit c (tty_abs s)"
      unfolding e v using a w by (simp add: vt_put_def)
    moreover have "outside_kept s (emit c s)" unfolding e using a w outside_trans by blast
    ultimately show ?thesis unfolding e using a by blast
  qed
qed

lemma emits_refine:
  "tty_ok s \<Longrightarrow> tty_ok (fold emit cs s) \<and> outside_kept s (fold emit cs s) \<and> tty_abs (fold emit cs s) = fold vt_emit cs (tty_abs s)"
proof (induction cs arbitrary: s)
  case Nil
  then show ?case by (simp add: outside_kept_def)
next
  case (Cons c cs)
  then show ?case using emit_refines [OF Cons.prems, of c] Cons.IH [of "emit c s"] outside_trans by auto
qed

text \<open>The bookkeeping outside the terminal is untouched by output.\<close>

lemma emit_lock: "ttyLock (emit c s) = ttyLock s" "scrollbackActive (emit c s) = scrollbackActive s"
proof -
  have a: "ttyLock (advRow u) = ttyLock u" "scrollbackActive (advRow u) = scrollbackActive u" for u :: "'a tty_scheme"
    by (simp_all add: advRow_def Let_def scroll_loop [simplified] clearRow_def)
  then have "ttyLock (advCol u) = ttyLock u" "scrollbackActive (advCol u) = scrollbackActive u" for u :: "'a tty_scheme"
    by (simp_all add: advCol_def Let_def)
  then show "ttyLock (emit c s) = ttyLock s" "scrollbackActive (emit c s) = scrollbackActive s"
    using a by (simp_all add: emit_def decCol_def)
qed

lemma emits_lock: "ttyLock (fold emit cs s) = ttyLock s" "scrollbackActive (fold emit cs s) = scrollbackActive s"
  by (induction cs arbitrary: s) (simp_all add: emit_lock)


section \<open>Critical sections\<close>

definition lock_free :: "'a tty_scheme \<Rightarrow> bool" where
  "lock_free s \<longleftrightarrow> ttyLock s = semaphore_new 1"

lemma tty_lock_free: "lock_free s \<Longrightarrow> tty_lock s = kret (True, s\<lparr>ttyLock := semaphore_new 0\<rparr>)"
  by (simp add: tty_lock_def lock_free_def sem_wait_def semaphore_new_def)

lemma tty_unlock_held: "ttyLock s = semaphore_new 0 \<Longrightarrow> tty_unlock s = s\<lparr>ttyLock := semaphore_new 1\<rparr>"
  by (simp add: tty_unlock_def sem_signal_def semaphore_new_def)

lemma tty_locked_free:
  assumes "lock_free s" "f (s\<lparr>ttyLock := semaphore_new 0\<rparr>) = (r, s2)" "ttyLock s2 = semaphore_new 0"
  shows "tty_locked f s = kret (Some r, s2\<lparr>ttyLock := semaphore_new 1\<rparr>)"
  using assms by (simp add: tty_locked_def tty_lock_free tty_unlock_held)

lemma tty_lock_field [simp]:
  "tty_ok (s\<lparr>ttyLock := m\<rparr>) = tty_ok s" "tty_abs (s\<lparr>ttyLock := m\<rparr>) = tty_abs s"
  "outside_kept s (u\<lparr>ttyLock := m\<rparr>) = outside_kept s u" "outside_kept (s\<lparr>ttyLock := m\<rparr>) u = outside_kept s u"
  "lock_free (s\<lparr>ttyLock := semaphore_new 1\<rparr>)"
  by (simp_all add: tty_ok_def tty_abs_def outside_kept_def lock_free_def)

lemma cursor_field [simp]:
  "tty_ok (cursorUpdate s) = tty_ok s" "tty_abs (cursorUpdate s) = tty_abs s" "outside_kept s (cursorUpdate u) = outside_kept s u"
  "ttyLock (cursorUpdate s) = ttyLock s" "scrollbackActive (cursorUpdate s) = scrollbackActive s"
  by (simp_all add: cursorUpdate_def tty_ok_def tty_abs_def outside_kept_def)

lemma cursor_at:
  assumes "tty_ok s"
  shows "unat (crtcCursor (cursorUpdate s)) = vrow (tty_abs s) * VGA_WIDTH + vcol (tty_abs s)"
proof -
  have "unat (termRow s) < 24" "unat (termCol s) < 80" using assms by (simp_all add: tty_ok_def tty_consts)
  then have "unat (termRow s) * VGA_WIDTH + unat (termCol s) < 2 ^ 16" by (simp add: VGA_WIDTH_def)
  then have "unat (word_of_nat (unat (termRow s) * VGA_WIDTH + unat (termCol s)) :: u16) = unat (termRow s) * VGA_WIDTH + unat (termCol s)"
    by (simp only: unat_of_nat take_bit_nat_eq_self_iff len_num1 len_bit0 len_bit1) simp
  then show ?thesis by (simp add: cursorUpdate_def del: of_nat_add of_nat_mult)
qed

lemma tty_puts_spec:
  assumes "tty_ok s" "lock_free s"
  shows "\<exists>s'. tty_puts str s = kret (Some (int (length str)), s') \<and> lock_free s' \<and> tty_ok s' \<and> outside_kept s s'
    \<and> tty_abs s' = fold vt_emit str (tty_abs s) \<and> unat (crtcCursor s') = vrow (tty_abs s') * VGA_WIDTH + vcol (tty_abs s')"
proof -
  let ?s = "s\<lparr>ttyLock := semaphore_new 0\<rparr>"
  let ?u = "cursorUpdate (fold emit str ?s)"
  have e: "tty_ok (fold emit str ?s)" "outside_kept s (fold emit str ?s)" "tty_abs (fold emit str ?s) = fold vt_emit str (tty_abs s)"
    using emits_refine [of ?s str] assms(1) by simp_all
  have "tty_puts str s = kret (Some (int (length str)), ?u\<lparr>ttyLock := semaphore_new 1\<rparr>)"
    unfolding tty_puts_def by (rule tty_locked_free [OF assms(2)]) (simp_all add: rawPuts_def emits_lock)
  then show ?thesis using e cursor_at [OF e(1)] by (simp del: tty_abs_simps(3,4))
qed

lemma putc_spec:
  assumes "tty_ok s" "lock_free s" "\<not> scrollbackActive s"
  shows "\<exists>s'. putc c s = kret (Some (), s') \<and> lock_free s' \<and> tty_ok s' \<and> outside_kept s s' \<and> \<not> scrollbackActive s'
    \<and> tty_abs s' = vt_emit c (tty_abs s) \<and> unat (crtcCursor s') = vrow (tty_abs s') * VGA_WIDTH + vcol (tty_abs s')"
proof -
  let ?s = "s\<lparr>ttyLock := semaphore_new 0\<rparr>"
  have e: "tty_ok (emit c ?s)" "outside_kept s (emit c ?s)" "tty_abs (emit c ?s) = vt_emit c (tty_abs s)"
    using emit_refines [of ?s c] assms(1) by simp_all
  have "putc c s = kret (Some (), (cursorUpdate (emit c ?s))\<lparr>ttyLock := semaphore_new 1\<rparr>)"
    using assms(3) by (simp add: putc_def tty_lock_free [OF assms(2)] tty_unlock_held emit_lock)
  then show ?thesis using e cursor_at [OF e(1)] assms(3) by (simp add: emit_lock del: tty_abs_simps(3,4))
qed

section \<open>The scrollback view\<close>

lemma fold_write:
  "fold (\<lambda>c m. m(a + c := g c)) [0..<n] m = (\<lambda>i. if a \<le> i \<and> i < a + n then g (i - a) else m i)"
proof (induction n)
  case 0
  show ?case by (rule ext) auto
next
  case (Suc n)
  then show ?case by (auto simp: fun_eq_iff)
qed

lemma fold_rows:
  assumes "\<And>r m. f r m = (\<lambda>i. if r * w \<le> i \<and> i < r * w + w then g r (i - r * w) else m i)"
  shows "fold f [a..<a + k] m = (\<lambda>i. if a * w \<le> i \<and> i < (a + k) * w then g (i div w) (i mod w) else m i)"
proof (induction k)
  case 0
  show ?case by (rule ext) auto
next
  case (Suc k)
  have d: "i div w = a + k \<and> i mod w = i - (a + k) * w" if "(a + k) * w \<le> i" "i < (a + k) * w + w" for i
  proof -
    have "i = (a + k) * w + (i - (a + k) * w)" "i - (a + k) * w < w" using that by simp_all
    then show ?thesis by (metis add.commute add_cancel_right_left div_less div_mult_self3 less_nat_zero_code mod_less mod_mult_self3)
  qed
  have e: "(a + Suc k) * w = (a + k) * w + w" "a * w \<le> (a + k) * w" by (simp_all add: algebra_simps)
  have "fold f [a..<a + Suc k] m = f (a + k) (fold f [a..<a + k] m)" by simp
  also have "\<dots> = (\<lambda>i. if a * w \<le> i \<and> i < (a + k) * w + w then g (i div w) (i mod w) else m i)"
  proof (rule ext)
    fix i
    show "f (a + k) (fold f [a..<a + k] m) i = (if a * w \<le> i \<and> i < (a + k) * w + w then g (i div w) (i mod w) else m i)"
    proof (cases "(a + k) * w \<le> i \<and> i < (a + k) * w + w")
      case True
      moreover from this have "a * w \<le> i" using e(2) by linarith
      ultimately show ?thesis using d [of i] unfolding assms by simp
    next
      case False
      then have "i < (a + k) * w \<longleftrightarrow> i < (a + k) * w + w" by linarith
      with False show ?thesis unfolding assms Suc by simp
    qed
  qed
  finally show ?case unfolding e(1) .
qed

lemma show_row_write:
  "show_row buf head count topLine bottom row m =
    (\<lambda>i. if row * VGA_WIDTH \<le> i \<and> i < row * VGA_WIDTH + VGA_WIDTH then
       (let lineFromEnd = topLine - int (row - 1) in
        if lineFromEnd > count \<or> lineFromEnd < bottom then vgaEntry 0x20 DEFAULT_COLOR
        else let line = buf ! nat ((head - lineFromEnd + int SCROLLBACK_LINES) mod int SCROLLBACK_LINES);
                 ch = line ! (i - row * VGA_WIDTH)
             in vgaEntry (if ch \<noteq> 0 then ch else 0x20) DEFAULT_COLOR)
     else m i)"
  unfolding show_row_def Let_def fold_write fill_cells_def by (auto simp: fun_eq_iff)

text \<open>The window of the view: the line shown on row 1 (counted from the newest, from 1).\<close>

definition view_top :: "int \<Rightarrow> 'a tty_scheme \<Rightarrow> nat" where
  "view_top offset s = nat (min (min offset (scrollbackCount s) + int SCROLLBACK_VIEW_HEIGHT - 1) (scrollbackCount s))"

definition view_line :: "u8 list \<Rightarrow> u16 list" where
  "view_line l = map (\<lambda>ch. vgaEntry (if ch \<noteq> 0 then ch else 0x20) DEFAULT_COLOR) l"

lemma show_body_fields:
  assumes "1 \<le> offset"
  shows "show_body offset s = s\<lparr>savedScreen := (if scrollbackActive s then savedScreen s else map (vgaRam s) [0..<ROWS * VGA_WIDTH]),
      crtcCursorStart := 0x20, scrollbackActive := True, scrollbackOffset := scrollbackOffset (show_body offset s),
      vgaRam := vgaRam (show_body offset s)\<rparr>"
  using assms by (simp add: show_body_def Let_def cursorDisable_def)

lemma show_body_ram:
  assumes "1 \<le> offset" "0 \<le> scrollbackCount s"
  defines "T \<equiv> int (view_top offset s)"
  shows "scrollbackOffset (show_body offset s) = max 1 (T - int SCROLLBACK_VIEW_HEIGHT + 1)"
    and "\<exists>m. vgaRam (show_body offset s) = fold (show_row (scrollbackBuf s) (scrollbackHead s) (scrollbackCount s) T
       (max 1 (T - int SCROLLBACK_VIEW_HEIGHT + 1))) [1..<1 + (ROWS - 1)] m \<and> (\<forall>i \<ge> VGA_WIDTH. m i = vgaRam s i)"
proof -
  let ?n = "scrollbackCount s" and ?V = "int SCROLLBACK_VIEW_HEIGHT"
  let ?o = "if offset > ?n then ?n else offset"
  have t: "(if ?o + ?V - 1 > ?n then ?n else ?o + ?V - 1) = T"
    using assms(1,2) by (simp add: T_def view_top_def tty_consts min_def)
  have b: "(if T - ?V + 1 < 1 then 1 else T - ?V + 1) = max 1 (T - ?V + 1)" by simp
  have r: "1 + (ROWS - 1) = ROWS" by (simp add: tty_consts)
  have o: "\<not> offset < 1" using assms(1) by simp
  note d = show_body_def [of offset s] Let_def t b if_not_P [OF o]
  show "scrollbackOffset (show_body offset s) = max 1 (T - ?V + 1)" unfolding d by (simp add: cursorDisable_def)
  let ?st = "status_text (max 1 (T - ?V + 1)) ?n"
  have st: "show_status ?st (vgaRam s) i = vgaRam s i" if "i \<ge> VGA_WIDTH" for i
    using that unfolding show_status_def fold_write by simp
  have "vgaRam (show_body offset s) = fold (show_row (scrollbackBuf s) (scrollbackHead s) ?n T (max 1 (T - ?V + 1)))
      [1..<1 + (ROWS - 1)] (show_status ?st (vgaRam s))"
    unfolding d r by (simp add: cursorDisable_def)
  then show "\<exists>m. vgaRam (show_body offset s) = fold (show_row (scrollbackBuf s) (scrollbackHead s) ?n T
       (max 1 (T - ?V + 1))) [1..<1 + (ROWS - 1)] m \<and> (\<forall>i \<ge> VGA_WIDTH. m i = vgaRam s i)" using st by blast
qed

lemma view_row:
  assumes "tty_ok s" "1 \<le> offset" "1 \<le> r" "r < ROWS"
  shows "screen (vgaRam (show_body offset s)) ! r =
    (if r \<le> view_top offset s then view_line (history (tty_abs s) ! (view_top offset s - r)) else replicate VGA_WIDTH blank)"
proof -
  let ?T = "view_top offset s" and ?V = "int SCROLLBACK_VIEW_HEIGHT" and ?N = "int SCROLLBACK_LINES"
  let ?b = "max 1 (int ?T - ?V + 1)"
  have n: "0 \<le> scrollbackCount s" "int ?T \<le> scrollbackCount s" using assms(1,2) by (simp_all add: tty_ok_def view_top_def tty_consts)
  obtain m where m: "vgaRam (show_body offset s) = fold (show_row (scrollbackBuf s) (scrollbackHead s) (scrollbackCount s) (int ?T) ?b)
      [1..<1 + (ROWS - 1)] m" using show_body_ram(2) [OF assms(2) n(1)] by blast
  have c: "vgaRam (show_body offset s) (r * VGA_WIDTH + c) = (let lineFromEnd = int ?T - int (r - 1) in
        if lineFromEnd > scrollbackCount s \<or> lineFromEnd < ?b then vgaEntry 0x20 DEFAULT_COLOR
        else let line = scrollbackBuf s ! nat ((scrollbackHead s - lineFromEnd + ?N) mod ?N); ch = line ! c
             in vgaEntry (if ch \<noteq> 0 then ch else 0x20) DEFAULT_COLOR)" if "c < VGA_WIDTH" for c
  proof -
    have i: "1 * VGA_WIDTH \<le> r * VGA_WIDTH + c" "r * VGA_WIDTH + c < (1 + (ROWS - 1)) * VGA_WIDTH"
      "(r * VGA_WIDTH + c) div VGA_WIDTH = r" "(r * VGA_WIDTH + c) mod VGA_WIDTH = c"
      using assms(3,4) that by (simp_all add: VGA_WIDTH_def VGA_HEIGHT_def ROWS_def)
    show ?thesis unfolding m fold_rows [OF show_row_write] using i by (simp only: if_True conj_absorb simp_thms)
  qed
  have cond: "int ?T - int (r - 1) > scrollbackCount s \<or> int ?T - int (r - 1) < ?b \<longleftrightarrow> \<not> r \<le> ?T"
    using n assms(3,4) by (simp add: tty_consts max_def) linarith
  show ?thesis
  proof (cases "r \<le> ?T")
    case False
    then show ?thesis using c cond assms(4) by (auto simp: blank_def intro!: nth_equalityI)
  next
    case True
    let ?l = "scrollbackBuf s ! nat ((scrollbackHead s - 1 - int (?T - r) + ?N) mod ?N)"
    have e: "scrollbackHead s - (int ?T - int (r - 1)) = scrollbackHead s - 1 - int (?T - r)" using True assms(3) by simp
    have "?T - r < nat (scrollbackCount s)" using n assms(3) True by linarith
    then have h: "history (tty_abs s) ! (?T - r) = take VGA_WIDTH ?l" by (simp add: tty_abs_def ring_def)
    have "nat ((scrollbackHead s - 1 - int (?T - r) + ?N) mod ?N) < length (scrollbackBuf s)"
      using assms(1) by (simp add: tty_ok_def SCROLLBACK_LINES_def nat_less_iff)
    then have "length ?l = VGA_WIDTH + 1" using assms(1) nth_mem unfolding tty_ok_def by blast
    moreover have "vgaRam (show_body offset s) (r * VGA_WIDTH + j) = vgaEntry (if ?l ! j \<noteq> 0 then ?l ! j else 0x20) DEFAULT_COLOR"
      if "j < VGA_WIDTH" for j
      unfolding c [OF that] Let_def e using cond True by (simp only: if_False not_not simp_thms)
    ultimately show ?thesis using True assms(4) h by (auto simp: view_line_def intro!: nth_equalityI)
  qed
qed

lemma show_outside:
  assumes "tty_ok s" "1 \<le> offset"
  shows "outside_kept s (show_body offset s)"
proof -
  have n: "0 \<le> scrollbackCount s" using assms(1) by (simp add: tty_ok_def)
  let ?T = "int (view_top offset s)"
  let ?b = "max 1 (?T - int SCROLLBACK_VIEW_HEIGHT + 1)"
  obtain m where m: "vgaRam (show_body offset s) = fold (show_row (scrollbackBuf s) (scrollbackHead s) (scrollbackCount s) ?T ?b)
      [1..<1 + (ROWS - 1)] m" "\<forall>i \<ge> VGA_WIDTH. m i = vgaRam s i" using show_body_ram(2) [OF assms(2) n] by blast
  show ?thesis unfolding outside_kept_def
  proof (intro allI impI)
    fix i assume "ROWS * VGA_WIDTH \<le> i"
    then have "\<not> (1 * VGA_WIDTH \<le> i \<and> i < (1 + (ROWS - 1)) * VGA_WIDTH)" "VGA_WIDTH \<le> i" by (simp_all add: tty_consts)
    with m(2) show "vgaRam (show_body offset s) i = vgaRam s i" unfolding m(1) fold_rows [OF show_row_write] by simp
  qed
qed

lemma show_body_kept:
  "scrollbackBuf (show_body offset s) = scrollbackBuf s" "scrollbackHead (show_body offset s) = scrollbackHead s"
  "scrollbackCount (show_body offset s) = scrollbackCount s" "termRow (show_body offset s) = termRow s"
  "termCol (show_body offset s) = termCol s" "termColor (show_body offset s) = termColor s"
  "scrolling (show_body offset s) = scrolling s" "ttyLock (show_body offset s) = ttyLock s"
  by (simp_all add: show_body_def Let_def cursorDisable_def)

lemma show_exit:
  assumes "tty_ok s" "1 \<le> offset" "\<not> scrollbackActive s"
  shows "vgaRam (exit_body (show_body offset s)) = vgaRam s" "\<not> scrollbackActive (exit_body (show_body offset s))"
    "tty_abs (exit_body (show_body offset s)) = tty_abs s"
proof -
  let ?s = "show_body offset s"
  have f: "scrollbackActive ?s" "savedScreen ?s = map (vgaRam s) [0..<ROWS * VGA_WIDTH]"
    using assms(3) by (subst show_body_fields [OF assms(2)]; simp)+
  have o: "vgaRam ?s i = vgaRam s i" if "i \<ge> ROWS * VGA_WIDTH" for i
    using show_outside [OF assms(1,2)] that by (simp add: outside_kept_def)
  show r: "vgaRam (exit_body ?s) = vgaRam s"
    using f o by (auto simp: exit_body_def clearNavigation_def cursorEnable_def cursorUpdate_def fun_eq_iff)
  show "\<not> scrollbackActive (exit_body ?s)"
    by (simp add: exit_body_def clearNavigation_def cursorEnable_def cursorUpdate_def)
  show "tty_abs (exit_body ?s) = tty_abs s"
    unfolding tty_abs_def r using f
    by (simp add: exit_body_def clearNavigation_def cursorEnable_def cursorUpdate_def show_body_kept)
qed

lemma show_body_lock: "show_body offset (s\<lparr>ttyLock := m\<rparr>) = (show_body offset s)\<lparr>ttyLock := m\<rparr>"
  by (simp add: show_body_def Let_def cursorDisable_def)

lemma exit_body_lock: "exit_body (s\<lparr>ttyLock := m\<rparr>) = (exit_body s)\<lparr>ttyLock := m\<rparr>"
  by (simp add: exit_body_def clearNavigation_def cursorEnable_def cursorUpdate_def cong: if_cong)

lemma scrollbackShow_free:
  assumes "lock_free s"
  shows "scrollbackShow offset s = kret (Some (), (show_body offset s)\<lparr>ttyLock := semaphore_new 1\<rparr>)"
proof -
  have "scrollbackShow offset s = kret (Some (), ((show_body offset s)\<lparr>ttyLock := semaphore_new 0\<rparr>)\<lparr>ttyLock := semaphore_new 1\<rparr>)"
    unfolding scrollbackShow_def by (rule tty_locked_free [OF assms]) (simp_all add: show_body_lock)
  then show ?thesis by simp
qed

lemma scrollbackExit_free:
  assumes "lock_free s"
  shows "scrollbackExit s = kret (Some (), (exit_body s)\<lparr>ttyLock := semaphore_new 1\<rparr>)"
proof -
  have "scrollbackExit s = kret (Some (), ((exit_body s)\<lparr>ttyLock := semaphore_new 0\<rparr>)\<lparr>ttyLock := semaphore_new 1\<rparr>)"
    unfolding scrollbackExit_def by (rule tty_locked_free [OF assms]) (simp_all add: exit_body_lock)
  then show ?thesis by simp
qed

lemma view_spec:
  assumes "tty_ok s" "lock_free s" "\<not> scrollbackActive s" "1 \<le> offset"
  shows "\<exists>s1 s2. scrollbackShow offset s = kret (Some (), s1)
    \<and> (\<forall>r. 1 \<le> r \<and> r < ROWS \<longrightarrow> grid (tty_abs s1) ! r =
         (if r \<le> view_top offset s then view_line (history (tty_abs s) ! (view_top offset s - r)) else replicate VGA_WIDTH blank))
    \<and> outside_kept s s1 \<and> scrollbackExit s1 = kret (Some (), s2) \<and> vgaRam s2 = vgaRam s \<and> \<not> scrollbackActive s2
    \<and> tty_abs s2 = tty_abs s"
proof -
  let ?s1 = "(show_body offset s)\<lparr>ttyLock := semaphore_new 1\<rparr>"
  let ?s2 = "(exit_body ?s1)\<lparr>ttyLock := semaphore_new 1\<rparr>"
  have "scrollbackShow offset s = kret (Some (), ?s1)" "scrollbackExit ?s1 = kret (Some (), ?s2)"
    using scrollbackShow_free [OF assms(2)] scrollbackExit_free [of ?s1] by simp_all
  moreover have "grid (tty_abs ?s1) ! r =
      (if r \<le> view_top offset s then view_line (history (tty_abs s) ! (view_top offset s - r)) else replicate VGA_WIDTH blank)"
    if "1 \<le> r" "r < ROWS" for r
    using view_row [OF assms(1,4) that] by simp
  moreover have "outside_kept s ?s1" using show_outside [OF assms(1,4)] by simp
  moreover have "vgaRam ?s2 = vgaRam s" "\<not> scrollbackActive ?s2" "tty_abs ?s2 = tty_abs s"
    using show_exit [OF assms(1,4,3)] by (simp_all add: exit_body_lock)
  ultimately show ?thesis by blast
qed

section \<open>The terminal lock\<close>

lemma tty_lock_held:
  assumes "sched_ok s" "sem_count (ttyLock s) = 0" "length (waiters (ttyLock s)) < MAX_WAITERS"
  shows "tty_lock s = kret (False, (upd_task (currentIdx s) (\<lambda>t. t\<lparr>tstate := BLOCKED\<rparr>) s)
    \<lparr>ttyLock := (ttyLock s)\<lparr>waiters := waiters (ttyLock s) @ [currentIdx s]\<rparr>\<rparr>)"
  using assms(2,3) sched_okD(2,3,5) [OF assms(1)] by (simp add: tty_lock_def sem_wait_def blockCurrentTask_def)

lemma tty_locked_held:
  assumes "sched_ok s" "sem_count (ttyLock s) = 0" "tty_locked f s = kret (r, s')"
  shows "r = None \<and> sem_count (ttyLock s') = 0"
proof (cases "length (waiters (ttyLock s)) < MAX_WAITERS")
  case True
  then show ?thesis using assms(2,3) tty_lock_held [OF assms(1,2)] by (auto simp: tty_locked_def)
next
  case False
  then show ?thesis
    using assms(2,3) sched_okD(2,3) [OF assms(1)] by (simp add: tty_locked_def tty_lock_def sem_wait_def)
qed

lemma sched_ok_tty [simp]: "sched_ok (s\<lparr>ttyLock := m\<rparr>) = sched_ok s"
  by (simp add: sched_ok_def)

lemma putc_scrollback:
  fixes s :: "'a tty_scheme"
  assumes "sched_ok s" "lock_free s" "scrollbackActive s"
  shows "\<exists>s'. putc c s = kret (None, s') \<and> sched_ok s' \<and> tstate (currentTask s') = BLOCKED \<and> currentIdx s' = currentIdx s
    \<and> ttyLock s' = \<lparr>sem_count = 0, waiters = [currentIdx s]\<rparr>"
proof -
  let ?s = "s\<lparr>ttyLock := semaphore_new 0\<rparr>"
  let ?u = "(upd_task (currentIdx s) (\<lambda>t. t\<lparr>tstate := BLOCKED\<rparr>) ?s)\<lparr>ttyLock := \<lparr>sem_count = 0, waiters = [currentIdx s]\<rparr>\<rparr>"
  have h: "tty_lock ?s = kret (False, ?u)"
    by (subst tty_lock_held) (use assms(1) in \<open>simp_all add: semaphore_new_def MAX_WAITERS_def MAX_TASKS_def\<close>)
  then have "scrollbackExit ?s = kret (None, ?u)" by (simp add: scrollbackExit_def tty_locked_def)
  then have "putc c s = kret (None, ?u)" using assms(3) by (simp add: putc_def tty_lock_free [OF assms(2)])
  moreover have "sched_ok ?u" using block_ok [of ?s] assms(1) sched_okD(5) [OF assms(1)] by (simp add: blockCurrentTask_def)
  moreover have "tstate (currentTask ?u) = BLOCKED"
    using sched_okD(6) [OF assms(1)] by (simp add: currentTask_def task_at_def upd_task_def)
  moreover have "currentIdx ?u = currentIdx s" by (simp add: upd_task_def)
  ultimately show ?thesis by auto
qed

section \<open>Properties of the terminal\<close>

text \<open>C22. The terminal driver refines the abstract terminal: with the lock free and the cursor on the terminal's rows, writing a
  string through \<open>Tty::puts\<close> returns its length, leaves the lock free, does to the screen, the cursor and the scrollback history
  exactly what the abstract terminal does (rows move up at the bottom, the top row joins the history, at most 1000
  lines are kept), keeps every cell outside the 24 rows (the taskbar), and puts the hardware cursor at the
  terminal's position.\<close>

theorem tty_refines:
  assumes "tty_ok s" "lock_free s"
  shows "\<exists>s'. tty_puts str s = kret (Some (int (length str)), s') \<and> lock_free s' \<and> tty_ok s' \<and> outside_kept s s'
    \<and> tty_abs s' = fold vt_emit str (tty_abs s) \<and> unat (crtcCursor s') = vrow (tty_abs s') * VGA_WIDTH + vcol (tty_abs s')"
  using assms by (rule tty_puts_spec)

definition demo_tty :: "bool \<Rightarrow> tty" where
  "demo_tty active = kbd.extend demo_kbd (tty.fields (\<lambda>_. 0x0A41) (semaphore_new 1) 23 78 DEFAULT_COLOR True
     (replicate SCROLLBACK_LINES (replicate (VGA_WIDTH + 1) 0x42)) 5 5 active 0 [] 0 0 0)"

lemma demo_tty_ok: "tty_ok (demo_tty b)" "lock_free (demo_tty b)" "scrollbackActive (demo_tty b) = b" "scrollbackCount (demo_tty b) = 5"
  by (simp_all add: demo_tty_def tty_ok_def lock_free_def kbd.defs tty.defs tty_consts)

theorem tty_refines_witness:
  "\<exists>s'. tty_puts [0x48, 0x69, 0x0A] (demo_tty False) = kret (Some 3, s') \<and> tty_abs s' = fold vt_emit [0x48, 0x69, 0x0A] (tty_abs (demo_tty False))"
  using tty_refines [OF demo_tty_ok(1,2), of "[0x48, 0x69, 0x0A]" False] by auto

text \<open>C23. Scrollback view: from the live screen, \<open>scrollbackShow\<close> fills the rows below the status line with a contiguous window of
  the history, oldest line first, blank below it, without touching the taskbar; \<open>scrollbackExit\<close> then
  restores every cell, the cursor and the history.\<close>

theorem scrollback_roundtrip:
  assumes "tty_ok s" "lock_free s" "\<not> scrollbackActive s" "1 \<le> offset"
  shows "\<exists>s1 s2. scrollbackShow offset s = kret (Some (), s1)
    \<and> (\<forall>r. 1 \<le> r \<and> r < ROWS \<longrightarrow> grid (tty_abs s1) ! r =
         (if r \<le> view_top offset s then view_line (history (tty_abs s) ! (view_top offset s - r)) else replicate VGA_WIDTH blank))
    \<and> outside_kept s s1 \<and> scrollbackExit s1 = kret (Some (), s2) \<and> vgaRam s2 = vgaRam s \<and> \<not> scrollbackActive s2
    \<and> tty_abs s2 = tty_abs s"
  using assms by (rule view_spec)

theorem scrollback_roundtrip_witness:
  "\<exists>s1 s2. scrollbackShow 2 (demo_tty False) = kret (Some (), s1)
     \<and> grid (tty_abs s1) ! 5 = view_line (history (tty_abs (demo_tty False)) ! 0) \<and> grid (tty_abs s1) ! 6 = replicate VGA_WIDTH blank
     \<and> scrollbackExit s1 = kret (Some (), s2) \<and> vgaRam s2 = vgaRam (demo_tty False)"
proof -
  have v: "view_top 2 (demo_tty False) = 5" by (simp add: view_top_def demo_tty_ok tty_consts)
  have r: "1 \<le> (5 :: nat) \<and> 5 < ROWS" "1 \<le> (6 :: nat) \<and> 6 < ROWS" by (simp_all add: tty_consts)
  have "\<not> scrollbackActive (demo_tty False)" "1 \<le> (2 :: int)" by (simp_all add: demo_tty_ok)
  from scrollback_roundtrip [OF demo_tty_ok(1,2) this] r show ?thesis unfolding v by fastforce
qed


lemma demo_tty_sched: "sched_ok (demo_tty b)"
  using demo_proc_ok unfolding sched_ok_def demo_tty_def demo_kbd_def
  by (simp add: kbd.defs tty.defs proc.defs kbd_init_def clearNavigation_def)


end
