(* ===== verification/Readline.thy ===== *)
theory Readline
  imports Tty
begin

unbundle bit_operations_syntax

text \<open>
  The line editor \<open>Kbd::readLine\<close> (kernel/arch/i386/Kbd.cc) with its history, over the keyboard and the terminal. The loop runs while
  the interrupt handler adds input, so what is modelled is one iteration. \<open>string\<close> is a list of bytes; a result None is a caller
  suspended in the terminal lock.

  Shown: the editor is a zipper, and the row of the screen shows the line it edits.
\<close>

section \<open>Output\<close>

text \<open>\<open>printf\<close> formats into a buffer and gives the bytes before the first NUL to \<open>Tty::puts\<close>.\<close>

definition print_bytes :: "u8 list \<Rightarrow> 'a tty_scheme \<Rightarrow> (unit option \<times> 'a tty_scheme) kres" where
  "print_bytes bs s = kbind (tty_puts (takeWhile (\<lambda>b. b \<noteq> 0) bs) s) (\<lambda>(r, s1). kret (map_option (\<lambda>_. ()) r, s1))"

text \<open>A sequence of \<open>printf\<close> calls; it stops where the caller is suspended.\<close>

fun print_all :: "u8 list list \<Rightarrow> 'a tty_scheme \<Rightarrow> (unit option \<times> 'a tty_scheme) kres" where
  "print_all [] s = kret (Some (), s)"
| "print_all (bs # bss) s =
     kbind (print_bytes bs s) (\<lambda>(r, s1). case r of None \<Rightarrow> kret (None, s1) | Some _ \<Rightarrow> print_all bss s1)"

section \<open>Editing steps\<close>

text \<open>A line is the list of its characters. Every helper gives the new line and what it prints, call by call. The positions are
  in range, so \<open>erase\<close> and \<open>insert\<close> do not clamp.\<close>

record HistoryCtx =
  hc_buf :: "u8 list list"
  hc_size :: int
  hc_count :: int
  hc_head :: int
  hc_pos :: int

definition deleteAt :: "u8 list \<Rightarrow> nat \<Rightarrow> nat \<Rightarrow> u8 list \<times> u8 list list" where
  "deleteAt buf delPos oldLen =
     (let buf' = take delPos buf @ drop (Suc delPos) buf
      in (buf', map (\<lambda>i. [buf' ! i]) [delPos..<length buf'] @ [[0x20]] @ replicate (oldLen - delPos) [0x08]))"

definition insertAt :: "u8 list \<Rightarrow> nat \<Rightarrow> u8 \<Rightarrow> u8 list \<times> u8 list list" where
  "insertAt buf insPos ch =
     (let buf' = take insPos buf @ [ch] @ drop insPos buf
      in (buf', map (\<lambda>i. [buf' ! i]) [insPos..<length buf'] @ replicate (length buf' - (insPos + 1)) [0x08]))"

definition redrawLine :: "u8 list \<Rightarrow> nat \<Rightarrow> nat \<Rightarrow> u8 list list" where
  "redrawLine buf cursor oldLen =
     (let len = length buf; maxLen = (if len > oldLen then len else oldLen)
      in [[0x0D, 0x3E, 0x20]] @ map (\<lambda>c. [c]) buf @ replicate (maxLen - len) [0x20] @ replicate (maxLen - cursor) [0x08])"

definition clearRange :: "u8 list \<Rightarrow> nat \<Rightarrow> nat \<Rightarrow> u8 list \<times> u8 list list" where
  "clearRange buf p oldLen = (take p buf, redrawLine (take p buf) p oldLen)"

definition loadHistory :: "u8 list \<Rightarrow> nat \<Rightarrow> (u8 list \<times> nat) \<times> u8 list list" where
  "loadHistory src oldLen = ((src, length src), redrawLine src (length src) oldLen)"

text \<open>\<open>%\<close> on ints; its operands here are not negative.\<close>

definition historyUp ::
  "HistoryCtx \<Rightarrow> u8 list \<times> nat \<Rightarrow> HistoryCtx \<times> (u8 list \<times> nat) \<times> u8 list list" where
  "historyUp h l =
     (let oldLen = length (fst l);
          go = (\<lambda>p. let (l', out) = loadHistory (hc_buf h ! nat p) oldLen in (h\<lparr>hc_pos := p\<rparr>, l', out))
      in if hc_pos h = - 1 then
           (if hc_count h = 0 then (h, l, []) else go ((hc_head h - 1 + hc_size h) mod hc_size h))
         else if hc_pos h = (hc_head h - hc_count h + hc_size h) mod hc_size h then (h, l, [])
         else go ((hc_pos h - 1 + hc_size h) mod hc_size h))"

definition historyDown ::
  "HistoryCtx \<Rightarrow> u8 list \<times> nat \<Rightarrow> HistoryCtx \<times> (u8 list \<times> nat) \<times> u8 list list" where
  "historyDown h l =
     (if hc_pos h = - 1 then (h, l, []) else (h\<lparr>hc_pos := - 1\<rparr>, ([], 0), redrawLine [] 0 (length (fst l))))"

abbreviation KEY_CTRL_A :: u8 where "KEY_CTRL_A \<equiv> 0x01"
abbreviation KEY_CTRL_B :: u8 where "KEY_CTRL_B \<equiv> 0x02"
abbreviation KEY_CTRL_C :: u8 where "KEY_CTRL_C \<equiv> 0x03"
abbreviation KEY_CTRL_D :: u8 where "KEY_CTRL_D \<equiv> 0x04"
abbreviation KEY_CTRL_E :: u8 where "KEY_CTRL_E \<equiv> 0x05"
abbreviation KEY_CTRL_F :: u8 where "KEY_CTRL_F \<equiv> 0x06"
abbreviation KEY_CTRL_K :: u8 where "KEY_CTRL_K \<equiv> 0x0B"
abbreviation KEY_CTRL_N :: u8 where "KEY_CTRL_N \<equiv> 0x0E"
abbreviation KEY_CTRL_P :: u8 where "KEY_CTRL_P \<equiv> 0x10"
abbreviation KEY_CTRL_U :: u8 where "KEY_CTRL_U \<equiv> 0x15"

text \<open>What one character does: the context, the line with its cursor, the output, and whether \<open>readLine\<close> returns.\<close>

definition edit_char ::
  "HistoryCtx option \<Rightarrow> u8 \<Rightarrow> u8 list \<times> nat \<Rightarrow> HistoryCtx option \<times> (u8 list \<times> nat) \<times> u8 list list \<times> bool" where
  "edit_char h ch l =
     (let (line, pos) = l in
      if h \<noteq> None \<and> ch = KEY_CTRL_P then (let (h', l', out) = historyUp (the h) l in (Some h', l', out, False))
      else if h \<noteq> None \<and> ch = KEY_CTRL_N then (let (h', l', out) = historyDown (the h) l in (Some h', l', out, False))
      else if ch = KEY_CTRL_C then (h, ([], pos), [[0x5E, 0x43, 0x0A]], True)
      else if ch = KEY_CTRL_A then (h, (line, 0), replicate pos [0x08], False)
      else if ch = KEY_CTRL_E then (h, (line, max pos (length line)), map (\<lambda>i. [line ! i]) [pos..<length line], False)
      else if ch = KEY_CTRL_B then (if pos > 0 then (h, (line, pos - 1), [[0x08]], False) else (h, l, [], False))
      else if ch = KEY_CTRL_F then (if pos < length line then (h, (line, pos + 1), [[line ! pos]], False) else (h, l, [], False))
      else if ch = KEY_CTRL_D then
        (if pos < length line then (let (line', out) = deleteAt line pos (length line) in (h, (line', pos), out, False))
         else (h, l, [], False))
      else if ch = KEY_CTRL_K then
        (if pos < length line then (let (line', out) = clearRange line pos (length line) in (h, (line', pos), out, False))
         else (h, l, [], False))
      else if ch = 0x0A then (h, l, [[0x0A]], True)
      else if ch = 0x08 then
        (if pos > 0 then (let (line', out) = deleteAt line (pos - 1) (length line) in (h, (line', pos - 1), [0x08] # out, False))
         else (h, l, [], False))
      else if ch = KEY_CTRL_U then
        (if line \<noteq> [] then (let (line', out) = clearRange line 0 (length line) in (h, (line', 0), out, False)) else (h, l, [], False))
      else (let (line', out) = insertAt line pos ch in (h, (line', pos + 1), out, False)))"

section \<open>The loop\<close>

datatype rl_next = RL_Again | RL_Return

definition lmap :: "('a \<Rightarrow> 'b) \<Rightarrow> ('a option \<times> 's) kres \<Rightarrow> ('b option \<times> 's) kres" where
  "lmap f m = kbind m (\<lambda>(r, s). kret (map_option f r, s))"

text \<open>One iteration of \<open>for (;;)\<close>. Without input the loop goes round with the state unchanged.\<close>

definition readLine_step ::
  "HistoryCtx option \<Rightarrow> u8 list \<times> nat \<Rightarrow> 'a tty_scheme \<Rightarrow>
     ((rl_next \<times> HistoryCtx option \<times> u8 list \<times> nat) option \<times> 'a tty_scheme) kres" where
  "readLine_step h l s =
     (let (line, pos) = l;
          again = (\<lambda>_. (RL_Again, h, l)) in
      if scrollbackActive s \<and> pendingUp s > 0 then lmap again (scrollbackLineUp (s\<lparr>pendingUp := pendingUp s - 1\<rparr>))
      else if scrollbackActive s \<and> pendingDown s > 0 then lmap again (scrollbackLineDown (s\<lparr>pendingDown := pendingDown s - 1\<rparr>))
      else if h \<noteq> None \<and> pendingUp s > 0 then
        (let (h', l', out) = historyUp (the h) l in lmap (\<lambda>_. (RL_Again, Some h', l')) (print_all out (s\<lparr>pendingUp := pendingUp s - 1\<rparr>)))
      else if h \<noteq> None \<and> pendingDown s > 0 then
        (let (h', l', out) = historyDown (the h) l
         in lmap (\<lambda>_. (RL_Again, Some h', l')) (print_all out (s\<lparr>pendingDown := pendingDown s - 1\<rparr>)))
      else if pendingLeft s > 0 then
        (let s1 = s\<lparr>pendingLeft := pendingLeft s - 1\<rparr>
         in if \<not> scrollbackActive s \<and> pos > 0 then lmap (\<lambda>_. (RL_Again, h, line, pos - 1)) (print_all [[0x08]] s1)
            else kret (Some (RL_Again, h, l), s1))
      else if pendingRight s > 0 then
        (let s1 = s\<lparr>pendingRight := pendingRight s - 1\<rparr>
         in if \<not> scrollbackActive s \<and> pos < length line then lmap (\<lambda>_. (RL_Again, h, line, pos + 1)) (print_all [[line ! pos]] s1)
            else kret (Some (RL_Again, h, l), s1))
      else if pendingPageUp s > 0 then lmap again (scrollbackPageUp (s\<lparr>pendingPageUp := pendingPageUp s - 1\<rparr>))
      else if pendingPageDown s > 0 then lmap again (scrollbackPageDown (s\<lparr>pendingPageDown := pendingPageDown s - 1\<rparr>))
      else if pendingHome s > 0 then lmap again (scrollbackHome (s\<lparr>pendingHome := pendingHome s - 1\<rparr>))
      else if pendingEnd s > 0 then lmap again (scrollbackExit (s\<lparr>pendingEnd := pendingEnd s - 1\<rparr>))
      else case getChar s of
        None \<Rightarrow> kret (Some (RL_Again, h, l), s)
      | Some (ch, s1) \<Rightarrow>
          let (h', l', out, done) = edit_char h ch l
          in lmap (\<lambda>_. (if done then RL_Return else RL_Again, h', l')) (print_all out s1))"


section \<open>Printing on the abstract terminal\<close>

definition plain :: "u8 \<Rightarrow> bool" where
  "plain c \<longleftrightarrow> c \<noteq> 0 \<and> c \<noteq> 0x08 \<and> c \<noteq> 0x0A \<and> c \<noteq> 0x0D"

definition plain_line :: "u8 list \<Rightarrow> bool" where
  "plain_line cs \<longleftrightarrow> (\<forall>c\<in>set cs. plain c)"

definition overwrite :: "nat \<Rightarrow> 'b list \<Rightarrow> 'b list \<Rightarrow> 'b list" where
  "overwrite c bs row = take c row @ bs @ drop (c + length bs) row"

lemma overwrite_Nil [simp]: "overwrite c [] row = row"
  by (simp add: overwrite_def)

lemma overwrite_Cons: "c < length row \<Longrightarrow> overwrite (Suc c) bs (row[c := b]) = overwrite c (b # bs) row"
  by (simp add: overwrite_def take_Suc_conv_app_nth upd_conv_take_nth_drop nth_append add.commute)

definition on_row :: "vt \<Rightarrow> bool" where
  "on_row t \<longleftrightarrow> vrow t < length (grid t) \<and> length (grid t ! vrow t) = VGA_WIDTH"

lemma emit_plain:
  assumes "on_row t" "vcol t + length cs < VGA_WIDTH" "plain_line cs"
  shows "fold vt_emit cs t = t\<lparr>grid := (grid t)[vrow t := overwrite (vcol t) (map (\<lambda>c. vgaEntry c (vcolor t)) cs) (grid t ! vrow t)],
    vcol := vcol t + length cs\<rparr>"
  using assms
proof (induction cs arbitrary: t)
  case (Cons c cs)
  let ?t = "t\<lparr>grid := (grid t)[vrow t := (grid t ! vrow t)[vcol t := vgaEntry c (vcolor t)]], vcol := Suc (vcol t)\<rparr>"
  have "vt_emit c t = ?t" using Cons.prems by (simp add: vt_emit_def vt_put_def plain_line_def plain_def)
  moreover have "on_row ?t" using Cons.prems(1) by (simp add: on_row_def)
  moreover have "vcol t < length (grid t ! vrow t)" using Cons.prems(1,2) by (simp add: on_row_def)
  ultimately show ?case using Cons.IH [of ?t] Cons.prems
    by (simp add: plain_line_def on_row_def overwrite_Cons)
qed simp

lemma emit_backs: "k \<le> vcol t \<Longrightarrow> (vt_emit 0x08 ^^ k) t = t\<lparr>vcol := vcol t - k\<rparr>"
proof (induction k arbitrary: t)
  case (Suc k)
  have "vt_emit 0x08 t = t\<lparr>vcol := vcol t - 1\<rparr>" using Suc.prems by (simp add: vt_emit_def)
  then show ?case using Suc.prems Suc.IH [of "t\<lparr>vcol := vcol t - 1\<rparr>"] by (simp add: funpow_Suc_right del: funpow.simps)
qed simp

lemma concat_singles: "concat (map (\<lambda>i. [f i]) xs) = map f xs" "concat (replicate k [b]) = replicate k b"
proof -
  show "concat (map (\<lambda>i. [f i]) xs) = map f xs" by (induction xs) simp_all
  show "concat (replicate k [b]) = replicate k b" by (induction k) simp_all
qed

section \<open>The screen shows the line\<close>

text \<open>The prompt, the line and blanks fill the row; the cursor is on character \<open>pos\<close>.\<close>

definition line_row :: "u8 \<Rightarrow> u8 list \<Rightarrow> u16 list" where
  "line_row color line = map (\<lambda>c. vgaEntry c color) ([0x3E, 0x20] @ line @ replicate (VGA_WIDTH - 2 - length line) 0x20)"

definition shows_line :: "vt \<Rightarrow> u8 list \<Rightarrow> nat \<Rightarrow> bool" where
  "shows_line t line pos \<longleftrightarrow> on_row t \<and> plain_line line \<and> 2 + length line < VGA_WIDTH \<and> pos \<le> length line \<and> vcol t = 2 + pos
     \<and> grid t ! vrow t = line_row (vcolor t) line"

lemma length_line_row: "2 + length line < VGA_WIDTH \<Longrightarrow> length (line_row k line) = VGA_WIDTH"
  by (simp add: line_row_def)

lemma shows_move:
  assumes "shows_line t line pos" "k \<le> pos"
  shows "shows_line (fold vt_emit (replicate k 0x08) t) line (pos - k)"
proof -
  have v: "vcol t = 2 + pos" using assms(1) by (simp add: shows_line_def)
  have "fold vt_emit (replicate k 0x08) t = t\<lparr>vcol := 2 + (pos - k)\<rparr>"
    using emit_backs [of k t] v assms(2) by simp
  moreover have "pos - k \<le> length line" using assms(1) by (auto simp: shows_line_def)
  ultimately show ?thesis using assms length_line_row [of line "vcolor t"] by (simp add: shows_line_def on_row_def)
qed

text \<open>The general step: overwrite from the cursor on, then go back.\<close>

lemma overwrite_row:
  assumes "pos \<le> length line" "length line' + 2 < VGA_WIDTH"
    and "take pos line @ cs @ drop (pos + length cs) (line @ replicate (VGA_WIDTH - 2 - length line) 0x20)
      = line' @ replicate (VGA_WIDTH - 2 - length line') 0x20"
  shows "overwrite (2 + pos) (map (\<lambda>c. vgaEntry c k) cs) (line_row k line) = line_row k line'"
proof -
  let ?e = "\<lambda>c. vgaEntry c k"
  let ?row = "[0x3E, 0x20] @ line @ replicate (VGA_WIDTH - 2 - length line) 0x20"
  have "overwrite (2 + pos) (map ?e cs) (map ?e ?row) = map ?e (overwrite (2 + pos) cs ?row)"
    by (simp add: overwrite_def take_map drop_map)
  also have "overwrite (2 + pos) cs ?row
      = [0x3E, 0x20] @ take pos line @ cs @ drop (pos + length cs) (line @ replicate (VGA_WIDTH - 2 - length line) 0x20)"
    using assms(1) by (simp add: overwrite_def)
  finally show ?thesis unfolding assms(3) line_row_def .
qed

lemma shows_print:
  assumes "shows_line t line pos" "plain_line cs" "2 + pos + length cs < VGA_WIDTH" "k \<le> pos + length cs"
    and "take pos line @ cs @ drop (pos + length cs) (line @ replicate (VGA_WIDTH - 2 - length line) 0x20)
      = line' @ replicate (VGA_WIDTH - 2 - length line') 0x20"
    and "plain_line line'" "2 + length line' < VGA_WIDTH" "pos + length cs - k = pos'" "pos' \<le> length line'"
  shows "shows_line (fold vt_emit (cs @ replicate k 0x08) t) line' pos'"
proof -
  have t: "on_row t" "vcol t = 2 + pos" "grid t ! vrow t = line_row (vcolor t) line" "pos \<le> length line"
    using assms(1) by (simp_all add: shows_line_def)
  have w: "overwrite (2 + pos) (map (\<lambda>c. vgaEntry c (vcolor t)) cs) (line_row (vcolor t) line) = line_row (vcolor t) line'"
    using overwrite_row [OF t(4) _ assms(5)] assms(7) by simp
  have f: "fold vt_emit cs t = t\<lparr>grid := (grid t)[vrow t := line_row (vcolor t) line'], vcol := 2 + pos + length cs\<rparr>"
    using emit_plain [OF t(1) _ assms(2)] assms(3) w t(2,3) by simp
  have k: "k \<le> vcol (fold vt_emit cs t)" using f assms(4) by simp
  have "fold vt_emit (cs @ replicate k 0x08) t = (fold vt_emit cs t)\<lparr>vcol := 2 + pos'\<rparr>"
    using emit_backs [OF k] assms(4,8) f by simp
  then show ?thesis using t(1) assms(6,7,9) length_line_row [OF assms(7)] by (simp add: f shows_line_def on_row_def)
qed

text \<open>The editing helpers.\<close>

lemma plain_line_simps [simp]:
  "plain_line []" "plain_line (c # cs) \<longleftrightarrow> plain c \<and> plain_line cs" "plain_line (xs @ ys) \<longleftrightarrow> plain_line xs \<and> plain_line ys"
  "plain 0x20"
  by (auto simp: plain_line_def plain_def)

lemma plain_line_parts: "plain_line l \<Longrightarrow> plain_line (take n l)" "plain_line l \<Longrightarrow> plain_line (drop n l)"
  unfolding plain_line_def using in_set_takeD in_set_dropD by metis+

lemma nth_tail: "map (\<lambda>i. l ! i) [p..<length l] = drop p l"
  by (rule nth_equalityI) simp_all

lemma insertAt_shows:
  assumes "shows_line t (l @ r) (length l)" "plain ch" "3 + length (l @ r) < VGA_WIDTH"
  shows "fst (insertAt (l @ r) (length l) ch) = (l @ [ch]) @ r"
    and "shows_line (fold vt_emit (concat (snd (insertAt (l @ r) (length l) ch))) t) ((l @ [ch]) @ r) (length (l @ [ch]))"
proof -
  let ?b = "l @ ch # r"
  show "fst (insertAt (l @ r) (length l) ch) = (l @ [ch]) @ r" by (simp add: insertAt_def Let_def)
  have p: "plain_line l" "plain_line r" using assms(1) by (simp_all add: shows_line_def)
  have o: "concat (snd (insertAt (l @ r) (length l) ch)) = (ch # r) @ replicate (length r) 0x08"
    using nth_tail [of ?b "length l"] by (simp add: insertAt_def Let_def concat_singles del: map_append upt_Suc)
  have "replicate (VGA_WIDTH - 2 - length (l @ r)) (0x20 :: u8) = 0x20 # replicate (VGA_WIDTH - 2 - length ?b) 0x20"
    using assms(3) by (cases "VGA_WIDTH - 2 - length (l @ r)") simp_all
  then have e: "take (length l) (l @ r) @ (ch # r) @ drop (length l + length (ch # r)) ((l @ r) @ replicate (VGA_WIDTH - 2 - length (l @ r)) 0x20)
      = ((l @ [ch]) @ r) @ replicate (VGA_WIDTH - 2 - length ((l @ [ch]) @ r)) 0x20" by simp
  show "shows_line (fold vt_emit (concat (snd (insertAt (l @ r) (length l) ch))) t) ((l @ [ch]) @ r) (length (l @ [ch]))"
    unfolding o by (rule shows_print [OF assms(1) _ _ _ e]) (use assms(2,3) p in simp_all)
qed

lemma deleteAt_shows:
  assumes "shows_line t (l @ c # r) (length l)"
  shows "fst (deleteAt (l @ c # r) (length l) (length (l @ c # r))) = l @ r"
    and "shows_line (fold vt_emit (concat (snd (deleteAt (l @ c # r) (length l) (length (l @ c # r))))) t) (l @ r) (length l)"
proof -
  show "fst (deleteAt (l @ c # r) (length l) (length (l @ c # r))) = l @ r" by (simp add: deleteAt_def Let_def)
  have p: "plain_line l" "plain_line r" "2 + length (l @ c # r) < VGA_WIDTH" using assms(1) by (simp_all add: shows_line_def)
  have o: "concat (snd (deleteAt (l @ c # r) (length l) (length (l @ c # r)))) = (r @ [0x20]) @ replicate (Suc (length r)) 0x08"
    using nth_tail [of "l @ r" "length l"] by (simp add: deleteAt_def Let_def concat_singles del: map_append upt_Suc replicate_Suc)
  have "replicate (VGA_WIDTH - 2 - length (l @ r)) (0x20 :: u8) = 0x20 # replicate (VGA_WIDTH - 2 - length (l @ c # r)) 0x20"
    using p(3) by (cases "VGA_WIDTH - 2 - length (l @ r)") simp_all
  then have e: "take (length l) (l @ c # r) @ (r @ [0x20])
        @ drop (length l + length (r @ [0x20])) ((l @ c # r) @ replicate (VGA_WIDTH - 2 - length (l @ c # r)) 0x20)
      = (l @ r) @ replicate (VGA_WIDTH - 2 - length (l @ r)) 0x20" by simp
  show "shows_line (fold vt_emit (concat (snd (deleteAt (l @ c # r) (length l) (length (l @ c # r))))) t) (l @ r) (length l)"
    unfolding o by (rule shows_print [OF assms(1) _ _ _ e]) (use p in simp_all)
qed

lemma redraw_shows:
  assumes "shows_line t old pos" "plain_line new" "2 + length new < VGA_WIDTH" "cur \<le> length new"
  shows "shows_line (fold vt_emit (concat (redrawLine new cur (length old))) t) new cur"
proof -
  let ?n = "max (length new) (length old)"
  let ?cs = "[0x3E, 0x20] @ new @ replicate (?n - length new) 0x20"
  let ?t = "t\<lparr>vcol := 0\<rparr>"
  have t: "on_row t" "grid t ! vrow t = line_row (vcolor t) old" "2 + length old < VGA_WIDTH" using assms(1) by (simp_all add: shows_line_def)
  have o: "concat (redrawLine new cur (length old)) = 0x0D # ?cs @ replicate (?n - cur) 0x08"
    by (simp add: redrawLine_def Let_def concat_singles max_def)
  have r: "vt_emit 0x0D t = ?t" by (simp add: vt_emit_def)
  have "replicate (VGA_WIDTH - 2 - length new) (0x20 :: u8) = replicate (?n - length new) 0x20 @ replicate (VGA_WIDTH - 2 - ?n) 0x20"
    using assms(3) t(3) by (simp flip: replicate_add)
  moreover have "drop (length ?cs) ([0x3E, 0x20] @ old @ replicate (VGA_WIDTH - 2 - length old) 0x20) = replicate (VGA_WIDTH - 2 - ?n) (0x20 :: u8)"
    using t(3) by (simp add: max_def)
  ultimately have w: "overwrite 0 (map (\<lambda>c. vgaEntry c (vcolor t)) ?cs) (line_row (vcolor t) old) = line_row (vcolor t) new"
    by (simp add: overwrite_def line_row_def drop_map)
  have "plain_line ?cs" using assms(2) by (simp add: plain_def) (simp add: plain_line_def plain_def)
  moreover have "on_row ?t" "vcol ?t + length ?cs < VGA_WIDTH" using t(1,3) assms(3) by (simp_all add: on_row_def max_def)
  ultimately have f: "fold vt_emit ?cs ?t = t\<lparr>grid := (grid t)[vrow t := line_row (vcolor t) new], vcol := 2 + ?n\<rparr>"
    using w t(2) by (subst emit_plain) (simp_all add: max_def)
  have k: "?n - cur \<le> vcol (fold vt_emit ?cs ?t)" unfolding f by simp
  have "fold vt_emit (concat (redrawLine new cur (length old))) t = (vt_emit 0x08 ^^ (?n - cur)) (fold vt_emit ?cs ?t)"
    unfolding o fold_simps fold_append o_apply r fold_replicate ..
  also have "\<dots> = t\<lparr>grid := (grid t)[vrow t := line_row (vcolor t) new], vcol := 2 + cur\<rparr>"
    unfolding emit_backs [OF k] unfolding f using assms(4) by simp
  finally show ?thesis using t(1) assms(2-4) length_line_row [OF assms(3)] by (simp add: shows_line_def on_row_def)
qed

section \<open>Printing through the driver\<close>

lemma print_bytes_spec:
  assumes "tty_ok s" "lock_free s" "0 \<notin> set bs"
  shows "\<exists>s'. print_bytes bs s = kret (Some (), s') \<and> lock_free s' \<and> tty_ok s' \<and> outside_kept s s'
    \<and> tty_abs s' = fold vt_emit bs (tty_abs s)"
proof -
  have "takeWhile (\<lambda>b. b \<noteq> 0) bs = bs" using assms(3) by (auto simp: takeWhile_eq_all_conv)
  then have "print_bytes bs s = kbind (tty_puts bs s) (\<lambda>(r, s1). kret (map_option (\<lambda>_. ()) r, s1))" by (simp only: print_bytes_def)
  then show ?thesis using tty_puts_spec [OF assms(1,2), of bs] by auto
qed

lemma print_all_spec:
  "tty_ok s \<Longrightarrow> lock_free s \<Longrightarrow> 0 \<notin> set (concat bss) \<Longrightarrow>
   \<exists>s'. print_all bss s = kret (Some (), s') \<and> lock_free s' \<and> tty_ok s' \<and> outside_kept s s'
     \<and> tty_abs s' = fold vt_emit (concat bss) (tty_abs s)"
proof (induction bss arbitrary: s)
  case Nil
  then show ?case by (simp add: outside_kept_def)
next
  case (Cons bs bss)
  obtain s1 where s1: "print_bytes bs s = kret (Some (), s1)" "lock_free s1" "tty_ok s1" "outside_kept s s1"
      "tty_abs s1 = fold vt_emit bs (tty_abs s)"
    using print_bytes_spec [OF Cons.prems(1,2), of bs] Cons.prems(3) by auto
  from Cons.IH [OF s1(3,2)] Cons.prems(3) obtain s2 where "print_all bss s1 = kret (Some (), s2)" "lock_free s2" "tty_ok s2"
      "outside_kept s1 s2" "tty_abs s2 = fold vt_emit (concat bss) (tty_abs s1)" by auto
  then show ?case using s1 outside_trans by (intro exI [of _ s2]) simp
qed


section \<open>The editor\<close>

text \<open>The specification: the text before and after the cursor.\<close>

definition zip_edit :: "u8 \<Rightarrow> u8 list \<times> u8 list \<Rightarrow> u8 list \<times> u8 list" where
  "zip_edit ch z =
     (let (l, r) = z in
      if ch = KEY_CTRL_A then ([], l @ r)
      else if ch = KEY_CTRL_E then (l @ r, [])
      else if ch = KEY_CTRL_B then (if l = [] then z else (butlast l, last l # r))
      else if ch = KEY_CTRL_F then (if r = [] then z else (l @ [hd r], tl r))
      else if ch = KEY_CTRL_D then (l, tl r)
      else if ch = KEY_CTRL_K then (l, [])
      else if ch = 0x08 then (butlast l, r)
      else if ch = KEY_CTRL_U then ([], [])
      else (l @ [ch], r))"

text \<open>The keys it covers: the editing keys and characters that print as one cell.\<close>

definition edit_key :: "u8 \<Rightarrow> bool" where
  "edit_key ch \<longleftrightarrow> (plain ch \<or> ch = 0x08) \<and> ch \<noteq> KEY_CTRL_C \<and> ch \<noteq> KEY_CTRL_N \<and> ch \<noteq> KEY_CTRL_P"

text \<open>\<open>shown_after\<close>: the output of a step turns a screen that shows one line into one that shows the other.\<close>

definition shown_after :: "vt \<Rightarrow> u8 list list \<Rightarrow> u8 list \<times> u8 list \<Rightarrow> bool" where
  "shown_after t out z \<longleftrightarrow> 0 \<notin> set (concat out) \<and> shows_line (fold vt_emit (concat out) t) (fst z @ snd z) (length (fst z))"

lemma plain_nonzero: "plain_line l \<Longrightarrow> 0 \<notin> set l"
  by (auto simp: plain_line_def plain_def)

lemma shows_forward:
  assumes "shows_line t (l @ c @ r) (length l)"
  shows "shows_line (fold vt_emit c t) (l @ c @ r) (length (l @ c))"
proof -
  have p: "plain_line l" "plain_line c" "plain_line r" "2 + length (l @ c @ r) < VGA_WIDTH" using assms by (simp_all add: shows_line_def)
  have "shows_line (fold vt_emit (c @ replicate 0 0x08) t) (l @ c @ r) (length (l @ c))"
    by (rule shows_print [OF assms]) (use p in simp_all)
  then show ?thesis by simp
qed

text \<open>One lemma for each key.\<close>

abbreviation edits :: "HistoryCtx option \<Rightarrow> vt \<Rightarrow> u8 \<Rightarrow> u8 list \<times> u8 list \<Rightarrow> bool" where
  "edits h t ch z \<equiv> \<exists>out. edit_char h ch (fst z @ snd z, length (fst z))
     = (h, (fst (zip_edit ch z) @ snd (zip_edit ch z), length (fst (zip_edit ch z))), out, False) \<and> shown_after t out (zip_edit ch z)"

lemma edit_stay:
  assumes "shows_line t (l @ r) (length l)" "zip_edit ch (l, r) = (l, r)" "edit_char h ch (l @ r, length l) = (h, (l @ r, length l), [], False)"
  shows "edits h t ch (l, r)"
  using assms by (simp add: shown_after_def)

lemma edit_start: "shows_line t (l @ r) (length l) \<Longrightarrow> edits h t KEY_CTRL_A (l, r)"
  using shows_move [of t "l @ r" "length l" "length l"]
  by (auto simp: edit_char_def zip_edit_def shown_after_def concat_singles)

lemma shown_afterI:
  "concat out = cs \<Longrightarrow> plain_line cs \<Longrightarrow> shows_line (fold vt_emit cs t) (fst z @ snd z) (length (fst z)) \<Longrightarrow> shown_after t out z"
  using plain_nonzero by (simp only: shown_after_def simp_thms)

lemma edit_end: "shows_line t (l @ r) (length l) \<Longrightarrow> edits h t KEY_CTRL_E (l, r)"
proof -
  assume s: "shows_line t (l @ r) (length l)"
  let ?out = "map (\<lambda>i. [(l @ r) ! i]) [length l..<length (l @ r)]"
  have "concat ?out = r" using nth_tail [of "l @ r" "length l"] by (simp add: concat_singles)
  then have "shown_after t ?out (l @ r, [])" by (rule shown_afterI) (use s shows_forward [of t l r "[]"] in \<open>simp_all add: shows_line_def\<close>)
  then show ?thesis by (intro exI [of _ ?out]) (simp add: edit_char_def zip_edit_def)
qed

lemma edit_back: "shows_line t (l @ r) (length l) \<Longrightarrow> edits h t KEY_CTRL_B (l, r)"
proof (cases l rule: rev_cases)
  case (snoc l' c)
  then show "shows_line t (l @ r) (length l) \<Longrightarrow> edits h t KEY_CTRL_B (l, r)"
    using shows_move [of t "l @ r" "length l" 1] by (simp add: edit_char_def zip_edit_def shown_after_def)
qed (simp add: edit_char_def zip_edit_def shown_after_def)

lemma edit_forward: "shows_line t (l @ r) (length l) \<Longrightarrow> edits h t KEY_CTRL_F (l, r)"
proof (cases r)
  case (Cons c r')
  assume s: "shows_line t (l @ r) (length l)"
  then have "plain c" using Cons by (simp add: shows_line_def)
  then show "edits h t KEY_CTRL_F (l, r)"
    using s Cons shows_forward [of t l "[c]" r'] by (simp add: edit_char_def zip_edit_def shown_after_def plain_def)
qed (simp add: edit_char_def zip_edit_def shown_after_def)

lemma delete_out:
  assumes "plain_line (l @ c # r)"
  shows "0 \<notin> set (concat (snd (deleteAt (l @ c # r) (length l) (length (l @ c # r)))))"
proof -
  have "concat (snd (deleteAt (l @ c # r) (length l) (length (l @ c # r)))) = (r @ [0x20]) @ replicate (Suc (length r)) 0x08"
    using nth_tail [of "l @ r" "length l"] by (simp add: deleteAt_def Let_def concat_singles del: map_append upt_Suc replicate_Suc)
  then show ?thesis using assms plain_nonzero by simp
qed

lemma edit_delete: "shows_line t (l @ r) (length l) \<Longrightarrow> edits h t KEY_CTRL_D (l, r)"
proof (cases r)
  case (Cons c r')
  assume s: "shows_line t (l @ r) (length l)"
  then have "0 \<notin> set (concat (snd (deleteAt (l @ c # r') (length l) (length (l @ c # r')))))"
    using Cons by (intro delete_out) (simp add: shows_line_def)
  then show "edits h t KEY_CTRL_D (l, r)"
    using deleteAt_shows [of t l c r'] s Cons by (simp add: edit_char_def zip_edit_def shown_after_def case_prod_unfold)
qed (simp add: edit_char_def zip_edit_def shown_after_def)

lemma redraw_nonzero: "plain_line new \<Longrightarrow> 0 \<notin> set (concat (redrawLine new cur n))"
  using plain_nonzero [of new] by (auto simp: redrawLine_def Let_def)

lemma edit_kill: "shows_line t (l @ r) (length l) \<Longrightarrow> edits h t KEY_CTRL_K (l, r)"
proof (cases "r = []")
  case False
  assume s: "shows_line t (l @ r) (length l)"
  then have p: "plain_line l" "2 + length l < VGA_WIDTH" by (simp_all add: shows_line_def)
  from redraw_shows [OF s this, of "length l"] redraw_nonzero [OF p(1)] False show "edits h t KEY_CTRL_K (l, r)"
    by (simp add: edit_char_def zip_edit_def shown_after_def clearRange_def)
qed (simp add: edit_char_def zip_edit_def shown_after_def)

lemma edit_backspace: "shows_line t (l @ r) (length l) \<Longrightarrow> edits h t 0x08 (l, r)"
proof (cases l rule: rev_cases)
  case (snoc l' c)
  assume s: "shows_line t (l @ r) (length l)"
  have s1: "shows_line (vt_emit 0x08 t) (l' @ c # r) (length l')" using shows_move [OF s, of 1] snoc by simp
  moreover have "0 \<notin> set (concat (snd (deleteAt (l' @ c # r) (length l') (length (l' @ c # r)))))"
    using s1 by (intro delete_out) (simp add: shows_line_def)
  ultimately show "edits h t 0x08 (l, r)"
    using deleteAt_shows [OF s1] snoc by (simp add: edit_char_def zip_edit_def shown_after_def case_prod_unfold)
qed (simp add: edit_char_def zip_edit_def shown_after_def)

lemma edit_erase: "shows_line t (l @ r) (length l) \<Longrightarrow> edits h t KEY_CTRL_U (l, r)"
proof (cases "l @ r = []")
  case False
  assume s: "shows_line t (l @ r) (length l)"
  then have "2 + length ([] :: u8 list) < VGA_WIDTH" by (simp add: shows_line_def)
  from redraw_shows [OF s _ this, of 0] redraw_nonzero [of "[]"] False show "edits h t KEY_CTRL_U (l, r)"
    by (simp add: edit_char_def zip_edit_def shown_after_def clearRange_def)
qed (simp add: edit_char_def zip_edit_def shown_after_def)

lemma insert_out: "plain_line (l @ ch # r) \<Longrightarrow> 0 \<notin> set (concat (snd (insertAt (l @ r) (length l) ch)))"
  using nth_tail [of "l @ ch # r" "length l"] plain_nonzero [of "ch # r"]
  by (simp add: insertAt_def Let_def concat_singles del: map_append upt_Suc)

lemma edit_char_zip:
  assumes "shows_line t (l @ r) (length l)" "edit_key ch" "3 + length (l @ r) < VGA_WIDTH"
  shows "edits h t ch (l, r)"
proof -
  consider (Ak) "ch = KEY_CTRL_A" | (Ek) "ch = KEY_CTRL_E" | (Bk) "ch = KEY_CTRL_B"
    | (Fk) "ch = KEY_CTRL_F" | (Dk) "ch = KEY_CTRL_D" | (Kk) "ch = KEY_CTRL_K" | (Hk) "ch = 0x08" | (Uk) "ch = KEY_CTRL_U"
    | (ins) "ch \<notin> {KEY_CTRL_A, KEY_CTRL_E, KEY_CTRL_B, KEY_CTRL_F, KEY_CTRL_D, KEY_CTRL_K, 0x08, KEY_CTRL_U}"
    by blast
  then show ?thesis
  proof cases
    case Ak
    show ?thesis unfolding Ak by (rule edit_start [OF assms(1)])
  next
    case Ek
    show ?thesis unfolding Ek by (rule edit_end [OF assms(1)])
  next
    case Bk
    show ?thesis unfolding Bk by (rule edit_back [OF assms(1)])
  next
    case Fk
    show ?thesis unfolding Fk by (rule edit_forward [OF assms(1)])
  next
    case Dk
    show ?thesis unfolding Dk by (rule edit_delete [OF assms(1)])
  next
    case Kk
    show ?thesis unfolding Kk by (rule edit_kill [OF assms(1)])
  next
    case Hk
    show ?thesis unfolding Hk by (rule edit_backspace [OF assms(1)])
  next
    case Uk
    show ?thesis unfolding Uk by (rule edit_erase [OF assms(1)])
  next
    case ins
    then have k: "plain ch" "ch \<noteq> KEY_CTRL_C" "ch \<noteq> KEY_CTRL_N" "ch \<noteq> KEY_CTRL_P" "ch \<noteq> 0x0A"
      using assms(2) by (auto simp: edit_key_def plain_def)
    then have "0 \<notin> set (concat (snd (insertAt (l @ r) (length l) ch)))" using assms(1) by (intro insert_out) (simp add: shows_line_def)
    then show ?thesis
      using insertAt_shows [OF assms(1) k(1) assms(3)] ins k by (simp add: edit_char_def zip_edit_def shown_after_def case_prod_unfold)
  qed
qed

section \<open>Properties of the line editor\<close>

definition no_nav :: "'a kbd_scheme \<Rightarrow> bool" where
  "no_nav s \<longleftrightarrow> pendingUp s = 0 \<and> pendingDown s = 0 \<and> pendingLeft s = 0 \<and> pendingRight s = 0 \<and> pendingPageUp s = 0
     \<and> pendingPageDown s = 0 \<and> pendingHome s = 0 \<and> pendingEnd s = 0"

lemma readLine_step_char:
  assumes "no_nav s" "getChar s = Some (ch, s1)" "edit_char h ch (line, pos) = (h', l', out, fin)" "print_all out s1 = kret (Some (), s2)"
  shows "readLine_step h (line, pos) s = kret (Some (if fin then RL_Return else RL_Again, h', l'), s2)"
  using assms by (simp add: readLine_step_def no_nav_def lmap_def)

lemma getChar_tty:
  assumes "getChar s = Some (ch, s1)"
  shows "tty_ok s1 = tty_ok s" "lock_free s1 = lock_free s" "tty_abs s1 = tty_abs s" "outside_kept s1 u = outside_kept s u"
proof -
  have "s1 = s\<lparr>kbdTail := kbdTail s + 1\<rparr>" using assms by (auto simp: getChar_def split: if_splits)
  then show "tty_ok s1 = tty_ok s" "lock_free s1 = lock_free s" "tty_abs s1 = tty_abs s" "outside_kept s1 u = outside_kept s u"
    by (simp_all add: tty_ok_def lock_free_def tty_abs_def outside_kept_def)
qed

lemma readLine_edit:
  assumes "tty_ok s" "lock_free s" "no_nav s" "getChar s = Some (ch, s1)" "edit_key ch"
    and "shows_line (tty_abs s) (l @ r) (length l)" "3 + length (l @ r) < VGA_WIDTH" "zip_edit ch (l, r) = (l', r')"
  shows "\<exists>s'. readLine_step h (l @ r, length l) s = kret (Some (RL_Again, h, l' @ r', length l'), s')
    \<and> shows_line (tty_abs s') (l' @ r') (length l') \<and> tty_ok s' \<and> lock_free s' \<and> outside_kept s s'"
proof -
  note k = getChar_tty [OF assms(4)]
  from edit_char_zip [OF assms(6,5,7), of h] assms(8) obtain out where
    o: "edit_char h ch (l @ r, length l) = (h, (l' @ r', length l'), out, False)" "shown_after (tty_abs s) out (l', r')" by auto
  from o(2) have z: "0 \<notin> set (concat out)" "shows_line (fold vt_emit (concat out) (tty_abs s)) (l' @ r') (length l')"
    unfolding shown_after_def by (simp_all only: fst_conv snd_conv simp_thms)
  from print_all_spec [OF _ _ z(1), of s1] k assms(1,2) obtain s' where
    "print_all out s1 = kret (Some (), s')" "lock_free s'" "tty_ok s'" "outside_kept s s'" "tty_abs s' = fold vt_emit (concat out) (tty_abs s)"
    by auto
  then show ?thesis using readLine_step_char [OF assms(3,4) o(1)] z(2) by (intro exI [of _ s']) simp
qed


text \<open>C24. The line editor is a zipper and the screen shows it: when the row of the cursor shows the prompt, the line and
  blanks, with the cursor on the edit position, and no navigation key is pending, then one iteration of \<open>readLine\<close> on an editing key or a
  character that prints as one cell (and a line that still fits) edits the line like the zipper, and afterwards the row shows
  the new line with the cursor on the new position; nothing outside the terminal's rows changes.\<close>

theorem readLine_edits:
  assumes "tty_ok s" "lock_free s" "no_nav s" "getChar s = Some (ch, s1)" "edit_key ch"
    and "shows_line (tty_abs s) (l @ r) (length l)" "3 + length (l @ r) < VGA_WIDTH" "zip_edit ch (l, r) = (l', r')"
  shows "\<exists>s'. readLine_step h (l @ r, length l) s = kret (Some (RL_Again, h, l' @ r', length l'), s')
    \<and> shows_line (tty_abs s') (l' @ r') (length l') \<and> tty_ok s' \<and> lock_free s' \<and> outside_kept s s'"
  using assms by (rule readLine_edit)

definition demo_line :: tty where
  "demo_line = (demo_tty False)\<lparr>vgaRam := (\<lambda>i. if i = 23 * VGA_WIDTH then vgaEntry 0x3E DEFAULT_COLOR else vgaEntry 0x20 DEFAULT_COLOR),
     termCol := 2, kbdHead := 1, kbdTail := 0, kbdBuffer := replicate BUF_SIZE 0x61\<rparr>"

lemma demo_line_row: "screen (vgaRam demo_line) ! 23 = line_row DEFAULT_COLOR []"
proof (rule nth_equalityI)
  show "length (screen (vgaRam demo_line) ! 23) = length (line_row DEFAULT_COLOR [])"
    by (simp add: length_line_row tty_consts)
  fix i assume "i < length (screen (vgaRam demo_line) ! 23)"
  then have "i < VGA_WIDTH" by (simp add: tty_consts)
  then show "screen (vgaRam demo_line) ! 23 ! i = line_row DEFAULT_COLOR [] ! i"
    by (auto simp: demo_line_def line_row_def nth_Cons' nth_append ROWS_def VGA_HEIGHT_def)
qed

lemma demo_line_shows: "shows_line (tty_abs demo_line) ([] @ []) (length [])" "tty_ok demo_line" "lock_free demo_line" "no_nav demo_line"
proof -
  have f: "termRow demo_line = 23" "termCol demo_line = 2" "termColor demo_line = DEFAULT_COLOR"
    by (simp_all add: demo_line_def demo_tty_def kbd.defs tty.defs)
  then show "shows_line (tty_abs demo_line) ([] @ []) (length [])"
    using demo_line_row length_line_row [of "[]" DEFAULT_COLOR] by (simp add: shows_line_def on_row_def tty_consts)
  show "tty_ok demo_line" "lock_free demo_line"
    using demo_tty_ok [of False] by (simp_all add: demo_line_def tty_ok_def lock_free_def tty_consts)
  show "no_nav demo_line"
    by (simp add: no_nav_def demo_line_def demo_tty_def demo_kbd_def kbd.defs tty.defs proc.defs kbd_init_def clearNavigation_def)
qed

theorem readLine_edits_witness:
  "\<exists>s'. readLine_step None ([] @ [], length ([] :: u8 list)) demo_line = kret (Some (RL_Again, None, [0x61] @ [], 1), s')
     \<and> shows_line (tty_abs s') ([0x61] @ []) 1"
proof -
  have g: "getChar demo_line = Some (0x61, demo_line\<lparr>kbdTail := 1\<rparr>)"
    by (simp add: getChar_def charAvail_def demo_line_def BUF_SIZE_def)
  have k: "edit_key 0x61" "3 + length ([] @ [] :: u8 list) < VGA_WIDTH" "zip_edit 0x61 ([], []) = ([0x61], [])"
    by (simp_all add: edit_key_def plain_def VGA_WIDTH_def zip_edit_def)
  from readLine_edits [OF demo_line_shows(2,3,4) g k(1) demo_line_shows(1) k(2,3), of None] show ?thesis by auto
qed

end
