(* ===== verification/Lifecycle.thy ===== *)
theory Lifecycle
  imports Kernel
begin

unbundle bit_operations_syntax

text \<open>
  The life of a process across operations: lazy FPU switching over context switches, fork, and the exit
  status on its way from an exiting child to its waiting parent.
\<close>


section \<open>Lazy FPU switching\<close>

lemma upd_task_nth:
  "nat i < length (tasks s) \<Longrightarrow> tasks (upd_task i f s) ! k = (if k = nat i then f (tasks s ! k) else tasks s ! k)"
  by (auto simp: upd_task_def)

lemma upd_task_fields [simp]:
  "fpuOwner (upd_task i f s) = fpuOwner s" "fpuRegs (upd_task i f s) = fpuRegs s" "crTS (upd_task i f s) = crTS s"
  "currentIdx (upd_task i f s) = currentIdx s" "taskCount (upd_task i f s) = taskCount s"
  "length (tasks (upd_task i f s)) = length (tasks s)" "sleepQueue (upd_task i f s) = sleepQueue s"
  "nextPid (upd_task i f s) = nextPid s"
  by (simp_all add: upd_task_def)

lemma handleNm_spec:
  assumes "sched_ok s"
  shows "\<exists>s'. handleNm fi s = kret s' \<and> sched_ok s' \<and> currentIdx s' = currentIdx s \<and> fpuOwner s' = currentIdx s \<and> \<not> crTS s'
    \<and> fpuRegs s' = (if fpuValid (currentTask s) then fpuState (currentTask s) else fi)
    \<and> (\<forall>k<MAX_TASKS. fpuState (tasks s' ! k) =
         (if int k = fpuOwner s \<and> int k \<noteq> currentIdx s \<and> fpuValid (tasks s ! k) then fpuRegs s else fpuState (tasks s ! k)))
    \<and> (\<forall>k<MAX_TASKS. fpuValid (tasks s' ! k) \<longleftrightarrow> int k = currentIdx s \<or> fpuValid (tasks s ! k))"
proof -
  note b = sched_okD [OF assms]
  define w where "w = fpuOwner s"
  define c where "c = currentIdx s"
  define s1 where "s1 = (if w \<ge> 0 \<and> w \<noteq> c \<and> w < int MAX_TASKS \<and> fpuValid (task_at w s)
                then upd_task w (\<lambda>t. t\<lparr>fpuState := fpuRegs s\<rparr>) s else s)"
  define s' where "s' = (upd_task c (\<lambda>t. t\<lparr>fpuValid := True\<rparr>)
      (s1\<lparr>fpuRegs := (if fpuValid (task_at c s1) then fpuState (task_at c s1) else fi)\<rparr>))\<lparr>fpuOwner := c, crTS := False\<rparr>"
  have r: "handleNm fi s = kret s'" using b(5) by (simp add: handleNm_def s'_def s1_def w_def c_def Let_def)
  have ck: "nat c < length (tasks s)" "0 \<le> c" using b by (simp_all add: c_def)
  have k1: "tasks s1 ! k = (if int k = w \<and> w \<noteq> c \<and> fpuValid (tasks s ! k)
      then (tasks s ! k)\<lparr>fpuState := fpuRegs s\<rparr> else tasks s ! k)" if "k < MAX_TASKS" for k
  proof (cases "w \<ge> 0 \<and> w \<noteq> c \<and> w < int MAX_TASKS \<and> fpuValid (task_at w s)")
    case True
    then have "s1 = upd_task w (\<lambda>t. t\<lparr>fpuState := fpuRegs s\<rparr>) s" unfolding s1_def by (rule if_P)
    then show ?thesis using True that b(1) by (auto simp: nth_list_update task_at_def)
  next
    case False
    then have e: "s1 = s" unfolding s1_def by (rule if_not_P)
    have "\<not> (int k = w \<and> w \<noteq> c \<and> fpuValid (tasks s ! k))"
    proof
      assume "int k = w \<and> w \<noteq> c \<and> fpuValid (tasks s ! k)"
      moreover from this have "nat w = k" "0 \<le> w" "w < int MAX_TASKS" using that by auto
      ultimately show False using False by (simp add: task_at_def)
    qed
    then show ?thesis unfolding e by (rule if_not_P [symmetric])
  qed
  have l1: "length (tasks s1) = length (tasks s)" by (simp add: s1_def)
  have c1: "tasks s1 ! nat c = tasks s ! nat c" using k1 [of "nat c"] ck b(1) by auto
  have k2: "tasks s' ! k = (if k = nat c then (tasks s1 ! k)\<lparr>fpuValid := True\<rparr> else tasks s1 ! k)" for k
    using ck l1 by (auto simp: s'_def upd_task_def)
  have "fpuRegs s' = (if fpuValid (currentTask s) then fpuState (currentTask s) else fi)"
    using c1 by (simp add: s'_def currentTask_def task_at_def c_def)
  moreover have "sched_ok s'" using handleNm_ok [OF assms r] .
  moreover have "fpuState (tasks s' ! k) = (if int k = w \<and> int k \<noteq> c \<and> fpuValid (tasks s ! k) then fpuRegs s else fpuState (tasks s ! k))"
    if "k < MAX_TASKS" for k using k1 [OF that] k2 [of k] by auto
  moreover have "fpuValid (tasks s' ! k) \<longleftrightarrow> int k = c \<or> fpuValid (tasks s ! k)" if "k < MAX_TASKS" for k
    using k1 [OF that] k2 [of k] ck(2) by auto
  moreover have "currentIdx s' = c" "fpuOwner s' = c" "\<not> crTS s'" by (simp_all add: s'_def s1_def c_def)
  ultimately show ?thesis using r unfolding w_def c_def by blast
qed

lemma programNextTick_fpu [simp]:
  "fpuRegs (programNextTick s) = fpuRegs s" "fpuOwner (programNextTick s) = fpuOwner s"
  by (simp_all add: programNextTick_def programForMs_def setDivisor_def Let_def)

text \<open>A context switch leaves the FPU state of all tasks, the registers and the owner alone.\<close>

lemma switched_fpu: "fpuState (switched ts c n ! k) = fpuState (ts ! k)" "fpuValid (switched ts c n ! k) = fpuValid (ts ! k)"
proof -
  have u: "fpuState (ts'[j := (ts' ! j)\<lparr>tstate := x\<rparr>] ! k) = fpuState (ts' ! k)
      \<and> fpuValid (ts'[j := (ts' ! j)\<lparr>tstate := x\<rparr>] ! k) = fpuValid (ts' ! k)" for ts' j x
    by (cases "j < length ts'") (auto simp: nth_list_update list_update_beyond)
  show "fpuState (switched ts c n ! k) = fpuState (ts ! k)" "fpuValid (switched ts c n ! k) = fpuValid (ts ! k)"
    by (simp_all add: switched_def Let_def u)
qed

lemma switchTo_fpu:
  assumes "sched_ok s" "switchTo n s = kret (e, s')"
  shows "sched_ok s'" "currentIdx s' = n" "fpuState (tasks s' ! k) = fpuState (tasks s ! k)"
    "fpuValid (tasks s' ! k) = fpuValid (tasks s ! k)" "fpuRegs s' = fpuRegs s" "fpuOwner s' = fpuOwner s" "0 \<le> n" "nat n < MAX_TASKS"
proof -
  have "can_run s n" using switchTo_spec [OF assms(1), of n] assms(2) by (auto split: if_splits)
  then have *: "sched_ok s'" "currentIdx s' = n" "tasks s' = switched (tasks s) (currentIdx s) n"
    using switchTo_spec [OF assms(1), of n] assms(2) by auto
  then show "sched_ok s'" "currentIdx s' = n" by simp_all
  show "0 \<le> n" "nat n < MAX_TASKS" using \<open>can_run s n\<close> sched_okD(4) [OF assms(1)] by (auto simp: can_run_def)
  show "fpuState (tasks s' ! k) = fpuState (tasks s ! k)" "fpuValid (tasks s' ! k) = fpuValid (tasks s ! k)"
    by (simp_all add: *(3) switched_fpu)
  show "fpuRegs s' = fpuRegs s" "fpuOwner s' = fpuOwner s"
    using assms(2) by (auto simp: switchTo_def Let_def split: if_splits)
qed

text \<open>C17. Lazy FPU switching keeps the registers of two tasks apart (Scheduler::handleNm with
  Scheduler::switchTo). Task c takes the FPU and computes \<open>R\<close>; task n is switched in, traps, and computes
  \<open>R'\<close>; c is switched in again and traps. Then c finds exactly \<open>R\<close> in the registers, and \<open>R'\<close> is saved for n.\<close>

theorem fpu_roundtrip:
  assumes "sched_ok s" "handleNm fi s = kret s1"
    and "n \<noteq> currentIdx s" "switchTo n (s1\<lparr>fpuRegs := R\<rparr>) = kret (e1, s2)" "handleNm fi s2 = kret s3"
    and "switchTo (currentIdx s) (s3\<lparr>fpuRegs := R'\<rparr>) = kret (e2, s4)" "handleNm fi s4 = kret s5"
  shows "fpuRegs s5 = R \<and> fpuState (task_at n s5) = R' \<and> fpuOwner s5 = currentIdx s"
proof -
  let ?c = "currentIdx s"
  note b = sched_okD [OF assms(1)]
  from handleNm_spec [OF assms(1), of fi] assms(2)
  have 1: "sched_ok s1" "currentIdx s1 = ?c" "fpuOwner s1 = ?c" "fpuValid (tasks s1 ! nat ?c)"
    using b by (auto simp: )
  have o1: "sched_ok (s1\<lparr>fpuRegs := R\<rparr>)" using 1(1) by (simp add: sched_ok_def)
  note sw1 = switchTo_fpu [OF o1 assms(4)]
  from handleNm_spec [OF sw1(1), of fi] assms(5)
  have 3: "sched_ok s3" "fpuOwner s3 = n" "currentIdx s3 = n"
      "fpuState (tasks s3 ! nat ?c) = R" "fpuValid (tasks s3 ! nat ?c)" "fpuValid (tasks s3 ! nat n)"
    using sw1 1 b assms(3) by auto
  have o3: "sched_ok (s3\<lparr>fpuRegs := R'\<rparr>)" using 3(1) by (simp add: sched_ok_def)
  note sw2 = switchTo_fpu [OF o3 assms(6)]
  from handleNm_spec [OF sw2(1), of fi] assms(7) show ?thesis
    using sw1(7,8) sw2 3 assms(3) b by (auto simp: currentTask_def task_at_def)
qed

text \<open>C18. An FPU user alone loses its registers. Task c takes the FPU and computes \<open>R\<close>; another task runs
  without touching the FPU; c is switched in again and traps. \<open>handleNm\<close> saves nothing, because c is still
  the owner, and loads the image that was saved for c before, whatever \<open>R\<close> is.\<close>

theorem fpu_registers_lost:
  assumes "sched_ok s" "handleNm fi s = kret s1"
    and "n \<noteq> currentIdx s" "switchTo n (s1\<lparr>fpuRegs := R\<rparr>) = kret (e1, s2)"
    and "switchTo (currentIdx s) s2 = kret (e2, s3)" "handleNm fi s3 = kret s4"
  shows "fpuRegs s4 = fpuState (currentTask s)"
proof -
  let ?c = "currentIdx s"
  note b = sched_okD [OF assms(1)]
  from handleNm_spec [OF assms(1), of fi] assms(2)
  have 1: "sched_ok s1" "fpuOwner s1 = ?c" "fpuValid (tasks s1 ! nat ?c)" "fpuState (tasks s1 ! nat ?c) = fpuState (currentTask s)"
    using b by (auto simp: currentTask_def task_at_def)
  have o1: "sched_ok (s1\<lparr>fpuRegs := R\<rparr>)" using 1(1) by (simp add: sched_ok_def)
  note sw1 = switchTo_fpu [OF o1 assms(4)]
  note sw2 = switchTo_fpu [OF sw1(1) assms(5)]
  from handleNm_spec [OF sw2(1), of fi] assms(6) show ?thesis
    using sw1 sw2 1 by (auto simp: currentTask_def task_at_def)
qed

lemma can_run_shape:
  assumes "sched_shape s' = sched_shape s" "sched_ok s"
  shows "can_run s' n \<longleftrightarrow> can_run s n"
proof -
  have "tstate (task_at n s') = tstate (task_at n s)" if "0 \<le> n" "n < taskCount s"
    using shape_nth(5) [OF assms(1), of "nat n"] that sched_okD(1,4) [OF assms(2)] by (simp add: task_at_def)
  then show ?thesis using shape_nth(1,2) [OF assms(1)] by (auto simp: can_run_def)
qed

text \<open>Taking the FPU, being preempted by n, and being switched in again is possible for every
  running task and every READY task n.\<close>

lemma handleNm_shape: "handleNm fi s = kret s' \<Longrightarrow> sched_shape s' = sched_shape s"
  by (auto simp: handleNm_def Let_def split: if_splits)

lemma take_fpu:
  assumes "sched_ok s" "can_run s n"
  obtains s1 e s2 where "handleNm fi s = kret s1" "switchTo n (s1\<lparr>fpuRegs := R\<rparr>) = kret (e, s2)" "sched_ok s2"
    "tstate (task_at (currentIdx s) s) = RUNNING \<Longrightarrow> n \<noteq> currentIdx s \<Longrightarrow> can_run s2 (currentIdx s)"
proof -
  let ?c = "currentIdx s"
  obtain s1 where 1: "handleNm fi s = kret s1" using handleNm_spec [OF assms(1)] by blast
  let ?s = "s1\<lparr>fpuRegs := R\<rparr>"
  have sh: "sched_shape ?s = sched_shape s" using handleNm_shape [OF 1] by (simp add: sched_shape_def)
  have ok: "sched_ok ?s" by (rule shape_ok [OF sh assms(1)])
  obtain e s2 where 2: "switchTo n ?s = kret (e, s2)" "sched_ok s2" "tasks s2 = switched (tasks ?s) (currentIdx ?s) n" "currentIdx s2 = n"
    using switchTo_spec [OF ok, of n] assms(2) can_run_shape [OF sh assms(1)] by auto
  have tc: "taskCount s2 = taskCount s"
    using 2(1) shape_nth(1) [OF sh] by (auto simp: switchTo_def Let_def split: if_splits)
  have "can_run s2 ?c" if "tstate (task_at ?c s) = RUNNING" "n \<noteq> ?c"
  proof -
    note b = sched_okD [OF assms(1)]
    have t: "tstate (tasks ?s ! nat ?c) = RUNNING" "currentIdx ?s = ?c" "length (tasks ?s) = length (tasks s)"
      using shape_nth(2,4,5) [OF sh] b(6) that(1) by (simp_all add: task_at_def)
    have "nat n \<noteq> nat ?c" using that(2) b(2) assms(2) by (auto simp: can_run_def)
    then have "tstate (tasks s2 ! nat ?c) = READY" using t b(6) 2(3) by (simp add: switched_def Let_def)
    then show ?thesis using b tc by (simp add: can_run_def task_at_def)
  qed
  with 1 2 show thesis using that by blast
qed

lemma demo_can_run: "can_run demo_sched 0" "can_run demo_sched 2" "tstate (task_at (currentIdx demo_sched) demo_sched) = RUNNING"
  by (simp_all add: can_run_def task_at_def)

theorem fpu_registers_lost_witness:
  "\<exists>s1 e1 s2 e2 s3 s4. handleNm [1] demo_sched = kret s1 \<and> switchTo 0 (s1\<lparr>fpuRegs := [2]\<rparr>) = kret (e1, s2)
     \<and> switchTo 1 s2 = kret (e2, s3) \<and> handleNm [1] s3 = kret s4 \<and> fpuRegs s4 = replicate 512 0"
proof -
  obtain s1 e1 s2 where 1: "handleNm [1] demo_sched = kret s1" "switchTo 0 (s1\<lparr>fpuRegs := [2]\<rparr>) = kret (e1, s2)"
      "sched_ok s2" "can_run s2 (currentIdx demo_sched)"
    using take_fpu [OF demo_sched_ok demo_can_run(1), of "[1]" "[2]"] demo_can_run(3) by auto
  obtain e2 s3 where 3: "switchTo (currentIdx demo_sched) s2 = kret (e2, s3)" "sched_ok s3"
    using switchTo_spec [OF 1(3), of "currentIdx demo_sched"] 1(4) by auto
  obtain s4 where 4: "handleNm [1] s3 = kret s4" using handleNm_spec [OF 3(2), of "[1]"] by blast
  have "fpuRegs s4 = fpuState (currentTask demo_sched)"
    by (rule fpu_registers_lost [OF demo_sched_ok 1(1) _ 1(2) 3(1) 4]) simp
  also have "\<dots> = replicate 512 0" by (simp add: currentTask_def task_at_def demo_task_def empty_task_def)
  finally show ?thesis using 1 3 4 by auto
qed

theorem fpu_roundtrip_witness:
  "\<exists>s1 e1 s2 s3 e2 s4 s5. handleNm [1] demo_sched = kret s1 \<and> switchTo 0 (s1\<lparr>fpuRegs := [2]\<rparr>) = kret (e1, s2)
     \<and> handleNm [1] s2 = kret s3 \<and> switchTo 1 (s3\<lparr>fpuRegs := [3]\<rparr>) = kret (e2, s4) \<and> handleNm [1] s4 = kret s5
     \<and> fpuRegs s5 = [2]"
proof -
  let ?c = "currentIdx demo_sched"
  obtain s1 e1 s2 where 1: "handleNm [1] demo_sched = kret s1" "switchTo 0 (s1\<lparr>fpuRegs := [2]\<rparr>) = kret (e1, s2)"
      "sched_ok s2" "can_run s2 ?c"
    using take_fpu [OF demo_sched_ok demo_can_run(1), of "[1]" "[2]"] demo_can_run(3) by auto
  obtain s3 e2 s4 where 3: "handleNm [1] s2 = kret s3" "switchTo ?c (s3\<lparr>fpuRegs := [3]\<rparr>) = kret (e2, s4)" "sched_ok s4"
    using take_fpu [OF 1(3,4), of "[1]" "[3]"] by metis
  obtain s5 where 5: "handleNm [1] s4 = kret s5" using handleNm_spec [OF 3(3), of "[1]"] by blast
  have "fpuRegs s5 = [2]" using fpu_roundtrip [OF demo_sched_ok 1(1) _ 1(2) 3(1,2) 5] by simp
  then show ?thesis using 1 3 5 by auto
qed

section \<open>Fork\<close>

lemma free_stack_outer:
  "(if stackBuf (task_at i s) \<noteq> 0 then heap_free (stackBuf (task_at i s)) s else Some s) = Some s' \<Longrightarrow> outer s' = outer s"
  by (auto dest!: heap_free_outer split: if_splits)

lemma sched_fork_child:
  assumes "sched_ok s" "sched_fork s = kret (Some p, s')"
  obtains i k dir s7 where "slot_free s7 i" "tstate (task_at i s) = DEAD" "k \<noteq> 0" "dir \<noteq> 0"
    "s' = fork_child i k (TASK_STACK_SIZE - FRAME_SIZE_USER) dir s7" "p = pid (task_at i s')"
    "tasks s7 = (tasks s)[nat i := empty_task\<lparr>pageDir := dir\<rparr>]" "currentIdx s7 = currentIdx s"
    "nextPid s7 = nextPid s" "fpuOwner s7 = fpuOwner s" "fpuRegs s7 = fpuRegs s" "userStackPageCount (currentTask s) > 0"
proof -
  obtain r1 s1 where fs: "findSlot s = (r1, s1)" by (metis surj_pair)
  note fr = findSlot_free [OF assms(1) fs]
  have g: "\<not> idx_corrupt s" "userStackPageCount (currentTask s) \<noteq> 0" "syscallFrameEsp s \<noteq> 0"
    using assms(2) by (auto simp: sched_fork_def split: if_splits)
  obtain i where i: "r1 = Some i" using assms(2) g fs by (cases r1) (auto simp: sched_fork_def)
  obtain s2 k s4 dir s6 s7 where
      s2: "(if stackBuf (task_at i s1) \<noteq> 0 then heap_free (stackBuf (task_at i s1)) s1 else Some s1) = Some s2"
    and s4: "allocKernelStack (upd_task i (\<lambda>_. empty_task) s2) = Some (k, s4)" "k \<noteq> 0"
    and s6: "clonePageDir (if pageDir (currentTask s4) \<noteq> 0 then pageDir (currentTask s4) else kernelPageDirPhys s4)
        (s4\<lparr>mem := (copy_words (k + (TASK_STACK_SIZE - FRAME_SIZE_USER)) (syscallFrameEsp s4) (FRAME_SIZE_USER div 4) (mem s4))
             (k + (TASK_STACK_SIZE - FRAME_SIZE_USER) + 28 := 0)\<rparr>) = Inr (dir, s6)" "dir \<noteq> 0"
    and s7: "foldE (protect_pde (if pageDir (currentTask s4) \<noteq> 0 then pageDir (currentTask s4) else kernelPageDirPhys s4))
        [0..<PDE_COUNT] (upd_task i (\<lambda>c. c\<lparr>pageDir := dir\<rparr>) s6) = Inr s7"
    and e: "s' = fork_child i k (TASK_STACK_SIZE - FRAME_SIZE_USER) dir s7" "p = pid (task_at i s')"
  proof -
    have m: "currentTask (s\<lparr>mem := x\<rparr>) = currentTask s" "kernelPageDirPhys (s\<lparr>mem := x\<rparr>) = kernelPageDirPhys s" for x and s :: "'a proc_scheme"
      by (simp_all add: currentTask_def task_at_def kernelPageDirPhys_def)
    show thesis
      using assms(2) g fs i unfolding sched_fork_def Let_def
      by (auto simp: kbind_kret m split: if_splits intro: that)
  qed
  note o2 = free_stack_outer [OF s2]
  note o4 = allocKernelStack_outer [OF s4(1)]
  note o6 = clonePageDir_outer [OF s6(1)]
  have o7: "outer s7 = outer (upd_task i (\<lambda>c. c\<lparr>pageDir := dir\<rparr>) s6)"
    by (rule foldE_outer [OF _ s7]) (rule protect_pde_outer)
  note sf = fr(2) [OF i]
  let ?e = "upd_task i (\<lambda>_. empty_task) s2" and ?d = "upd_task i (\<lambda>c. c\<lparr>pageDir := dir\<rparr>) s6"
  let ?m = "(copy_words (k + (TASK_STACK_SIZE - FRAME_SIZE_USER)) (syscallFrameEsp s4) (FRAME_SIZE_USER div 4) (mem s4))
             (k + (TASK_STACK_SIZE - FRAME_SIZE_USER) + 28 := 0)"
  have n: "nat i < length (tasks s)" using sf sched_okD [OF fr(1)] fr(4) by (auto simp: slot_free_def)
  have tk: "tasks s7 = (tasks s)[nat i := empty_task\<lparr>pageDir := dir\<rparr>]"
  proof -
    have "tasks s4 = (tasks s)[nat i := empty_task]"
      unfolding outer_sched(1) [OF o4] using outer_sched(1) [OF o2] fr(4) by simp
    moreover have "tasks s6 = tasks s4" using outer_sched(1) [OF o6] by simp
    ultimately show ?thesis unfolding outer_sched(1) [OF o7] using n by simp
  qed
  note os = outer_sched(3,9-11)
  have t7: "currentIdx s7 = currentIdx s1" "nextPid s7 = nextPid s1" "fpuOwner s7 = fpuOwner s1" "fpuRegs s7 = fpuRegs s1"
    using os [OF o7] os [OF o6] os [OF o4] os [OF o2] by simp_all
  have fields: "nextPid s1 = nextPid s" "fpuOwner s1 = fpuOwner s" "fpuRegs s1 = fpuRegs s"
    using fs by (auto simp: findSlot_def split: option.splits if_splits)
  have "slot_free s2 i" by (rule slot_free_shape [OF sf shape_outer [OF o2]])
  then have "slot_free (upd_task i (\<lambda>_. empty_task) s2) i" by (rule slot_free_upd) (simp add: empty_task_def)
  then have "slot_free s4 i" by (rule slot_free_shape) (rule shape_outer [OF o4])
  then have "slot_free s6 i" by (rule slot_free_shape) (use shape_outer [OF o6] in simp)
  then have "slot_free (upd_task i (\<lambda>c. c\<lparr>pageDir := dir\<rparr>) s6) i" by (rule slot_free_shape) simp
  then have "slot_free s7 i" by (rule slot_free_shape) (rule shape_outer [OF o7])
  moreover have "tstate (task_at i s) = DEAD" using sf fr(4) by (simp add: slot_free_def task_at_def)
  ultimately show thesis using that s4(2) s6(2) e tk t7 fr(3) fields g(2) by simp
qed


lemma clone_loop_empty:
  "(\<And>i. i \<in> set is \<Longrightarrow> \<not> has (entry s src i) PAGE_PRESENT) \<Longrightarrow> clone_loop n src is s = Inr (n, s)"
  by (induction "is") (simp_all add: clone_pde_def Let_def)

lemma protect_empty:
  "(\<And>i. i \<in> set is \<Longrightarrow> \<not> has (entry s d i) PAGE_PRESENT) \<Longrightarrow> foldE (protect_pde d) is s = Inr s"
  by (induction "is") (simp_all add: protect_pde_def Let_def)

lemma copy_words_other: "(\<And>i. i < n \<Longrightarrow> a \<noteq> dst + 4 * i) \<Longrightarrow> copy_words dst src n m a = m a"
proof -
  have "fold (\<lambda>i m'. m'(dst + 4 * i := m (src + 4 * i))) is m0 a = m0 a" if "\<And>i. i \<in> set is \<Longrightarrow> a \<noteq> dst + 4 * i" for "is" m0
    using that by (induction "is" arbitrary: m0) simp_all
  note other = this
  assume h: "\<And>i. i < n \<Longrightarrow> a \<noteq> dst + 4 * i"
  show "copy_words dst src n m a = m a" unfolding copy_words_def by (rule other) (use h in simp)
qed

definition demo_user :: proc where
  "demo_user = heap_init 4096 16384 (demo_proc\<lparr>tasks := (tasks demo_proc)[1 := (demo_task RUNNING PRIORITY_NORMAL 0)\<lparr>userStackPageCount := 1\<rparr>],
     frameList := 0x20000, maxFrameIdx := 64, syscallFrameEsp := 0x30000\<rparr>)"

lemma demo_user_heap: "heap_inv demo_user [Block 4096 16384 True]"
  unfolding demo_user_def using heap_init_inv [of 4096 16384] by simp

lemma demo_user_fields:
  "tasks demo_user = (tasks demo_sched)[1 := (demo_task RUNNING PRIORITY_NORMAL 0)\<lparr>userStackPageCount := 1\<rparr>]"
  "taskCount demo_user = 4" "currentIdx demo_user = 1" "sleepQueue demo_user = [(110, 3)]" "frameList demo_user = 0x20000"
  "maxFrameIdx demo_user = 64" "syscallFrameEsp demo_user = 0x30000" "kernelPageDirPhys demo_user = 65536"
  "nextPid demo_user = 4" "4136 < a \<Longrightarrow> mem demo_user a = 0" "heapStart demo_user = 4096" "heapEnd demo_user = 20480"
proof -
  have a: "unat (alignUp 4096 BLOCK_ALIGN) = 4096" "unat (alignUp 16384 BLOCK_ALIGN) = 16384"
    by (simp_all add: alignUp_def BLOCK_ALIGN_def)
  note d = demo_user_def heap_init_def Let_def demo_proc_def demo_sched_def sched.defs proc.defs kernelPageDirPhys_def add32_def
  show "tasks demo_user = (tasks demo_sched)[1 := (demo_task RUNNING PRIORITY_NORMAL 0)\<lparr>userStackPageCount := 1\<rparr>]"
    "taskCount demo_user = 4" "currentIdx demo_user = 1" "sleepQueue demo_user = [(110, 3)]" "frameList demo_user = 0x20000"
    "maxFrameIdx demo_user = 64" "syscallFrameEsp demo_user = 0x30000" "kernelPageDirPhys demo_user = 65536"
    "nextPid demo_user = 4" "heapStart demo_user = 4096" "heapEnd demo_user = 20480"
    by (simp_all add: d a)
  show "mem demo_user a = 0" if "4136 < a" using that by (simp add: d a)
qed

lemma demo_user_ok: "sched_ok demo_user" "tstate (currentTask demo_user) = RUNNING" "userStackPageCount (currentTask demo_user) = 1"
proof -
  show "sched_ok demo_user" unfolding sched_ok_def table_ok_def MAX_TASKS_def all_lt_8 demo_user_fields
    by (simp add: sleep_ok_def empty_task_def)
  show "tstate (currentTask demo_user) = RUNNING" "userStackPageCount (currentTask demo_user) = 1"
    by (simp_all add: currentTask_def task_at_def demo_user_fields)
qed

lemma demo_user_stack:
  obtains s4 where "allocKernelStack (upd_task 4 (\<lambda>_. empty_task) (demo_user\<lparr>taskCount := 5\<rparr>)) = Some (4112, s4)"
    "\<And>a. 20480 \<le> a \<Longrightarrow> mem s4 a = 0" "frameList s4 = 0x20000" "maxFrameIdx s4 = 64"
    "outer s4 = outer (upd_task 4 (\<lambda>_. empty_task) (demo_user\<lparr>taskCount := 5\<rparr>))"
proof -
  let ?s = "upd_task 4 (\<lambda>_. empty_task) (demo_user\<lparr>taskCount := 5\<rparr>)"
  have hi: "heap_inv ?s [Block 4096 16384 True]"
    using demo_user_heap by (simp add: heap_inv_def heap_rep_def heap_struct_def upd_task_def)
  have "need (unat (word_of_nat TASK_STACK_SIZE :: u32)) = 8208" by (simp add: need_def TASK_STACK_SIZE_def)
  with hi obtain h' where h: "heap_alloc (word_of_nat TASK_STACK_SIZE) ?s = Some (4112, h')" "heap_step ?s [Block 4096 16384 True] h'"
    by (cases rule: heap_alloc_cases [where sz = "word_of_nat TASK_STACK_SIZE"])
       (auto simp: TASK_STACK_SIZE_def Cons_eq_append_conv)
  let ?r = "h'\<lparr>mem := (mem h')(4112 := STACK_CANARY)\<rparr>"
  have a: "allocKernelStack ?s = Some (4112, ?r)" using h(1) by (simp add: allocKernelStack_def)
  show thesis
  proof (rule that [OF a])
    obtain m f where h': "h' = ?s\<lparr>mem := m, freeList := f\<rparr>" and m: "\<And>x. x \<in> protected ?s [Block 4096 16384 True] \<Longrightarrow> m x = mem ?s x"
      using h(2) unfolding heap_step_def by blast
    have s: "heapStart ?s = 4096" "heapEnd ?s = 20480" "frameList ?s = 0x20000" "maxFrameIdx ?s = 64" "mem ?s = mem demo_user"
      using demo_user_fields(5,6,11,12) by (simp_all add: upd_task_def)
    show "mem ?r a = 0" if "20480 \<le> a" for a
    proof -
      have "a \<in> protected ?s [Block 4096 16384 True]" using that s(1,2) by (simp add: protected_def)
      then have "m a = 0" using m [of a] demo_user_fields(10) [of a] that s(5) by simp
      then show ?thesis using that h' by simp
    qed
    show "frameList ?r = 0x20000" "maxFrameIdx ?r = 64" unfolding h' using s(3,4) by simp_all
    show "outer ?r = outer ?s" by (rule allocKernelStack_outer [OF a])
  qed
qed


section \<open>Exit status\<close>

text \<open>What the exit path leaves alone in a slot.\<close>

definition ident :: "task \<Rightarrow> u8 \<times> u8 list \<times> int" where
  "ident t = (pid t, children t, exitCode t)"

lemma ident_tstate [simp]: "ident (t\<lparr>tstate := x\<rparr>) = ident t" "ident (t\<lparr>tstate := x, wakeupMs := y\<rparr>) = ident t"
  by (simp_all add: ident_def)

lemma list_update_view: "(\<And>t. f (g t) = f t) \<Longrightarrow> f (ts[j := g (ts ! j)] ! k) = f (ts ! k)"
  by (cases "j < length ts") (auto simp: nth_list_update list_update_beyond)

lemma upd_task_view: "(\<And>t. f (g t) = f t) \<Longrightarrow> f (tasks (upd_task i g s) ! k) = f (tasks s ! k)"
  unfolding upd_task_def by (simp add: list_update_view)

lemma switched_ident: "ident (switched ts c n ! k) = ident (ts ! k)"
  by (simp add: switched_def Let_def list_update_view [where f = ident])

lemma switched_state:
  assumes "nat n < length ts" "nat c < length ts" "tstate (ts ! nat c) \<noteq> RUNNING"
  shows "tstate (switched ts c n ! k) = (if k = nat n then RUNNING else tstate (ts ! k))"
  using assms by (simp add: switched_def nth_list_update)

lemma reparent_task:
  assumes "k < length (tasks s)"
  shows "ident (tasks (reparentChildren p s) ! k) = ident (tasks s ! k)"
    "tstate (tasks (reparentChildren p s) ! k) = tstate (tasks s ! k)"
    "unblockOnExit (tasks (reparentChildren p s) ! k) = unblockOnExit (tasks s ! k)"
    "historyBuf (tasks (reparentChildren p s) ! k) = historyBuf (tasks s ! k)"
  using assms by (auto simp: reparentChildren_def nth_append ident_def)

lemma bury_task:
  assumes "0 \<le> i" "nat i < length (tasks s)" "k < length (tasks s)"
  shows "ident (tasks (bury i f s) ! k) = (if k = nat i then ident (f (tasks s ! k)) else ident (tasks s ! k))"
    "tstate (tasks (bury i f s) ! k) = (if k = nat i then DEAD else tstate (tasks s ! k))"
    "k \<noteq> nat i \<Longrightarrow> unblockOnExit (tasks (bury i f s) ! k) = unblockOnExit (tasks s ! k)"
    "unblockOnExit (tasks (bury i f s) ! nat i) = unblockOnExit (f (tasks s ! nat i))"
    "historyBuf (tasks (bury i f s) ! nat i) = historyBuf (f (tasks s ! nat i))"
  using assms by (auto simp: bury_def Let_def reparent_task removeFromSleepQueue_def nth_list_update)

lemma bury_pages:
  assumes "nat i < length (tasks s)"
  shows "pageDir (tasks (bury i (\<lambda>t. t\<lparr>exitCode := x\<rparr>) s) ! nat i) = pageDir (tasks s ! nat i)"
    "userCodeBuf (tasks (bury i (\<lambda>t. t\<lparr>exitCode := x\<rparr>) s) ! nat i) = userCodeBuf (tasks s ! nat i)"
  using assms by (auto simp: bury_def Let_def reparentChildren_def removeFromSleepQueue_def nth_append)

lemma reparent_fields [simp]:
  "taskCount (reparentChildren p s) = taskCount s" "currentIdx (reparentChildren p s) = currentIdx s"
  "length (tasks (reparentChildren p s)) = length (tasks s)"
  by (simp_all add: reparentChildren_def)

lemma bury_fields [simp]:
  "taskCount (bury i f s) = taskCount s" "currentIdx (bury i f s) = currentIdx s" "length (tasks (bury i f s)) = length (tasks s)"
  by (simp_all add: bury_def Let_def removeFromSleepQueue_def)

lemma unblockTask_views:
  assumes "sched_ok s" "0 \<le> q" "q < taskCount s" "tstate (task_at q s) = BLOCKED"
  shows "ident (tasks (unblockTask q s) ! k) = ident (tasks s ! k)"
    "tstate (tasks (unblockTask q s) ! k) = (if k = nat q then READY else tstate (tasks s ! k))"
proof -
  have n: "nat q < length (tasks s)" using assms(2,3) sched_okD [OF assms(1)] by simp
  have u: "tasks (unblockTask q s) = (tasks s)[nat q := (tasks s ! nat q)\<lparr>tstate := READY, wakeupMs := 0\<rparr>]"
    using unblockTask_spec [OF assms(1), of q] assms(2-4) by (simp add: task_at_def)
  show "ident (tasks (unblockTask q s) ! k) = ident (tasks s ! k)" unfolding u by (rule list_update_view) simp
  show "tstate (tasks (unblockTask q s) ! k) = (if k = nat q then READY else tstate (tasks s ! k))"
    unfolding u using n by (simp add: nth_list_update)
qed

text \<open>The exit of a task without kill handler and history, with a blocked task to wake.\<close>

lemma exit_views:
  assumes "sched_ok s" "env_ok ev" "onKill (currentTask s) = 0" "historyBuf (currentTask s) = 0"
    and "exitCurrentTask ev code s = kret (e, s')"
    and "unblockOnExit (currentTask s) = q" "0 \<le> q" "q < taskCount s" "q \<noteq> currentIdx s" "tstate (task_at q s) = BLOCKED"
  shows "taskCount s' = taskCount s"
    "k < MAX_TASKS \<Longrightarrow> ident (tasks s' ! k) =
       (if int k = currentIdx s then (pid (currentTask s), children (currentTask s), code) else ident (tasks s ! k))"
    "k < MAX_TASKS \<Longrightarrow> tstate (tasks s' ! k) = DEAD \<longleftrightarrow> int k = currentIdx s \<or> tstate (tasks s ! k) = DEAD"
    "tstate (task_at q s') = READY"
proof -
  let ?c = "currentIdx s"
  note b = sched_okD [OF assms(1)]
  define s2 where "s2 = bury ?c (\<lambda>t. t\<lparr>exitCode := code\<rparr>) s"
  define s3 where "s3 = upd_task ?c (\<lambda>t. t\<lparr>pageDir := 0, userStackPageCount := 0, userCodeBuf := 0, elfPageCount := 0,
                                       unblockOnExit := - 1\<rparr>) s2"
  define t where "t = task_at ?c s2"
  have nc: "nat ?c < length (tasks s)" by (rule b(6))
  have h: "free_history ev ?c s2 = s2"
    using bury_task(5) [OF b(2) nc b(6)] assms(4) by (simp add: free_history_def s2_def task_at_def currentTask_def)
  have ut: "unblockOnExit t = q"
    using bury_task(4) [OF b(2) nc b(6)] assms(6) by (simp add: t_def s2_def task_at_def currentTask_def)
  have e1: "(if onKill (task_at ?c s) \<noteq> 0 then runOnKill ev (onKill (task_at ?c s)) s else s) = s"
    using assms(3) by (simp add: currentTask_def)
  obtain n s4 s5 s6 where k: "switchTo n s3 = kret (e, s4)"
      "(if pageDir t \<noteq> 0 then kbind (Some (freePageDirectory (pageDir t) s4)) (\<lambda>s'. Some (freeFrame (pageDir t) s')) else kret s4) = kret s5"
      "(if userCodeBuf t \<noteq> 0 then Some (unmapPage USER_BASE (kernelPageDirPhys s5) s5) else kret s5) = kret s6"
      "s' = unblockTask q s6"
    using assms(5) b(5) ut assms(7) unfolding exitCurrentTask_def Let_def e1 s2_def [symmetric] h t_def [symmetric] s3_def [symmetric]
    by (auto simp: kbind_kret split: option.splits)
  have ok2: "sched_ok s2" unfolding s2_def by (rule bury_ok [OF assms(1) b(2,3)])
  have ok3: "sched_ok s3" by (rule shape_ok [OF _ ok2]) (simp add: s3_def)
  have id3: "ident (tasks s3 ! j) = ident (tasks s2 ! j)" "tstate (tasks s3 ! j) = tstate (tasks s2 ! j)" for j
    unfolding s3_def by (rule upd_task_view; simp add: ident_def)+
  have st2: "tstate (tasks s2 ! j) = (if j = nat ?c then DEAD else tstate (tasks s ! j))"
      "ident (tasks s2 ! j) = (if j = nat ?c then (pid (currentTask s), children (currentTask s), code) else ident (tasks s ! j))"
    if "j < MAX_TASKS" for j
    using bury_task(1,2) [OF b(2) nc, of j] that b(1) by (auto simp: s2_def ident_def currentTask_def task_at_def)
  have cr: "can_run s3 n" "tasks s4 = switched (tasks s3) (currentIdx s3) n" "sched_ok s4"
    using switchTo_spec [OF ok3, of n] k(1) by (auto split: if_splits)
  have c3: "currentIdx s3 = ?c" "taskCount s3 = taskCount s" "length (tasks s3) = MAX_TASKS"
    using sched_okD(1) [OF ok3] by (simp_all add: s3_def s2_def)
  have t4: "taskCount s4 = taskCount s" using k(1) c3 by (auto simp: switchTo_def Let_def split: if_splits)
  have n: "0 \<le> n" "nat n < MAX_TASKS" "tstate (tasks s3 ! nat n) = READY"
    using cr(1) c3 b(2,4) id3(2) [of "nat ?c"] st2(1) [of "nat ?c"] nc b(1) by (auto simp: can_run_def task_at_def)
  have st4: "tstate (tasks s4 ! j) = (if j = nat n then RUNNING else tstate (tasks s3 ! j))" for j
    unfolding cr(2) by (rule switched_state) (use n c3 nc b(1) id3(2) [of "nat ?c"] st2(1) [of "nat ?c"] in auto)
  have id4: "ident (tasks s4 ! j) = ident (tasks s3 ! j)" for j unfolding cr(2) by (rule switched_ident)
  have "outer s5 = outer s4"
    using k(2) by (auto simp: kbind_kret dest!: freePageDirectory_outer freeFrame_outer split: if_splits)
  moreover have "outer s6 = outer s5" using k(3) by (auto dest!: unmapPage_outer split: if_splits)
  ultimately have o6: "outer s6 = outer s4" by simp
  note t6 = outer_sched(1,2) [OF o6] and ok6 = outer_ok [OF o6 cr(3)]
  have q: "nat q < MAX_TASKS" "nat q \<noteq> nat ?c" using assms(7-9) b(2,4) by auto
  have bl: "tstate (tasks s3 ! nat q) = BLOCKED" using id3(2) [of "nat q"] st2(1) [OF q(1)] q(2) assms(10) by (simp add: task_at_def)
  then have qn: "nat q \<noteq> nat n" using n(3) by auto
  have b6: "tstate (task_at q s6) = BLOCKED" using bl qn st4 t6(1) by (simp add: task_at_def)
  have qc: "q < taskCount s6" using assms(8) t6(2) t4 by simp
  note u = unblockTask_views [OF ok6 assms(7) qc b6]
  show "taskCount s' = taskCount s" using k(4) t6(2) t4 by simp
  show "ident (tasks s' ! k) = (if int k = ?c then (pid (currentTask s), children (currentTask s), code) else ident (tasks s ! k))"
    if "k < MAX_TASKS" for k
    using st2(2) [OF that] b(2) unfolding k(4) u(1) t6(1) id4 id3(1) by auto
  show "tstate (tasks s' ! k) = DEAD \<longleftrightarrow> int k = ?c \<or> tstate (tasks s ! k) = DEAD" if "k < MAX_TASKS" for k
  proof -
    have "k = nat q \<Longrightarrow> tstate (tasks s ! k) = BLOCKED" using assms(10) by (simp add: task_at_def)
    moreover have "k = nat n \<Longrightarrow> tstate (tasks s ! k) = READY \<and> k \<noteq> nat ?c" using n(3) id3(2) [of k] st2(1) [OF that] by (auto split: if_splits)
    ultimately show ?thesis using b(2) q(2) unfolding k(4) u(2) t6(1) st4 id3(2) st2(1) [OF that] by auto
  qed
  show "tstate (task_at q s') = READY" unfolding k(4) task_at_def u(2) by simp
qed

text \<open>C16. The exit status reaches the waiting parent (Scheduler::exitCurrentTask with Scheduler::reapDeadChild,
  the second half of waitpid). The current task exits with a code while task q waits for it: q is BLOCKED,
  is the task to wake on this exit and has the pid among its children, and no other dead task has the
  pid of one of its children. After the exit, q is READY, the exited task is DEAD, and the reap q does when it resumes returns
  the pid and the exit code.\<close>

theorem exit_status_delivered:
  assumes "sched_ok s" "env_ok ev" "onKill (currentTask s) = 0" "historyBuf (currentTask s) = 0"
    and "exitCurrentTask ev code s = kret (e, s')"
    and "unblockOnExit (currentTask s) = q" "0 \<le> q" "q < taskCount s" "q \<noteq> currentIdx s" "tstate (task_at q s) = BLOCKED"
    and "pid (currentTask s) \<in> set (children (task_at q s))"
    and "\<forall>k<nat (taskCount s). int k \<noteq> currentIdx s \<longrightarrow> tstate (tasks s ! k) = DEAD \<longrightarrow> pid (tasks s ! k) \<notin> set (children (task_at q s))"
  shows "tstate (task_at q s') = READY \<and> tstate (task_at (currentIdx s) s') = DEAD
    \<and> fst (reapDeadChild q s') = Some (pid (currentTask s), code)"
proof -
  let ?c = "currentIdx s" and ?p = "pid (currentTask s)" and ?cs = "children (task_at q s)"
  note b = sched_okD [OF assms(1)] and v = exit_views [OF assms(1-10)]
  have lt: "k < nat (taskCount s) \<Longrightarrow> k < MAX_TASKS" for k using b(4) by linarith
  have q: "nat q < MAX_TASKS" "int (nat q) \<noteq> ?c" using assms(7-9) b(4) by auto
  have cs: "children (task_at q s') = ?cs" using v(2) [OF q(1)] q(2) by (simp add: ident_def task_at_def)
  have cp: "pid (tasks s' ! nat ?c) = ?p" "exitCode (tasks s' ! nat ?c) = code" "tstate (tasks s' ! nat ?c) = DEAD"
    using v(2,3) [of "nat ?c"] b by (simp_all add: ident_def)
  have dead: "k = nat ?c" if "k < nat (taskCount s)" "tstate (tasks s' ! k) = DEAD" "pid (tasks s' ! k) \<in> set ?cs" for k
  proof (rule ccontr)
    assume ne: "k \<noteq> nat ?c"
    then have ne': "int k \<noteq> ?c" by auto
    have "tstate (tasks s ! k) = DEAD" "pid (tasks s ! k) = pid (tasks s' ! k)"
      using v(2,3) [OF lt [OF that(1)]] ne' that(2) by (simp_all add: ident_def)
    then show False using assms(12) that(1,3) ne' by auto
  qed
  have fd: "find_dead x s' = (if x = ?p then Some (nat ?c) else None)" if "x \<in> set ?cs" for x
  proof (cases "find_dead x s'")
    case None
    have "nat ?c < nat (taskCount s)" using b(2,3) by simp
    then have "x \<noteq> ?p" using None cp v(1) by (auto simp: find_dead_def find_None_iff)
    with None show ?thesis by simp
  next
    case (Some k)
    then have "k < nat (taskCount s)" "pid (tasks s' ! k) = x" "tstate (tasks s' ! k) = DEAD"
      using v(1) by (auto simp: find_dead_def find_Some_iff)
    with dead [of k] that cp(1) Some show ?thesis by auto
  qed
  obtain i where i: "find (\<lambda>i. find_dead (?cs ! i) s' \<noteq> None) [0..<length ?cs] = Some i"
  proof (cases "find (\<lambda>i. find_dead (?cs ! i) s' \<noteq> None) [0..<length ?cs]")
    case None
    then have "\<forall>i<length ?cs. ?cs ! i \<noteq> ?p" using fd by (fastforce simp: find_None_iff)
    then show thesis using assms(11) by (metis in_set_conv_nth)
  qed
  then have "i < length ?cs" "find_dead (?cs ! i) s' \<noteq> None" by (auto simp: find_Some_iff)
  then have "find_dead (?cs ! i) s' = Some (nat ?c)" using fd [of "?cs ! i"] by (auto split: if_splits)
  then have "fst (reapDeadChild q s') = Some (?p, code)" using i cs cp by (simp add: reapDeadChild_def Let_def)
  with v(4) cp(3) show ?thesis by (simp add: task_at_def)
qed

lemma exit_returns:
  assumes "sched_ok s" "onKill (currentTask s) = 0" "historyBuf (currentTask s) = 0" "pageDir (currentTask s) = 0"
    "userCodeBuf (currentTask s) = 0" "idle_ready s" "currentIdx s \<noteq> 0"
  shows "\<exists>e s'. exitCurrentTask ev code s = kret (e, s')"
proof -
  let ?c = "currentIdx s"
  note b = sched_okD [OF assms(1)]
  define s2 where "s2 = bury ?c (\<lambda>t. t\<lparr>exitCode := code\<rparr>) s"
  define s3 where "s3 = upd_task ?c (\<lambda>t. t\<lparr>pageDir := 0, userStackPageCount := 0, userCodeBuf := 0, elfPageCount := 0,
                                       unblockOnExit := - 1\<rparr>) s2"
  have nc: "nat ?c < length (tasks s)" by (rule b(6))
  have h: "free_history ev ?c s2 = s2"
    using bury_task(5) [OF b(2) nc b(6)] assms(3) by (simp add: free_history_def s2_def task_at_def currentTask_def)
  have pg: "pageDir (task_at ?c s2) = 0" "userCodeBuf (task_at ?c s2) = 0"
    using bury_pages [OF nc] assms(4,5) by (simp_all add: s2_def task_at_def currentTask_def)
  have ok2: "sched_ok s2" unfolding s2_def by (rule bury_ok [OF assms(1) b(2,3)])
  have sh: "sched_shape s3 = sched_shape s2" by (simp add: s3_def)
  have id2: "idle_ready s2"
    using bury_task(2) [OF b(2) nc, of 0] assms(6,7) b(1,2) by (auto simp: idle_ready_def s2_def MAX_TASKS_def)
  have "currentIdx s2 \<noteq> 0" using assms(7) by (simp add: s2_def)
  then obtain n where n: "findNext s2 = kret (Some n)" "next_choice s2 n" using findNext_choice [OF ok2] by blast
  have "can_run s3 n" using next_choice_run [OF ok2 id2 n(2)] can_run_shape [OF sh ok2] by simp
  then obtain e s4 where "switchTo n s3 = kret (e, s4)" using switchTo_spec [OF shape_ok [OF sh ok2], of n] by auto
  then show ?thesis
    using b(5) assms(2) h n pg unfolding exitCurrentTask_def Let_def
    by (auto simp: currentTask_def s2_def [symmetric] s3_def [symmetric])
qed

definition demo_wait :: proc where
  "demo_wait = demo_proc\<lparr>tasks := [demo_task READY PRIORITY_IDLE 0, (demo_task RUNNING PRIORITY_NORMAL 0)\<lparr>pid := 7, unblockOnExit := 3\<rparr>,
     demo_task READY PRIORITY_NORMAL 0, (demo_task BLOCKED PRIORITY_NORMAL 110)\<lparr>children := [7]\<rparr>,
     empty_task, empty_task, empty_task, empty_task]\<rparr>"

lemma demo_wait_ok: "sched_ok demo_wait"
  unfolding sched_ok_def table_ok_def MAX_TASKS_def all_lt_8
  by (simp add: sleep_ok_def empty_task_def demo_wait_def)

theorem exit_status_delivered_witness:
  "\<exists>e s'. exitCurrentTask no_handlers 42 demo_wait = kret (e, s') \<and> fst (reapDeadChild 3 s') = Some (7, 42)"
proof -
  have t: "currentTask demo_wait = (demo_task RUNNING PRIORITY_NORMAL 0)\<lparr>pid := 7, unblockOnExit := 3\<rparr>"
    "task_at 3 demo_wait = (demo_task BLOCKED PRIORITY_NORMAL 110)\<lparr>children := [7]\<rparr>" "taskCount demo_wait = 4" "currentIdx demo_wait = 1"
    "idle_ready demo_wait"
    by (simp_all add: demo_wait_def currentTask_def task_at_def idle_ready_def)
  have f: "onKill (currentTask demo_wait) = 0" "historyBuf (currentTask demo_wait) = 0" "pageDir (currentTask demo_wait) = 0"
    "userCodeBuf (currentTask demo_wait) = 0" "currentIdx demo_wait \<noteq> 0"
    by (simp_all add: t demo_task_def empty_task_def)
  obtain e s' where x: "exitCurrentTask no_handlers 42 demo_wait = kret (e, s')"
    using exit_returns [OF demo_wait_ok f(1-4) t(5) f(5)] by blast
  have o: "\<forall>k<nat (taskCount demo_wait). int k \<noteq> currentIdx demo_wait \<longrightarrow> tstate (tasks demo_wait ! k) = DEAD
      \<longrightarrow> pid (tasks demo_wait ! k) \<notin> set (children (task_at 3 demo_wait))"
    unfolding t(3) by (auto simp: demo_wait_def less_Suc_eq numeral_eq_Suc)
  from exit_status_delivered [OF demo_wait_ok no_handlers_ok f(1,2) x _ _ _ _ _ _ o] t show ?thesis
    using x by simp
qed

end
