(* ===== verification/Devices.thy ===== *)
theory Devices
  imports Bytes
begin

unbundle bit_operations_syntax

text \<open>
  Processor identification (kernel/arch/i386/Cpu.cc), the clock (kernel/kernel/Cmos.cc) and the detection of the ACPI tables
  (kernel/kernel/Acpi.cc). The \<open>cpuid\<close> instruction and the registers of the clock chip are hardware, arguments of the definitions; the
  tables are read from the memory.

  Shown: the layout of the processor information, what a successful detection of the tables guarantees, and that reading the clock
  ends and returns the time shown.
\<close>


section \<open>Processor identification\<close>

text \<open>The \<open>cpuid\<close> instruction maps a function code to EAX, EBX, ECX and EDX; it is the processor, an argument of the model.\<close>

type_synonym cpuid = "u32 \<Rightarrow> u32 \<times> u32 \<times> u32 \<times> u32"

record cpu =
  funcMax :: u32
  funcMaxExt :: u32
  vendorId :: "u8 list"
  brand :: "u8 list"
  stepping :: u8
  cpuModel :: u8
  cpuFamily :: u8
  procType :: u8
  features :: u32
  efeatures :: u32
  efeatures2 :: u32

text \<open>Zero-initialised statics.\<close>

definition cpu_zero :: cpu where
  "cpu_zero = \<lparr>funcMax = 0, funcMaxExt = 0, vendorId = replicate 13 0, brand = replicate 49 0, stepping = 0, cpuModel = 0, cpuFamily = 0,
     procType = 0, features = 0, efeatures = 0, efeatures2 = 0\<rparr>"

text \<open>The four byte extractions that fill four cells of a result array.\<close>

definition reg_bytes :: "u32 \<Rightarrow> u8 list" where
  "reg_bytes r = [ucast (r AND 255), ucast (drop_bit 8 r AND 255), ucast (drop_bit 16 r AND 255), ucast (drop_bit 24 r AND 255)]"

definition cpuVendorId :: "cpuid \<Rightarrow> u8 list \<times> u32" where
  "cpuVendorId cpuid =
     (let (a, b, c, d) = cpuid 0 in (reg_bytes b @ reg_bytes d @ reg_bytes c @ [0], a))"

definition cpuBrandString :: "cpuid \<Rightarrow> u8 list" where
  "cpuBrandString cpuid =
     concat (map (\<lambda>code. let (a, b, c, d) = cpuid code in reg_bytes a @ reg_bytes b @ reg_bytes c @ reg_bytes d)
       [0x80000002, 0x80000003, 0x80000004]) @ [0]"

definition hasFpu :: "cpu \<Rightarrow> bool" where "hasFpu c = bit (features c) 0"
definition hasTsc :: "cpu \<Rightarrow> bool" where "hasTsc c = bit (features c) 4"
definition hasPae :: "cpu \<Rightarrow> bool" where "hasPae c = bit (features c) 6"
definition hasFxsr :: "cpu \<Rightarrow> bool" where "hasFxsr c = bit (features c) 24"

definition hasSysEnter :: "cpu \<Rightarrow> bool" where
  "hasSysEnter c \<longleftrightarrow> bit (features c) 11 \<and> \<not> (cpuFamily c = 6 \<and> cpuModel c < 3 \<and> stepping c < 3)"

definition hasVendorId :: "u8 list \<Rightarrow> cpu \<Rightarrow> bool" where
  "hasVendorId i c \<longleftrightarrow> i = takeWhile (\<lambda>b. b \<noteq> 0) (vendorId c)"

text \<open>\<open>isa\<close> is \<open>DOORS_TARGET_ISA\<close>. The test of the EFLAGS bit starts from an unspecified register \<open>ecx\<close>, flips bits of a copy (with the
  decimal mask 200000), pushes and pops the copy itself, and compares: EFLAGS is not involved.\<close>

definition cpuidSupported :: "nat \<Rightarrow> u32 \<Rightarrow> bool" where
  "cpuidSupported isa ecx = (if isa < 586 then False else (ecx XOR 200000) XOR ecx \<noteq> 0)"

definition cpu_init :: "nat \<Rightarrow> u32 \<Rightarrow> cpuid \<Rightarrow> cpu \<Rightarrow> bool \<times> cpu" where
  "cpu_init isa ecx cpuid s =
     (if \<not> cpuidSupported isa ecx then (False, s)
      else
      let (v, fm) = cpuVendorId cpuid;
          s1 = s\<lparr>vendorId := v, funcMax := fm\<rparr>;
          (a, b, c, d) = cpuid 1;
          s2 = (if funcMax s1 \<ge> 1
                then s1\<lparr>stepping := ucast (a AND 15), cpuModel := ucast (drop_bit 4 a AND 15), cpuFamily := ucast (drop_bit 8 a AND 15),
                       procType := ucast (drop_bit 12 a AND 15), features := d\<rparr>
                else s1);
          s3 = s2\<lparr>funcMaxExt := fst (cpuid 0x80000000)\<rparr>;
          (a', b', c', d') = cpuid 0x80000001;
          s4 = (if funcMaxExt s3 \<ge> 0x80000001 then s3\<lparr>efeatures := d', efeatures2 := c'\<rparr> else s3);
          s5 = (if funcMaxExt s4 \<ge> 0x80000002 \<and> funcMaxExt s4 \<ge> 0x80000003 \<and> funcMaxExt s4 \<ge> 0x80000004
                then s4\<lparr>brand := cpuBrandString cpuid\<rparr> else s4)
      in if \<not> hasSysEnter s5 then (False, s5) else (True, s5))"

text \<open>The bytes of \<open>CpuInfoRaw\<close>.\<close>

definition readCpuInfo :: "cpu \<Rightarrow> u8 list" where
  "readCpuInfo c =
     take 12 (vendorId c) @ bytes32 (features c) @ bytes32 (efeatures c) @ bytes32 (efeatures2 c) @
     [stepping c, cpuModel c, cpuFamily c, procType c] @ take 48 (brand c)"

section \<open>The clock\<close>

text \<open>The clock chip shows its registers over time: \<open>rtc t r\<close> is what access number \<open>t\<close> to register \<open>r\<close> reads.\<close>

type_synonym rtc = "nat \<Rightarrow> u8 \<Rightarrow> u8"

definition CMOS_REG_SECONDS :: u8 where "CMOS_REG_SECONDS = 0x00"
definition CMOS_REG_MINUTES :: u8 where "CMOS_REG_MINUTES = 0x02"
definition CMOS_REG_HOURS :: u8 where "CMOS_REG_HOURS = 0x04"
definition CMOS_REG_DAY :: u8 where "CMOS_REG_DAY = 0x07"
definition CMOS_REG_MONTH :: u8 where "CMOS_REG_MONTH = 0x08"
definition CMOS_REG_YEAR :: u8 where "CMOS_REG_YEAR = 0x09"
definition CMOS_REG_CENTURY :: u8 where "CMOS_REG_CENTURY = 0x32"
definition CMOS_REG_STAT_A :: u8 where "CMOS_REG_STAT_A = 0x0A"
definition CMOS_REG_STAT_B :: u8 where "CMOS_REG_STAT_B = 0x0B"
definition THIS_CENTURY :: u32 where "THIS_CENTURY = 2000"

definition getRtcReg :: "rtc \<Rightarrow> u8 \<Rightarrow> nat \<Rightarrow> u8 \<times> nat" where
  "getRtcReg rtc r t = (rtc t r, Suc t)"

definition isUpdating :: "rtc \<Rightarrow> nat \<Rightarrow> bool \<times> nat" where
  "isUpdating rtc t = (let (a, t1) = getRtcReg rtc CMOS_REG_STAT_A t in (a AND 0x80 \<noteq> 0, t1))"

partial_function (option) wait_update :: "rtc \<Rightarrow> nat \<Rightarrow> nat option" where
  "wait_update rtc t = (let (u, t1) = isUpdating rtc t in if u then wait_update rtc t1 else Some t1)"

fun read_regs :: "rtc \<Rightarrow> u8 list \<Rightarrow> nat \<Rightarrow> u8 list \<times> nat" where
  "read_regs rtc [] t = ([], t)"
| "read_regs rtc (r # rs) t = (let (v, t1) = getRtcReg rtc r t; (vs, t2) = read_regs rtc rs t1 in (v # vs, t2))"

definition getRtcComps :: "rtc \<Rightarrow> nat \<Rightarrow> (u8 list \<times> nat) option" where
  "getRtcComps rtc t =
     do { t1 \<leftarrow> wait_update rtc t;
          Some (read_regs rtc [CMOS_REG_SECONDS, CMOS_REG_MINUTES, CMOS_REG_HOURS, CMOS_REG_DAY, CMOS_REG_MONTH, CMOS_REG_YEAR,
                               CMOS_REG_CENTURY] t1) }"

text \<open>Reading until two readings in a row agree.\<close>

partial_function (option) read_twice :: "rtc \<Rightarrow> u8 list \<Rightarrow> nat \<Rightarrow> (u8 list \<times> nat) option" where
  "read_twice rtc lastComps t =
     do { (comps, t1) \<leftarrow> getRtcComps rtc t;
          if comps \<noteq> lastComps then read_twice rtc comps t1 else Some (comps, t1) }"

definition from_bcd :: "u8 \<Rightarrow> u8" where
  "from_bcd c = (c AND 0x0F) + (c div 16 * 10)"

definition pm12To24 :: "u8 \<Rightarrow> u8" where
  "pm12To24 hourBcd = (let h = hourBcd AND 0x7F in (if h = 12 then 0 else h) + 12)"

record cmos_time =
  ct_seconds :: u8
  ct_minutes :: u8
  ct_hours :: u8
  ct_day :: u32
  ct_month :: u32
  ct_year :: u32

text \<open>\<open>hasCentury\<close> is the state of the ACPI component: tables present and a century register in the FADT.\<close>

definition decode_comps :: "bool \<Rightarrow> u8 \<Rightarrow> u8 list \<Rightarrow> cmos_time" where
  "decode_comps hasCentury regB comps =
     (let c1 = (if regB AND 0x4 = 0 then map from_bcd comps else comps);
          c2 = (if regB AND 0x02 = 0 \<and> c1 ! 2 AND 0x80 \<noteq> 0 then c1[2 := pm12To24 (c1 ! 2)] else c1)
      in \<lparr>ct_seconds = c2 ! 0, ct_minutes = c2 ! 1, ct_hours = c2 ! 2, ct_day = ucast (c2 ! 3), ct_month = ucast (c2 ! 4),
          ct_year = ucast (c2 ! 5) + (if hasCentury then ucast (c2 ! 6) * 100 else THIS_CENTURY)\<rparr>)"

definition readRtcValues :: "bool \<Rightarrow> rtc \<Rightarrow> nat \<Rightarrow> (cmos_time \<times> nat) option" where
  "readRtcValues hasCentury rtc t =
     do { (c0, t1) \<leftarrow> getRtcComps rtc t;
          (comps, t2) \<leftarrow> read_twice rtc c0 t1;
          let (regB, t3) = getRtcReg rtc CMOS_REG_STAT_B t2 in Some (decode_comps hasCentury regB comps, t3) }"

definition readTime :: "bool \<Rightarrow> rtc \<Rightarrow> nat \<Rightarrow> ((u8 \<times> u8 \<times> u8) \<times> nat) option" where
  "readTime hasCentury rtc t =
     do { (c, t1) \<leftarrow> readRtcValues hasCentury rtc t; Some ((ct_hours c, ct_minutes c, ct_seconds c), t1) }"

text \<open>The bytes of \<open>DateTimeRaw\<close>; the year is cut to 8 bits.\<close>

definition readDateTime :: "bool \<Rightarrow> rtc \<Rightarrow> nat \<Rightarrow> (u8 list \<times> nat) option" where
  "readDateTime hasCentury rtc t =
     do { (c, t1) \<leftarrow> readRtcValues hasCentury rtc t;
          Some ([ucast (ct_year c), ucast (ct_month c), ucast (ct_day c), ct_hours c, ct_minutes c, ct_seconds c], t1) }"

definition monthDays :: "u64 list" where
  "monthDays = [31, 28, 31, 30, 31, 30, 31, 31, 30, 31, 30, 31]"

text \<open>The seconds of a calendar time; month 0 or above 13 would read outside the table and is None.\<close>

definition unixTime_of :: "cmos_time \<Rightarrow> u64 option" where
  "unixTime_of c =
     (if ct_month c = 0 \<or> ct_month c > 13 then None
      else let days = fold (\<lambda>d acc. acc + d) (take (unat (ct_month c) - 1) monthDays) (ucast (ct_day c))
           in Some (days * 86400 + (ucast (ct_year c - 1970) * 31536000 + ucast (ct_seconds c) + ucast (ct_minutes c) * 60
                      + ucast (ct_hours c) * 3600)))"

definition unixTime :: "bool \<Rightarrow> rtc \<Rightarrow> nat \<Rightarrow> (u64 option \<times> nat) option" where
  "unixTime hasCentury rtc t = do { (c, t1) \<leftarrow> readRtcValues hasCentury rtc t; Some (unixTime_of c, t1) }"


section \<open>ACPI tables\<close>

text \<open>The pointers to the tables are addresses, 0 is null. Output on the terminal is not modelled; the byte written to the SMI command
  port is returned.\<close>

record acpi =
  rsdp :: nat
  rsdt :: nat
  fadt :: nat
  centuryReg :: u8

definition BDA_BASE_ADDR :: nat where "BDA_BASE_ADDR = 0x40E"
definition SIZEOF_RSD :: nat where "SIZEOF_RSD = 20"
definition SIZEOF_SDT :: nat where "SIZEOF_SDT = 36"

definition rsd_rsdtAddress :: "memory \<Rightarrow> nat \<Rightarrow> u32" where "rsd_rsdtAddress m p = read32 m (p + 16)"
definition sdt_length :: "memory \<Rightarrow> nat \<Rightarrow> u32" where "sdt_length m p = read32 m (p + 4)"
definition fadt_smiCommandPort :: "memory \<Rightarrow> nat \<Rightarrow> u32" where "fadt_smiCommandPort m p = read32 m (p + 48)"
definition fadt_acpiEnable :: "memory \<Rightarrow> nat \<Rightarrow> u8" where "fadt_acpiEnable m p = get_byte m (p + 52)"
definition fadt_acpiDisable :: "memory \<Rightarrow> nat \<Rightarrow> u8" where "fadt_acpiDisable m p = get_byte m (p + 53)"
definition fadt_century :: "memory \<Rightarrow> nat \<Rightarrow> u8" where "fadt_century m p = get_byte m (p + 108)"

definition byte_text :: "string \<Rightarrow> u8 list" where
  "byte_text = map (\<lambda>c. of_char c)"

definition detectRsdp :: "memory \<Rightarrow> nat" where
  "detectRsdp m =
     (let hit = (\<lambda>p. read_bytes m p 8 = byte_text ''RSD PTR '') in
      case find hit [BDA_BASE_ADDR..<BDA_BASE_ADDR + 1024] of
        Some p \<Rightarrow> p
      | None \<Rightarrow> (case find hit [0xE0000..<0xFFFFF] of Some p \<Rightarrow> p | None \<Rightarrow> 0))"

text \<open>\<open>accumulate\<close> with an 8-bit accumulator.\<close>

definition byte_sum :: "memory \<Rightarrow> nat \<Rightarrow> nat \<Rightarrow> u8" where
  "byte_sum m p n = fold (\<lambda>b acc. acc + b) (read_bytes m p n) 0"

definition checkRsdp :: "memory \<Rightarrow> nat \<Rightarrow> bool" where "checkRsdp m p \<longleftrightarrow> byte_sum m p SIZEOF_RSD = 0"
definition checkSdt :: "memory \<Rightarrow> nat \<Rightarrow> bool" where "checkSdt m p \<longleftrightarrow> byte_sum m p (unat (sdt_length m p)) = 0"

definition detectFadt :: "memory \<Rightarrow> nat \<Rightarrow> nat" where
  "detectFadt m r =
     (let nelm = unat ((sdt_length m r - word_of_nat SIZEOF_SDT) div 4);
          entry = (\<lambda>i. unat (read32 m (r + SIZEOF_SDT + 4 * i)))
      in case find (\<lambda>i. read_bytes m (entry i) 4 = byte_text ''FACP'') [0..<nelm] of None \<Rightarrow> 0 | Some i \<Rightarrow> entry i)"

definition acpi_cleanup :: "acpi \<Rightarrow> acpi" where
  "acpi_cleanup a = a\<lparr>rsdp := 0, rsdt := 0, fadt := 0\<rparr>"

definition acpi_init :: "memory \<Rightarrow> acpi \<Rightarrow> bool \<times> acpi \<times> (u32 \<times> u8) list" where
  "acpi_init m a =
     (let a1 = a\<lparr>rsdp := detectRsdp m\<rparr> in
      if rsdp a1 = 0 then (False, a1, [])
      else if \<not> checkRsdp m (rsdp a1) then (False, acpi_cleanup a1, [])
      else
      let a2 = a1\<lparr>rsdt := unat (rsd_rsdtAddress m (rsdp a1))\<rparr> in
      if \<not> checkSdt m (rsdt a2) then (False, acpi_cleanup a2, [])
      else
      let a3 = a2\<lparr>fadt := detectFadt m (rsdt a2)\<rparr> in
      if fadt a3 = 0 then (False, acpi_cleanup a3, [])
      else if \<not> checkSdt m (fadt a3) then (False, acpi_cleanup a3, [])
      else
      let a4 = a3\<lparr>centuryReg := fadt_century m (fadt a3)\<rparr>; f = fadt a4 in
      (True, a4,
       if fadt_smiCommandPort m f \<noteq> 0 \<and> fadt_acpiEnable m f \<noteq> 0 \<and> fadt_acpiDisable m f \<noteq> 0
       then [(fadt_smiCommandPort m f, fadt_acpiEnable m f)] else []))"

definition acpi_isSupported :: "acpi \<Rightarrow> bool" where
  "acpi_isSupported a \<longleftrightarrow> rsdp a \<noteq> 0 \<and> rsdt a \<noteq> 0 \<and> fadt a \<noteq> 0"

definition centuryRegister :: "acpi \<Rightarrow> u8" where "centuryRegister a = centuryReg a"

definition acpi_disable :: "acpi \<Rightarrow> acpi" where
  "acpi_disable a = a\<lparr>rsdp := 0, rsdt := 0, fadt := 0\<rparr>"

definition hasCentury :: "acpi \<Rightarrow> bool" where
  "hasCentury a \<longleftrightarrow> acpi_isSupported a \<and> centuryRegister a \<noteq> 0"

section \<open>Identification\<close>

lemma mask_byte: "ucast (w AND 255 :: u32) = (ucast w :: u8)"
  by (rule bit_word_eqI) (simp add: bit_ucast_iff bit_and_iff bit_FF)

lemma reg_bytes_eq: "reg_bytes r = bytes32 r"
  by (simp add: reg_bytes_def bytes32_def mask_byte)

lemma length_bytes32 [simp]: "length (bytes32 w) = 4"
  by (simp add: bytes32_def)

lemma cpuidSupported_always: "586 \<le> isa \<Longrightarrow> cpuidSupported isa ecx"
proof -
  have "(ecx XOR 200000) XOR ecx = (200000 :: u32)"
    by (metis xor.assoc xor.commute xor_self_eq xor.right_neutral)
  then show "586 \<le> isa \<Longrightarrow> cpuidSupported isa ecx" by (simp add: cpuidSupported_def)
qed

text \<open>On a processor with all functions, \<open>readCpuInfo\<close> is the 76 bytes of \<open>CpuInfoRaw\<close>: the registers of \<open>cpuid\<close> in little-endian order.\<close>

lemma cpu_info_layout:
  assumes isa: "586 \<le> isa" and leaf0: "cpuid 0 = (fm, b0, c0, d0)" and leaf1: "cpuid 1 = (a1, b1, c1, d1)"
    and ext0: "fst (cpuid 0x80000000) \<ge> 0x80000004" and ext1: "cpuid 0x80000001 = (a2, b2, c2, d2)" and fm: "1 \<le> fm"
  shows "readCpuInfo (snd (cpu_init isa ecx cpuid cpu_zero)) =
      bytes32 b0 @ bytes32 d0 @ bytes32 c0 @ bytes32 d1 @ bytes32 d2 @ bytes32 c2 @
      map (\<lambda>k. ucast (drop_bit k a1 AND 15)) [0, 4, 8, 12] @ take 48 (cpuBrandString cpuid)"
    "length (readCpuInfo (snd (cpu_init isa ecx cpuid cpu_zero))) = 76"
proof -
  have e: "0x80000001 \<le> fst (cpuid 0x80000000)" "0x80000002 \<le> fst (cpuid 0x80000000)" "0x80000003 \<le> fst (cpuid 0x80000000)"
    using ext0 by (simp_all add: word_le_nat_alt)
  have s: "cpuidSupported isa ecx" using isa by (rule cpuidSupported_always)
  show l: "readCpuInfo (snd (cpu_init isa ecx cpuid cpu_zero)) =
      bytes32 b0 @ bytes32 d0 @ bytes32 c0 @ bytes32 d1 @ bytes32 d2 @ bytes32 c2 @
      map (\<lambda>k. ucast (drop_bit k a1 AND 15)) [0, 4, 8, 12] @ take 48 (cpuBrandString cpuid)"
    using s e ext0 fm leaf0 leaf1 ext1
    by (simp add: cpu_init_def Let_def cpuVendorId_def readCpuInfo_def reg_bytes_eq)
  have "length (cpuBrandString cpuid) = 49"
    by (simp add: cpuBrandString_def Let_def reg_bytes_eq case_prod_unfold)
  then show "length (readCpuInfo (snd (cpu_init isa ecx cpuid cpu_zero))) = 76" unfolding l by simp
qed

lemma find_hit: "find P xs = Some x \<Longrightarrow> P x"
  by (auto simp: find_Some_iff)

lemma detectRsdp_hit:
  assumes "detectRsdp m \<noteq> 0" shows "read_bytes m (detectRsdp m) 8 = byte_text ''RSD PTR ''"
proof -
  let ?hit = "\<lambda>p. read_bytes m p 8 = byte_text ''RSD PTR ''"
  have d: "detectRsdp m = (case find ?hit [BDA_BASE_ADDR..<BDA_BASE_ADDR + 1024] of Some p \<Rightarrow> p
      | None \<Rightarrow> (case find ?hit [0xE0000..<0xFFFFF] of Some p \<Rightarrow> p | None \<Rightarrow> 0))"
    unfolding detectRsdp_def Let_def by (rule refl)
  show ?thesis
    using assms unfolding d by (auto simp only: not_None_eq split: option.splits dest: find_hit [where P = ?hit])
qed

lemma detectFadt_hit: "detectFadt m r \<noteq> 0 \<Longrightarrow> read_bytes m (detectFadt m r) 4 = byte_text ''FACP''"
  unfolding detectFadt_def Let_def by (auto split: option.splits dest: find_hit)

lemma acpi_init_supported:
  assumes "acpi_init m a = (True, a', out)"
  shows "rsdp a' \<noteq> 0" "fadt a' \<noteq> 0" "byte_sum m (rsdp a') SIZEOF_RSD = 0" "byte_sum m (fadt a') (unat (sdt_length m (fadt a'))) = 0"
    "read_bytes m (rsdp a') 8 = byte_text ''RSD PTR ''" "read_bytes m (fadt a') 4 = byte_text ''FACP''"
    "centuryReg a' = fadt_century m (fadt a')"
  using assms detectRsdp_hit [of m] detectFadt_hit [of m]
  by (auto simp: acpi_init_def Let_def checkRsdp_def checkSdt_def split: if_splits)

text \<open>After \<open>disable\<close> the century register is never used.\<close>

lemma century_lost: "\<not> hasCentury (acpi_disable a)"
  by (simp add: hasCentury_def acpi_isSupported_def acpi_disable_def)

section \<open>Reading the clock\<close>

definition rtc_stable :: "rtc \<Rightarrow> nat \<Rightarrow> (u8 \<Rightarrow> u8) \<Rightarrow> bool" where
  "rtc_stable rtc t0 regs \<longleftrightarrow> (\<forall>t\<ge>t0. rtc t = regs) \<and> regs CMOS_REG_STAT_A AND 0x80 = 0"

abbreviation comp_regs :: "u8 list" where
  "comp_regs \<equiv> [CMOS_REG_SECONDS, CMOS_REG_MINUTES, CMOS_REG_HOURS, CMOS_REG_DAY, CMOS_REG_MONTH, CMOS_REG_YEAR, CMOS_REG_CENTURY]"

lemma stableD: "rtc_stable rtc t0 regs \<Longrightarrow> t0 \<le> t \<Longrightarrow> rtc t = regs" "rtc_stable rtc t0 regs \<Longrightarrow> regs CMOS_REG_STAT_A AND 0x80 = 0"
  by (simp_all add: rtc_stable_def)

lemma wait_update_total: "rtc_stable rtc t0 regs \<Longrightarrow> \<exists>t1>t. wait_update rtc t = Some t1"
proof (induction "t0 - t" arbitrary: t rule: less_induct)
  case less
  show ?case
  proof (cases "rtc t CMOS_REG_STAT_A AND 0x80 = 0")
    case True
    then show ?thesis by (subst wait_update.simps) (simp add: isUpdating_def getRtcReg_def)
  next
    case False
    then have "t < t0" using stableD(1) [OF less.prems, of t] stableD(2) [OF less.prems] by fastforce
    then obtain t1 where "t1 > Suc t" "wait_update rtc (Suc t) = Some t1" using less.hyps [of "Suc t"] less.prems diff_less_mono2 [of t "Suc t" t0] by auto
    then show ?thesis using False
      by (subst wait_update.simps) (auto simp: isUpdating_def getRtcReg_def intro: Suc_lessD)
  qed
qed

lemma read_regs_time: "snd (read_regs rtc rs t) = t + length rs"
  by (induction rs arbitrary: t) (simp_all add: getRtcReg_def Let_def case_prod_unfold)

lemma read_regs_stable: "rtc_stable rtc t0 regs \<Longrightarrow> t0 \<le> t \<Longrightarrow> fst (read_regs rtc rs t) = map regs rs"
  by (induction rs arbitrary: t) (simp_all add: getRtcReg_def Let_def case_prod_unfold stableD)

lemma getRtcComps_total:
  assumes "rtc_stable rtc t0 regs"
  obtains c t1 where "getRtcComps rtc t = Some (c, t1)" "t1 > t" "t0 \<le> t \<Longrightarrow> c = map regs comp_regs"
proof -
  obtain t1 where t1: "t1 > t" "wait_update rtc t = Some t1" using wait_update_total [OF assms] by blast
  have g: "getRtcComps rtc t = Some (read_regs rtc comp_regs t1)" using t1 by (simp add: getRtcComps_def)
  obtain c t2 where r: "read_regs rtc comp_regs t1 = (c, t2)" by (cases "read_regs rtc comp_regs t1") blast
  have "t2 > t" using read_regs_time [of rtc comp_regs t1] r t1 by simp
  moreover have "c = map regs comp_regs" if "t0 \<le> t" using read_regs_stable [OF assms, of t1 comp_regs] r t1 that by simp
  ultimately show ?thesis using that g r by metis
qed

lemma read_twice_total:
  assumes "rtc_stable rtc t0 regs"
  shows "\<exists>c t1. read_twice rtc l t = Some (c, t1) \<and> t1 > t \<and> (t0 \<le> t \<longrightarrow> c = map regs comp_regs)"
proof (induction "t0 - t" arbitrary: t l rule: less_induct)
  case less
  obtain c t1 where g: "getRtcComps rtc t = Some (c, t1)" "t1 > t" "t0 \<le> t \<Longrightarrow> c = map regs comp_regs"
    using getRtcComps_total [OF assms] by blast
  obtain c2 t2 where g2: "getRtcComps rtc t1 = Some (c2, t2)" "t2 > t1" "t0 \<le> t1 \<Longrightarrow> c2 = map regs comp_regs"
    using getRtcComps_total [OF assms] by blast
  consider "c = l" | "c \<noteq> l" "t0 \<le> t" | "c \<noteq> l" "t < t0" by linarith
  then show ?case
  proof cases
    case 1
    then show ?thesis using g by (subst read_twice.simps) simp
  next
    case 2
    then have "read_twice rtc l t = read_twice rtc c t1" using g by (subst read_twice.simps) simp
    also have "\<dots> = Some (c, t2)" using g g2 2 by (subst read_twice.simps) simp
    finally show ?thesis using g g2 2 by auto
  next
    case 3
    then have "read_twice rtc l t = read_twice rtc c t1" using g by (subst read_twice.simps) simp
    then show ?thesis using less.hyps [of t1 c] 3 g(2) by fastforce
  qed
qed

lemma readRtcValues_total:
  assumes "rtc_stable rtc t0 regs"
  shows "\<exists>c t1. readRtcValues hc rtc t = Some (c, t1) \<and> (t0 \<le> t \<longrightarrow> c = decode_comps hc (regs CMOS_REG_STAT_B) (map regs comp_regs))"
proof -
  obtain c t1 where g: "getRtcComps rtc t = Some (c, t1)" "t1 > t" using getRtcComps_total [OF assms] by blast
  obtain c2 t2 where r: "read_twice rtc c t1 = Some (c2, t2)" "t2 > t1" "t0 \<le> t1 \<longrightarrow> c2 = map regs comp_regs"
    using read_twice_total [OF assms, of c t1] by blast
  have "readRtcValues hc rtc t = Some (decode_comps hc (rtc t2 CMOS_REG_STAT_B) c2, Suc t2)"
    using g r by (simp add: readRtcValues_def getRtcReg_def)
  then show ?thesis using g r stableD(1) [OF assms, of t2] by auto
qed

text \<open>A two-digit decimal number in BCD.\<close>

definition to_bcd :: "nat \<Rightarrow> u8" where
  "to_bcd n = word_of_nat (16 * (n div 10) + n mod 10)"

lemma from_to_bcd: "n < 100 \<Longrightarrow> from_bcd (to_bcd n) = word_of_nat n"
proof -
  assume n: "n < 100"
  have d: "n div 10 < 10" "n mod 10 < 10" using n by auto
  have u: "unat (to_bcd n) = 16 * (n div 10) + n mod 10" using d by (simp only: to_bcd_def unat_of_nat) simp
  have m: "(0x0F :: u8) = mask 4" by (simp add: mask_eq_exp_minus_1)
  have lo: "unat (to_bcd n AND 0x0F) = n mod 10" unfolding m take_bit_eq_mask [symmetric] unsigned_take_bit_eq u using d by (simp add: take_bit_eq_mod)
  have hi: "unat (to_bcd n div 16) = n div 10" using u d by (simp add: unat_div)
  have "unat (from_bcd (to_bcd n)) = (n mod 10 + n div 10 * 10) mod 256"
    by (simp add: from_bcd_def unat_word_ariths lo u d mod_simps)
  also have "\<dots> = n" using n by simp
  finally show ?thesis using n by (simp add: word_unat_eq_iff unat_of_nat)
qed

text \<open>A clock in BCD and 24-hour mode that shows a date and time.\<close>

definition shows_time :: "(u8 \<Rightarrow> u8) \<Rightarrow> nat \<Rightarrow> nat \<Rightarrow> nat \<Rightarrow> nat \<Rightarrow> nat \<Rightarrow> nat \<Rightarrow> nat \<Rightarrow> bool" where
  "shows_time regs ce y mo d h mi sec \<longleftrightarrow>
     regs CMOS_REG_STAT_B AND 0x4 = 0 \<and> regs CMOS_REG_STAT_B AND 0x02 \<noteq> 0 \<and>
     ce < 100 \<and> y < 100 \<and> mo < 100 \<and> d < 100 \<and> h < 100 \<and> mi < 100 \<and> sec < 100 \<and>
     map regs comp_regs = map to_bcd [sec, mi, h, d, mo, y, ce]"

lemma ucast_small: "n < 100 \<Longrightarrow> ucast (word_of_nat n :: u8) = (word_of_nat n :: u32)"
  by (simp add: word_unat_eq_iff unsigned_ucast_eq unat_of_nat take_bit_eq_mod unsigned_take_bit_eq)

lemma decode_shown:
  assumes "shows_time regs ce y mo d h mi sec"
  shows "decode_comps hc (regs CMOS_REG_STAT_B) (map regs comp_regs) =
    \<lparr>ct_seconds = word_of_nat sec, ct_minutes = word_of_nat mi, ct_hours = word_of_nat h, ct_day = word_of_nat d,
     ct_month = word_of_nat mo, ct_year = word_of_nat (y + (if hc then ce * 100 else 2000))\<rparr>"
  using assms unfolding shows_time_def decode_comps_def Let_def
  by (simp add: from_to_bcd ucast_small THIS_CENTURY_def)

text \<open>In BCD and 12-hour mode the afternoon bit is converted as a digit: the hours after noon read as 81 to 92.\<close>

lemma clock_pm_lost:
  assumes "1 \<le> h" "h \<le> 12" "regB AND 0x4 = 0"
  shows "ct_hours (decode_comps hc regB [sec, mi, 0x80 OR to_bcd h, d, mo, y, ce]) = word_of_nat (80 + h)"
proof -
  have "h \<in> {1..12}" using assms by simp
  then have "h = 1 \<or> h = 2 \<or> h = 3 \<or> h = 4 \<or> h = 5 \<or> h = 6 \<or> h = 7 \<or> h = 8 \<or> h = 9 \<or> h = 10 \<or> h = 11 \<or> h = 12" by (simp add: atLeastAtMost_iff) presburger
  then have f: "from_bcd (0x80 OR to_bcd h) = word_of_nat (80 + h)" "word_of_nat (80 + h) AND (0x80 :: u8) = 0"
    by (auto simp: from_bcd_def to_bcd_def)
  then show ?thesis using assms by (simp add: decode_comps_def Let_def)
qed

text \<open>The Unix time of the epoch is a day late, because the day of the month counts from one.\<close>

lemma unixTime_epoch:
  "unixTime_of \<lparr>ct_seconds = 0, ct_minutes = 0, ct_hours = 0, ct_day = 1, ct_month = 1, ct_year = 1970\<rparr> = Some 86400"
  by (simp add: unixTime_of_def)


definition demo_rtc :: "nat \<Rightarrow> u8 \<Rightarrow> u8" where
  "demo_rtc t r = (if t < 3 then 0x80
     else if r = 0x00 then 0x58 else if r = 0x02 then 0x59 else if r = 0x04 then 0x23 else if r = 0x07 then 0x31
     else if r = 0x08 then 0x12 else if r = 0x09 then 0x25 else if r = 0x0B then 0x02 else 0)"

lemma demo_rtc_stable: "rtc_stable demo_rtc 3 (demo_rtc 3)"
  by (auto simp: rtc_stable_def demo_rtc_def CMOS_REG_STAT_A_def)

lemma demo_rtc_shows: "shows_time (demo_rtc 3) 0 25 12 31 23 59 58"
  by (simp add: shows_time_def demo_rtc_def to_bcd_def CMOS_REG_STAT_B_def CMOS_REG_SECONDS_def CMOS_REG_MINUTES_def CMOS_REG_HOURS_def
    CMOS_REG_DAY_def CMOS_REG_MONTH_def CMOS_REG_YEAR_def CMOS_REG_CENTURY_def)


end
