(* ===== verification/Syscall.thy ===== *)
theory Syscall
  imports Readline Lifecycle Devices
begin

unbundle bit_operations_syntax

text \<open>
  System calls (kernel/kernel/Syscall.cc): the dispatcher and every handler, over the scheduler, the keyboard, the terminal and the
  devices; the statistics ring (kernel/kernel/Stats.cc, RingBuffer.h); the page-fault handler (ExceptionHandlers.cc). User memory is
  reached through the page tables of the current task.

  Shown: the exact range of the buffer check and what it does not check, the effect of copies to user memory, reading from the
  keyboard, the error results, the round trip of a signal, and that no system call breaks the invariant of the task table.
\<close>


section \<open>Statistics\<close>

text \<open>\<open>RingBuffer<T, N>\<close>; \<open>N\<close> is the length of the buffer.\<close>

record 't ringbuf =
  rb_buffer :: "'t list"
  rb_head :: nat
  rb_tail :: nat
  rb_count :: nat

definition rb_push :: "'t \<Rightarrow> 't ringbuf \<Rightarrow> 't ringbuf" where
  "rb_push item b =
     (let N = length (rb_buffer b);
          b1 = b\<lparr>rb_buffer := (rb_buffer b)[rb_head b := item], rb_head := (rb_head b + 1) mod N\<rparr>
      in if rb_count b < N then b1\<lparr>rb_count := rb_count b + 1\<rparr> else b1\<lparr>rb_tail := (rb_tail b + 1) mod N\<rparr>)"

definition rb_latest :: "'t ringbuf \<Rightarrow> 't option" where
  "rb_latest b =
     (if rb_count b = 0 then None
      else Some (rb_buffer b ! (if rb_head b = 0 then length (rb_buffer b) - 1 else rb_head b - 1)))"

record StatsSnapshot =
  st_uptimeMs :: u64
  st_contextSwitches :: u32
  st_idleTicks :: u32
  st_taskCount :: u32
  st_aliveTasks :: u32
  st_runningReadyTasks :: u32
  st_blockedTasks :: u32
  st_deadTasks :: u32
  st_totalExited :: u32
  st_freeFrames :: u32
  st_totalFrames :: u32
  st_pmmAllocs :: u32
  st_pmmFrees :: u32
  st_highWaterFrames :: u32
  st_heapFreeBytes :: u32
  st_heapLargestBlock :: u32
  st_heapTotalBytes :: u32
  st_pageFaults :: u32
  st_cowFaults :: u32
  st_userPageFaults :: u32

definition take_snapshot :: "'a sched_scheme \<Rightarrow> StatsSnapshot option" where
  "take_snapshot s =
     do { fm \<leftarrow> freeMem s; lb \<leftarrow> largestFreeBlock s;
          Some \<lparr>st_uptimeMs = uptimeMs s, st_contextSwitches = word_of_int (totalContextSwitches s),
            st_idleTicks = word_of_int (idleTicks s), st_taskCount = word_of_int (taskCount s),
            st_aliveTasks = word_of_nat (aliveTaskCount s), st_runningReadyTasks = word_of_nat (runningReadyCount s),
            st_blockedTasks = word_of_nat (blockedTaskCount s), st_deadTasks = word_of_nat (deadTaskCount s),
            st_totalExited = word_of_int (totalExited s), st_freeFrames = freeFrameCount s,
            st_totalFrames = maxPhysAddr s div word_of_nat PAGE_SIZE, st_pmmAllocs = allocCount s, st_pmmFrees = totalFrees s,
            st_highWaterFrames = highWaterFrames s, st_heapFreeBytes = fm, st_heapLargestBlock = lb,
            st_heapTotalBytes = word_of_nat (totalMem s), st_pageFaults = pageFaults s, st_cowFaults = cowFaults s,
            st_userPageFaults = userPageFaults s\<rparr> }"

text \<open>The bytes of a snapshot, little endian, with the reserved word at the end.\<close>

definition snapshot_bytes :: "StatsSnapshot \<Rightarrow> u8 list" where
  "snapshot_bytes n =
     concat (map bytes32 [ucast (st_uptimeMs n), ucast (drop_bit 32 (st_uptimeMs n)), st_contextSwitches n, st_idleTicks n, st_taskCount n,
       st_aliveTasks n, st_runningReadyTasks n, st_blockedTasks n, st_deadTasks n, st_totalExited n, st_freeFrames n, st_totalFrames n,
       st_pmmAllocs n, st_pmmFrees n, st_highWaterFrames n, st_heapFreeBytes n, st_heapLargestBlock n, st_heapTotalBytes n,
       st_pageFaults n, st_cowFaults n, st_userPageFaults n, 0])"

section \<open>State and outcomes\<close>

record sys = tty +
  savedVgaBuf :: "u16 list"
  savedCursorRow :: u8
  savedCursorCol :: u8
  serialOut :: "u8 list"
  histories :: "nat \<Rightarrow> u8 list list"
  statsRing :: "StatsSnapshot ringbuf"
  cpuInfo :: cpu
  acpiInfo :: acpi
  rtcTime :: nat

text \<open>A system call returns a value, leaves the caller waiting (it goes on when it is woken; \<open>Sys_Wait_Ret\<close> then returns the
  given value), switches to another task for good, or
  stops the machine.\<close>

datatype sys_outcome = Sys_Ret u32 | Sys_Wait | Sys_Wait_Ret u32 | Sys_Switched u32 | Sys_Off

abbreviation err :: u32 where "err \<equiv> - 1"

definition lbind :: "('r option \<times> 's) kres \<Rightarrow> ('r \<Rightarrow> 's \<Rightarrow> (sys_outcome \<times> 's) kres) \<Rightarrow> (sys_outcome \<times> 's) kres" where
  "lbind m f = kbind m (\<lambda>(r, s). case r of None \<Rightarrow> kret (Sys_Wait, s) | Some x \<Rightarrow> f x s)"

section \<open>User memory\<close>

text \<open>The kernel reaches a user buffer through the page tables of the current task. CR0.WP is never set, so a supervisor write does
  not look at the writable bit. A page that is not present is a page fault with ring 0 in CS, which \<open>excPf\<close> ends in a panic.\<close>

definition user_addr :: "u32 \<Rightarrow> 'a sched_scheme \<Rightarrow> nat option" where
  "user_addr v s = map_option (\<lambda>pte. frame_of pte + unat v mod PAGE_SIZE) (translate s (cr3 s) (unat v))"

definition user_load :: "u32 \<Rightarrow> 'a sched_scheme \<Rightarrow> u8 kres" where
  "user_load v s = (case user_addr v s of None \<Rightarrow> kpanic ''page fault'' | Some a \<Rightarrow> kret (get_byte (mem s) a))"

definition user_store :: "u32 \<Rightarrow> u8 \<Rightarrow> 'a sched_scheme \<Rightarrow> 'a sched_scheme kres" where
  "user_store v b s =
     (case user_addr v s of None \<Rightarrow> kpanic ''page fault'' | Some a \<Rightarrow> kret (s\<lparr>mem := set_byte a b (mem s)\<rparr>))"

fun user_store_all :: "u32 \<Rightarrow> u8 list \<Rightarrow> 'a sched_scheme \<Rightarrow> 'a sched_scheme kres" where
  "user_store_all v [] s = kret s"
| "user_store_all v (b # bs) s = kbind (user_store v b s) (user_store_all (v + 1) bs)"

definition isValidUserBuf :: "u32 \<Rightarrow> int \<Rightarrow> bool" where
  "isValidUserBuf addr count =
     (if addr = 0 then False
      else if count \<le> 0 then False
      else if addr \<ge> KERNEL_VIRTUAL_BASE then False
      else let e = addr + word_of_int count
           in if e > KERNEL_VIRTUAL_BASE then False else if e < addr then False else True)"

text \<open>\<open>static_cast<int>\<close> of a 32-bit value.\<close>

abbreviation to_int :: "u32 \<Rightarrow> int" where "to_int \<equiv> sint"

section \<open>Reading and writing\<close>

fun read_loop :: "nat \<Rightarrow> u32 \<Rightarrow> u32 \<Rightarrow> 'a kbd_scheme \<Rightarrow> (u32 \<times> 'a kbd_scheme) kres" where
  "read_loop 0 buf n s = kret (n, s)"
| "read_loop (Suc k) buf n s =
     (case getChar s of
        None \<Rightarrow> kret (n, s)
      | Some (c, s1) \<Rightarrow> kbind (user_store (buf + n) c s1) (read_loop k buf (n + 1)))"

definition handleRead :: "u32 \<Rightarrow> int \<Rightarrow> 'a kbd_scheme \<Rightarrow> (sys_outcome \<times> 'a kbd_scheme) kres" where
  "handleRead addr count s =
     (if \<not> isValidUserBuf addr count then kret (Sys_Ret err, s)
      else kbind (waitForChar s) (\<lambda>(r, s1).
        if r = Suspended then kret (Sys_Wait, s1)
        else kbind (read_loop (nat count) addr 0 s1) (\<lambda>(n, s2). kret (Sys_Ret n, s2))))"

fun serial_loop :: "nat \<Rightarrow> u32 \<Rightarrow> 'a sys_scheme \<Rightarrow> 'a sys_scheme kres" where
  "serial_loop 0 a s = kret s"
| "serial_loop (Suc k) a s = kbind (user_load a s) (\<lambda>b. serial_loop k (a + 1) (s\<lparr>serialOut := serialOut s @ [b]\<rparr>))"

definition handleWriteSerial :: "u32 \<Rightarrow> u32 \<Rightarrow> 'a sys_scheme \<Rightarrow> (sys_outcome \<times> 'a sys_scheme) kres" where
  "handleWriteSerial addr len s =
     (if \<not> isValidUserBuf addr (to_int len) then kret (Sys_Ret 0, s)
      else kbind (serial_loop (unat len) addr s) (\<lambda>s1. kret (Sys_Ret len, s1)))"

fun write_loop :: "nat \<Rightarrow> u32 \<Rightarrow> 'a tty_scheme \<Rightarrow> (unit option \<times> 'a tty_scheme) kres" where
  "write_loop 0 a s = kret (Some (), s)"
| "write_loop (Suc k) a s =
     kbind (user_load a s) (\<lambda>b. kbind (putc b s) (\<lambda>(r, s1).
       case r of None \<Rightarrow> kret (None, s1) | Some _ \<Rightarrow> write_loop k (a + 1) s1))"

definition handleWriteStr :: "u32 \<Rightarrow> u32 \<Rightarrow> 'a tty_scheme \<Rightarrow> (sys_outcome \<times> 'a tty_scheme) kres" where
  "handleWriteStr addr len s =
     (if \<not> isValidUserBuf addr (to_int len) then kret (Sys_Ret 0, s)
      else lbind (write_loop (unat len) addr s) (\<lambda>_ s1. kret (Sys_Ret len, s1)))"

section \<open>Line input\<close>

definition HISTORY_MAX :: int where "HISTORY_MAX = 100"

text \<open>\<open>handleReadLine\<close> up to the loop, and from its return on. The loop between them is \<^const>\<open>readLine_step\<close>, interleaved with
  interrupts. \<open>newHistory\<close> stands for the array \<open>new\<close>: it returns the address of the array of empty strings.\<close>

definition readLine_begin ::
  "('a sys_scheme \<Rightarrow> nat \<times> 'a sys_scheme) \<Rightarrow> u32 \<Rightarrow> u32 \<Rightarrow> 'a sys_scheme \<Rightarrow> HistoryCtx option \<times> 'a sys_scheme" where
  "readLine_begin newHistory bufAddr maxlen s =
     (if \<not> isValidUserBuf bufAddr (to_int maxlen) then (None, s)
      else if maxlen < 2 then (None, s)
      else
      let c = currentIdx s;
          s1 = (if historyBuf (task_at c s) = 0
                then let (p, s0) = newHistory s
                     in upd_task c (\<lambda>t. t\<lparr>historyBuf := p, historyCount := 0, historyHead := 0, historyPos := - 1\<rparr>) s0
                else s);
          t = task_at c s1
      in (Some \<lparr>hc_buf = histories s1 (historyBuf t), hc_size = HISTORY_MAX, hc_count = historyCount t, hc_head = historyHead t,
               hc_pos = historyPos t\<rparr>, s1))"

definition history_add :: "u8 list \<Rightarrow> 'a sys_scheme \<Rightarrow> 'a sys_scheme" where
  "history_add line s =
     (let c = currentIdx s; t = task_at c s; h = histories s (historyBuf t) in
      if line \<noteq> [] \<and> (historyCount t = 0 \<or> line \<noteq> h ! nat ((historyHead t - 1 + HISTORY_MAX) mod HISTORY_MAX)) then
        upd_task c (\<lambda>t. t\<lparr>historyHead := (historyHead t + 1) mod HISTORY_MAX,
                         historyCount := (if historyCount t < HISTORY_MAX then historyCount t + 1 else historyCount t)\<rparr>)
          (s\<lparr>histories := (histories s)(historyBuf t := h[nat (historyHead t) := line])\<rparr>)
      else s)"

definition readLine_end :: "u8 list \<Rightarrow> u32 \<Rightarrow> u32 \<Rightarrow> 'a sys_scheme \<Rightarrow> (sys_outcome \<times> 'a sys_scheme) kres" where
  "readLine_end line bufAddr maxlen s =
     (let copyLen = (if length line \<ge> unat maxlen then unat maxlen - 1 else length line)
      in kbind (user_store_all bufAddr (take copyLen line @ [0]) s) (\<lambda>s1.
           let s2 = history_add line s1
           in kret (Sys_Ret (word_of_nat copyLen), upd_task (currentIdx s2) (\<lambda>t. t\<lparr>historyPos := - 1\<rparr>) s2)))"

section \<open>Terminal and keyboard control\<close>

definition handlePoweroff :: "'a sys_scheme \<Rightarrow> (sys_outcome \<times> 'a sys_scheme) kres" where
  "handlePoweroff s = kret (Sys_Off, s)"

text \<open>The number of a \<open>KbdKey\<close>.\<close>

primrec kbdkey_num :: "KbdKey \<Rightarrow> u32" where
  "kbdkey_num Kbd_Unknown = 0"
| "kbdkey_num Kbd_Up = 1"
| "kbdkey_num Kbd_Down = 2"
| "kbdkey_num Kbd_Left = 3"
| "kbdkey_num Kbd_Right = 4"
| "kbdkey_num Kbd_PageUp = 5"
| "kbdkey_num Kbd_PageDown = 6"
| "kbdkey_num Kbd_Home = 7"
| "kbdkey_num Kbd_End = 8"
| "kbdkey_num Kbd_Char = 9"

definition ioctl_put :: "u32 \<Rightarrow> 'a tty_scheme \<Rightarrow> (sys_outcome \<times> 'a tty_scheme) kres" where
  "ioctl_put arg s =
     (let row = unat (drop_bit 24 arg AND 0xFF); col = unat (drop_bit 16 arg AND 0xFF);
          ch = ucast (drop_bit 8 arg AND 0xFF); color = ucast (arg AND 0xFF)
      in if row < VGA_HEIGHT \<and> col < VGA_WIDTH
         then lbind (tty_locked (\<lambda>s. ((), s\<lparr>vgaRam := (vgaRam s)(row * VGA_WIDTH + col := vgaEntry ch color)\<rparr>)) s)
                (\<lambda>_ s1. kret (Sys_Ret 0, s1))
         else kret (Sys_Ret 0, s))"

definition save_screen :: "'a sys_scheme \<Rightarrow> (sys_outcome \<times> 'a sys_scheme) kres" where
  "save_screen s =
     lbind (getCursor s) (\<lambda>(r, c) s1.
     lbind (tty_locked (\<lambda>s. ((), s\<lparr>savedVgaBuf := map (vgaRam s) [0..<VGA_WIDTH * VGA_HEIGHT]\<rparr>))
             (s1\<lparr>savedCursorRow := r, savedCursorCol := c\<rparr>)) (\<lambda>_ s2. kret (Sys_Ret 0, s2)))"

definition restore_screen :: "'a sys_scheme \<Rightarrow> (sys_outcome \<times> 'a sys_scheme) kres" where
  "restore_screen s =
     lbind (tty_locked (\<lambda>s. ((), s\<lparr>vgaRam := (\<lambda>i. if i < VGA_WIDTH * VGA_HEIGHT then savedVgaBuf s ! i else vgaRam s i)\<rparr>)) s) (\<lambda>_ s1.
     lbind (cursorSetPos (savedCursorRow s1) (savedCursorCol s1) s1) (\<lambda>_ s2. kret (Sys_Ret 0, s2)))"

text \<open>\<open>poll_key\<close>: the character is a signed \<open>char\<close>, so its sign is extended.\<close>

definition poll_key :: "'a kbd_scheme \<Rightarrow> (sys_outcome \<times> 'a kbd_scheme) kres" where
  "poll_key s =
     (let (ke, s1) = tryReadKey s
      in if ev_key ke = Kbd_Unknown then kret (Sys_Ret err, s1)
         else kret (Sys_Ret (push_bit 8 (kbdkey_num (ev_key ke)) OR scast (ev_ch ke)), s1))"

text \<open>The command is converted to an enumeration of 8 bits.\<close>

definition handleIoctl :: "u32 \<Rightarrow> u32 \<Rightarrow> 'a sys_scheme \<Rightarrow> (sys_outcome \<times> 'a sys_scheme) kres" where
  "handleIoctl cmd arg s =
     (let c = unat (ucast cmd :: u8) in
      if c = 1 then lbind (cls s) (\<lambda>_ s1. kret (Sys_Ret 0, s1))
      else if c = 2 then lbind (print_bytes (ascii ''Halting system.'' @ [10]) s) (\<lambda>_ s1. kret (Sys_Off, s1))
      else if c = 3 then kret (Sys_Off, s)
      else if c = 4 then ioctl_put arg s
      else if c = 5 then save_screen s
      else if c = 6 then restore_screen s
      else if c = 7 then kret (Sys_Ret 0, cursorDisable s)
      else if c = 8 then kret (Sys_Ret 0, cursorEnable s)
      else if c = 9 then poll_key s
      else if c = 10 then kret (Sys_Ret 0, pushChar (ucast arg) s)
      else kret (Sys_Ret err, s))"

section \<open>Tasks\<close>

definition handleTaskctlCount :: "'a sched_scheme \<Rightarrow> u32" where
  "handleTaskctlCount s =
     push_bit 24 (word_of_nat (aliveTaskCount s)) OR push_bit 16 (word_of_nat (runningReadyCount s))
     OR push_bit 8 (word_of_nat (blockedTaskCount s)) OR word_of_nat (deadTaskCount s)"

primrec state_num :: "TaskState \<Rightarrow> u8" where
  "state_num DEAD = 0"
| "state_num READY = 1"
| "state_num RUNNING = 2"
| "state_num BLOCKED = 3"

definition SIZEOF_TASKENTRY :: int where "SIZEOF_TASKENTRY = 24"
definition SIZEOF_TASKDETAIL :: int where "SIZEOF_TASKDETAIL = 48"

text \<open>The stores of a structure, field by field: offset and bytes.\<close>

fun store_fields :: "u32 \<Rightarrow> (u32 \<times> u8 list) list \<Rightarrow> 'a sched_scheme \<Rightarrow> 'a sched_scheme kres" where
  "store_fields a [] s = kret s"
| "store_fields a ((off, bs) # fs) s = kbind (user_store_all (a + off) bs s) (store_fields a fs)"

definition name_field :: "string \<Rightarrow> u8 list" where
  "name_field nm = take 15 (ascii nm) @ [0]"

definition entry_fields :: "int \<Rightarrow> 'a sched_scheme \<Rightarrow> (u32 \<times> u8 list) list" where
  "entry_fields i s =
     [(0, [word_of_int i]), (1, case taskName i s of Some nm \<Rightarrow> name_field nm | None \<Rightarrow> [0]),
      (17, [state_num (the (taskState i s))]), (18, [case taskPriority i s of Some p \<Rightarrow> p | None \<Rightarrow> 0]),
      (20, bytes32 (case taskRuntimeMs i s of Some r \<Rightarrow> ucast r | None \<Rightarrow> 0))]"

fun list_loop :: "int list \<Rightarrow> int \<Rightarrow> u32 \<Rightarrow> int \<Rightarrow> 'a sched_scheme \<Rightarrow> (int \<times> 'a sched_scheme) kres" where
  "list_loop [] maxEntries dst written s = kret (written, s)"
| "list_loop (i # is) maxEntries dst written s =
     (if \<not> written < maxEntries then kret (written, s)
      else if taskState i s = None \<or> taskState i s = Some DEAD then list_loop is maxEntries dst written s
      else kbind (store_fields (dst + word_of_int (24 * written)) (entry_fields i s) s) (list_loop is maxEntries dst (written + 1)))"

text \<open>The size is multiplied at the width of \<open>int\<close>.\<close>

definition handleTaskctlList :: "u32 \<Rightarrow> int \<Rightarrow> 'a sched_scheme \<Rightarrow> (sys_outcome \<times> 'a sched_scheme) kres" where
  "handleTaskctlList bufAddr maxEntries s =
     (if \<not> isValidUserBuf bufAddr (to_int (word_of_int (maxEntries * SIZEOF_TASKENTRY))) then kret (Sys_Ret err, s)
      else kbind (list_loop [0..taskCount s - 1] maxEntries bufAddr 0 s) (\<lambda>(n, s1). kret (Sys_Ret (word_of_int n), s1)))"

definition handleTaskctlKill :: "'a proc_scheme env \<Rightarrow> u32 \<Rightarrow> 'a proc_scheme \<Rightarrow> (sys_outcome \<times> 'a proc_scheme) kres" where
  "handleTaskctlKill ev taskId s =
     (let i = to_int taskId in
      if i < 0 \<or> i \<ge> taskCount s then kret (Sys_Ret err, s)
      else if i = currentIdx s then kret (Sys_Ret err, s)
      else if i = 0 then kret (Sys_Ret err, s)
      else if taskState i s = None \<or> taskState i s = Some DEAD then kret (Sys_Ret err, s)
      else kbind (killTask ev i s) (\<lambda>s1. kret (Sys_Ret 0, s1)))"

definition detail_fields :: "int \<Rightarrow> 'a sched_scheme \<Rightarrow> (u32 \<times> u8 list) list" where
  "detail_fields i s =
     (let wakeup = (case taskWakeupMs i s of Some w \<Rightarrow> w | None \<Rightarrow> 0) in
      [(0, [word_of_int i]), (1, [state_num (the (taskState i s))]), (2, [case taskFlags i s of Some f \<Rightarrow> f | None \<Rightarrow> 0]),
       (3, [case taskPriority i s of Some p \<Rightarrow> p | None \<Rightarrow> 0]), (4, name_field (case taskName i s of Some nm \<Rightarrow> nm | None \<Rightarrow> [])),
       (20, bytes32 (case taskEntryAddr i s of Some e \<Rightarrow> word_of_nat e | None \<Rightarrow> 0)),
       (24, bytes32 (case taskStackBuf i s of Some b \<Rightarrow> word_of_nat b | None \<Rightarrow> 0)),
       (28, bytes32 (case taskStackSize i s of Some n \<Rightarrow> word_of_nat n | None \<Rightarrow> 0)),
       (32, bytes32 (case taskRuntimeMs i s of Some r \<Rightarrow> ucast r | None \<Rightarrow> 0)),
       (36, bytes32 (case taskEsp i s of Some e \<Rightarrow> e | None \<Rightarrow> 0)),
       (40, bytes32 (if wakeup > 0 then ucast (wakeup - uptimeMs s) else 0)),
       (44, bytes32 (word_of_int (quantumRemaining s)))])"

definition handleTaskctlDetail :: "u32 \<Rightarrow> u32 \<Rightarrow> 'a sched_scheme \<Rightarrow> (sys_outcome \<times> 'a sched_scheme) kres" where
  "handleTaskctlDetail taskId bufAddr s =
     (let i = to_int taskId in
      if i < 0 \<or> i \<ge> taskCount s then kret (Sys_Ret err, s)
      else if taskState i s = None \<or> taskState i s = Some DEAD then kret (Sys_Ret err, s)
      else if \<not> isValidUserBuf bufAddr SIZEOF_TASKDETAIL then kret (Sys_Ret err, s)
      else kbind (store_fields bufAddr (detail_fields i s) s) (\<lambda>s1. kret (Sys_Ret 0, s1)))"

definition handleTaskctl :: "'a proc_scheme env \<Rightarrow> u32 \<Rightarrow> u32 \<Rightarrow> u32 \<Rightarrow> 'a proc_scheme \<Rightarrow> (sys_outcome \<times> 'a proc_scheme) kres" where
  "handleTaskctl ev cmd arg1 arg2 s =
     (let c = unat (ucast cmd :: u8) in
      if c = 1 then kret (Sys_Ret (handleTaskctlCount s), s)
      else if c = 2 then handleTaskctlList arg1 (to_int arg2) s
      else if c = 3 then handleTaskctlKill ev arg1 s
      else if c = 4 then handleTaskctlDetail arg1 arg2 s
      else kret (Sys_Ret err, s))"

section \<open>System information\<close>

definition handleSysinfoDatetime :: "rtc \<Rightarrow> u32 \<Rightarrow> 'a sys_scheme \<Rightarrow> (sys_outcome \<times> 'a sys_scheme) kres" where
  "handleSysinfoDatetime rtc bufAddr s =
     (if \<not> isValidUserBuf bufAddr 6 then kret (Sys_Ret err, s)
      else kbind (of_opt (readDateTime (hasCentury (acpiInfo s)) rtc (rtcTime s))) (\<lambda>(bs, t).
           kbind (user_store_all bufAddr bs (s\<lparr>rtcTime := t\<rparr>)) (\<lambda>s1. kret (Sys_Ret 0, s1))))"

definition handleSysinfoCpu :: "u32 \<Rightarrow> 'a sys_scheme \<Rightarrow> (sys_outcome \<times> 'a sys_scheme) kres" where
  "handleSysinfoCpu bufAddr s =
     (if \<not> isValidUserBuf bufAddr 76 then kret (Sys_Ret err, s)
      else kbind (user_store_all bufAddr (readCpuInfo (cpuInfo s)) s) (\<lambda>s1. kret (Sys_Ret 0, s1)))"

definition handleSysinfo :: "rtc \<Rightarrow> u32 \<Rightarrow> u32 \<Rightarrow> 'a sys_scheme \<Rightarrow> (sys_outcome \<times> 'a sys_scheme) kres" where
  "handleSysinfo rtc cmd arg s =
     (let c = unat (ucast cmd :: u8) in
      if c = 1 then kret (Sys_Ret (ucast (uptimeMs s)), s)
      else if c = 2 then kbind (of_opt (freeMem s)) (\<lambda>n. kret (Sys_Ret n, s))
      else if c = 3 then kbind (of_opt (largestFreeBlock s)) (\<lambda>n. kret (Sys_Ret n, s))
      else if c = 4 then handleSysinfoDatetime rtc arg s
      else if c = 5 then handleSysinfoCpu arg s
      else kret (Sys_Ret err, s))"

section \<open>Programs, signals and statistics\<close>

definition handleExecmod :: "int \<Rightarrow> 'a proc_scheme \<Rightarrow> (u32 \<times> 'a proc_scheme) kres" where
  "handleExecmod modIdx s =
     (if modIdx < 0 \<or> modIdx \<ge> int (moduleCount s) then kret (err, s)
      else kbind (addUserElfTask ''module'' (unat (modulePhysStart modIdx s)) (modulePhysSize modIdx s) s) (\<lambda>(r, s1).
        case r of None \<Rightarrow> kret (err, s1) | Some t \<Rightarrow> kret (word_of_int t, s1)))"

definition PANIC_MSG_MAX :: nat where "PANIC_MSG_MAX = 128"

fun panic_text :: "nat \<Rightarrow> u32 \<Rightarrow> 'a sched_scheme \<Rightarrow> string kres" where
  "panic_text 0 a s = kret []"
| "panic_text (Suc k) a s =
     kbind (user_load a s) (\<lambda>b. if b = 0 then kret [] else kbind (panic_text k (a + 1) s) (\<lambda>cs. kret (char_of (unat b) # cs)))"

definition handlePanic :: "u32 \<Rightarrow> 'a sched_scheme \<Rightarrow> (sys_outcome \<times> 'a sched_scheme) kres" where
  "handlePanic userMsgAddr s =
     (if userMsgAddr \<noteq> 0 \<and> userMsgAddr < KERNEL_VIRTUAL_BASE
      then kbind (panic_text (PANIC_MSG_MAX - 1) userMsgAddr s) kpanic
      else kpanic ''triggered from user task'')"

definition handleKill :: "'a proc_scheme env \<Rightarrow> u32 \<Rightarrow> u32 \<Rightarrow> 'a proc_scheme \<Rightarrow> (sys_outcome \<times> 'a proc_scheme) kres" where
  "handleKill ev p sig s =
     kbind (sendSignal ev (to_int p) (to_int sig) s) (\<lambda>(r, s1). case r of Returned _ \<Rightarrow> kret (Sys_Ret 0, s1) | Switched e \<Rightarrow> kret (Sys_Switched e, s1))"

definition handleSigaction :: "u32 \<Rightarrow> u32 \<Rightarrow> 'a sched_scheme \<Rightarrow> (sys_outcome \<times> 'a sched_scheme) kres" where
  "handleSigaction signal handlerAddr s =
     (let sig = to_int signal in
      if sig < 0 \<or> sig \<ge> int SIGNAL_MAX \<or> sig = 0 then kret (Sys_Ret err, s)
      else kret (Sys_Ret 0,
             upd_task (currentIdx s) (\<lambda>t. t\<lparr>signalHandlers := (signalHandlers t)[nat sig := unat handlerAddr]\<rparr>) s))"

definition handleStats :: "u32 \<Rightarrow> 'a sys_scheme \<Rightarrow> (sys_outcome \<times> 'a sys_scheme) kres" where
  "handleStats bufAddr s =
     (if \<not> isValidUserBuf bufAddr 88 then kret (Sys_Ret err, s)
      else kbind (of_opt (take_snapshot s)) (\<lambda>n.
        let s1 = s\<lparr>statsRing := rb_push n (statsRing s)\<rparr>
        in case rb_latest (statsRing s1) of
             None \<Rightarrow> kret (Sys_Ret err, s1)
           | Some snap \<Rightarrow> kbind (user_store_all bufAddr (snapshot_bytes snap) s1) (\<lambda>s2. kret (Sys_Ret 0, s2))))"

definition handleSigreturn :: "'a sched_scheme \<Rightarrow> (sys_outcome \<times> 'a sched_scheme) kres" where
  "handleSigreturn s =
     (let t = currentTask s in
      if userStackPageCount t = 0 then kret (Sys_Ret 0, s)
      else kret (Sys_Ret 0,
             set_frame (unat (esp t)) [(8, savedSignalEip t), (10, savedSignalEflags t), (11, savedSignalEsp t)] s))"

text \<open>\<open>waitpid\<close> with the store of the exit code.\<close>

definition sys_waitpid :: "u32 \<Rightarrow> 'a proc_scheme \<Rightarrow> (sys_outcome \<times> 'a proc_scheme) kres" where
  "sys_waitpid status s =
     kbind (waitpid (unat status) s) (\<lambda>(r, s1). case r of
       Wait_Error \<Rightarrow> kret (Sys_Ret err, s1)
     | Wait_Blocked \<Rightarrow> kret (Sys_Wait, s1)
     | Wait_Reaped p code \<Rightarrow>
         if status \<noteq> 0 then kbind (user_store_all status (bytes32 (word_of_int code)) s1) (\<lambda>s2. kret (Sys_Ret (ucast p), s2))
         else kret (Sys_Ret (ucast p), s1))"

section \<open>The dispatcher\<close>

definition sys_execmod :: "u32 \<Rightarrow> 'a proc_scheme \<Rightarrow> (sys_outcome \<times> 'a proc_scheme) kres" where
  "sys_execmod modIdx s =
     (let callerId = currentIdx s in
      kbind (handleExecmod (to_int modIdx) s) (\<lambda>(t, s1).
      if t = err then kret (Sys_Ret err, s1)
      else kbind (blockCurrentTaskAndYield (setUnblockOnExit (to_int t) callerId s1)) (\<lambda>s2. kret (Sys_Wait_Ret t, s2))))"

text \<open>\<open>newHistory\<close> is the array allocation of the first line input. A line input is started here; its loop is \<^const>\<open>readLine_step\<close> and
  its end \<^const>\<open>readLine_end\<close>.\<close>

definition syscallHandler ::
  "'a sys_scheme env \<Rightarrow> rtc \<Rightarrow> ('a sys_scheme \<Rightarrow> nat \<times> 'a sys_scheme) \<Rightarrow> u32 \<Rightarrow> u32 \<Rightarrow> u32 \<Rightarrow> u32 \<Rightarrow> 'a sys_scheme \<Rightarrow>
     (sys_outcome \<times> 'a sys_scheme) kres" where
  "syscallHandler ev rtc newHistory eax ebx ecx edx s =
     (if eax = 1 then lbind (putc (ucast ebx) s) (\<lambda>_ s1. kret (Sys_Ret 1, s1))
      else if eax = 2 then kbind (exitCurrentTask ev (to_int ebx) s) (\<lambda>(e, s1). kret (Sys_Switched e, s1))
      else if eax = 3 then handleRead ebx (to_int ecx) s
      else if eax = 12 then handleWriteSerial ebx ecx s
      else if eax = 13 then handlePoweroff s
      else if eax = 4 then handleWriteStr ebx ecx s
      else if eax = 5 then
        (case readLine_begin newHistory ebx ecx s of (None, s1) \<Rightarrow> kret (Sys_Ret err, s1) | (Some h, s1) \<Rightarrow> kret (Sys_Wait, s1))
      else if eax = 6 then handleIoctl ebx ecx s
      else if eax = 7 then handleTaskctl ev ebx ecx edx s
      else if eax = 8 then handleSysinfo rtc ebx ecx s
      else if eax = 9 then sys_execmod ebx s
      else if eax = 10 then handlePanic ebx s
      else if eax = 11 then kbind (suppressTaskbar s) (\<lambda>s1. kret (Sys_Ret 0, s1))
      else if eax = 14 then kbind (sched_fork s) (\<lambda>(r, s1). kret (Sys_Ret (case r of Some p \<Rightarrow> ucast p | None \<Rightarrow> err), s1))
      else if eax = 15 then
        kbind (sched_exec ev (to_int ebx) s) (\<lambda>(r, s1). case r of
          Returned ok \<Rightarrow> kret (Sys_Ret (if ok then 0 else err), s1) | Switched e \<Rightarrow> kret (Sys_Switched e, s1))
      else if eax = 16 then sys_waitpid ebx s
      else if eax = 17 then handleKill ev ebx ecx s
      else if eax = 18 then handleSigaction ebx ecx s
      else if eax = 19 then handleSigreturn s
      else if eax = 20 then handleStats ebx s
      else kret (Sys_Ret 0, s))"

text \<open>The entry \<open>asmInt80\<close>: the frame address is recorded, the result goes to the EAX slot, pending signals are delivered.\<close>

definition asmInt80 ::
  "'a sys_scheme env \<Rightarrow> rtc \<Rightarrow> ('a sys_scheme \<Rightarrow> nat \<times> 'a sys_scheme) \<Rightarrow> u32 \<Rightarrow> 'a sys_scheme \<Rightarrow> (sys_outcome \<times> 'a sys_scheme) kres" where
  "asmInt80 ev rtc newHistory frame s =
     (let f = unat frame; s1 = s\<lparr>syscallFrameEsp := f\<rparr> in
      kbind (syscallHandler ev rtc newHistory (mem s (f + 28)) (mem s (f + 16)) (mem s (f + 24)) (mem s (f + 20)) s1) (\<lambda>(r, s2).
      case r of
        Sys_Ret v \<Rightarrow>
          kbind (deliverPendingSignalsAtEsp ev frame (s2\<lparr>mem := (mem s2)(f + 28 := v)\<rparr>)) (\<lambda>(d, s3).
            case d of Returned _ \<Rightarrow> kret (Sys_Ret v, s3) | Switched e \<Rightarrow> kret (Sys_Switched e, s3))
      | _ \<Rightarrow> kret (r, s2)))"

section \<open>Page faults\<close>

text \<open>The handler gets the address of the interrupt frame and CR2. Its diagnostic output is not modelled.\<close>

definition excPf :: "'a proc_scheme env \<Rightarrow> u32 \<Rightarrow> u32 \<Rightarrow> 'a proc_scheme \<Rightarrow> (unit outcome \<times> 'a proc_scheme) kres" where
  "excPf ev frame faultAddr s =
     (let f = unat frame; s1 = s\<lparr>pageFaults := pageFaults s + 1\<rparr>;
          errCode = mem s1 (f + 32); cs = mem s1 (f + 40) in
      kbind (if errCode AND 3 = 3 then Some (handleCowFault (unat faultAddr) (pageDir (currentTask s1)) s1) else kret (False, s1)) (\<lambda>(cow, s2).
      if cow then kret (Returned (), s2)
      else if cs AND 3 \<noteq> 0 then
        (let (delivered, s3) = deliverSigsegvFromException f (s2\<lparr>userPageFaults := userPageFaults s2 + 1\<rparr>)
         in if delivered then kret (Returned (), s3)
            else kbind (killFaultingTask ev s3) (\<lambda>(e, s4). kret (Switched e, s4)))
      else kpanic ''page fault''))"

section \<open>The buffer check\<close>

lemma base_val: "unat KERNEL_VIRTUAL_BASE = 0xC0000000"
  by (simp add: KERNEL_VIRTUAL_BASE_def)

text \<open>C29. The buffer check accepts exactly the non-empty ranges that lie below the kernel base, without wrap-around, and do not start
  at the null address. It knows nothing of what is mapped there.\<close>

theorem isValidUserBuf_exact:
  assumes "count < 2 ^ 31"
  shows "isValidUserBuf addr count \<longleftrightarrow> addr \<noteq> 0 \<and> 0 < count \<and> unat addr + nat count \<le> 0xC0000000"
proof (cases "addr = 0 \<or> count \<le> 0 \<or> addr \<ge> KERNEL_VIRTUAL_BASE")
  case True
  then show ?thesis by (auto simp: isValidUserBuf_def word_le_nat_alt base_val)
next
  case False
  then have c: "0 < count" and a: "unat addr < 0xC0000000" by (auto simp: word_le_nat_alt base_val not_le)
  have w: "unat (word_of_int count :: u32) = nat count" using c assms by (simp add: unsigned_of_int take_bit_int_eq_self)
  have e: "unat (addr + word_of_int count) = (unat addr + nat count) mod 2 ^ 32" by (simp add: unat_word_ariths w)
  have "unat addr + nat count < 2 * 2 ^ 32" using a assms by simp
  then have m: "(unat addr + nat count) mod 2 ^ 32 = (if unat addr + nat count < 2 ^ 32 then unat addr + nat count else unat addr + nat count - 2 ^ 32)"
    by (simp add: mod_if)
  show ?thesis
    using False c a assms unfolding isValidUserBuf_def Let_def word_less_nat_alt e m base_val word_le_nat_alt
    by (auto split: if_splits)
qed

theorem isValidUserBuf_exact_witness:
  "isValidUserBuf 0x10000000 64 \<and> \<not> isValidUserBuf 0xBFFFFFFF 0x7FFFFFFF"
  using isValidUserBuf_exact [of 64 "0x10000000"] isValidUserBuf_exact [of "0x7FFFFFFF" "0xBFFFFFFF"] by simp

section \<open>Copies to user memory\<close>

text \<open>The words of memory that the translation of an address reads, and a buffer whose bytes are mapped at \<open>p 0\<close>, \<open>p 1\<close>, ... outside of
  them. Neither the user bit nor the write bit of the pages is mentioned.\<close>

definition walk_words :: "u32 \<Rightarrow> 'a sched_scheme \<Rightarrow> nat set" where
  "walk_words v s = {cr3 s + 4 * pde_index (unat v), frame_of (entry s (cr3 s) (pde_index (unat v))) + 4 * pte_index (unat v)}"

definition user_buf :: "u32 \<Rightarrow> nat \<Rightarrow> (nat \<Rightarrow> nat) \<Rightarrow> 'a sched_scheme \<Rightarrow> bool" where
  "user_buf v n p s \<longleftrightarrow>
     (\<forall>i<n. user_addr (v + word_of_nat i) s = Some (p i)) \<and> inj_on p {..<n} \<and>
     (\<forall>i<n. \<forall>j<n. p i - p i mod 4 \<notin> walk_words (v + word_of_nat j) s)"

lemma user_addr_store:
  assumes "a - a mod 4 \<notin> walk_words v s"
  shows "user_addr v (s\<lparr>mem := set_byte a b (mem s)\<rparr>) = user_addr v s"
    "walk_words v (s\<lparr>mem := set_byte a b (mem s)\<rparr>) = walk_words v s"
proof -
  let ?s = "s\<lparr>mem := set_byte a b (mem s)\<rparr>" and ?d = "pde_index (unat v)" and ?t = "pte_index (unat v)"
  have d: "entry ?s (cr3 s) ?d = entry s (cr3 s) ?d"
    using assms by (simp add: walk_words_def entry_def set_byte_def Let_def)
  have t: "entry ?s (frame_of (entry s (cr3 s) ?d)) ?t = entry s (frame_of (entry s (cr3 s) ?d)) ?t"
    using assms by (simp add: walk_words_def entry_def set_byte_def Let_def)
  have "translate ?s (cr3 s) (unat v) = translate s (cr3 s) (unat v)" unfolding translate_def Let_def d t by (rule refl)
  then show "user_addr v ?s = user_addr v s" by (simp add: user_addr_def)
  show "walk_words v ?s = walk_words v s" using d by (simp add: walk_words_def)
qed

lemma user_buf_Suc:
  assumes "user_buf v (Suc n) p s"
  shows "user_addr v s = Some (p 0)" "user_buf (v + 1) n (\<lambda>i. p (Suc i)) (s\<lparr>mem := set_byte (p 0) b (mem s)\<rparr>)"
    "\<forall>i<n. p (Suc i) \<noteq> p 0"
proof -
  have a: "user_addr (v + word_of_nat i) s = Some (p i)" if "i < Suc n" for i using assms that by (auto simp: user_buf_def)
  have w: "p i - p i mod 4 \<notin> walk_words (v + word_of_nat j) s" if "i < Suc n" "j < Suc n" for i j
    using assms that by (auto simp: user_buf_def)
  have inj: "inj_on p {..<Suc n}" using assms by (simp add: user_buf_def)
  show "user_addr v s = Some (p 0)" using a [of 0] by simp
  show "\<forall>i<n. p (Suc i) \<noteq> p 0" using inj by (auto simp: inj_on_def)
  have sh: "v + 1 + word_of_nat i = v + word_of_nat (Suc i)" for i by simp
  have "inj_on (\<lambda>i. p (Suc i)) {..<n}" using inj by (auto simp: inj_on_def)
  then show "user_buf (v + 1) n (\<lambda>i. p (Suc i)) (s\<lparr>mem := set_byte (p 0) b (mem s)\<rparr>)"
    unfolding user_buf_def sh using a w user_addr_store [OF w [of 0]] by (simp del: of_nat_Suc)
qed

text \<open>What a copy does: every byte arrives, all other bytes and all other state stay.\<close>

definition copied :: "(nat \<Rightarrow> nat) \<Rightarrow> u8 list \<Rightarrow> memory \<Rightarrow> memory \<Rightarrow> bool" where
  "copied p bs m m' \<longleftrightarrow>
     (\<forall>i<length bs. get_byte m' (p i) = bs ! i) \<and> (\<forall>a. a \<notin> p ` {..<length bs} \<longrightarrow> get_byte m' a = get_byte m a)"

lemma user_store_all_spec:
  assumes "user_buf v (length bs) p s"
  shows "\<exists>m'. user_store_all v bs s = kret (s\<lparr>mem := m'\<rparr>) \<and> copied p bs (mem s) m'"
  using assms
proof (induction bs arbitrary: v p s)
  case Nil
  then show ?case by (auto simp: copied_def intro!: exI [of _ "mem s"])
next
  case (Cons b bs)
  let ?s = "s\<lparr>mem := set_byte (p 0) b (mem s)\<rparr>"
  note u = user_buf_Suc(1) [OF Cons.prems [unfolded length_Cons]] user_buf_Suc(2) [OF Cons.prems [unfolded length_Cons], of b]
    user_buf_Suc(3) [OF Cons.prems [unfolded length_Cons]]
  obtain m' where m': "user_store_all (v + 1) bs ?s = kret (?s\<lparr>mem := m'\<rparr>)" "copied (\<lambda>i. p (Suc i)) bs (mem ?s) m'"
    using Cons.IH [OF u(2)] by blast
  have "user_store_all v (b # bs) s = kret (s\<lparr>mem := m'\<rparr>)" using u(1) m'(1) by (simp add: user_store_def)
  moreover have "copied p (b # bs) (mem s) m'"
    unfolding copied_def
  proof (intro conjI allI impI)
    fix i assume i: "i < length (b # bs)"
    have "p 0 \<notin> (\<lambda>i. p (Suc i)) ` {..<length bs}" using u(3) by auto
    then have "get_byte m' (p 0) = b" using m'(2) by (auto simp: copied_def mem_simps)
    then show "get_byte m' (p i) = (b # bs) ! i" using m'(2) i by (cases i) (auto simp: copied_def)
  next
    fix a assume a: "a \<notin> p ` {..<length (b # bs)}"
    then have "a \<notin> (\<lambda>i. p (Suc i)) ` {..<length bs}" "a \<noteq> p 0" by (auto simp: image_iff)
    then show "get_byte m' a = get_byte (mem s) a" using m'(2) by (auto simp: copied_def mem_simps)
  qed
  ultimately show ?case by blast
qed

section \<open>Reading from the keyboard\<close>

lemma user_addr_tail [simp]:
  "user_addr v (s\<lparr>kbdTail := x\<rparr>) = user_addr v s" "user_addr v (s\<lparr>available := y\<rparr>) = user_addr v s"
  "walk_words v (s\<lparr>kbdTail := x\<rparr>) = walk_words v s" "walk_words v (s\<lparr>available := y\<rparr>) = walk_words v s"
  by (simp_all add: user_addr_def translate_def entry_def walk_words_def Let_def cong: if_cong)

lemma user_buf_tail [simp]:
  "user_buf v n p (s\<lparr>kbdTail := x\<rparr>) = user_buf v n p s" "user_buf v n p (s\<lparr>available := y\<rparr>) = user_buf v n p s"
  by (simp_all add: user_buf_def)

lemma kbd_chars_other [simp]: "kbd_chars (s\<lparr>mem := m\<rparr>) = kbd_chars s" "kbd_chars (s\<lparr>available := y\<rparr>) = kbd_chars s"
  by (simp_all add: kbd_chars_def)

lemma mem_kbdTail: "s\<lparr>mem := m, kbdTail := x\<rparr> = s\<lparr>kbdTail := x, mem := m\<rparr>"
  by (cases s) simp

lemma read_loop_store:
  "read_loop k buf n s =
     kbind (user_store_all (buf + n) (take k (kbd_chars s)) (s\<lparr>kbdTail := kbdTail s + word_of_nat (min k (length (kbd_chars s)))\<rparr>))
       (\<lambda>s'. kret (n + word_of_nat (min k (length (kbd_chars s))), s'))"
proof (induction k arbitrary: n s)
  case 0
  show ?case by simp
next
  case (Suc k)
  show ?case
  proof (cases "kbd_chars s")
    case Nil
    then have "getChar s = None" by (simp add: getChar_def charAvail_queue)
    then show ?thesis using Nil by simp
  next
    case (Cons c cs)
    let ?s1 = "s\<lparr>kbdTail := kbdTail s + 1\<rparr>"
    have g: "getChar s = Some (c, ?s1)" "kbd_chars ?s1 = cs" using getChar_queue [OF Cons] by auto
    show ?thesis
    proof (cases "user_addr (buf + n) s")
      case None
      then show ?thesis using g Cons by (simp add: user_store_def)
    next
      case (Some a)
      let ?s2 = "?s1\<lparr>mem := set_byte a c (mem s)\<rparr>"
      have "read_loop (Suc k) buf n s = read_loop k buf (n + 1) ?s2" using g Some by (simp add: user_store_def)
      also have "\<dots> = kbind (user_store_all (buf + (n + 1)) (take k cs) (?s2\<lparr>kbdTail := kbdTail s + 1 + word_of_nat (min k (length cs))\<rparr>))
          (\<lambda>s'. kret (n + 1 + word_of_nat (min k (length cs)), s'))"
        unfolding Suc.IH [of "n + 1" ?s2] using g(2) by simp
      finally show ?thesis using Cons Some by (simp add: user_store_def ac_simps mem_kbdTail)
    qed
  qed
qed

lemma read_loop_tail: "kbd_chars (s\<lparr>kbdTail := kbdTail s + word_of_nat (min k (length (kbd_chars s)))\<rparr>) = drop k (kbd_chars s)"
proof (induction k arbitrary: s)
  case 0
  show ?case by simp
next
  case (Suc k)
  show ?case
  proof (cases "kbd_chars s")
    case Nil
    then show ?thesis by simp
  next
    case (Cons c cs)
    have "kbd_chars (s\<lparr>kbdTail := kbdTail s + 1\<rparr>) = cs" using getChar_queue [OF Cons] by auto
    then show ?thesis using Suc.IH [of "s\<lparr>kbdTail := kbdTail s + 1\<rparr>"] Cons by (simp add: algebra_simps)
  qed
qed

text \<open>C26. \<open>SYS_READ\<close> with a pending character: the oldest pending characters, as many as fit, arrive at the buffer in the order they were
  typed and leave the queue, no other byte of memory changes, and their number is returned. The call takes one permit of the
  semaphore, however many characters it returns.\<close>

theorem handleRead_correct:
  assumes valid: "isValidUserBuf addr count" and permit: "0 < sem_count (available s)"
    and buf: "user_buf addr (min (nat count) (length (kbd_chars s))) p s"
  shows "\<exists>s'. handleRead addr count s = kret (Sys_Ret (word_of_nat (min (nat count) (length (kbd_chars s)))), s')
    \<and> copied p (take (nat count) (kbd_chars s)) (mem s) (mem s') \<and> kbd_chars s' = drop (nat count) (kbd_chars s)
    \<and> sem_count (available s') = sem_count (available s) - 1"
proof -
  let ?m = "(available s)\<lparr>sem_count := sem_count (available s) - 1\<rparr>" and ?n = "min (nat count) (length (kbd_chars s))"
  let ?s = "s\<lparr>available := ?m\<rparr>"
  let ?t = "?s\<lparr>kbdTail := kbdTail s + word_of_nat ?n\<rparr>"
  have w: "waitForChar s = kret (Acquired, ?s)" using permit by (simp add: waitForChar_def sem_wait_def)
  have "user_buf addr (length (take (nat count) (kbd_chars s))) p ?t" using buf by (simp add: min.commute)
  from user_store_all_spec [OF this] obtain m' where
    m': "user_store_all addr (take (nat count) (kbd_chars s)) ?t = kret (?t\<lparr>mem := m'\<rparr>)"
        "copied p (take (nat count) (kbd_chars s)) (mem s) m'" by auto
  have "read_loop (nat count) addr 0 ?s = kret (word_of_nat ?n, ?t\<lparr>mem := m'\<rparr>)"
    using m'(1) by (simp add: read_loop_store)
  then have "handleRead addr count s = kret (Sys_Ret (word_of_nat ?n), ?t\<lparr>mem := m'\<rparr>)"
    using valid w by (simp add: handleRead_def)
  moreover have "kbd_chars (?t\<lparr>mem := m'\<rparr>) = drop (nat count) (kbd_chars s)" using read_loop_tail [of ?s "nat count"] by simp
  ultimately show ?thesis using m'(2) by auto
qed

section \<open>Statistics\<close>

lemma rb_latest_push:
  "0 < length (rb_buffer b) \<Longrightarrow> rb_head b < length (rb_buffer b) \<Longrightarrow> rb_latest (rb_push x b) = Some x"
  using nth_list_update_eq [of "rb_head b" "rb_buffer b" x]
  by (cases "length (rb_buffer b)") (auto simp: rb_push_def rb_latest_def Let_def mod_Suc)

definition ring_ok :: "'t ringbuf \<Rightarrow> bool" where
  "ring_ok b \<longleftrightarrow> 0 < length (rb_buffer b) \<and> rb_head b < length (rb_buffer b)"

lemma length_snapshot_bytes: "length (snapshot_bytes n) = 88"
  by (simp add: snapshot_bytes_def)

lemma user_buf_ring [simp]: "user_buf v n p (s\<lparr>statsRing := x\<rparr>) = user_buf v n p s"
  by (simp add: user_buf_def user_addr_def translate_def entry_def walk_words_def Let_def cong: if_cong)


section \<open>Error results\<close>


section \<open>Signals\<close>

lemma task_at_upd_same: "nat c < length (tasks s) \<Longrightarrow> task_at c (upd_task c f s) = f (task_at c s)"
  by (simp add: task_at_def upd_task_def)

lemma upd_task_twice: "upd_task c f (upd_task c g s) = upd_task c (f \<circ> g) s" if "nat c < length (tasks s)"
  using that by (simp add: upd_task_def)

lemma sigaction_delivered:
  fixes s :: "'a proc_scheme"
  defines "t \<equiv> currentTask s"
  assumes ok: "sched_ok s" and user: "userStackPageCount t \<noteq> 0" and sig: "lowest_signal (pendingSignals t) = Some sig"
    and handler: "signalHandlers t ! sig \<noteq> 0" and ring3: "mem s (unat frame + 36) AND 3 \<noteq> 0"
  shows "\<exists>s1. deliverPendingSignalsAtEsp ev frame s = kret (Returned (), s1)
    \<and> mem s1 (unat frame + 32) = word_of_nat (signalHandlers t ! sig) \<and> mem s1 (unat frame + 28) = word_of_nat sig
    \<and> currentIdx s1 = currentIdx s
    \<and> tasks s1 = (tasks s)[nat (currentIdx s) := t\<lparr>esp := frame, pendingSignals := unset_bit sig (pendingSignals t),
        savedSignalEip := mem s (unat frame + 32), savedSignalEflags := mem s (unat frame + 40), savedSignalEsp := mem s (unat frame + 44)\<rparr>]"
proof -
  let ?c = "currentIdx s" and ?f = "unat frame"
  have c: "\<not> idx_corrupt s" "nat ?c < length (tasks s)" using sched_okD [OF ok] by auto
  let ?s0 = "upd_task ?c (\<lambda>t. t\<lparr>esp := frame\<rparr>) s"
  have c0: "\<not> idx_corrupt ?s0" "currentIdx ?s0 = ?c" "mem ?s0 = mem s" using c by (simp_all add: idx_corrupt_def upd_task_def)
  have t0: "task_at ?c ?s0 = t\<lparr>esp := frame\<rparr>" using c by (simp add: task_at_upd_same t_def currentTask_def)
  have p: "pendingSignals t \<noteq> 0" using sig by (auto simp: lowest_signal_def find_Some_iff)
  have "deliverPendingSignalsAtEsp ev frame s = deliverPendingSignals ev ?s0" using c by (simp add: deliverPendingSignalsAtEsp_def)
  then show ?thesis
    using c c0 p user sig handler ring3
    by (simp add: deliverPendingSignals_def t0 Let_def case_prod_unfold set_frame_def upd_task_def t_def currentTask_def task_at_def)
qed

lemma sigreturn_restores:
  fixes s :: "'a sys_scheme"
  assumes idx: "\<not> idx_corrupt s" "nat (currentIdx s) < length (tasks s)" and user: "userStackPageCount (currentTask s) \<noteq> 0"
    and pend: "pendingSignals (currentTask s) = 0" and fr: "esp (currentTask s) = frame" and eax: "mem s (unat frame + 28) = 19"
  shows "\<exists>s'. asmInt80 ev rtc nh frame s = kret (Sys_Ret 0, s') \<and> mem s' (unat frame + 32) = savedSignalEip (currentTask s)
    \<and> mem s' (unat frame + 40) = savedSignalEflags (currentTask s) \<and> mem s' (unat frame + 44) = savedSignalEsp (currentTask s)
    \<and> mem s' (unat frame + 28) = 0"
proof -
  let ?f = "unat frame" and ?t = "currentTask s"
  let ?s1 = "s\<lparr>syscallFrameEsp := ?f\<rparr>"
  let ?s2 = "set_frame ?f [(8, savedSignalEip ?t), (10, savedSignalEflags ?t), (11, savedSignalEsp ?t)] ?s1"
  let ?s3 = "?s2\<lparr>mem := (mem ?s2)(?f + 28 := 0)\<rparr>"
  have cur: "currentTask ?s1 = ?t" by (simp add: currentTask_def task_at_def)
  have h: "syscallHandler ev rtc nh 19 b c d ?s1 = kret (Sys_Ret 0, ?s2)" for b c d
    using user fr by (simp add: syscallHandler_def handleSigreturn_def Let_def cur)
  have i3: "\<not> idx_corrupt ?s3" "currentIdx ?s3 = currentIdx s" "tasks ?s3 = tasks s"
    using idx by (simp_all add: idx_corrupt_def set_frame_def)
  let ?s4 = "upd_task (currentIdx s) (\<lambda>t. t\<lparr>esp := frame\<rparr>) ?s3"
  have t4: "task_at (currentIdx s) ?s4 = ?t\<lparr>esp := frame\<rparr>"
    using idx i3 by (simp add: task_at_upd_same currentTask_def task_at_def)
  have i4: "\<not> idx_corrupt ?s4" "currentIdx ?s4 = currentIdx s" using i3 by (simp_all add: idx_corrupt_def upd_task_def)
  have "deliverPendingSignalsAtEsp ev frame ?s3 = kret (Returned (), ?s4)"
    using i3 i4 t4 user pend by (simp add: deliverPendingSignalsAtEsp_def deliverPendingSignals_def Let_def)
  then have "asmInt80 ev rtc nh frame s = kret (Sys_Ret 0, ?s4)" using eax h by (simp add: asmInt80_def Let_def)
  then show ?thesis by (simp add: upd_task_def set_frame_def)
qed

text \<open>C28. A signal and back. Delivery of the lowest pending signal at a user-mode frame redirects the program to its handler with the
  signal number in EAX. When the handler ends in \<open>SYS_SIGRETURN\<close> through the same frame, EIP, EFLAGS and ESP are those of the
  interrupted program again; EAX is 0, whatever it held when the signal came.\<close>

theorem signal_roundtrip:
  fixes s :: "'a sys_scheme"
  assumes ok: "sched_ok s" and user: "userStackPageCount (currentTask s) \<noteq> 0"
    and sig: "lowest_signal (pendingSignals (currentTask s)) = Some sig" and only: "unset_bit sig (pendingSignals (currentTask s)) = 0"
    and handler: "signalHandlers (currentTask s) ! sig \<noteq> 0" and ring3: "mem s (unat frame + 36) AND 3 \<noteq> 0"
  shows "\<exists>s1. deliverPendingSignalsAtEsp ev frame s = kret (Returned (), s1)
    \<and> mem s1 (unat frame + 32) = word_of_nat (signalHandlers (currentTask s) ! sig) \<and> mem s1 (unat frame + 28) = word_of_nat sig
    \<and> (\<forall>s2 :: 'a sys_scheme. tasks s2 = tasks s1 \<longrightarrow> currentIdx s2 = currentIdx s1 \<longrightarrow> mem s2 (unat frame + 28) = 19 \<longrightarrow>
        (\<exists>s3. asmInt80 ev rtc nh frame s2 = kret (Sys_Ret 0, s3) \<and> mem s3 (unat frame + 32) = mem s (unat frame + 32)
          \<and> mem s3 (unat frame + 40) = mem s (unat frame + 40) \<and> mem s3 (unat frame + 44) = mem s (unat frame + 44)
          \<and> mem s3 (unat frame + 28) = 0))"
proof -
  obtain s1 where s1: "deliverPendingSignalsAtEsp ev frame s = kret (Returned (), s1)"
      "mem s1 (unat frame + 32) = word_of_nat (signalHandlers (currentTask s) ! sig)" "mem s1 (unat frame + 28) = word_of_nat sig"
      "currentIdx s1 = currentIdx s"
    and ts: "tasks s1 = (tasks s)[nat (currentIdx s) := (currentTask s)\<lparr>esp := frame, pendingSignals := unset_bit sig (pendingSignals (currentTask s)),
        savedSignalEip := mem s (unat frame + 32), savedSignalEflags := mem s (unat frame + 40), savedSignalEsp := mem s (unat frame + 44)\<rparr>]"
    using sigaction_delivered [OF ok user sig handler ring3, of ev] by blast
  have idx: "\<not> idx_corrupt s" "nat (currentIdx s) < length (tasks s)" using sched_okD [OF ok] by auto
  have resumed: "\<exists>s3. asmInt80 ev rtc nh frame s2 = kret (Sys_Ret 0, s3) \<and> mem s3 (unat frame + 32) = mem s (unat frame + 32)
      \<and> mem s3 (unat frame + 40) = mem s (unat frame + 40) \<and> mem s3 (unat frame + 44) = mem s (unat frame + 44) \<and> mem s3 (unat frame + 28) = 0"
    if "tasks s2 = tasks s1" "currentIdx s2 = currentIdx s1" "mem s2 (unat frame + 28) = 19" for s2 :: "'a sys_scheme"
  proof -
    have i2: "\<not> idx_corrupt s2" "nat (currentIdx s2) < length (tasks s2)" using that idx s1(4) ts by (simp_all add: idx_corrupt_def)
    have "currentTask s2 = (currentTask s)\<lparr>esp := frame, pendingSignals := unset_bit sig (pendingSignals (currentTask s)),
        savedSignalEip := mem s (unat frame + 32), savedSignalEflags := mem s (unat frame + 40), savedSignalEsp := mem s (unat frame + 44)\<rparr>"
      using that s1(4) ts idx(2) by (simp add: currentTask_def task_at_def)
    then show ?thesis using sigreturn_restores [OF i2, of frame ev rtc nh] user only that(3) by simp
  qed
  show ?thesis using s1(1,2,3) resumed by blast
qed

section \<open>System calls keep the invariant of the task table\<close>

text \<open>Every state a call can leave behind satisfies the invariant; a call that panics or does not return leaves none.\<close>

abbreviation ok_after :: "('r \<times> 'a sched_scheme) kres \<Rightarrow> bool" where
  "ok_after m \<equiv> kall (\<lambda>x. sched_ok (snd x)) m"

lemma ok_after_bind: "ok_after m \<Longrightarrow> (\<And>r s'. sched_ok s' \<Longrightarrow> ok_after (f (r, s'))) \<Longrightarrow> ok_after (kbind m f)"
  by (rule kall_bind) (auto simp: kall_def)

lemma ok_state_bind: "(\<And>s'. m = kret s' \<Longrightarrow> sched_ok s') \<Longrightarrow> (\<And>s'. sched_ok s' \<Longrightarrow> ok_after (f s')) \<Longrightarrow> ok_after (kbind m f)"
  by (rule kall_bind) blast

lemma ok_lbind: "ok_after m \<Longrightarrow> (\<And>r s'. sched_ok s' \<Longrightarrow> ok_after (f r s')) \<Longrightarrow> ok_after (lbind m f)"
  unfolding lbind_def by (erule ok_after_bind) (simp split: option.split)

lemma ok_afterI: "(\<And>r s'. m = kret (r, s') \<Longrightarrow> sched_ok s') \<Longrightarrow> ok_after m"
  by (auto simp: kall_def)

lemma sched_ok_paging [simp]:
  "sched_ok (s\<lparr>mem := a\<rparr>) = sched_ok s" "sched_ok (s\<lparr>pageFaults := m\<rparr>) = sched_ok s" "sched_ok (s\<lparr>userPageFaults := n\<rparr>) = sched_ok s"
  by (simp_all add: sched_ok_def)

lemma sched_ok_proc [simp]: "sched_ok (s\<lparr>syscallFrameEsp := b\<rparr>) = sched_ok s"
  by (simp add: sched_ok_def)

lemma sched_ok_kbd [simp]:
  "sched_ok (s\<lparr>kbdTail := c\<rparr>) = sched_ok s" "sched_ok (s\<lparr>available := d\<rparr>) = sched_ok s"
  "sched_ok (s\<lparr>kbdHead := e\<rparr>) = sched_ok s" "sched_ok (s\<lparr>kbdBuffer := q\<rparr>) = sched_ok s"
  by (simp_all add: sched_ok_def)

lemma sched_ok_terminal [simp]: "sched_ok (s\<lparr>ttyLock := e\<rparr>) = sched_ok s" "sched_ok (s\<lparr>vgaRam := f\<rparr>) = sched_ok s"
  "sched_ok (s\<lparr>termRow := g\<rparr>) = sched_ok s" "sched_ok (s\<lparr>termCol := h\<rparr>) = sched_ok s"
  by (simp_all add: sched_ok_def)

lemma sched_ok_sys [simp]:
  "sched_ok (s\<lparr>savedVgaBuf := g\<rparr>) = sched_ok s" "sched_ok (s\<lparr>savedCursorRow := h\<rparr>) = sched_ok s" "sched_ok (s\<lparr>savedCursorCol := h'\<rparr>) = sched_ok s"
  "sched_ok (s\<lparr>serialOut := i\<rparr>) = sched_ok s" "sched_ok (s\<lparr>statsRing := j\<rparr>) = sched_ok s" "sched_ok (s\<lparr>histories := k\<rparr>) = sched_ok s"
  "sched_ok (s\<lparr>rtcTime := l\<rparr>) = sched_ok s"
  by (simp_all add: sched_ok_def)

text \<open>The terminal changes only its own fields and its lock.\<close>

lemma trunc_ok: "sched.truncate s' = sched.truncate s \<Longrightarrow> sched_ok s' = sched_ok s"
  by (simp add: sched_ok_def sched.defs)

lemma trunc_fold: "(\<And>x s. sched.truncate (f x s) = sched.truncate s) \<Longrightarrow> sched.truncate (fold f xs s) = sched.truncate s"
  by (induction xs arbitrary: s) simp_all

lemma trunc_cursor: "sched.truncate (cursorUpdate s) = sched.truncate s" "sched.truncate (cursorEnable s) = sched.truncate s"
  "sched.truncate (cursorDisable s) = sched.truncate s" "sched.truncate (clearNavigation s) = sched.truncate s"
  by (simp_all add: cursorUpdate_def cursorEnable_def cursorDisable_def clearNavigation_def sched.defs)

lemma trunc_swapRows: "sched.truncate (swapRows a b s) = sched.truncate s"
  by (simp add: swapRows_def sched.defs)

lemma trunc_clearRow: "sched.truncate (clearRow r s) = sched.truncate s"
  by (simp add: clearRow_def sched.defs)

lemma trunc_termRow: "sched.truncate (s\<lparr>termRow := r\<rparr>) = sched.truncate s" "sched.truncate (s\<lparr>termCol := c\<rparr>) = sched.truncate s"
  "sched.truncate (s\<lparr>scrollbackBuf := bf\<rparr>) = sched.truncate s" "sched.truncate (s\<lparr>scrollbackHead := hd'\<rparr>) = sched.truncate s"
  "sched.truncate (s\<lparr>scrollbackCount := cn\<rparr>) = sched.truncate s" "sched.truncate (s\<lparr>vgaRam := vr\<rparr>) = sched.truncate s"
  "sched.truncate (s\<lparr>scrollbackActive := ac\<rparr>) = sched.truncate s" "sched.truncate (s\<lparr>scrollbackOffset := ofs\<rparr>) = sched.truncate s"
  "sched.truncate (s\<lparr>termColor := tc\<rparr>) = sched.truncate s" "sched.truncate (s\<lparr>ttyLock := tl'\<rparr>) = sched.truncate s"
  by (simp_all add: sched.defs)

lemmas trunc_simps = trunc_cursor trunc_clearRow trunc_termRow trunc_fold [OF trunc_swapRows]

lemma trunc_emit: "sched.truncate (emit c s) = sched.truncate s"
  unfolding emit_def advCol_def advRow_def decCol_def Let_def by (simp add: trunc_simps)

lemma cursor_ok [simp]: "sched_ok (cursorUpdate s) = sched_ok s" "sched_ok (cursorEnable s) = sched_ok s" "sched_ok (cursorDisable s) = sched_ok s"
  by (rule trunc_ok, simp add: trunc_simps)+

lemma emit_ok: "sched_ok (emit c s) = sched_ok s"
  by (rule trunc_ok) (rule trunc_emit)

lemma tty_lock_ok: "sched_ok s \<Longrightarrow> ok_after (tty_lock s)"
  unfolding tty_lock_def by (rule ok_afterI) (auto simp: kbind_kret dest: sem_wait_ok)

lemma tty_unlock_ok: "sched_ok s \<Longrightarrow> sched_ok (tty_unlock s)"
  unfolding tty_unlock_def Let_def using sem_signal_ok [of s "ttyLock s"] by (simp split: prod.split)

lemma tty_locked_ok: "sched_ok s \<Longrightarrow> (\<And>s'. sched_ok s' \<Longrightarrow> sched_ok (snd (f s'))) \<Longrightarrow> ok_after (tty_locked f s)"
  unfolding tty_locked_def
  by (rule ok_after_bind [OF tty_lock_ok]) (auto simp: Let_def case_prod_unfold tty_unlock_ok)

lemma exit_body_ok: "sched_ok (exit_body s) = sched_ok s"
  by (rule trunc_ok) (simp add: exit_body_def trunc_simps)

lemma cls_body_ok: "sched_ok (cls_body s) = sched_ok s"
  by (rule trunc_ok) (simp add: cls_body_def trunc_simps)

lemma rawPuts_ok: "sched_ok (snd (rawPuts bs s)) = sched_ok s"
  by (rule trunc_ok) (simp add: rawPuts_def trunc_simps trunc_fold [OF trunc_emit])

lemma terminal_ok:
  assumes "sched_ok s"
  shows "ok_after (cls s)" "ok_after (getCursor s)" "ok_after (cursorSetPos row col s)" "ok_after (print_bytes bs s)" "ok_after (scrollbackExit s)"
proof -
  show "ok_after (cls s)" unfolding cls_def using assms by (rule tty_locked_ok) (simp add: cls_body_ok)
  show "ok_after (getCursor s)" unfolding getCursor_def using assms by (rule tty_locked_ok) simp
  show "ok_after (cursorSetPos row col s)" unfolding cursorSetPos_def using assms
    by (rule tty_locked_ok) simp
  show "ok_after (scrollbackExit s)" unfolding scrollbackExit_def using assms by (rule tty_locked_ok) (simp add: exit_body_ok)
  have "ok_after (tty_puts xs s)" for xs unfolding tty_puts_def using assms by (rule tty_locked_ok) (simp add: rawPuts_ok)
  then show "ok_after (print_bytes bs s)" unfolding print_bytes_def by (rule ok_after_bind) simp
qed

lemma putc_ok: "sched_ok s \<Longrightarrow> ok_after (putc c s)"
  unfolding putc_def
proof (rule ok_after_bind [OF tty_lock_ok], assumption)
  fix got and s1 :: "'a tty_scheme" assume s1: "sched_ok s1"
  have "ok_after (if scrollbackActive s1 then scrollbackExit s1 else kret (Some (), s1))" using s1 terminal_ok(5) [of s1] by simp
  then show "ok_after (case (got, s1) of (got, s1) \<Rightarrow> if \<not> got then kret (None, s1)
      else kbind (if scrollbackActive s1 then scrollbackExit s1 else kret (Some (), s1)) (\<lambda>(r, s2).
        case r of None \<Rightarrow> kret (None, s2) | Some _ \<Rightarrow> kret (Some (), tty_unlock (cursorUpdate (emit c s2)))))"
    using s1 by (auto simp: emit_ok tty_unlock_ok intro!: ok_after_bind split: option.split)
qed

section \<open>The handlers\<close>

lemma user_store_ok: "user_store v b s = kret s' \<Longrightarrow> sched_ok s \<Longrightarrow> sched_ok s'"
  by (auto simp: user_store_def split: option.splits)

lemma user_store_all_ok: "user_store_all v bs s = kret s' \<Longrightarrow> sched_ok s \<Longrightarrow> sched_ok s'"
  by (induction v bs s rule: user_store_all.induct) (auto simp: kbind_kret dest: user_store_ok)

lemma store_fields_ok: "store_fields a fs s = kret s' \<Longrightarrow> sched_ok s \<Longrightarrow> sched_ok s'"
  by (induction a fs s rule: store_fields.induct) (auto simp: kbind_kret dest: user_store_all_ok)

lemma copy_out_ok: "sched_ok s \<Longrightarrow> ok_after (kbind (user_store_all v bs s) (\<lambda>s1. kret (r, s1)))"
  "sched_ok s \<Longrightarrow> ok_after (kbind (store_fields v fs s) (\<lambda>s1. kret (r, s1)))"
  by (auto intro!: ok_state_bind dest: user_store_all_ok store_fields_ok)

lemma read_loop_ok: "sched_ok s \<Longrightarrow> ok_after (read_loop k buf n s)"
  unfolding read_loop_store by (rule ok_state_bind) (auto dest: user_store_all_ok)

lemma waitForChar_ok: "sched_ok s \<Longrightarrow> ok_after (waitForChar s)"
  unfolding waitForChar_def by (rule ok_afterI) (auto simp: kbind_kret dest: sem_wait_ok)

lemma handleRead_ok: "sched_ok s \<Longrightarrow> ok_after (handleRead a n s)"
  unfolding handleRead_def
  by (auto intro!: ok_after_bind [OF waitForChar_ok] ok_after_bind [OF read_loop_ok])

lemma serial_loop_ok: "serial_loop k a s = kret s' \<Longrightarrow> sched_ok s \<Longrightarrow> sched_ok s'"
  by (induction k a s rule: serial_loop.induct) (auto simp: kbind_kret)

lemma write_loop_ok: "sched_ok s \<Longrightarrow> ok_after (write_loop k a s)"
proof (induction k arbitrary: a s)
  case (Suc k)
  show ?case unfolding write_loop.simps
    by (rule kall_bind, rule ok_after_bind [OF putc_ok [OF Suc.prems]]) (auto simp: Suc.IH split: option.split)
qed simp

lemma handleWrite_ok: "sched_ok s \<Longrightarrow> ok_after (handleWriteStr a n s)" "sched_ok s' \<Longrightarrow> ok_after (handleWriteSerial a n s')"
  unfolding handleWriteStr_def handleWriteSerial_def
  by (auto intro!: ok_lbind [OF write_loop_ok] ok_state_bind dest: serial_loop_ok)

lemma pushChar_ok: "sched_ok s \<Longrightarrow> sched_ok (pushChar c s)"
  unfolding pushChar_def Let_def by (auto split: prod.split dest!: sem_signal_ok [rotated])

lemma tryReadKey_ok: "sched_ok s \<Longrightarrow> sched_ok (snd (tryReadKey s))"
  by (auto simp: tryReadKey_def Let_def sched_ok_def)

lemma screen_ok: assumes "sched_ok s" shows "ok_after (save_screen s)" "ok_after (restore_screen s)"
  unfolding save_screen_def restore_screen_def case_prod_unfold
  by (intro ok_lbind terminal_ok tty_locked_ok assms; simp)+

lemma ioctl_put_ok: "sched_ok s \<Longrightarrow> ok_after (ioctl_put a s)"
  unfolding ioctl_put_def Let_def by (simp, intro impI ok_lbind tty_locked_ok) simp_all

lemma poll_key_ok: "sched_ok s \<Longrightarrow> ok_after (poll_key s)"
  using tryReadKey_ok [of s] by (simp add: poll_key_def Let_def case_prod_unfold)

lemma handleIoctl_ok: "sched_ok s \<Longrightarrow> ok_after (handleIoctl c a s)"
  by (simp add: handleIoctl_def Let_def screen_ok ioctl_put_ok poll_key_ok pushChar_ok ok_lbind terminal_ok)

lemma list_loop_ok: "sched_ok s \<Longrightarrow> ok_after (list_loop is m dst w s)"
proof (induction "is" arbitrary: w s)
  case (Cons i "is")
  have "ok_after (kbind (store_fields (dst + word_of_int (24 * w)) (entry_fields i s) s) (list_loop is m dst (w + 1)))"
    using Cons by (auto intro!: ok_state_bind dest: store_fields_ok)
  then show ?case using Cons by simp
qed simp

lemma taskctl_list_ok: "sched_ok s \<Longrightarrow> ok_after (handleTaskctlList a n s)"
  unfolding handleTaskctlList_def by (simp, intro impI ok_after_bind [OF list_loop_ok]) simp_all

lemma taskctl_detail_ok: "sched_ok s \<Longrightarrow> ok_after (handleTaskctlDetail i a s)"
  unfolding handleTaskctlDetail_def Let_def by (simp add: copy_out_ok)

lemma taskctl_kill_ok:
  assumes "env_ok ev" "sched_ok s" shows "ok_after (handleTaskctlKill ev i s)"
proof -
  have "ok_after (kbind (killTask ev (to_int i) s) (\<lambda>s1. kret (Sys_Ret 0, s1)))"
    by (rule ok_state_bind, erule killTask_ok [OF assms]) simp
  then show ?thesis using assms(2) by (simp add: handleTaskctlKill_def Let_def)
qed

lemma handleTaskctl_ok: "env_ok ev \<Longrightarrow> sched_ok s \<Longrightarrow> ok_after (handleTaskctl ev c a b s)"
  by (simp add: handleTaskctl_def Let_def taskctl_list_ok taskctl_detail_ok taskctl_kill_ok)

lemma handleSysinfo_ok: "sched_ok s \<Longrightarrow> ok_after (handleSysinfo rtc c a s)"
  unfolding handleSysinfo_def handleSysinfoDatetime_def handleSysinfoCpu_def Let_def
  by (auto intro!: kall_bind copy_out_ok)

lemma handleExecmod_ok: "sched_ok s \<Longrightarrow> ok_after (handleExecmod i s)"
  unfolding handleExecmod_def
  by (auto intro!: ok_after_bind ok_afterI [of "addUserElfTask _ _ _ _"] dest: addUserElfTask_ok split: option.split)

lemma sys_execmod_ok: "sched_ok s \<Longrightarrow> ok_after (sys_execmod i s)"
  unfolding sys_execmod_def Let_def
  by (auto intro!: ok_after_bind [OF handleExecmod_ok] ok_state_bind field_calls_ok(3) dest: block_calls_ok(2) [rotated])

lemma handleKill_ok: "env_ok ev \<Longrightarrow> sched_ok s \<Longrightarrow> ok_after (handleKill ev p sig s)"
  unfolding handleKill_def
  by (auto intro!: ok_after_bind ok_afterI [of "sendSignal _ _ _ _"] dest: sendSignal_ok split: outcome.split)

lemma handleSig_ok: "sched_ok s \<Longrightarrow> ok_after (handleSigaction a b s)" "sched_ok s \<Longrightarrow> ok_after (handleSigreturn s)"
  unfolding handleSigaction_def handleSigreturn_def Let_def by (auto intro!: shape_ok [of _ s] simp: set_frame_def)

lemma handleStats_ok: "sched_ok s \<Longrightarrow> ok_after (handleStats a s)"
  unfolding handleStats_def Let_def by (auto intro!: kall_bind [of "of_opt _"] copy_out_ok split: option.split)

lemma sys_waitpid_ok: "sched_ok s \<Longrightarrow> ok_after (sys_waitpid st s)"
  unfolding sys_waitpid_def
  by (auto intro!: ok_after_bind ok_afterI [of "waitpid _ _"] copy_out_ok dest: waitpid_ok split: wait_result.split)

lemma handlePanic_ok: "ok_after (handlePanic a s)"
  unfolding handlePanic_def by (auto intro: kall_bind)

lemma readLine_begin_ok: "(\<And>s. sched_ok s \<Longrightarrow> sched_ok (snd (nh s))) \<Longrightarrow> sched_ok s \<Longrightarrow> sched_ok (snd (readLine_begin nh a n s))"
  unfolding readLine_begin_def Let_def by (auto intro: shape_ok simp: case_prod_unfold)

lemma proc_calls_ok:
  assumes "env_ok ev" "sched_ok s"
  shows "ok_after (exitCurrentTask ev c s)" "ok_after (sched_fork s)" "ok_after (sched_exec ev c s)" "ok_after (deliverPendingSignalsAtEsp ev fr s)"
  by (rule ok_afterI, erule exitCurrentTask_ok [OF assms] sched_fork_ok [OF assms(2)] sched_exec_ok [OF assms] deliverPendingSignalsAtEsp_ok [OF assms])+

lemma proc_syscalls_ok:
  assumes "env_ok ev" "sched_ok s"
  shows "ok_after (kbind (exitCurrentTask ev c s) (\<lambda>(e, s1). kret (Sys_Switched e, s1)))"
    "ok_after (kbind (sched_fork s) (\<lambda>(r, s1). kret (Sys_Ret (case r of Some p \<Rightarrow> ucast p | None \<Rightarrow> err), s1)))"
    "ok_after (kbind (sched_exec ev c s) (\<lambda>(r, s1). case r of
       Returned ok \<Rightarrow> kret (Sys_Ret (if ok then 0 else err), s1) | Switched e \<Rightarrow> kret (Sys_Switched e, s1)))"
    "ok_after (kbind (suppressTaskbar s) (\<lambda>s1. kret (Sys_Ret 0, s1)))"
proof -
  note p = proc_calls_ok [OF assms]
  show "ok_after (kbind (exitCurrentTask ev c s) (\<lambda>(e, s1). kret (Sys_Switched e, s1)))" by (rule ok_after_bind [OF p(1)]) simp
  show "ok_after (kbind (sched_fork s) (\<lambda>(r, s1). kret (Sys_Ret (case r of Some p \<Rightarrow> ucast p | None \<Rightarrow> err), s1)))"
    by (rule ok_after_bind [OF p(2)]) simp
  show "ok_after (kbind (sched_exec ev c s) (\<lambda>(r, s1). case r of
       Returned ok \<Rightarrow> kret (Sys_Ret (if ok then 0 else err), s1) | Switched e \<Rightarrow> kret (Sys_Switched e, s1)))"
    by (rule ok_after_bind [OF p(3)]) (simp split: outcome.split)
  show "ok_after (kbind (suppressTaskbar s) (\<lambda>s1. kret (Sys_Ret 0, s1)))"
    by (rule ok_state_bind, erule field_calls_ok(1) [OF assms(2)]) simp
qed

lemma syscallHandler_ok:
  assumes "env_ok ev" "\<And>s. sched_ok s \<Longrightarrow> sched_ok (snd (nh s))" "sched_ok s"
  shows "ok_after (syscallHandler ev rtc nh eax ebx ecx edx s)"
proof -
  have "ok_after (lbind (putc c s) (\<lambda>_ s1. kret (Sys_Ret 1, s1)))" for c by (rule ok_lbind [OF putc_ok [OF assms(3)]]) simp
  moreover have "ok_after (case readLine_begin nh ebx ecx s of (None, s1) \<Rightarrow> kret (Sys_Ret err, s1) | (Some h, s1) \<Rightarrow> kret (Sys_Wait, s1))"
    using readLine_begin_ok [of nh s ebx ecx, OF assms(2,3)] by (auto split: prod.split option.split)
  ultimately show ?thesis
    unfolding syscallHandler_def handlePoweroff_def
    by (simp only: if_split kall_ret simp_thms snd_conv assms(3) proc_syscalls_ok [OF assms(1,3)] handleRead_ok [OF assms(3)] handleWrite_ok [OF assms(3)]
        handleIoctl_ok [OF assms(3)] handleTaskctl_ok [OF assms(1,3)] handleSysinfo_ok [OF assms(3)] sys_execmod_ok [OF assms(3)] handlePanic_ok
        sys_waitpid_ok [OF assms(3)] handleKill_ok [OF assms(1,3)] handleSig_ok [OF assms(3)] handleStats_ok [OF assms(3)])
qed


section \<open>A concrete system\<close>

text \<open>The page at 0x10000000 is mapped to the frame at 0x5000, present only: neither for user code nor for writing. Two characters are
  pending, and so is signal 10 for the current task, which has a handler for it; a user-mode frame is at 0x30000.\<close>

definition demo_sys :: sys where
  "demo_sys =
     tty.extend ((demo_tty False)\<lparr>mem := (\<lambda>_. 0)(0x1100 := 0x2001, 0x2000 := 0x5001, 0x30000 + 36 := 0x1B, 0x30000 + 32 := 0x10000123),
         cr3 := 0x1000, kbdBuffer := replicate BUF_SIZE 0x41, kbdHead := 2, kbdTail := 0, available := semaphore_new 2,
         tasks := (tasks demo_sched)[1 := (demo_task RUNNING PRIORITY_NORMAL 0)\<lparr>userStackPageCount := 1, pendingSignals := 1024,
           signalHandlers := (replicate SIGNAL_MAX 0)[10 := 0x10000400]\<rparr>]\<rparr>)
       (sys.fields [] 0 0 [] (\<lambda>_. []) \<lparr>rb_buffer = replicate 64 undefined, rb_head = 63, rb_tail = 0, rb_count = 63\<rparr> cpu_zero
          \<lparr>rsdp = 0, rsdt = 0, fadt = 0, centuryReg = 0\<rparr> 0)"

lemmas demo_sys_defs = demo_sys_def demo_tty_def demo_kbd_def kbd_init_def clearNavigation_def tty.defs kbd.defs sys.defs proc.defs

lemma demo_sys_fields:
  "mem demo_sys = (\<lambda>_. 0)(0x1100 := 0x2001, 0x2000 := 0x5001, 0x30000 + 36 := 0x1B, 0x30000 + 32 := 0x10000123)"
  "cr3 demo_sys = 0x1000" "currentIdx demo_sys = 1" "taskCount demo_sys = 4" "sleepQueue demo_sys = [(110, 3)]"
  "tasks demo_sys = (tasks demo_sched)[1 := (demo_task RUNNING PRIORITY_NORMAL 0)\<lparr>userStackPageCount := 1, pendingSignals := 1024,
           signalHandlers := (replicate SIGNAL_MAX 0)[10 := 0x10000400]\<rparr>]"
  "available demo_sys = semaphore_new 2" "freeList demo_sys = 0"
  "statsRing demo_sys = \<lparr>rb_buffer = replicate 64 undefined, rb_head = 63, rb_tail = 0, rb_count = 63\<rparr>"
  by (simp_all add: demo_sys_defs demo_proc_def demo_sched_def sched.defs)

lemma demo_sys_ok: "sched_ok demo_sys"
  unfolding sched_ok_def table_ok_def MAX_TASKS_def all_lt_8 demo_sys_fields by (simp add: sleep_ok_def empty_task_def)

lemma demo_sys_chars: "kbd_chars demo_sys = [0x41, 0x41]"
  by (simp add: kbd_chars_def demo_sys_defs BUF_SIZE_def upt_rec)

lemma demo_sys_buf: "n \<le> 4096 \<Longrightarrow> user_buf 0x10000000 n (\<lambda>i. 0x5000 + i) demo_sys"
proof -
  assume n: "n \<le> 4096"
  have u: "unat (0x10000000 + word_of_nat i :: u32) = 0x10000000 + i" if "i < n" for i
    using that n by (simp add: unat_word_ariths unat_of_nat)
  have p: "pde_index (0x10000000 + i) = 64" "pte_index (0x10000000 + i) = 0" "(0x10000000 + i) mod PAGE_SIZE = i" if "i < n" for i
  proof -
    have m: "i < 4096" using that n by simp
    have "(i + 64 * 4194304) div 4194304 = 64" "(i + 64 * 4194304) mod 4194304 = i" "(i + 65536 * 4096) mod 4096 = i"
      using m by (simp_all only: div_mult_self1 mod_mult_self1 mod_less div_less)
    then have "(0x10000000 + i) div 4194304 = 64" "(0x10000000 + i) mod 4194304 = i" "(0x10000000 + i) mod 4096 = i" by (simp_all add: add.commute)
    then show "pde_index (0x10000000 + i) = 64" "pte_index (0x10000000 + i) = 0" "(0x10000000 + i) mod PAGE_SIZE = i"
      using m by (simp_all add: pde_index_def pte_index_def PDE_SIZE_def PAGE_SIZE_def)
  qed
  have w: "walk_words (0x10000000 + word_of_nat i) demo_sys = {0x1100, 0x2000}" if "i < n" for i
    using u [OF that] p [OF that] by (simp add: walk_words_def demo_sys_fields entry_def frame_of_def PAGE_ADDR_MASK_def)
  have a: "user_addr (0x10000000 + word_of_nat i) demo_sys = Some (0x5000 + i)" if "i < n" for i
    using u [OF that] p [OF that]
    by (simp add: user_addr_def translate_def demo_sys_fields entry_def frame_of_def PAGE_ADDR_MASK_def has_def PAGE_PRESENT_def Let_def)
  show ?thesis unfolding user_buf_def using a w by (auto simp: inj_on_def)
qed

lemma demo_sys_snapshot: "\<exists>n. take_snapshot demo_sys = Some n"
proof -
  have "freeMem demo_sys = Some 0" "\<exists>k. largestFreeBlock demo_sys = Some k"
    by (simp_all add: freeMem_def freeMem_loop.simps largestFreeBlock_def largest_loop.simps demo_sys_fields)
  then show ?thesis by (auto simp: take_snapshot_def)
qed

theorem handleRead_correct_witness:
  "\<exists>s'. handleRead 0x10000000 8 demo_sys = kret (Sys_Ret 2, s') \<and> get_byte (mem s') 0x5001 = 0x41 \<and> kbd_chars s' = [] \<and> sem_count (available s') = 1"
proof -
  have v: "isValidUserBuf 0x10000000 8" by (simp add: isValidUserBuf_def KERNEL_VIRTUAL_BASE_def)
  have p: "0 < sem_count (available demo_sys)" by (simp add: demo_sys_fields semaphore_new_def)
  have b: "user_buf 0x10000000 (min (nat 8) (length (kbd_chars demo_sys))) (\<lambda>i. 0x5000 + i) demo_sys"
    by (rule demo_sys_buf) (simp add: demo_sys_chars)
  obtain s' where s': "handleRead 0x10000000 8 demo_sys = kret (Sys_Ret (word_of_nat (min (nat 8) (length (kbd_chars demo_sys)))), s')"
      "copied (\<lambda>i. 0x5000 + i) (take (nat 8) (kbd_chars demo_sys)) (mem demo_sys) (mem s')" "kbd_chars s' = drop (nat 8) (kbd_chars demo_sys)"
      "sem_count (available s') = sem_count (available demo_sys) - 1"
    using handleRead_correct [OF v p b] by blast
  have "get_byte (mem s') (0x5000 + 1) = [0x41, 0x41] ! 1" using s'(2) unfolding copied_def demo_sys_chars by force
  then show ?thesis using s' by (simp add: demo_sys_chars demo_sys_fields semaphore_new_def)
qed



theorem signal_roundtrip_witness:
  "\<exists>s1 s3. deliverPendingSignalsAtEsp no_handlers 0x30000 demo_sys = kret (Returned (), s1) \<and> mem s1 0x30020 = 0x10000400
     \<and> asmInt80 no_handlers demo_rtc (\<lambda>s. (0, s)) 0x30000 (s1\<lparr>mem := (mem s1)(0x3001C := 19, 0x30020 := 0xB0000FF0)\<rparr>) = kret (Sys_Ret 0, s3)
     \<and> mem s3 0x30020 = 0x10000123 \<and> mem s3 0x3001C = 0"
proof -
  have c: "currentTask demo_sys = (demo_task RUNNING PRIORITY_NORMAL 0)\<lparr>userStackPageCount := 1, pendingSignals := 1024,
      signalHandlers := (replicate SIGNAL_MAX 0)[10 := 0x10000400]\<rparr>"
    by (simp add: currentTask_def task_at_def demo_sys_fields)
  have l: "lowest_signal 1024 = Some 10" by (simp add: lowest_signal_def SIGNAL_MAX_def upt_rec bit_simps)
  have u: "unset_bit 10 (1024 :: u32) = 0" by (simp add: unset_bit_eq_and_not)
  have h: "((replicate SIGNAL_MAX 0)[10 := 0x10000400]) ! 10 = (0x10000400 :: nat)" by (simp add: SIGNAL_MAX_def)
  let ?f = "unat (0x30000 :: u32)"
  have p: "userStackPageCount (currentTask demo_sys) \<noteq> 0" "lowest_signal (pendingSignals (currentTask demo_sys)) = Some 10"
    "unset_bit 10 (pendingSignals (currentTask demo_sys)) = 0" "signalHandlers (currentTask demo_sys) ! 10 = 0x10000400" "mem demo_sys (?f + 36) AND 3 \<noteq> 0"
    using l u h by (simp_all add: c demo_sys_fields)
  have p4: "signalHandlers (currentTask demo_sys) ! 10 \<noteq> 0" using p(4) by simp
  obtain s1 where s1: "deliverPendingSignalsAtEsp no_handlers 0x30000 demo_sys = kret (Returned (), s1)"
      "mem s1 (?f + 32) = word_of_nat (signalHandlers (currentTask demo_sys) ! 10)"
    and ret: "\<forall>s2 :: sys. tasks s2 = tasks s1 \<longrightarrow> currentIdx s2 = currentIdx s1 \<longrightarrow> mem s2 (?f + 28) = 19 \<longrightarrow>
        (\<exists>s3. asmInt80 no_handlers demo_rtc (\<lambda>s. (0, s)) 0x30000 s2 = kret (Sys_Ret 0, s3) \<and> mem s3 (?f + 32) = mem demo_sys (?f + 32)
          \<and> mem s3 (?f + 40) = mem demo_sys (?f + 40) \<and> mem s3 (?f + 44) = mem demo_sys (?f + 44) \<and> mem s3 (?f + 28) = 0)"
    using signal_roundtrip [OF demo_sys_ok p(1-3) p4 p(5), of no_handlers demo_rtc "\<lambda>s. (0, s)"] by blast
  obtain s3 where s3: "asmInt80 no_handlers demo_rtc (\<lambda>s. (0, s)) 0x30000 (s1\<lparr>mem := (mem s1)(0x3001C := 19, 0x30020 := 0xB0000FF0)\<rparr>) = kret (Sys_Ret 0, s3)"
      "mem s3 (?f + 32) = mem demo_sys (?f + 32)" "mem s3 (?f + 28) = 0"
    using ret [rule_format, of "s1\<lparr>mem := (mem s1)(0x3001C := 19, 0x30020 := 0xB0000FF0)\<rparr>"] by auto
  have "mem s1 0x30020 = 0x10000400" "mem s3 0x30020 = 0x10000123" "mem s3 0x3001C = 0"
    using s1(2) s3(2,3) p(4) by (simp_all add: demo_sys_fields)
  then show ?thesis using s1(1) s3(1) by blast
qed


end
