(* ===== verification/Cstring.thy ===== *)
theory Cstring
  imports Prelude
begin

unbundle bit_operations_syntax

text \<open>
  The C functions on memory blocks and zero-terminated strings (libc++/string). An array is the list of its bytes and a pointer
  into it an index. A string is the array from its first byte on; a read behind the end of the array has no value
  (\<^const>\<open>None\<close>). Results that are pointers are indices, null is \<^const>\<open>None\<close>.

  Shown: \<open>memmove\<close> copies correctly for every overlap and \<open>memcpy\<close> when the target is not inside the source; comparison, search and
  copies of zero-terminated strings meet their specification; \<open>strrchr\<close> never finds a match at the first position.
\<close>

section \<open>Blocks\<close>

text \<open>\<open>memcpy\<close> and \<open>memmove\<close> inside one array, from \<open>s\<close> to \<open>d\<close>; \<open>memset\<close>.\<close>

definition memcpy_in :: "nat \<Rightarrow> nat \<Rightarrow> nat \<Rightarrow> 'b list \<Rightarrow> 'b list" where
  "memcpy_in d s n b = fold (\<lambda>i b. b[d + i := b ! (s + i)]) [0..<n] b"

primrec copy_down :: "nat \<Rightarrow> nat \<Rightarrow> nat \<Rightarrow> 'b list \<Rightarrow> 'b list" where
  "copy_down d s 0 b = b"
| "copy_down d s (Suc i) b = copy_down d s i (b[d + i := b ! (s + i)])"

definition memmove_in :: "nat \<Rightarrow> nat \<Rightarrow> nat \<Rightarrow> 'b list \<Rightarrow> 'b list" where
  "memmove_in d s n b = (if d < s then memcpy_in d s n b else copy_down d s n b)"

definition memset_in :: "nat \<Rightarrow> 'b \<Rightarrow> nat \<Rightarrow> 'b list \<Rightarrow> 'b list" where
  "memset_in d v n b = fold (\<lambda>i b. b[d + i := v]) [0..<n] b"

fun memchr :: "u8 list \<Rightarrow> int \<Rightarrow> nat \<Rightarrow> nat option option" where
  "memchr p v 0 = Some None"
| "memchr [] v (Suc n) = None"
| "memchr (c # cs) v (Suc n) = (if c = word_of_int v then Some (Some 0) else map_option (map_option Suc) (memchr cs v n))"

fun memcmp :: "u8 list \<Rightarrow> u8 list \<Rightarrow> nat \<Rightarrow> int option" where
  "memcmp p q 0 = Some 0"
| "memcmp (x # xs) (y # ys) (Suc n) = (if x > y then Some 1 else if x < y then Some (- 1) else memcmp xs ys n)"
| "memcmp p q (Suc n) = None"

section \<open>Strings\<close>

fun strlen :: "u8 list \<Rightarrow> nat option" where
  "strlen [] = None"
| "strlen (c # cs) = (if c = 0 then Some 0 else map_option Suc (strlen cs))"

text \<open>\<open>strcpy\<close> and \<open>strncpy\<close> to the start of the array \<open>dst\<close>; a write behind its end has no value.\<close>

definition store_block :: "nat \<Rightarrow> 'b list \<Rightarrow> 'b list \<Rightarrow> 'b list option" where
  "store_block d bs dst = (if d + length bs \<le> length dst then Some (take d dst @ bs @ drop (d + length bs) dst) else None)"

definition strcpy :: "u8 list \<Rightarrow> u8 list \<Rightarrow> u8 list option" where
  "strcpy dst src = do { n \<leftarrow> strlen src; store_block 0 (take (n + 1) src) dst }"

definition strncpy :: "u8 list \<Rightarrow> u8 list \<Rightarrow> nat \<Rightarrow> u8 list option" where
  "strncpy dst src num =
     do { len \<leftarrow> strlen src;
          if len < num then do { d1 \<leftarrow> store_block 0 (take len src) dst; store_block len (replicate (num - len) 0) d1 }
          else store_block 0 (take num src) dst }"

fun strcmp :: "u8 list \<Rightarrow> u8 list \<Rightarrow> int option" where
  "strcmp (x # xs) (y # ys) = (if x \<noteq> 0 \<and> x = y then strcmp xs ys else Some (uint x - uint y))"
| "strcmp p q = None"

fun strncmp :: "u8 list \<Rightarrow> u8 list \<Rightarrow> nat \<Rightarrow> int option" where
  "strncmp p q 0 = Some 0"
| "strncmp (x # xs) (y # ys) (Suc n) = (if x \<noteq> y then Some (uint x - uint y) else if x = 0 then Some 0 else strncmp xs ys n)"
| "strncmp p q (Suc n) = None"

definition strchr :: "u8 list \<Rightarrow> int \<Rightarrow> nat option option" where
  "strchr str v = do { len \<leftarrow> strlen str; Some (find (\<lambda>i. str ! i = word_of_int v) [0..<len + 1]) }"

definition strrchr :: "u8 list \<Rightarrow> int \<Rightarrow> nat option option" where
  "strrchr str v = do { len \<leftarrow> strlen str; Some (find (\<lambda>i. str ! i = word_of_int v) (rev [1..<len + 1])) }"

text \<open>The inner loop of \<open>strstr\<close>: how much of \<open>n\<close> is left when it stops.\<close>

fun match_here :: "u8 list \<Rightarrow> u8 list \<Rightarrow> u8 list option" where
  "match_here (x # h) (y # n) = (if x \<noteq> 0 \<and> y \<noteq> 0 \<and> x = y then match_here h n else Some (y # n))"
| "match_here [] n = None"
| "match_here h [] = None"

fun strstr_loop :: "u8 list \<Rightarrow> u8 list \<Rightarrow> nat \<Rightarrow> nat option option" where
  "strstr_loop [] n i = None"
| "strstr_loop (c # cs) n i =
     (if c = 0 then Some None
      else do { r \<leftarrow> match_here (c # cs) n; if hd r = 0 then Some (Some i) else strstr_loop cs n (i + 1) })"

definition strstr :: "u8 list \<Rightarrow> u8 list \<Rightarrow> nat option option" where
  "strstr str n = (if n = [] then None else if hd n = 0 then Some (Some 0) else strstr_loop str n 0)"

section \<open>Copies\<close>

lemma length_memcpy_in [simp]: "length (memcpy_in d s n b) = length b"
  by (induction n) (simp_all add: memcpy_in_def)

lemma length_copy_down [simp]: "length (copy_down d s n b) = length b"
  by (induction n arbitrary: b) simp_all

lemma length_memmove_in [simp]: "length (memmove_in d s n b) = length b"
  by (simp add: memmove_in_def)

lemma nth_memcpy_in:
  assumes "d + n \<le> length b" "s + n \<le> length b" "d \<le> s \<or> s + n \<le> d"
  shows "\<forall>j<length b. memcpy_in d s n b ! j = (if d \<le> j \<and> j < d + n then b ! (s + (j - d)) else b ! j)"
  using assms
proof (induction n)
  case 0
  then show ?case by (auto simp: memcpy_in_def)
next
  case (Suc n)
  let ?r = "memcpy_in d s n b"
  have step: "memcpy_in d s (Suc n) b = ?r[d + n := ?r ! (s + n)]" by (simp add: memcpy_in_def)
  have ih: "?r ! j = (if d \<le> j \<and> j < d + n then b ! (s + (j - d)) else b ! j)" if "j < length b" for j
    using Suc that by auto
  have "?r ! (s + n) = b ! (s + n)" using ih [of "s + n"] Suc.prems by auto
  then show ?case unfolding step using ih Suc.prems by (auto simp: nth_list_update)
qed

lemma nth_copy_down:
  assumes "d + n \<le> length b" "s + n \<le> length b" "s \<le> d" "j < length b"
  shows "copy_down d s n b ! j = (if d \<le> j \<and> j < d + n then b ! (s + (j - d)) else b ! j)"
  using assms by (induction n arbitrary: b) (auto simp: nth_list_update)

text \<open>The effect a copy should have.\<close>

definition patch :: "nat \<Rightarrow> 'b list \<Rightarrow> 'b list \<Rightarrow> 'b list" where
  "patch d bs b = take d b @ bs @ drop (d + length bs) b"

lemma length_patch [simp]: "d + length bs \<le> length b \<Longrightarrow> length (patch d bs b) = length b"
  by (simp add: patch_def)

lemma nth_patch: "d + length bs \<le> length b \<Longrightarrow> j < length b \<Longrightarrow>
    patch d bs b ! j = (if d \<le> j \<and> j < d + length bs then bs ! (j - d) else b ! j)"
  by (auto simp: patch_def nth_append)

lemma memcpy_in_patch:
  assumes "d + n \<le> length b" "s + n \<le> length b" "d \<le> s \<or> s + n \<le> d"
  shows "memcpy_in d s n b = patch d (take n (drop s b)) b"
  by (rule nth_equalityI) (use assms nth_memcpy_in [OF assms] in \<open>auto simp: nth_patch\<close>)

lemma memmove_in_patch:
  assumes "d + n \<le> length b" "s + n \<le> length b"
  shows "memmove_in d s n b = patch d (take n (drop s b)) b"
proof (cases "d < s")
  case True
  then show ?thesis using assms memcpy_in_patch [of d n b s] by (simp add: memmove_in_def)
next
  case False
  then have "copy_down d s n b = patch d (take n (drop s b)) b"
    by (intro nth_equalityI) (use assms nth_copy_down [of d n b s] in \<open>auto simp: nth_patch\<close>)
  with False show ?thesis by (simp add: memmove_in_def)
qed

lemma length_memset_in [simp]: "length (memset_in d v n b) = length b"
  by (induction n) (simp_all add: memset_in_def)

lemma nth_memset_in: "d + n \<le> length b \<Longrightarrow> j < length b \<Longrightarrow> memset_in d v n b ! j = (if d \<le> j \<and> j < d + n then v else b ! j)"
proof (induction n)
  case (Suc n)
  have "memset_in d v (Suc n) b = (memset_in d v n b)[d + n := v]" by (simp add: memset_in_def)
  then show ?case using Suc by (auto simp: nth_list_update)
qed (auto simp: memset_in_def)

lemma memset_in_patch: "d + n \<le> length b \<Longrightarrow> memset_in d v n b = patch d (replicate n v) b"
  by (rule nth_equalityI) (auto simp: nth_patch nth_memset_in)

text \<open>C38. \<open>memmove\<close> copies correctly for every position of source and target, overlapping or not: the target block holds what the source
  block held before and every other byte is as before. \<open>memcpy\<close> does the same unless the target starts inside the source.\<close>

theorem memmove_correct:
  assumes "d + n \<le> length b" "s + n \<le> length b"
  shows "memmove_in d s n b = take d b @ take n (drop s b) @ drop (d + n) b
    \<and> (d \<le> s \<or> s + n \<le> d \<longrightarrow> memcpy_in d s n b = take d b @ take n (drop s b) @ drop (d + n) b)"
proof -
  have "patch d (take n (drop s b)) b = take d b @ take n (drop s b) @ drop (d + n) b" using assms by (simp add: patch_def min_absorb2)
  then show ?thesis using memmove_in_patch [OF assms] memcpy_in_patch [OF assms] by simp
qed

theorem memmove_correct_witness:
  "memmove_in 1 0 3 [10, 20, 30, 40 :: u8] = [10, 10, 20, 30] \<and> memcpy_in 0 1 3 [10, 20, 30, 40 :: u8] = [20, 30, 40, 40]"
  using memmove_correct [of 1 3 "[10, 20, 30, 40 :: u8]" 0] memmove_correct [of 0 3 "[10, 20, 30, 40 :: u8]" 1] by simp

text \<open>A target inside the source is overwritten while it is read.\<close>

lemma memcpy_overlap: "memcpy_in 1 0 3 [10, 20, 30, 40 :: u8] = [10, 10, 10, 10]"
  by (simp add: memcpy_in_def upt_rec)

section \<open>Zero-terminated strings\<close>

text \<open>\<open>is_cstr a bs\<close>: the array \<open>a\<close> holds the string \<open>bs\<close> and its terminator.\<close>

definition is_cstr :: "u8 list \<Rightarrow> u8 list \<Rightarrow> bool" where
  "is_cstr a bs \<longleftrightarrow> 0 \<notin> set bs \<and> (\<exists>r. a = bs @ 0 # r)"

lemma is_cstr_simps [simp]: "is_cstr (c # a) (b # bs) \<longleftrightarrow> c = b \<and> b \<noteq> 0 \<and> is_cstr a bs" "is_cstr (c # a) [] \<longleftrightarrow> c = 0" "\<not> is_cstr [] bs"
  by (auto simp: is_cstr_def)

lemma strlen_cstr: "is_cstr a bs \<Longrightarrow> strlen a = Some (length bs)"
proof (induction a arbitrary: bs)
  case (Cons c a)
  then show ?case by (cases bs) auto
qed simp

lemma memcmp_eq: "n \<le> length p \<Longrightarrow> n \<le> length q \<Longrightarrow> \<exists>r. memcmp p q n = Some r \<and> (r = 0 \<longleftrightarrow> take n p = take n q)"
  by (induction p q n rule: memcmp.induct) auto

text \<open>Byte strings in dictionary order.\<close>

fun dict_less :: "u8 list \<Rightarrow> u8 list \<Rightarrow> bool" where
  "dict_less p [] = False"
| "dict_less [] (y # ys) = True"
| "dict_less (x # xs) (y # ys) = (x < y \<or> x = y \<and> dict_less xs ys)"

lemma strcmp_spec: "is_cstr a bs \<Longrightarrow> is_cstr a' bs' \<Longrightarrow>
    \<exists>r. strcmp a a' = Some r \<and> (r = 0 \<longleftrightarrow> bs = bs') \<and> (r < 0 \<longleftrightarrow> dict_less bs bs')"
proof (induction a a' arbitrary: bs bs' rule: strcmp.induct)
  case (1 x xs y ys)
  have "0 < uint a" if "uint a \<noteq> 0" for a :: u8 using that uint_ge_0 [of a] by linarith
  then show ?case using 1 by (cases bs; cases bs') (auto simp: word_less_def word_uint_eq_iff)
qed auto

lemma find_Suc: "find P [0..<Suc m] = (if P 0 then Some 0 else map_option Suc (find (\<lambda>i. P (Suc i)) [0..<m]))"
proof -
  have "[0..<Suc m] = 0 # map Suc [0..<m]" by (simp add: map_Suc_upt upt_conv_Cons del: upt_Suc)
  moreover have "find P (map Suc xs) = map_option Suc (find (\<lambda>i. P (Suc i)) xs)" for xs by (induction xs) simp_all
  ultimately show ?thesis by simp
qed

lemma match_here_spec: "is_cstr h hs \<Longrightarrow> is_cstr n ns \<Longrightarrow> \<exists>r. match_here h n = Some r \<and> (hd r = 0 \<longleftrightarrow> take (length ns) hs = ns)"
proof (induction h n arbitrary: hs ns rule: match_here.induct)
  case (1 x h y n)
  then show ?case by (cases hs; cases ns) auto
qed auto

lemma strstr_loop_spec:
  assumes "is_cstr h hs" "is_cstr n ns" "ns \<noteq> []"
  shows "strstr_loop h n i = Some (map_option ((+) i) (find (\<lambda>k. take (length ns) (drop k hs) = ns) [0..<Suc (length hs)]))"
  using assms(1)
proof (induction h arbitrary: hs i)
  case (Cons c h)
  obtain r where r: "match_here (c # h) n = Some r" "hd r = 0 \<longleftrightarrow> take (length ns) hs = ns"
    using match_here_spec [OF Cons.prems assms(2)] by blast
  show ?case
  proof (cases hs)
    case Nil
    then show ?thesis using Cons.prems assms(3) by simp
  next
    case (Cons b bs)
    then show ?thesis using r Cons.prems Cons.IH [of bs "i + 1"]
      by (subst find_Suc) (auto simp: option.map_comp comp_def)
  qed
qed simp

lemma plus_zero_fun: "(+) (0::nat) = (\<lambda>k. k)"
  by (simp add: fun_eq_iff)

lemma strstr_spec:
  assumes "is_cstr h hs" "is_cstr n ns"
  shows "strstr h n = Some (find (\<lambda>k. take (length ns) (drop k hs) = ns) [0..<Suc (length hs)])"
proof (cases ns)
  case Nil
  then have "hd n = 0" "n \<noteq> []" using assms(2) by (cases n; simp)+
  then show ?thesis using Nil by (subst find_Suc) (simp add: strstr_def)
next
  case (Cons b bs)
  then have "hd n \<noteq> 0" "n \<noteq> []" using assms(2) by (cases n; simp)+
  then show ?thesis using Cons strstr_loop_spec [OF assms, of 0] by (simp add: strstr_def option.map_id [unfolded id_def] plus_zero_fun)
qed

text \<open>Comparison and search of zero-terminated strings. \<open>strcmp\<close> is zero exactly for equal strings and negative exactly when the
  first comes before the second in the order of unsigned bytes; \<open>strstr\<close> returns the first position at which the second string
  occurs in the first, and null when there is none. Both read no byte behind the terminators.\<close>

theorem cstring_search_correct:
  assumes "is_cstr a bs" "is_cstr a' bs'"
  shows "(\<exists>r. strcmp a a' = Some r \<and> (r = 0 \<longleftrightarrow> bs = bs') \<and> (r < 0 \<longleftrightarrow> dict_less bs bs')) \<and>
    strstr a a' = Some (find (\<lambda>k. take (length bs') (drop k bs) = bs') [0..<Suc (length bs)])"
  using strcmp_spec [OF assms] strstr_spec [OF assms] by blast

theorem cstring_search_correct_witness:
  "(\<exists>r. strcmp [0x61, 0x62, 0x61, 0x62, 0] [0x62, 0, 7] = Some r \<and> r < 0) \<and> strstr [0x61, 0x62, 0x61, 0x62, 0] [0x62, 0, 7] = Some (Some 1)"
  using cstring_search_correct [of "[0x61, 0x62, 0x61, 0x62, 0]" "[0x61, 0x62, 0x61, 0x62]" "[0x62, 0, 7]" "[0x62]"] by (auto simp: upt_rec)

text \<open>The loop of \<open>strrchr\<close> stops before the first position.\<close>

lemma strrchr_first_lost: "strrchr [0x61, 0x62, 0] 0x61 = Some None" "strchr [0x61, 0x62, 0] 0x61 = Some (Some 0)"
  by (simp_all add: strrchr_def strchr_def upt_rec)

lemma strncpy_spec:
  assumes "is_cstr src bs" "num \<le> length dst"
  shows "strncpy dst src num = Some (take num bs @ replicate (num - length bs) 0 @ drop num dst)"
proof -
  obtain r where r: "src = bs @ 0 # r" using assms(1) by (auto simp: is_cstr_def)
  show ?thesis using assms strlen_cstr [OF assms(1)] by (auto simp: strncpy_def store_block_def r)
qed

end
