(* ===== verification/Stdlib.thy ===== *)
theory Stdlib
  imports Cstring
begin

unbundle bit_operations_syntax

text \<open>
  Character classes (libc++/include/ctype.h), the 64-bit division routines the compiler calls, the conversions between numbers and
  text, and the fixed-pool \<open>malloc\<close> of libc++/stdlib. A result is a \<^typ>\<open>'a kres\<close>: no value when the loop does not end, a left
  value for a processor exception or an access behind the array.

  Shown: the shift-and-subtract division computes quotient and remainder, except where its 32-bit shortcut ignores the upper
  half of the divisor; the text of a number, read back, is the number; the pool of \<open>malloc\<close> serves one block at a time.
\<close>

section \<open>Character classes\<close>

definition isdigit :: "int \<Rightarrow> bool" where
  "isdigit ch \<longleftrightarrow> 0x30 \<le> ch \<and> ch \<le> 0x39"

definition isupper :: "int \<Rightarrow> bool" where
  "isupper ch \<longleftrightarrow> 0x41 \<le> ch \<and> ch \<le> 0x46 \<or> 0x47 \<le> ch \<and> ch \<le> 0x5A"

definition islower :: "int \<Rightarrow> bool" where
  "islower ch \<longleftrightarrow> 0x61 \<le> ch \<and> ch \<le> 0x66 \<or> 0x67 \<le> ch \<and> ch \<le> 0x7A"

definition isalpha :: "int \<Rightarrow> bool" where
  "isalpha ch \<longleftrightarrow> 0x41 \<le> ch \<and> ch \<le> 0x46 \<or> 0x47 \<le> ch \<and> ch \<le> 0x5A \<or> 0x61 \<le> ch \<and> ch \<le> 0x66 \<or> 0x67 \<le> ch \<and> ch \<le> 0x7A"

definition isalnum :: "int \<Rightarrow> bool" where
  "isalnum ch \<longleftrightarrow> isdigit ch \<or> isalpha ch"

definition isblank :: "int \<Rightarrow> bool" where
  "isblank ch \<longleftrightarrow> ch = 0x09 \<or> ch = 0x20"

definition iscntrl :: "int \<Rightarrow> bool" where
  "iscntrl ch \<longleftrightarrow> 0x00 \<le> ch \<and> ch \<le> 0x08 \<or> 0x0A \<le> ch \<and> ch \<le> 0x0D \<or> 0x0E \<le> ch \<and> ch \<le> 0x1F \<or> ch = 0x09 \<or> ch = 0x7F"

definition isxdigit :: "int \<Rightarrow> bool" where
  "isxdigit ch \<longleftrightarrow> isdigit ch \<or> 0x41 \<le> ch \<and> ch \<le> 0x46 \<or> 0x61 \<le> ch \<and> ch \<le> 0x66"

definition ispunct :: "int \<Rightarrow> bool" where
  "ispunct ch \<longleftrightarrow> 0x21 \<le> ch \<and> ch \<le> 0x2F \<or> 0x3A \<le> ch \<and> ch \<le> 0x40 \<or> 0x5B \<le> ch \<and> ch \<le> 0x60 \<or> 0x7B \<le> ch \<and> ch \<le> 0x7E"

definition isspace :: "int \<Rightarrow> bool" where
  "isspace ch \<longleftrightarrow> ch = 0x20 \<or> ch = 0x09 \<or> 0x0A \<le> ch \<and> ch \<le> 0x0D"

definition isgraph :: "int \<Rightarrow> bool" where
  "isgraph ch \<longleftrightarrow> ispunct ch \<or> isalnum ch"

definition isprint :: "int \<Rightarrow> bool" where
  "isprint ch \<longleftrightarrow> isgraph ch \<or> isspace ch"

definition tolower :: "int \<Rightarrow> int" where
  "tolower ch = (if \<not> isupper ch then ch else ch + (0x61 - 0x41))"

definition toupper :: "int \<Rightarrow> int" where
  "toupper ch = (if \<not> islower ch then ch else ch - (0x61 - 0x41))"

lemmas ctype_defs = isdigit_def isupper_def islower_def isalpha_def isalnum_def isblank_def iscntrl_def isxdigit_def ispunct_def
  isspace_def isgraph_def isprint_def tolower_def toupper_def

text \<open>The classes cut up the ASCII range: every code is a control character, the space or graphical, and only one of them;
  the two case conversions undo each other on letters.\<close>

lemma ctype_partition:
  "0 \<le> ch \<Longrightarrow> ch < 128 \<Longrightarrow> (iscntrl ch \<or> ch = 0x20 \<or> isgraph ch) \<and> \<not> (iscntrl ch \<and> isgraph ch) \<and> \<not> (ispunct ch \<and> isalnum ch)"
  unfolding ctype_defs by presburger

lemma ctype_case:
  "islower ch \<Longrightarrow> tolower (toupper ch) = ch" "isupper ch \<Longrightarrow> toupper (tolower ch) = ch"
  "isalpha ch \<longleftrightarrow> isupper ch \<or> islower ch" "\<not> (isupper ch \<and> islower ch)"
  by (auto simp: ctype_defs)

section \<open>64-bit division\<close>

text \<open>The loop that moves the divisor up under the dividend. It does not end for a divisor of zero.\<close>

partial_function (option) align_divisor :: "u64 \<Rightarrow> u64 \<Rightarrow> nat \<Rightarrow> (u64 \<times> nat) option" where
  "align_divisor a b s = (if b \<le> a \<and> \<not> bit b 63 then align_divisor a (push_bit 1 b) (s + 1) else Some (b, s))"

text \<open>The loop that subtracts, on \<open>shift + 1\<close>; it returns the quotient and what is left of the dividend.\<close>

primrec subtract_loop :: "nat \<Rightarrow> u64 \<Rightarrow> u64 \<Rightarrow> u64 \<Rightarrow> u64 \<times> u64" where
  "subtract_loop 0 a b q = (q, a)"
| "subtract_loop (Suc s) a b q =
     (if b \<le> a then subtract_loop s (a - b) (drop_bit 1 b) (q OR push_bit s 1) else subtract_loop s a (drop_bit 1 b) q)"

definition udivmoddi4 :: "u64 \<Rightarrow> u64 \<Rightarrow> (u64 \<times> u64) kres" where
  "udivmoddi4 a b =
     (if b = 0 then kret (0, 0)
      else let a_lo = ucast a :: u32; a_hi = ucast (drop_bit 32 a) :: u32; b_lo = ucast b :: u32 in
        if a_hi = 0 \<and> b_lo \<le> a_lo
        then if b_lo = 0 then kpanic ''divide error'' else kret (ucast (a_lo div b_lo), ucast (a_lo mod b_lo))
        else of_opt (do { (divisor, s) \<leftarrow> align_divisor a b 0; Some (subtract_loop (Suc s) a divisor 0) }))"

definition udivdi3 :: "u64 \<Rightarrow> u64 \<Rightarrow> u64 kres" where
  "udivdi3 a b =
     (if b = 0 then kret 0
      else let a_lo = ucast a :: u32; a_hi = ucast (drop_bit 32 a) :: u32; b_lo = ucast b :: u32 in
        if a_hi = 0 \<and> b_lo \<le> a_lo then if b_lo = 0 then kpanic ''divide error'' else kret (ucast (a_lo div b_lo))
        else of_opt (do { (b, s) \<leftarrow> align_divisor a b 0; Some (fst (subtract_loop (Suc s) a b 0)) }))"

definition umoddi3 :: "u64 \<Rightarrow> u64 \<Rightarrow> u64 kres" where
  "umoddi3 a b =
     (if b = 0 then kret 0
      else let a_lo = ucast a :: u32; a_hi = ucast (drop_bit 32 a) :: u32; b_lo = ucast b :: u32 in
        if a_hi = 0 \<and> b_lo \<le> a_lo then if b_lo = 0 then kpanic ''divide error'' else kret (ucast (a_lo mod b_lo))
        else of_opt (do { (b, s) \<leftarrow> align_divisor a b 0; Some (snd (subtract_loop (Suc s) a b 0)) }))"

lemma unat_bit63: "bit (w :: u64) 63 \<longleftrightarrow> 2 ^ 63 \<le> unat w"
proof -
  have "bit w 63 \<longleftrightarrow> bit (unat w) 63" by (simp add: bit_simps)
  moreover have "unat w div 2 ^ 63 < 2" using unsigned_less [of w, where 'a = nat] by (simp add: less_mult_imp_div_less)
  ultimately show ?thesis by (auto simp: bit_iff_odd less_2_cases_iff div_eq_0_iff)
qed

lemma align_divisor_spec:
  assumes "unat d * 2 ^ s = unat b" "d \<noteq> 0"
  shows "\<exists>b' s'. align_divisor a b s = Some (b', s') \<and> unat d * 2 ^ s' = unat b' \<and> unat a < 2 * unat b'"
  using assms(1)
proof (induction "2 ^ 64 - unat b" arbitrary: b s rule: less_induct)
  case less
  have pos: "0 < unat b" using less.prems assms(2) by (metis nat_0_less_mult_iff unat_gt_0 zero_less_numeral zero_less_power)
  have ua: "unat a < 2 ^ 64" using unsigned_less [of a, where 'a = nat] by simp
  show ?case
  proof (cases "b \<le> a \<and> \<not> bit b 63")
    case True
    then have lt: "unat b < 2 ^ 63" by (simp add: unat_bit63)
    then have dbl: "unat (push_bit 1 b) = 2 * unat b" by (simp add: push_bit_eq_mult unat_word_ariths)
    have "unat d * 2 ^ (s + 1) = unat (push_bit 1 b)" using dbl less.prems by simp
    then have "\<exists>b' s'. align_divisor a (push_bit 1 b) (s + 1) = Some (b', s') \<and> unat d * 2 ^ s' = unat b' \<and> unat a < 2 * unat b'"
      using dbl lt pos by (intro less.hyps) simp_all
    then show ?thesis using True by (subst align_divisor.simps) simp
  next
    case False
    then have "unat a < 2 * unat b" using ua by (auto simp: unat_bit63 not_le word_less_nat_alt)
    then show ?thesis using False less.prems by (subst align_divisor.simps) auto
  qed
qed

lemma or_low_bit: "take_bit (Suc s) (q :: u64) = 0 \<Longrightarrow> q OR push_bit s 1 = q + push_bit s 1"
proof -
  assume a: "take_bit (Suc s) q = 0"
  have "\<not> bit q s" using arg_cong [OF a, of "\<lambda>w. bit w s"] by (simp add: bit_simps)
  then have "q AND push_bit s 1 = 0" by (intro bit_eqI) (auto simp: bit_simps)
  then show ?thesis by (rule disjunctive_add_eq_or [symmetric])
qed

text \<open>Subtracting the divisor shifted by \<open>k\<close> takes \<open>2 ^ k\<close> off the quotient and leaves the remainder.\<close>

lemma word_div_step:
  assumes "unat b = unat d * 2 ^ k" "b \<le> a" "(d :: u64) \<noteq> 0"
  shows "a div d = push_bit k 1 + (a - b) div d" "a mod d = (a - b) mod d"
proof -
  have ge: "unat d * 2 ^ k \<le> unat a" using assms by (simp add: word_le_nat_alt)
  have sub: "unat (a - b) = unat a - unat d * 2 ^ k" using assms by (simp add: unat_sub)
  have d: "0 < unat d" using assms(3) by (simp add: unat_gt_0)
  have "k < 64"
  proof (rule ccontr)
    assume "\<not> k < 64"
    then have "(2::nat) ^ 64 \<le> 2 ^ k" by (intro power_increasing) simp_all
    also have "\<dots> \<le> unat d * 2 ^ k" using d by simp
    finally show False using ge unsigned_less [of a, where 'a = nat] by simp
  qed
  then have p: "unat (push_bit k (1::u64)) = 2 ^ k"
    unfolding unsigned_push_bit_eq by (simp add: push_bit_eq_mult take_bit_nat_eq_self)
  have "unat a = (unat a - unat d * 2 ^ k) + 2 ^ k * unat d" using ge by simp
  then have q: "unat a div unat d = (unat a - unat d * 2 ^ k) div unat d + 2 ^ k"
    and r: "unat a mod unat d = (unat a - unat d * 2 ^ k) mod unat d"
    using d div_mult_self1 [of "unat d" "unat a - unat d * 2 ^ k" "2 ^ k"] mod_mult_self1 [of "unat a - unat d * 2 ^ k" "2 ^ k" "unat d"] by simp_all
  have "unat a div unat d < 2 ^ 64" using unsigned_less [of "a div d", where 'a = nat] by (simp add: unat_div_distrib)
  with q show "a div d = push_bit k 1 + (a - b) div d"
    by (simp add: word_unat_eq_iff unat_div_distrib sub unat_word_ariths(1) p del: push_bit_of_1)
  show "a mod d = (a - b) mod d" using r by (simp add: word_unat_eq_iff unat_mod_distrib sub)
qed

lemma word_div_small: "(a :: u64) < d \<Longrightarrow> a div d = 0 \<and> a mod d = a"
  by (simp add: word_unat_eq_iff unat_div_distrib unat_mod_distrib word_less_nat_alt)

text \<open>The loop divides when the dividend is below twice the aligned divisor.\<close>

lemma subtract_loop_spec:
  assumes "unat b = unat d * 2 ^ s" "unat a < 2 * unat b" "take_bit (Suc s) q = 0" "d \<noteq> 0"
  shows "subtract_loop (Suc s) a b q = (q + a div d, a mod d)"
  using assms(1-3)
proof (induction s arbitrary: a b q)
  case 0
  then have b: "b = d" by (simp add: word_unat_eq_iff)
  have "a - d < d" if "d \<le> a" using 0 that by (simp add: b word_less_nat_alt word_le_nat_alt unat_sub)
  then show ?case using word_div_step [of d d 0 a] assms(4) word_div_small [of "a - d" d] word_div_small [of a d] "0.prems"(3) or_low_bit [of 0 q]
    by (auto simp: b not_le)
next
  case (Suc s)
  have half: "unat (drop_bit 1 b) = unat d * 2 ^ s" using Suc.prems(1) by (simp add: drop_bit_eq_div unat_div_distrib)
  have low: "take_bit (Suc s) q = 0"
    using arg_cong [OF Suc.prems(3), of "take_bit (Suc s)"] by (simp add: take_bit_take_bit)
  show ?case
  proof (cases "b \<le> a")
    case True
    have lt: "unat (a - b) < 2 * unat (drop_bit 1 b)" using Suc.prems(1,2) half True by (simp add: word_le_nat_alt unat_sub)
    have low': "take_bit (Suc s) (q OR push_bit (Suc s) 1) = 0" using low by (simp add: take_bit_or) (simp add: take_bit_eq_mod flip: power_Suc)
    show ?thesis using True Suc.IH [OF half lt low'] or_low_bit [OF Suc.prems(3)] word_div_step [OF Suc.prems(1) True assms(4)]
      by (subst subtract_loop.simps) (simp add: add.assoc del: subtract_loop.simps push_bit_of_1)
  next
    case False
    then have lt: "unat a < 2 * unat (drop_bit 1 b)" using half Suc.prems(1) by (simp add: not_le word_less_nat_alt)
    show ?thesis using Suc.IH [OF half lt low] False by simp
  qed
qed

lemma long_division:
  assumes "b \<noteq> 0"
  shows "\<exists>d s. align_divisor a b 0 = Some (d, s) \<and> subtract_loop (Suc s) a d 0 = (a div b, a mod b)"
proof -
  obtain d s where "align_divisor a b 0 = Some (d, s)" "unat b * 2 ^ s = unat d" "unat a < 2 * unat d"
    using align_divisor_spec [of b 0 b a] assms by auto
  then show ?thesis using subtract_loop_spec [of d b s a 0] assms by auto
qed

lemma unat_ucast_up: "unat (ucast (w :: u32) :: u64) = unat w"
  using unsigned_less [of w, where 'a = nat] by (simp add: unsigned_ucast_eq take_bit_nat_eq_self)

lemma upper_half_zero: "ucast (drop_bit 32 a) = (0 :: u32) \<longleftrightarrow> (a :: u64) < 2 ^ 32"
proof -
  have "unat (drop_bit 32 a) < 2 ^ 32" using unsigned_less [of a, where 'a = nat]
    by (simp add: drop_bit_eq_div unat_div_distrib less_mult_imp_div_less)
  then show ?thesis
    by (simp add: word_unat_eq_iff unsigned_ucast_eq take_bit_nat_eq_self drop_bit_eq_div unat_div_distrib div_eq_0_iff word_less_nat_alt)
qed

text \<open>Where the 32-bit shortcut applies and the divisor fits in 32 bits, it is the division.\<close>

lemma native_division:
  assumes "ucast (drop_bit 32 a) = (0 :: u32)" "(b :: u64) < 2 ^ 32"
  shows "ucast ((ucast a :: u32) div ucast b) = a div b" "ucast ((ucast a :: u32) mod ucast b) = a mod b"
proof -
  have "unat a < 2 ^ 32" using assms(1) by (simp add: upper_half_zero word_less_nat_alt)
  moreover have "unat b < 2 ^ 32" using assms(2) by (simp add: word_less_nat_alt)
  ultimately have "unat (ucast a :: u32) = unat a" "unat (ucast b :: u32) = unat b"
    by (simp_all add: unsigned_ucast_eq take_bit_nat_eq_self)
  then show "ucast ((ucast a :: u32) div ucast b) = a div b" "ucast ((ucast a :: u32) mod ucast b) = a mod b"
    by (simp_all only: word_unat_eq_iff unat_ucast_up unat_div_distrib unat_mod_distrib)
qed

text \<open>The inputs at which the shortcut loses the upper half of the divisor.\<close>

definition shortcut_wrong :: "u64 \<Rightarrow> u64 \<Rightarrow> bool" where
  "shortcut_wrong a b \<longleftrightarrow> a < 2 ^ 32 \<and> 2 ^ 32 \<le> b \<and> (ucast b :: u32) \<le> ucast a"

lemma shortcut_quotient:
  assumes "shortcut_wrong a b" "(ucast b :: u32) \<noteq> 0"
  shows "ucast ((ucast a :: u32) div ucast b) \<noteq> (0 :: u64) \<and> a div b = 0"
proof -
  have "0 < unat (ucast b :: u32)" "unat (ucast b :: u32) \<le> unat (ucast a :: u32)"
    using assms by (simp_all add: shortcut_wrong_def word_le_nat_alt unat_gt_0)
  then have "0 < unat ((ucast a :: u32) div ucast b)" by (simp add: unat_div_distrib div_greater_zero_iff)
  then have "ucast ((ucast a :: u32) div ucast b) \<noteq> (0 :: u64)"
    by (metis less_irrefl unat_ucast_up unsigned_0)
  moreover have "a < b" using assms(1) by (auto simp: shortcut_wrong_def)
  ultimately show ?thesis using word_div_small by blast
qed

text \<open>C37. The 64-bit division routines. For every dividend and every divisor but zero, the three routines return, and with the quotient
  and the remainder of the division, unless the dividend fits in 32 bits, the divisor does not, and the lower half of the divisor
  is not above the dividend. In that case the 32-bit shortcut divides by the lower half alone: by zero, a divide error, when
  that half is zero, and otherwise with a quotient of at least one where it should be zero.\<close>

theorem udivmod_correct:
  assumes "b \<noteq> 0"
  shows "(\<not> shortcut_wrong a b \<longrightarrow> udivdi3 a b = kret (a div b) \<and> umoddi3 a b = kret (a mod b) \<and> udivmoddi4 a b = kret (a div b, a mod b)) \<and>
    (shortcut_wrong a b \<and> (ucast b :: u32) = 0 \<longrightarrow> udivdi3 a b = kpanic ''divide error'') \<and>
    (shortcut_wrong a b \<and> (ucast b :: u32) \<noteq> 0 \<longrightarrow> (\<exists>q. udivdi3 a b = kret q \<and> q \<noteq> 0 \<and> a div b = 0))"
proof (intro conjI impI)
  assume n: "\<not> shortcut_wrong a b"
  obtain d s where ld: "align_divisor a b 0 = Some (d, s)" "subtract_loop (Suc s) a d 0 = (a div b, a mod b)"
    using long_division [OF assms] by blast
  have nat: "ucast ((ucast a :: u32) div ucast b) = a div b \<and> ucast ((ucast a :: u32) mod ucast b) = a mod b \<and> (ucast b :: u32) \<noteq> 0"
    if "ucast (drop_bit 32 a) = (0 :: u32)" "(ucast b :: u32) \<le> ucast a"
  proof -
    have "b < 2 ^ 32" using n that by (auto simp: shortcut_wrong_def upper_half_zero not_le)
    moreover from this have "(ucast b :: u32) \<noteq> 0" using assms
      by (auto simp: word_unat_eq_iff unsigned_ucast_eq take_bit_nat_eq_self word_less_nat_alt)
    ultimately show ?thesis using native_division [OF that(1)] by blast
  qed
  show "udivdi3 a b = kret (a div b)" "umoddi3 a b = kret (a mod b)" "udivmoddi4 a b = kret (a div b, a mod b)"
    using assms ld nat by (simp_all add: udivdi3_def umoddi3_def udivmoddi4_def Let_def del: subtract_loop.simps)
qed (use assms shortcut_quotient [of a b] in \<open>auto simp: udivdi3_def Let_def shortcut_wrong_def upper_half_zero\<close>)

theorem udivmod_correct_witness:
  "udivdi3 0x123456789AB 0x100000007 = kret 0x123 \<and> umoddi3 0x123456789AB 0x100000007 = kret 0x456781B6 \<and>
   udivdi3 5 0x100000000 = kpanic ''divide error''"
  using udivmod_correct [of "0x100000007" "0x123456789AB"] udivmod_correct [of "0x100000000" 5] by (simp add: shortcut_wrong_def)

section \<open>Numbers to text\<close>

text \<open>The character of a digit; \<open>char\<close> is signed where \<open>toupper\<close> reads it.\<close>

definition digit_char :: "bool \<Rightarrow> nat \<Rightarrow> u8" where
  "digit_char upcase r =
     (let c = word_of_nat (if r < 10 then r + 0x30 else r + 0x61 - 10) :: u8 in if upcase then word_of_int (toupper (sint c)) else c)"

text \<open>The loop of \<open>utos\<close>, \<open>ltos\<close> and \<open>itos\<close>: the digits of \<open>num\<close>, the lowest first, from index \<open>i\<close> on. A base of zero
  divides by zero; a base of one runs over the end of the array.\<close>

function digit_loop :: "nat \<Rightarrow> bool \<Rightarrow> nat \<Rightarrow> nat \<Rightarrow> u8 list \<Rightarrow> (nat \<times> u8 list) kres" where
  "digit_loop base upcase num i str =
     (if num = 0 then kret (i, str)
      else if base = 0 then kpanic ''divide error''
      else if length str \<le> i then kpanic ''write behind the array''
      else digit_loop base upcase (num div base) (i + 1) (str[i := digit_char upcase (num mod base)]))"
  by pat_completeness auto

termination
  by (relation "measure (\<lambda>(base, upcase, num, i, str). length str - i)") auto

declare digit_loop.simps [simp del]

text \<open>The digits of a number, or the single zero.\<close>

definition put_digits :: "nat \<Rightarrow> u8 list \<Rightarrow> nat \<Rightarrow> bool \<Rightarrow> (nat \<times> u8 list) kres" where
  "put_digits num str base upcase =
     (if num = 0 then if str = [] then kpanic ''write behind the array'' else kret (1, str[0 := 0x30]) else digit_loop base upcase num 0 str)"

text \<open>The loop that swaps from both ends.\<close>

function reverse_loop :: "nat \<Rightarrow> nat \<Rightarrow> u8 list \<Rightarrow> u8 list" where
  "reverse_loop i j str = (if j < i then reverse_loop (i - 1) (j + 1) (str[i := str ! j, j := str ! i]) else str)"
  by pat_completeness auto

termination
  by (relation "measure (\<lambda>(i, j, str). i)") auto

declare reverse_loop.simps [simp del]

definition terminate_reverse :: "nat \<times> u8 list \<Rightarrow> u8 list kres" where
  "terminate_reverse r =
     (case r of (i, str) \<Rightarrow> if length str \<le> i then kpanic ''write behind the array'' else kret (reverse_loop (i - 1) 0 (str[i := 0])))"

definition utos :: "u32 \<Rightarrow> u8 list \<Rightarrow> u8 \<Rightarrow> bool \<Rightarrow> u8 list kres" where
  "utos num str base upcase = kbind (put_digits (unat num) str (unat base) upcase) terminate_reverse"

definition ltos :: "u64 \<Rightarrow> u8 list \<Rightarrow> u8 \<Rightarrow> bool \<Rightarrow> u8 list kres" where
  "ltos num str base upcase = kbind (put_digits (unat num) str (unat base) upcase) terminate_reverse"

text \<open>\<open>itos\<close> collects the digits in a buffer of 33 bytes and copies them from its end; \<open>o\<close> counts what is already in \<open>str\<close>.\<close>

primrec copy_reversed :: "nat \<Rightarrow> u8 list \<Rightarrow> nat \<Rightarrow> u8 list \<Rightarrow> u8 list option" where
  "copy_reversed 0 buf p str = store_block p [0] str"
| "copy_reversed (Suc i) buf p str = do { str \<leftarrow> store_block p [buf ! i] str; copy_reversed i buf (p + 1) str }"

definition itos :: "u32 \<Rightarrow> u8 list \<Rightarrow> u8 \<Rightarrow> bool \<Rightarrow> u8 list kres" where
  "itos num str base upcase =
     (let neg = sint num < 0; unum = (if neg then - num else num); sign = (if neg then [0x2D] else []) in
      case store_block 0 sign str of None \<Rightarrow> kpanic ''write behind the array''
      | Some str \<Rightarrow> kbind (put_digits (unat unum) (replicate 33 0) (unat base) upcase)
          (\<lambda>(i, buf). case copy_reversed i buf (length sign) str of None \<Rightarrow> kpanic ''write behind the array'' | Some r \<Rightarrow> kret r))"

section \<open>Text to numbers\<close>

text \<open>One pass of the loop of \<open>strtoull\<close> at the character \<open>ch\<close> followed by \<open>cs\<close>: nothing when it breaks, otherwise how many further
  characters it skips, the value and the base.\<close>

definition digit_value :: "int \<Rightarrow> int" where
  "digit_value ch = (let ich = (if isupper ch then tolower ch else ch) - 0x30 in if ich > 10 then ich - (0x30 - 10) - 1 else ich)"

definition strtoull_step :: "u8 \<Rightarrow> u8 list \<Rightarrow> u64 \<Rightarrow> int \<Rightarrow> (nat \<times> u64 \<times> int) option" where
  "strtoull_step ch cs res base =
     (if ch = 0x2D \<or> ch = 0x2B then Some (0, res, base)
      else if isspace (sint ch) \<and> res = 0 then Some (0, res, base)
      else if base = 0 \<and> res = 0 \<and> cs \<noteq> [] \<and> ch = 0x30 \<and> (hd cs = 0x78 \<or> hd cs = 0x58) then Some (1, res, 16)
      else if base = 0 \<and> res = 0 \<and> ch = 0x30 then Some (0, res, 8)
      else if \<not> (if base \<noteq> 16 then isdigit (sint ch) else isxdigit (sint ch)) then None
      else let base = (if base = 0 then 10 else base) in Some (0, res * word_of_int base + word_of_int (digit_value (sint ch)), base))"

text \<open>The loop on the characters from index \<open>i\<close> on; it returns the value and the index it stopped at.\<close>

fun strtoull_loop :: "u8 list \<Rightarrow> nat \<Rightarrow> u64 \<Rightarrow> int \<Rightarrow> u64 \<times> nat" where
  "strtoull_loop [] i res base = (res, i)"
| "strtoull_loop (ch # cs) i res base =
     (case strtoull_step ch cs res base of None \<Rightarrow> (res, i)
      | Some (k, res, base) \<Rightarrow> strtoull_loop (drop k cs) (i + 1 + k) res base)"

definition strtoull :: "u8 list \<Rightarrow> int \<Rightarrow> (u64 \<times> nat) option" where
  "strtoull str base = do { len \<leftarrow> strlen str; Some (strtoull_loop (take len str) 0 0 base) }"

text \<open>The sign is looked for behind leading white space only; the negation of the smallest value wraps.\<close>

fun sign_loop :: "u8 list \<Rightarrow> u64 \<Rightarrow> u64" where
  "sign_loop [] res = res"
| "sign_loop (ch # cs) res = (if isspace (sint ch) then sign_loop cs res else if ch = 0x2D then res * - 1 else res)"

definition strtoll :: "u8 list \<Rightarrow> int \<Rightarrow> (u64 \<times> nat) option" where
  "strtoll str base =
     do { (res, stop) \<leftarrow> strtoull str base; len \<leftarrow> strlen str; Some (if res = 0 then res else sign_loop (take len str) res, stop) }"

definition strtol :: "u8 list \<Rightarrow> int \<Rightarrow> (u32 \<times> nat) option" where
  "strtol str base = map_option (\<lambda>(res, stop). (ucast res, stop)) (strtoll str base)"

definition strtoul :: "u8 list \<Rightarrow> int \<Rightarrow> (u32 \<times> nat) option" where
  "strtoul str base = map_option (\<lambda>(res, stop). (ucast res, stop)) (strtoull str base)"

definition atoi :: "u8 list \<Rightarrow> u32 option" where
  "atoi str = map_option fst (strtol str 10)"

definition atol :: "u8 list \<Rightarrow> u64 option" where
  "atol str = map_option fst (strtoll str 10)"

section \<open>The text of a number\<close>

text \<open>The digits of a number, the highest first.\<close>

fun digits :: "nat \<Rightarrow> nat \<Rightarrow> nat list" where
  "digits base n = (if base < 2 \<or> n < base then [n] else digits base (n div base) @ [n mod base])"

declare digits.simps [simp del]

definition numeral_text :: "nat \<Rightarrow> bool \<Rightarrow> nat \<Rightarrow> u8 list" where
  "numeral_text base upcase n = map (digit_char upcase) (digits base n)"

lemma digits_not_Nil [simp]: "digits base n \<noteq> []"
  by (subst digits.simps) simp

lemma digits_div: "2 \<le> base \<Longrightarrow> base \<le> n \<Longrightarrow> digits base n = digits base (n div base) @ [n mod base]"
  by (subst digits.simps) simp

lemma digits_length: "2 \<le> base \<Longrightarrow> n < 2 ^ k \<Longrightarrow> 0 < k \<Longrightarrow> length (digits base n) \<le> k"
proof (induction base n arbitrary: k rule: digits.induct)
  case (1 base n)
  show ?case
  proof (cases "n < base")
    case True
    then show ?thesis using 1 by (simp add: digits.simps)
  next
    case False
    have "n div base \<le> n div 2" using "1.prems"(1) by (simp add: div_le_mono2)
    moreover have "n div 2 < 2 ^ (k - 1)" using "1.prems" by (cases k) auto
    moreover have "0 < k - 1" using False "1.prems" by (cases "k = 1") auto
    ultimately have "length (digits base (n div base)) \<le> k - 1" using 1 False by simp
    then show ?thesis using False "1.prems" by (simp add: digits_div)
  qed
qed

lemma digit_loop_spec:
  assumes "2 \<le> base" "0 < num" "i + length (digits base num) \<le> length str"
  shows "digit_loop base upcase num i str = kret (i + length (digits base num), patch i (rev (numeral_text base upcase num)) str)"
  using assms
proof (induction base num arbitrary: i str rule: digits.induct)
  case (1 base n)
  let ?s = "str[i := digit_char upcase (n mod base)]"
  have "i < length str" using "1.prems"(3) digits_not_Nil [of base n] by (cases "digits base n") (simp_all del: digits_not_Nil)
  then have s: "digit_loop base upcase n i str = digit_loop base upcase (n div base) (i + 1) ?s"
    using "1.prems" by (subst digit_loop.simps) auto
  show ?case
  proof (cases "n < base")
    case True
    then show ?thesis using "1.prems" by (simp add: s digit_loop.simps digits.simps numeral_text_def patch_def upd_conv_take_nth_drop)
  next
    case False
    then have d: "digits base n = digits base (n div base) @ [n mod base]" using "1.prems" by (simp add: digits_div)
    have "0 < n div base" using False "1.prems" by (simp add: div_greater_zero_iff)
    then have "digit_loop base upcase (n div base) (i + 1) ?s =
        kret (i + 1 + length (digits base (n div base)), patch (i + 1) (rev (numeral_text base upcase (n div base))) ?s)"
      using 1 False d by simp
    then show ?thesis using "1.prems"(3) d
      by (simp add: s numeral_text_def patch_def upd_conv_take_nth_drop take_update_swap)
  qed
qed

lemma length_reverse_loop [simp]: "length (reverse_loop i j str) = length str"
  by (induction i j str rule: reverse_loop.induct) (subst reverse_loop.simps, auto)

lemma nth_reverse_loop: "i < length str \<Longrightarrow> p < length str \<Longrightarrow>
    reverse_loop i j str ! p = (if j \<le> p \<and> p \<le> i then str ! (i + j - p) else str ! p)"
proof (induction i j str rule: reverse_loop.induct)
  case (1 i j str)
  show ?case
  proof (cases "j < i")
    case True
    then show ?thesis using 1 by (subst reverse_loop.simps) (auto simp: nth_list_update)
  next
    case False
    then show ?thesis using 1 by (subst reverse_loop.simps) (cases "p = i"; auto simp: not_less)
  qed
qed

lemma reverse_prefix: "t \<noteq> [] \<Longrightarrow> reverse_loop (length t - 1) 0 (t @ r) = rev t @ r"
  by (rule nth_equalityI) (cases t; auto simp: nth_reverse_loop nth_append rev_nth)+

text \<open>The text ends up at the start of the array, the rest of the array is as before.\<close>

lemma put_digits_spec:
  assumes "2 \<le> base" "length (digits base num) \<le> length str"
  shows "put_digits num str base upcase = kret (length (digits base num), patch 0 (rev (numeral_text base upcase num)) str)"
proof (cases "num = 0")
  case True
  then show ?thesis using assms
    by (cases str) (simp_all add: put_digits_def patch_def digits.simps numeral_text_def digit_char_def toupper_def islower_def)
next
  case False
  then show ?thesis using assms digit_loop_spec [of base num 0 str upcase] by (simp add: put_digits_def)
qed

lemma length_numeral_text [simp]: "length (numeral_text base upcase n) = length (digits base n)"
  by (simp add: numeral_text_def)

lemma numeral_text_not_Nil [simp]: "numeral_text base upcase n \<noteq> []"
  by (simp add: numeral_text_def)

lemma terminate_reverse_spec:
  assumes "t \<noteq> []" "length t < length str"
  shows "terminate_reverse (length t, patch 0 (rev t) str) = kret (patch 0 (t @ [0]) str)"
proof -
  have "(patch 0 (rev t) str)[length t := 0] = rev t @ 0 # drop (Suc (length t)) str"
    using assms by (simp add: patch_def list_update_append upd_conv_take_nth_drop Suc_diff_le)
  then show ?thesis using assms reverse_prefix [of "rev t"] by (simp add: terminate_reverse_def patch_def)
qed

lemma utos_spec:
  "2 \<le> unat base \<Longrightarrow> length (digits (unat base) (unat num)) < length str \<Longrightarrow>
     utos num str base upcase = kret (patch 0 (numeral_text (unat base) upcase (unat num) @ [0]) str)"
  using terminate_reverse_spec [of "numeral_text (unat base) upcase (unat num)" str] by (simp add: utos_def put_digits_spec)

lemma ltos_spec:
  "2 \<le> unat base \<Longrightarrow> length (digits (unat base) (unat num)) < length str \<Longrightarrow>
     ltos num str base upcase = kret (patch 0 (numeral_text (unat base) upcase (unat num) @ [0]) str)"
  using terminate_reverse_spec [of "numeral_text (unat base) upcase (unat num)" str] by (simp add: ltos_def put_digits_spec)

lemma copy_reversed_spec:
  "i \<le> length buf \<Longrightarrow> p + i < length str \<Longrightarrow> copy_reversed i buf p str = Some (patch p (rev (take i buf) @ [0]) str)"
proof (induction i arbitrary: p str)
  case 0
  then show ?case by (simp add: store_block_def patch_def)
next
  case (Suc i)
  then show ?case by (simp add: store_block_def patch_def take_Suc_conv_app_nth add.commute)
qed

text \<open>The text \<open>itos\<close> writes: the sign and the digits of the magnitude.\<close>

definition int_text :: "nat \<Rightarrow> bool \<Rightarrow> u32 \<Rightarrow> u8 list" where
  "int_text base upcase num =
     (if sint num < 0 then 0x2D # numeral_text base upcase (unat (- num)) else numeral_text base upcase (unat num))"

lemma itos_spec:
  assumes "2 \<le> unat base" "length (int_text (unat base) upcase num) < length str"
  shows "itos num str base upcase = kret (patch 0 (int_text (unat base) upcase num @ [0]) str)"
proof -
  define unum where "unum = (if sint num < 0 then - num else num)"
  define t where "t = numeral_text (unat base) upcase (unat unum)"
  have "length (digits (unat base) (unat unum)) \<le> 32"
    using unsigned_less [of unum, where 'a = nat] assms(1) by (intro digits_length) simp_all
  then have d: "put_digits (unat unum) (replicate 33 0) (unat base) upcase = kret (length t, patch 0 (rev t) (replicate 33 0))" "length t \<le> 32"
    using assms(1) by (simp_all add: put_digits_spec t_def)
  have it: "int_text (unat base) upcase num = (if sint num < 0 then [0x2D] else []) @ t" by (simp add: int_text_def t_def unum_def)
  then show ?thesis using assms(2) d
    by (auto simp: itos_def Let_def store_block_def copy_reversed_spec patch_def unum_def [symmetric])
qed

section \<open>Reading the text back\<close>

text \<open>The bases whose digits \<open>strtoull\<close> reads.\<close>

definition readable_base :: "nat \<Rightarrow> bool" where
  "readable_base base \<longleftrightarrow> 2 \<le> base \<and> base \<le> 10 \<or> base = 16"

lemma digit_char_code: "d < 16 \<Longrightarrow> sint (digit_char upcase d) = (if d < 10 then 0x30 else if upcase then 0x41 - 10 else 0x61 - 10) + int d"
proof -
  assume "d < 16"
  then have "d \<in> set [0..<16]" by simp
  then show ?thesis by (auto simp: upt_rec digit_char_def toupper_def islower_def)
qed

lemma digit_char_not: "d < 16 \<Longrightarrow> digit_char upcase d \<noteq> 0x2D \<and> digit_char upcase d \<noteq> 0x2B \<and> digit_char upcase d \<noteq> 0"
  using digit_char_code [of d upcase] by (auto split: if_splits)

lemma strtoull_step_digit:
  assumes "readable_base base" "d < base"
  shows "strtoull_step (digit_char upcase d) cs res (int base) = Some (0, res * word_of_nat base + word_of_nat d, int base)"
proof -
  have d: "d < 16" "2 \<le> base" using assms by (auto simp: readable_base_def)
  have v: "digit_value (sint (digit_char upcase d)) = int d"
    using d by (auto simp: digit_char_code digit_value_def Let_def isupper_def tolower_def)
  have x: "if int base \<noteq> 16 then isdigit (sint (digit_char upcase d)) else isxdigit (sint (digit_char upcase d))"
    using assms by (auto simp: readable_base_def digit_char_code isdigit_def isxdigit_def)
  have sp: "\<not> isspace (sint (digit_char upcase d))" using d by (auto simp: digit_char_code isspace_def)
  show ?thesis using x d(2) by (simp add: strtoull_step_def digit_char_not [OF d(1)] sp v Let_def)
qed

lemma strtoull_loop_digits:
  assumes "readable_base base" "\<forall>d\<in>set ds. d < base"
  shows "strtoull_loop (map (digit_char upcase) ds) i res (int base) = (foldl (\<lambda>r d. r * word_of_nat base + word_of_nat d) res ds, i + length ds)"
  using assms(2) by (induction ds arbitrary: i res) (simp_all add: strtoull_step_digit [OF assms(1)])

lemma digits_bound: "2 \<le> base \<Longrightarrow> \<forall>d\<in>set (digits base n). d < base"
  by (induction base n rule: digits.induct) (subst digits.simps, auto)

lemma digits_value: "2 \<le> base \<Longrightarrow> foldl (\<lambda>r d. r * word_of_nat base + word_of_nat d) 0 (digits base n) = (word_of_nat n :: 'a :: len word)"
proof (induction base n rule: digits.induct)
  case (1 base n)
  show ?case
  proof (cases "n < base")
    case True
    then show ?thesis by (simp add: digits.simps)
  next
    case False
    have "n = n div base * base + n mod base" by simp
    then have "(word_of_nat n :: 'a word) = word_of_nat (n div base) * word_of_nat base + word_of_nat (n mod base)"
      by (metis of_nat_add of_nat_mult)
    then show ?thesis using 1 False by (simp add: digits_div)
  qed
qed

lemma numeral_text_read:
  "readable_base base \<Longrightarrow> strtoull_loop (numeral_text base upcase n) i 0 (int base) = (word_of_nat n, i + length (digits base n))"
  unfolding numeral_text_def using digits_value [of base n, where 'a = 64]
  by (subst strtoull_loop_digits) (auto simp: digits_bound readable_base_def)

lemma numeral_text_chars:
  assumes "readable_base base" "c \<in> set (numeral_text base upcase n)"
  shows "c \<noteq> 0 \<and> c \<noteq> 0x2D \<and> \<not> isspace (sint c)"
proof -
  have "2 \<le> base" "base \<le> 16" using assms(1) by (auto simp: readable_base_def)
  then obtain d where "c = digit_char upcase d" "d < 16"
    using assms(2) digits_bound [of base n] by (fastforce simp: numeral_text_def)
  then show ?thesis using digit_char_not [of d upcase] by (auto simp: digit_char_code isspace_def)
qed

lemma strlen_text: "0 \<notin> set t \<Longrightarrow> strlen (t @ 0 # r) = Some (length t)"
  by (induction t) auto

lemma strlen_patched: "0 \<notin> set t \<Longrightarrow> strlen (patch 0 (t @ [0]) str) = Some (length t) \<and> take (length t) (patch 0 (t @ [0]) str) = t"
  by (simp add: patch_def strlen_text)

lemma int_text_no_zero: "readable_base base \<Longrightarrow> 0 \<notin> set (int_text base upcase num)"
  using numeral_text_chars [of base 0] by (auto simp: int_text_def)

lemma ltos_read:
  assumes "readable_base (unat base)" "65 \<le> length str"
  shows "\<exists>s. ltos num str base upcase = kret s \<and> strtoull s (uint base) = Some (num, length (digits (unat base) (unat num)))"
proof -
  let ?t = "numeral_text (unat base) upcase (unat num)"
  have "2 \<le> unat base" using assms(1) by (auto simp: readable_base_def)
  moreover from this have "length (digits (unat base) (unat num)) \<le> 64"
    using unsigned_less [of num, where 'a = nat] by (intro digits_length) simp_all
  ultimately have "ltos num str base upcase = kret (patch 0 (?t @ [0]) str)" using assms(2) by (intro ltos_spec) simp_all
  moreover have "0 \<notin> set ?t" using numeral_text_chars [OF assms(1)] by blast
  ultimately show ?thesis using numeral_text_read [OF assms(1), of upcase "unat num" 0]
    using strlen_patched [of ?t str] by (simp add: strtoull_def)
qed

lemma ucast_uminus: "ucast (- (x :: u64)) = (- ucast x :: u32)"
proof transfer
  fix x :: int
  have "take_bit 32 (- take_bit 64 x) = take_bit 32 (take_bit 64 (- take_bit 64 x))" by (simp add: take_bit_take_bit)
  also have "\<dots> = take_bit 32 (- x)" by (simp only: take_bit_minus) (simp add: take_bit_take_bit)
  finally have low: "take_bit 32 (- take_bit 64 x) = take_bit 32 (- x)" .
  have "take_bit 32 (- take_bit 32 (take_bit 64 x)) = take_bit 32 (- take_bit 64 x)" by (rule take_bit_minus)
  with low show "take_bit LENGTH(32) (take_bit LENGTH(64) (- x)) = take_bit LENGTH(32) (- take_bit LENGTH(64) x)"
    by (simp add: take_bit_take_bit)
qed

lemma ucast_u64_u32 [simp]: "ucast (ucast (num :: u32) :: u64) = num"
  by transfer simp

lemma ucast_neg_magnitude: "ucast (- (word_of_nat (unat (- num)) :: u64)) = (num :: u32)"
  by (simp only: ucast_uminus) simp

text \<open>The text of a 32-bit integer, read by \<open>strtoll\<close>: the magnitude, and its negation when there is a sign.\<close>

lemma int_text_read:
  assumes "readable_base base" and t_def: "t = int_text base upcase num"
  shows "\<exists>res. strtoull_loop t 0 0 (int base) = (res, length t) \<and> ucast (if res = 0 then res else sign_loop t res) = num"
proof (cases "sint num < 0")
  case True
  then have t: "t = 0x2D # numeral_text base upcase (unat (- num))" by (simp add: t_def int_text_def)
  have "\<not> isspace (sint (0x2D :: u8))" by (simp add: isspace_def)
  moreover have "strtoull_step 0x2D cs 0 (int base) = Some (0, 0, int base)" for cs by (simp add: strtoull_step_def)
  ultimately show ?thesis using numeral_text_read [OF assms(1), of upcase "unat (- num)" 1] ucast_neg_magnitude [of num]
    by (auto simp: t)
next
  case False
  then have t: "t = numeral_text base upcase (unat num)" by (simp add: t_def int_text_def)
  obtain c cs where c: "t = c # cs" using numeral_text_not_Nil [of base upcase "unat num"] by (cases t) (simp_all add: t)
  have "sign_loop t res = res" for res using numeral_text_chars [OF assms(1), of c upcase "unat num"] c by (simp flip: t)
  then show ?thesis using numeral_text_read [OF assms(1), of upcase "unat num" 0] ucast_u64_u32 [of num] by (simp add: t del: ucast_u64_u32) (metis unsigned_0)
qed

lemma itos_read:
  assumes "readable_base (unat base)" "34 \<le> length str"
  shows "\<exists>s. itos num str base upcase = kret s \<and> strtol s (uint base) = Some (num, length (int_text (unat base) upcase num)) \<and>
    strlen s = Some (length (int_text (unat base) upcase num))"
proof -
  let ?t = "int_text (unat base) upcase num"
  have b: "2 \<le> unat base" using assms(1) by (auto simp: readable_base_def)
  have "length (digits (unat base) (unat w)) \<le> 32" for w :: u32
    using unsigned_less [of w, where 'a = nat] b by (intro digits_length) simp_all
  from this [of num] this [of "- num"] have "length ?t < length str" using assms(2) by (auto simp: int_text_def)
  then have "itos num str base upcase = kret (patch 0 (?t @ [0]) str)" using b by (intro itos_spec) simp_all
  then show ?thesis using int_text_read [OF assms(1) refl, of upcase num] strlen_patched [of ?t str] int_text_no_zero [OF assms(1), of upcase num]
    by (auto simp: strtol_def strtoll_def strtoull_def)
qed

text \<open>C36. Printing and reading numbers round trip. For the bases 2 to 10 and 16, in either case of the letters, and buffers of the sizes the
  code uses, \<open>ltos\<close> returns and \<open>strtoull\<close> reads the number back from the text, every bit of it; \<open>itos\<close> returns and \<open>strtol\<close> reads
  the signed number back, the smallest one too. Both stop at the end of the text.\<close>

theorem conversion_roundtrip:
  assumes "readable_base (unat base)" "65 \<le> length str"
  shows "(\<exists>s. ltos num str base upcase = kret s \<and> map_option fst (strtoull s (uint base)) = Some num) \<and>
    (\<exists>s len. itos n str base upcase = kret s \<and> strtol s (uint base) = Some (n, len) \<and> strlen s = Some len)"
  using ltos_read [OF assms, of num upcase] itos_read [OF assms(1), of str n upcase] assms(2) by fastforce

theorem conversion_roundtrip_witness:
  "(\<exists>s. ltos 0xDEADBEEF12345678 (replicate 65 0) 16 True = kret s \<and> map_option fst (strtoull s 16) = Some 0xDEADBEEF12345678) \<and>
   (\<exists>s len. itos 0x80000000 (replicate 65 0) 10 False = kret s \<and> strtol s 10 = Some (0x80000000, len) \<and> strlen s = Some len)"
  using conversion_roundtrip [of 16 "replicate 65 0" "0xDEADBEEF12345678" True 0] conversion_roundtrip [of 10 "replicate 65 0" 0 False "0x80000000"]
  by (simp add: readable_base_def)

text \<open>What \<open>strtoull\<close> takes for a number: a sign between digits is skipped, the digits 8 and 9 count in base 8, and a \<open>0x\<close> in front stops
  base 16 before its \<open>x\<close>.\<close>

lemma strtoull_lax:
  "strtoull [0x31, 0x2D, 0x32, 0] 10 = Some (12, 3)" "strtoull [0x31, 0x39, 0] 8 = Some (17, 2)"
  "strtoull [0x30, 0x78, 0x31, 0x30, 0] 16 = Some (0, 1)"
  by (simp_all add: strtoull_def strtoull_step_def isspace_def isdigit_def isxdigit_def digit_value_def isupper_def Let_def)

section \<open>The pool of \<open>malloc\<close>\<close>

text \<open>The headers in the pool by their offset, with the next one (null is \<^const>\<open>None\<close>) and the size of the block; the alignment
  \<open>al\<close> of \<open>max_align_t\<close> is the compiler's.\<close>

record mpool =
  mhdr :: "nat \<Rightarrow> nat option \<times> u32"
  freeList :: "nat option"
  initialized :: bool

definition malloc_init :: "mpool \<Rightarrow> mpool" where
  "malloc_init s =
     (if initialized s then s
      else s\<lparr>initialized := True, freeList := Some 0, mhdr := (mhdr s)(0 := (None, 16384 - 8))\<rparr>)"

text \<open>The walk over the free list to the first block that is large enough, with its predecessor. It does not end on a cyclic list.\<close>

partial_function (option) malloc_walk ::
  "(nat \<Rightarrow> nat option \<times> u32) \<Rightarrow> u32 \<Rightarrow> nat option \<Rightarrow> nat option \<Rightarrow> (nat option \<times> nat) option option" where
  "malloc_walk h needed prev cur =
     (if cur = None then Some None
      else if needed \<le> snd (h (the cur)) then Some (Some (prev, the cur))
      else malloc_walk h needed cur (fst (h (the cur))))"

definition malloc_needed :: "u32 \<Rightarrow> u32 \<Rightarrow> u32" where
  "malloc_needed al n = 8 + ((n + al - 1) AND NOT (al - 1))"

definition malloc :: "u32 \<Rightarrow> u32 \<Rightarrow> mpool \<Rightarrow> (nat option \<times> mpool) option" where
  "malloc al n s =
     (if n = 0 then Some (None, s)
      else let s = malloc_init s in
        map_option (\<lambda>r. case r of None \<Rightarrow> (None, s)
          | Some (None, c) \<Rightarrow> (Some (c + 8), s\<lparr>freeList := fst (mhdr s c)\<rparr>)
          | Some (Some p, c) \<Rightarrow> (Some (c + 8), s\<lparr>mhdr := (mhdr s)(p := (fst (mhdr s c), snd (mhdr s p)))\<rparr>))
        (malloc_walk (mhdr s) (malloc_needed al n) None (freeList s)))"

definition mfree :: "nat option \<Rightarrow> mpool \<Rightarrow> mpool" where
  "mfree ptr s =
     (case ptr of None \<Rightarrow> s
      | Some p \<Rightarrow> s\<lparr>mhdr := (mhdr s)(p - 8 := (freeList s, snd (mhdr s (p - 8)))), freeList := Some (p - 8)\<rparr>)"

text \<open>The pool while its only block is handed out, or not.\<close>

definition pool_ok :: "bool \<Rightarrow> mpool \<Rightarrow> bool" where
  "pool_ok live s \<longleftrightarrow>
     (if initialized s then snd (mhdr s 0) = 16376 \<and> (if live then freeList s = None else freeList s = Some 0 \<and> fst (mhdr s 0) = None)
      else \<not> live \<and> freeList s = None)"

lemma malloc_walk_single:
  "fst (h 0) = None \<Longrightarrow> malloc_walk h needed None (Some 0) = Some (if needed \<le> snd (h 0) then Some (None, 0) else None)"
  by (subst malloc_walk.simps, simp) (subst malloc_walk.simps, simp)

text \<open>What the pool of \<open>malloc\<close> serves, through any sequence of requests and releases of the block handed out. A request
  always returns; it succeeds, with the block of the whole pool, exactly when it is not for zero bytes, no block is handed out, and
  the rounded size fits. Since blocks are never split, no second request succeeds before a release. The rounded size is computed in 32 bits, so
  that the largest requests round to zero and succeed.\<close>

theorem malloc_pool_correct:
  assumes "pool_ok live s"
  shows "(\<exists>s'. malloc al n s = Some (if n = 0 \<or> live \<or> 16376 < malloc_needed al n then None else Some 8, s') \<and>
      pool_ok (live \<or> \<not> (n = 0 \<or> 16376 < malloc_needed al n)) s') \<and>
    (live \<longrightarrow> pool_ok False (mfree (Some 8) s)) \<and> pool_ok live (mfree None s)"
proof -
  have empty: "malloc_walk h needed None None = Some None" for h needed by (subst malloc_walk.simps) simp
  have "\<exists>s'. malloc al n s = Some (if n = 0 \<or> live \<or> 16376 < malloc_needed al n then None else Some 8, s') \<and>
      pool_ok (live \<or> \<not> (n = 0 \<or> 16376 < malloc_needed al n)) s'"
    using assms by (auto simp: pool_ok_def malloc_def malloc_init_def Let_def malloc_walk_single empty split: if_splits)
  moreover have "live \<longrightarrow> pool_ok False (mfree (Some 8) s)" "pool_ok live (mfree None s)"
    using assms by (auto simp: pool_ok_def mfree_def split: if_splits)
  ultimately show ?thesis by blast
qed

definition pool0 :: mpool where
  "pool0 = \<lparr>mhdr = (\<lambda>_. (None, 0)), freeList = None, initialized = False\<rparr>"

theorem malloc_pool_correct_witness:
  "\<exists>s. malloc 16 0xFFFFFFF1 pool0 = Some (Some 8, s) \<and> (\<exists>s'. malloc 16 1 s = Some (None, s'))"
proof -
  have "pool_ok False pool0" "malloc_needed 16 0xFFFFFFF1 = 8" by (simp_all add: pool_ok_def pool0_def malloc_needed_def)
  then obtain s where s: "malloc 16 0xFFFFFFF1 pool0 = Some (Some 8, s)" "pool_ok True s"
    using malloc_pool_correct [of False pool0 16 "0xFFFFFFF1"] by auto
  then show ?thesis using malloc_pool_correct [of True s 16 1] by auto
qed

end
