(* ===== verification/Format.thy ===== *)
theory Format
  imports Stdlib
begin

unbundle bit_operations_syntax

text \<open>
  Formatted output (libc++/include/stdio.h, libc++/stdio/format.cc). The templates on the argument types are one datatype of arguments;
  the integer types narrower than 32 bits are widened by the casts of the code, so that they are the 32-bit cases. Arrays are lists, and
  an access outside of one, like a width above the range of \<open>int\<close>, has no value.

  Shown: for every format that is put together from literal characters, doubled percent signs and conversions with flags and widths,
  the walk over the format writes the text that the conversions stand for, \<open>snprintf\<close> cuts it to the buffer, terminates it and returns
  its full length, and no access is outside of the arrays.
\<close>

section \<open>The output buffer\<close>

record sbuf =
  sb_buf :: "u8 list"
  sb_cap :: u32
  sb_pos :: u32

definition sb_put :: "u8 \<Rightarrow> sbuf \<Rightarrow> sbuf option" where
  "sb_put c b =
     (if sb_pos b < sb_cap b
      then if unat (sb_pos b) < length (sb_buf b) then Some (b\<lparr>sb_buf := (sb_buf b)[unat (sb_pos b) := c], sb_pos := sb_pos b + 1\<rparr>) else None
      else Some (b\<lparr>sb_pos := sb_pos b + 1\<rparr>))"

fun sb_write :: "u8 list \<Rightarrow> nat \<Rightarrow> sbuf \<Rightarrow> sbuf option" where
  "sb_write s 0 b = Some b"
| "sb_write [] (Suc n) b = None"
| "sb_write (c # s) (Suc n) b = do { b \<leftarrow> sb_put c b; sb_write s n b }"

fun sb_puts :: "u8 list \<Rightarrow> sbuf \<Rightarrow> sbuf option" where
  "sb_puts [] b = None"
| "sb_puts (c # s) b = (if c = 0 then Some b else do { b \<leftarrow> sb_put c b; sb_puts s b })"

definition null_text :: "u8 list" where
  "null_text = [0x28, 0x4E, 0x55, 0x4C, 0x4C, 0x29]"

text \<open>A null pointer is \<^const>\<open>None\<close>.\<close>

definition sb_writestr :: "u8 list option \<Rightarrow> sbuf \<Rightarrow> sbuf option" where
  "sb_writestr s = sb_puts (case s of None \<Rightarrow> null_text @ [0] | Some s \<Rightarrow> s)"

primrec sb_pad :: "nat \<Rightarrow> u8 \<Rightarrow> sbuf \<Rightarrow> sbuf option" where
  "sb_pad 0 c b = Some b"
| "sb_pad (Suc n) c b = do { b \<leftarrow> sb_put c b; sb_pad n c b }"

definition emitPadded :: "sbuf \<Rightarrow> u8 list \<Rightarrow> nat \<Rightarrow> int \<Rightarrow> bool \<Rightarrow> u8 \<Rightarrow> sbuf option" where
  "emitPadded b str len width left pad =
     (if width > 0 \<and> nat width > len
      then let plen = nat width - len in
        if left then do { b \<leftarrow> sb_write str len b; sb_pad plen pad b } else do { b \<leftarrow> sb_pad plen pad b; sb_write str len b }
      else sb_write str len b)"

section \<open>Arguments\<close>

definition fmtToBase :: "u8 \<Rightarrow> u8" where
  "fmtToBase fmt = (if fmt = 0x62 then 2 else if fmt = 0x6F then 8 else if fmt = 0x78 \<or> fmt = 0x58 then 16 else 10)"

definition fmtIsUnsigned :: "u8 \<Rightarrow> bool" where
  "fmtIsUnsigned fmt \<longleftrightarrow> fmt = 0x75"

definition fmtIsChar :: "u8 \<Rightarrow> bool" where
  "fmtIsChar fmt \<longleftrightarrow> fmt = 0x63"

definition fmtIsBool :: "u8 \<Rightarrow> bool" where
  "fmtIsBool fmt \<longleftrightarrow> fmt = 0x62"

datatype arg =
    AUInt u32 | AULong u64 | AInt u32 | ALong u64 | ACString "u8 list option" | ACharPtr "u8 list option" | AUChar u8 | AChar u8 | ABool bool
  | APtr u32 | AView "u8 list"

definition kopt :: "'a kres \<Rightarrow> 'a option" where
  "kopt m = (case m of Some (Inr x) \<Rightarrow> Some x | _ \<Rightarrow> None)"

text \<open>The integer cases: the number is converted into a local array of 65 bytes, which is then copied.\<close>

definition raw_uint :: "u32 \<Rightarrow> u8 \<Rightarrow> sbuf \<Rightarrow> sbuf option" where
  "raw_uint v fmt b = do { tmp \<leftarrow> kopt (utos v (replicate 65 0) (fmtToBase fmt) (isupper (sint fmt))); sb_puts tmp b }"

definition raw_ulong :: "u64 \<Rightarrow> u8 \<Rightarrow> sbuf \<Rightarrow> sbuf option" where
  "raw_ulong v fmt b = do { tmp \<leftarrow> kopt (ltos v (replicate 65 0) (fmtToBase fmt) (isupper (sint fmt))); sb_puts tmp b }"

definition raw_int :: "u32 \<Rightarrow> u8 \<Rightarrow> sbuf \<Rightarrow> sbuf option" where
  "raw_int v fmt b =
     (if fmtIsUnsigned fmt then raw_uint v fmt b
      else do { tmp \<leftarrow> kopt (itos v (replicate 65 0) (fmtToBase fmt) (isupper (sint fmt))); sb_puts tmp b })"

definition raw_long :: "u64 \<Rightarrow> u8 \<Rightarrow> sbuf \<Rightarrow> sbuf option" where
  "raw_long v fmt b =
     (if fmtIsUnsigned fmt then raw_ulong v fmt b
      else let negative = sint v < 0; abs_val = (if negative then - v else v); sign = (if negative then [0x2D] else []) in
        do { out \<leftarrow> kopt (ltos abs_val (replicate (65 - length sign) 0) (fmtToBase fmt) (isupper (sint fmt))); sb_puts (sign @ out) b })"

definition raw_uchar :: "u8 \<Rightarrow> u8 \<Rightarrow> sbuf \<Rightarrow> sbuf option" where
  "raw_uchar c fmt b = (if fmtIsChar fmt then sb_put c b else raw_uint (ucast c) fmt b)"

definition raw_char :: "u8 \<Rightarrow> u8 \<Rightarrow> sbuf \<Rightarrow> sbuf option" where
  "raw_char c fmt b =
     (if fmtIsUnsigned fmt then raw_uchar c fmt b else if fmtIsChar fmt then sb_put c b else raw_int (scast c) fmt b)"

definition raw_bool :: "bool \<Rightarrow> u8 \<Rightarrow> sbuf \<Rightarrow> sbuf option" where
  "raw_bool v fmt =
     (if fmtIsBool fmt
      then sb_writestr (Some (if v then [0x74, 0x72, 0x75, 0x65, 0] else [0x66, 0x61, 0x6C, 0x73, 0x65, 0]))
      else sb_writestr (Some (if v then [0x31, 0] else [0x30, 0])))"

definition raw_ptr :: "u32 \<Rightarrow> sbuf \<Rightarrow> sbuf option" where
  "raw_ptr p b =
     do { b \<leftarrow> sb_put 0x30 b; b \<leftarrow> sb_put 0x78 b; tmp \<leftarrow> kopt (ltos (ucast p) (replicate 65 0) 16 False); sb_puts tmp b }"

definition formatRaw :: "arg \<Rightarrow> u8 \<Rightarrow> sbuf \<Rightarrow> sbuf option" where
  "formatRaw a fmt b =
     (case a of AUInt v \<Rightarrow> raw_uint v fmt b | AULong v \<Rightarrow> raw_ulong v fmt b | AInt v \<Rightarrow> raw_int v fmt b | ALong v \<Rightarrow> raw_long v fmt b
      | ACString s \<Rightarrow> sb_writestr s b | ACharPtr s \<Rightarrow> sb_writestr s b | AUChar c \<Rightarrow> raw_uchar c fmt b | AChar c \<Rightarrow> raw_char c fmt b
      | ABool v \<Rightarrow> raw_bool v fmt b | APtr p \<Rightarrow> raw_ptr p b | AView t \<Rightarrow> sb_write t (length t) b)"

text \<open>\<open>formatPut\<close> with its two specialisations; the general one formats into a local buffer of 1024 bytes and emits as many as were
  put, also when that is more.\<close>

definition formatPut :: "arg \<Rightarrow> u8 \<Rightarrow> int \<Rightarrow> bool \<Rightarrow> u8 \<Rightarrow> sbuf \<Rightarrow> sbuf option" where
  "formatPut a fmt width left pad b =
     (case a of
        ACString s \<Rightarrow> let s = (case s of None \<Rightarrow> null_text @ [0] | Some s \<Rightarrow> s) in
          do { len \<leftarrow> strlen s; emitPadded b s len width left 0x20 }
      | AView t \<Rightarrow> emitPadded b t (length t) width left 0x20
      | _ \<Rightarrow> do { m \<leftarrow> formatRaw a fmt \<lparr>sb_buf = replicate 1024 0, sb_cap = 1024, sb_pos = 0\<rparr>;
                 emitPadded b (sb_buf m) (unat (sb_pos m)) width left pad })"

section \<open>The walk over the format\<close>

fun skip_minus :: "u8 list \<Rightarrow> (bool \<times> u8 list) option" where
  "skip_minus [] = None"
| "skip_minus (c # f) = (if c = 0x2D then map_option (\<lambda>(_, f). (True, f)) (skip_minus f) else Some (False, c # f))"

fun read_width :: "u8 list \<Rightarrow> int \<Rightarrow> (int \<times> u8 list) option" where
  "read_width [] w = None"
| "read_width (c # f) w =
     (if isdigit (sint c) then let w = w * 10 + (sint c - 0x30) in if w < 2147483648 then read_width f w else None else Some (w, c # f))"

text \<open>What follows a percent sign: another one, or flags, a width and the conversion character. The conversion character is read and
  passed over even when it is the terminator.\<close>

datatype directive = Percent | Directive bool u8 int u8

definition parse_directive :: "u8 list \<Rightarrow> (directive \<times> u8 list) option" where
  "parse_directive f =
     do { (left, f) \<leftarrow> skip_minus f;
          if hd f = 0x25 then Some (Percent, tl f)
          else do {
            (zero, left, f) \<leftarrow> (if hd f = 0x30 then map_option (\<lambda>(l, f). (True, left \<or> l, f)) (skip_minus (tl f)) else Some (False, left, f));
            (width, f) \<leftarrow> read_width f 0;
            Some (Directive left (if left then 0x20 else if zero then 0x30 else 0x20) width (hd f), tl f) } }"

lemma skip_minus_length: "skip_minus f = Some (l, g) \<Longrightarrow> \<exists>c h. g = c # h \<and> length h < length f"
  by (induction f arbitrary: l) (fastforce split: if_splits)+

lemma read_width_length: "read_width f w = Some (v, g) \<Longrightarrow> \<exists>c h. g = c # h \<and> length h < length f"
  by (induction f w rule: read_width.induct) (fastforce simp: Let_def split: if_splits)+

lemma parse_directive_length: "parse_directive f = Some (d, g) \<Longrightarrow> length g < length f"
  unfolding parse_directive_def
  by (auto simp: bind_eq_Some_conv split: if_splits dest!: skip_minus_length read_width_length)

function walkFormat :: "u8 list \<Rightarrow> arg list \<Rightarrow> sbuf \<Rightarrow> sbuf option" where
  "walkFormat [] args b = None"
| "walkFormat (c # f) [] b =
     (if c = 0 then Some b
      else if c = 0x25
      then if f = [] then None
        else if hd f = 0x25 then do { b \<leftarrow> sb_put 0x25 b; walkFormat (tl f) [] b }
        else do { b \<leftarrow> sb_put 0x25 b; sb_writestr (Some f) b }
      else do { b \<leftarrow> sb_put c b; walkFormat f [] b })"
| "walkFormat (c # f) (a # args) b =
     (if c = 0 then Some b
      else if c = 0x25
      then case parse_directive f of None \<Rightarrow> None
        | Some (Percent, f) \<Rightarrow> do { b \<leftarrow> sb_put 0x25 b; walkFormat f (a # args) b }
        | Some (Directive left pad width fmt, f) \<Rightarrow> do { b \<leftarrow> formatPut a fmt width left pad b; walkFormat f args b }
      else do { b \<leftarrow> sb_put c b; walkFormat f (a # args) b })"
  by pat_completeness auto

termination
  by (relation "measure (\<lambda>(f, args, b). length f)") (auto dest: parse_directive_length)

definition snprintf :: "u8 list \<Rightarrow> u32 \<Rightarrow> u8 list \<Rightarrow> arg list \<Rightarrow> (u8 list \<times> u32) option" where
  "snprintf s n format args =
     do { b \<leftarrow> walkFormat format args \<lparr>sb_buf = s, sb_cap = n, sb_pos = 0\<rparr>;
          if n > 0
          then let i = unat (if sb_pos b < n then sb_pos b else n - 1) in
            if i < length (sb_buf b) then Some ((sb_buf b)[i := 0], sb_pos b) else None
          else Some (sb_buf b, sb_pos b) }"

definition sprintf :: "u8 list \<Rightarrow> u8 list \<Rightarrow> arg list \<Rightarrow> (u8 list \<times> u32) option" where
  "sprintf s format args =
     do { b \<leftarrow> walkFormat format args \<lparr>sb_buf = s, sb_cap = - 1, sb_pos = 0\<rparr>;
          if unat (sb_pos b) < length (sb_buf b) then Some ((sb_buf b)[unat (sb_pos b) := 0], sb_pos b) else None }"

text \<open>\<open>printf\<close>: the string handed to \<open>puts\<close> and the result.\<close>

definition printf_out :: "u8 list \<Rightarrow> arg list \<Rightarrow> (u8 list \<times> u32) option" where
  "printf_out format args =
     do { (buf, n) \<leftarrow> snprintf (replicate 2048 0) 2048 format args; len \<leftarrow> strlen buf; Some (take len buf, n) }"

section \<open>What has been put\<close>

text \<open>The buffer over the array \<open>s\<close> with capacity \<open>n\<close> after the text \<open>t\<close> was put into it, and that there is room for \<open>k\<close> characters.\<close>

definition out_buf :: "u8 list \<Rightarrow> u32 \<Rightarrow> u8 list \<Rightarrow> sbuf" where
  "out_buf s n t = \<lparr>sb_buf = take (unat n) t @ drop (min (unat n) (length t)) s, sb_cap = n, sb_pos = word_of_nat (length t)\<rparr>"

definition room :: "u8 list \<Rightarrow> u32 \<Rightarrow> nat \<Rightarrow> bool" where
  "room s n k \<longleftrightarrow> k < 2 ^ 32 \<and> min (unat n) k \<le> length s"

lemma room_mono: "room s n k \<Longrightarrow> j \<le> k \<Longrightarrow> room s n j"
  by (auto simp: room_def)

lemma unat_small: "k < 2 ^ 32 \<Longrightarrow> unat (word_of_nat k :: u32) = k"
  by (simp add: unat_of_nat)

lemma sb_put_out: 
  assumes "room s n (Suc (length t))"
  shows "sb_put c (out_buf s n t) = Some (out_buf s n (t @ [c]))"
proof -
  have p: "unat (word_of_nat (length t) :: u32) = length t" using assms by (intro unat_small) (simp add: room_def)
  show ?thesis
  proof (cases "length t < unat n")
    case True
    then have "length t < length s" using assms by (simp add: room_def)
    then have "drop (length t) s = s ! length t # drop (Suc (length t)) s" by (simp add: Cons_nth_drop_Suc)
    moreover have "min (unat n) (length t) = length t" "min (unat n) (Suc (length t)) = Suc (length t)" using True by simp_all
    ultimately show ?thesis using True \<open>length t < length s\<close>
      by (simp add: sb_put_def out_buf_def word_less_nat_alt p list_update_append)
  next
    case False
    then show ?thesis by (simp add: sb_put_def out_buf_def word_less_nat_alt p min_def)
  qed
qed

lemma sb_write_out: "len \<le> length str \<Longrightarrow> room s n (length t + len) \<Longrightarrow> sb_write str len (out_buf s n t) = Some (out_buf s n (t @ take len str))"
proof (induction str len "out_buf s n t" arbitrary: t rule: sb_write.induct)
  case (3 c str len)
  then show ?case by (simp add: sb_put_out room_mono)
qed simp_all

lemma sb_puts_out: "0 \<notin> set u \<Longrightarrow> room s n (length t + length u) \<Longrightarrow> sb_puts (u @ 0 # r) (out_buf s n t) = Some (out_buf s n (t @ u))"
proof (induction u arbitrary: t)
  case (Cons c u)
  then have "sb_put c (out_buf s n t) = Some (out_buf s n (t @ [c]))" by (auto intro!: sb_put_out elim: room_mono)
  then show ?case using Cons by auto
qed simp

lemma sb_pad_out: "room s n (length t + k) \<Longrightarrow> sb_pad k c (out_buf s n t) = Some (out_buf s n (t @ replicate k c))"
proof (induction k arbitrary: t)
  case (Suc k)
  then have "sb_put c (out_buf s n t) = Some (out_buf s n (t @ [c]))" by (auto intro!: sb_put_out elim: room_mono)
  then show ?case using Suc by (simp add: replicate_app_Cons_same)
qed simp

section \<open>The text of a conversion\<close>

definition padded :: "bool \<Rightarrow> u8 \<Rightarrow> nat \<Rightarrow> u8 list \<Rightarrow> u8 list" where
  "padded left pad w t = (let p = replicate (w - length t) pad in if left then t @ p else p @ t)"

lemma emitPadded_out:
  assumes "len \<le> length str" "room s n (length t + length (padded left pad (nat width) (take len str)))"
  shows "emitPadded (out_buf s n t) str len width left pad = Some (out_buf s n (t @ padded left pad (nat width) (take len str)))"
  using assms by (auto simp: emitPadded_def padded_def Let_def sb_write_out sb_pad_out room_mono add.commute add.left_commute min_def)

text \<open>The text an argument stands for under a conversion character.\<close>

definition uint_text :: "u8 \<Rightarrow> nat \<Rightarrow> u8 list" where
  "uint_text fmt v = numeral_text (unat (fmtToBase fmt)) (isupper (sint fmt)) v"

definition arg_text :: "arg \<Rightarrow> u8 \<Rightarrow> u8 list" where
  "arg_text a fmt =
     (case a of AUInt v \<Rightarrow> uint_text fmt (unat v) | AULong v \<Rightarrow> uint_text fmt (unat v)
      | AInt v \<Rightarrow> if sint v < 0 \<and> \<not> fmtIsUnsigned fmt then 0x2D # uint_text fmt (unat (- v)) else uint_text fmt (unat v)
      | ALong v \<Rightarrow> if sint v < 0 \<and> \<not> fmtIsUnsigned fmt then 0x2D # uint_text fmt (unat (- v)) else uint_text fmt (unat v)
      | ACString s \<Rightarrow> (case s of None \<Rightarrow> null_text | Some s \<Rightarrow> takeWhile (\<lambda>c. c \<noteq> 0) s)
      | ACharPtr s \<Rightarrow> (case s of None \<Rightarrow> null_text | Some s \<Rightarrow> takeWhile (\<lambda>c. c \<noteq> 0) s)
      | AUChar c \<Rightarrow> if fmtIsChar fmt then [c] else uint_text fmt (unat c)
      | AChar c \<Rightarrow> if fmtIsChar fmt then [c] else if fmtIsUnsigned fmt then uint_text fmt (unat c)
          else if sint c < 0 then 0x2D # uint_text fmt (nat (- sint c)) else uint_text fmt (unat c)
      | ABool v \<Rightarrow> if fmtIsBool fmt then if v then [0x74, 0x72, 0x75, 0x65] else [0x66, 0x61, 0x6C, 0x73, 0x65] else if v then [0x31] else [0x30]
      | APtr p \<Rightarrow> [0x30, 0x78] @ numeral_text 16 False (unat p)
      | AView t \<Rightarrow> t)"

text \<open>What the arguments have to be: strings are terminated, a string by a pointer that is not to constant characters is no longer than the
  local buffer, and the smallest 64-bit number is not printed in binary.\<close>

definition arg_ok :: "arg \<Rightarrow> u8 \<Rightarrow> bool" where
  "arg_ok a fmt \<longleftrightarrow>
     (case a of ACString (Some s) \<Rightarrow> 0 \<in> set s | ACharPtr (Some s) \<Rightarrow> 0 \<in> set s \<and> length (takeWhile (\<lambda>c. c \<noteq> 0) s) \<le> 1024
      | ALong v \<Rightarrow> \<not> (fmt = 0x62 \<and> v = 0x8000000000000000) | _ \<Rightarrow> True)"

lemma fmtToBase_readable: "readable_base (unat (fmtToBase fmt)) \<and> 2 \<le> unat (fmtToBase fmt)"
  by (simp add: fmtToBase_def readable_base_def)

lemma digits_length_power: "2 \<le> base \<Longrightarrow> v < base ^ k \<Longrightarrow> 0 < k \<Longrightarrow> length (digits base v) \<le> k"
proof (induction base v arbitrary: k rule: digits.induct)
  case (1 base v)
  show ?case
  proof (cases "v < base")
    case True
    then show ?thesis using 1 by (simp add: digits.simps)
  next
    case False
    then obtain j where j: "k = Suc j" "0 < j" using "1.prems" by (cases k; cases "k = 1") auto
    then have "v div base < base ^ j" using "1.prems" by (simp add: less_mult_imp_div_less mult.commute)
    then show ?thesis using 1 False j by (simp add: digits_div)
  qed
qed

lemma numeral_text_length: "2 \<le> base \<Longrightarrow> v < 2 ^ k \<Longrightarrow> 0 < k \<Longrightarrow> length (numeral_text base up v) \<le> k"
  by (simp add: digits_length)

lemma numeral_text_no_zero: "readable_base base \<Longrightarrow> 0 \<notin> set (numeral_text base up v)"
  using numeral_text_chars by blast

lemma kopt_kret [simp]: "kopt (kret x) = Some x"
  by (simp add: kopt_def kret_def)

lemma raw_uint_out:
  assumes "room s n (length t + length (uint_text fmt (unat v)))"
  shows "raw_uint v fmt (out_buf s n t) = Some (out_buf s n (t @ uint_text fmt (unat v)))"
proof -
  note r = fmtToBase_readable [of fmt]
  have "length (digits (unat (fmtToBase fmt)) (unat v)) \<le> 32"
    using unsigned_less [of v, where 'a = nat] r by (intro digits_length) simp_all
  then have "utos v (replicate 65 0) (fmtToBase fmt) (isupper (sint fmt)) = kret (patch 0 (uint_text fmt (unat v) @ [0]) (replicate 65 0))"
    unfolding uint_text_def using r by (intro utos_spec) simp_all
  then show ?thesis using assms numeral_text_no_zero [of "unat (fmtToBase fmt)"] r
    by (simp add: raw_uint_def patch_def uint_text_def sb_puts_out)
qed

lemma ltos_tmp:
  assumes "unat v < 2 ^ k" "0 < k" "k < m" "2 \<le> unat base"
  shows "ltos v (replicate m 0) base up = kret (patch 0 (numeral_text (unat base) up (unat v) @ [0]) (replicate m 0))"
proof -
  have "length (digits (unat base) (unat v)) \<le> k" using assms by (intro digits_length)
  then show ?thesis using assms by (intro ltos_spec) simp_all
qed

lemma raw_ulong_out:
  assumes "room s n (length t + length (uint_text fmt (unat v)))"
  shows "raw_ulong v fmt (out_buf s n t) = Some (out_buf s n (t @ uint_text fmt (unat v)))"
  using assms fmtToBase_readable [of fmt] numeral_text_no_zero [of "unat (fmtToBase fmt)"] unsigned_less [of v, where 'a = nat]
    ltos_tmp [of v 64 65 "fmtToBase fmt" "isupper (sint fmt)"]
  by (simp add: raw_ulong_def patch_def uint_text_def sb_puts_out)

lemma raw_int_out:
  assumes "room s n (length t + length (arg_text (AInt v) fmt))"
  shows "raw_int v fmt (out_buf s n t) = Some (out_buf s n (t @ arg_text (AInt v) fmt))"
proof (cases "fmtIsUnsigned fmt")
  case True
  then show ?thesis using assms by (simp add: raw_int_def arg_text_def raw_uint_out)
next
  case False
  let ?u = "int_text (unat (fmtToBase fmt)) (isupper (sint fmt)) v"
  note r = fmtToBase_readable [of fmt]
  have "length (digits (unat (fmtToBase fmt)) (unat w)) \<le> 32" for w :: u32
    using unsigned_less [of w, where 'a = nat] r by (intro digits_length) simp_all
  from this [of v] this [of "- v"] have "length ?u \<le> 33" by (simp add: int_text_def)
  then have "itos v (replicate 65 0) (fmtToBase fmt) (isupper (sint fmt)) = kret (patch 0 (?u @ [0]) (replicate 65 0))"
    using r by (intro itos_spec) simp_all
  moreover have "?u = arg_text (AInt v) fmt" using False by (simp add: int_text_def arg_text_def uint_text_def)
  moreover have "0 \<notin> set ?u" using r by (simp add: int_text_no_zero)
  ultimately show ?thesis using False assms by (simp add: raw_int_def patch_def sb_puts_out)
qed

lemma long_magnitude_text:
  assumes "arg_ok (ALong v) fmt" "sint v < 0"
  shows "length (digits (unat (fmtToBase fmt)) (unat (- v))) < 64"
proof -
  have "2 ^ 63 \<le> unat v" using assms(2) bit_last_iff [of v] by (simp add: unat_bit63)
  have "(unat (- v) + unat v) mod 2 ^ 64 = 0" using unat_word_ariths(1) [of "- v" v] by simp
  then obtain k where k: "unat (- v) + unat v = 2 ^ 64 * k" by (auto elim!: dvdE simp: mod_eq_0_iff_dvd)
  have "k < 2" using k unsigned_less [of v, where 'a = nat] unsigned_less [of "- v", where 'a = nat] by simp
  moreover have "0 < k" using k \<open>2 ^ 63 \<le> unat v\<close> by (cases k) simp_all
  ultimately have "unat (- v) = 2 ^ 64 - unat v" using k by (simp add: less_2_cases_iff)
  then have m: "unat (- v) \<le> 2 ^ 63" "unat (- v) = 2 ^ 63 \<longleftrightarrow> unat v = 2 ^ 63" using \<open>2 ^ 63 \<le> unat v\<close> by auto
  have "length (digits (unat (fmtToBase fmt)) (unat (- v))) \<le> 63"
  proof (cases "fmt = 0x62")
    case True
    then have "unat v \<noteq> 2 ^ 63" using assms(1) by (auto simp: arg_ok_def word_unat_eq_iff)
    then show ?thesis using m True by (intro digits_length) (simp_all add: fmtToBase_def)
  next
    case False
    then have "8 \<le> unat (fmtToBase fmt)" by (simp add: fmtToBase_def)
    then have "(8::nat) ^ 63 \<le> unat (fmtToBase fmt) ^ 63" by (rule power_mono) simp
    then show ?thesis using m(1) \<open>8 \<le> unat (fmtToBase fmt)\<close> by (intro digits_length_power) simp_all
  qed
  then show ?thesis by simp
qed

lemma raw_long_out:
  assumes "room s n (length t + length (arg_text (ALong v) fmt))" "arg_ok (ALong v) fmt"
  shows "raw_long v fmt (out_buf s n t) = Some (out_buf s n (t @ arg_text (ALong v) fmt))"
proof (cases "fmtIsUnsigned fmt")
  case True
  then show ?thesis using assms by (simp add: raw_long_def arg_text_def raw_ulong_out)
next
  case F: False
  note r = fmtToBase_readable [of fmt]
  let ?up = "isupper (sint fmt)"
  have z: "0 \<notin> set (numeral_text (unat (fmtToBase fmt)) ?up w)" for w using r numeral_text_no_zero by blast
  show ?thesis
  proof (cases "sint v < 0")
    case False
    then show ?thesis using F assms(1) z r ltos_tmp [of v 64 65 "fmtToBase fmt" ?up] unsigned_less [of v, where 'a = nat]
      by (simp add: raw_long_def arg_text_def uint_text_def patch_def sb_puts_out)
  next
    case True
    have "ltos (- v) (replicate 64 0) (fmtToBase fmt) ?up = kret (patch 0 (uint_text fmt (unat (- v)) @ [0]) (replicate 64 0))"
      using long_magnitude_text [OF assms(2) True] r unfolding uint_text_def by (intro ltos_spec) simp_all
    then show ?thesis using F True assms(1) z sb_puts_out [of "0x2D # uint_text fmt (unat (- v))" s n t]
      by (simp add: raw_long_def arg_text_def uint_text_def patch_def)
  qed
qed

text \<open>The general case of \<open>formatRaw\<close>, and the two that never fail.\<close>

lemma takeWhile_zero: "0 \<in> set s \<Longrightarrow> \<exists>r. s = takeWhile (\<lambda>c. c \<noteq> 0) s @ 0 # r"
  by (metis (mono_tags, lifting) dropWhile_eq_Nil_conv hd_dropWhile list.collapse takeWhile_dropWhile_id)

lemma sb_writestr_out:
  assumes "\<forall>x. v = Some x \<longrightarrow> 0 \<in> set x" "u = (case v of None \<Rightarrow> null_text | Some x \<Rightarrow> takeWhile (\<lambda>c. c \<noteq> 0) x)" "room s n (length t + length u)"
  shows "sb_writestr v (out_buf s n t) = Some (out_buf s n (t @ u))"
proof (cases v)
  case None
  then show ?thesis using assms(2,3) sb_puts_out [of null_text s n t "[]"] by (simp add: sb_writestr_def null_text_def)
next
  case (Some x)
  then obtain r where "x = u @ 0 # r" using assms(1,2) takeWhile_zero [of x] by auto
  moreover have "0 \<notin> set u" using assms(2) Some by (auto dest: set_takeWhileD)
  ultimately show ?thesis using assms(3) Some by (simp add: sb_writestr_def sb_puts_out)
qed

lemma char_magnitude:
  "sint (scast c :: u32) = sint (c :: u8)" "0 \<le> sint c \<Longrightarrow> unat (scast c :: u32) = unat c" "sint c < 0 \<Longrightarrow> unat (- (scast c :: u32)) = nat (- sint c)"
proof -
  have r: "- 128 \<le> sint c" "sint c < 128" using sint_ge [of c] sint_lt [of c] by simp_all
  have w: "(scast c :: u32) = word_of_int (sint c)" by simp
  show "sint (scast c :: u32) = sint c" using r by (simp only: w signed_of_int) (simp add: signed_take_bit_int_eq_self)
  show "unat (scast c :: u32) = unat c" if "0 \<le> sint c"
  proof -
    have "uint c = sint c" using that r uint_sint [of c] by (simp add: take_bit_int_eq_self)
    then have "uint (word_of_int (sint c) :: u32) = uint c" using r that by (simp only: unsigned_of_int) (simp add: take_bit_int_eq_self)
    then show ?thesis by (simp only: w unat_eq_nat_uint)
  qed
  show "unat (- (scast c :: u32)) = nat (- sint c)" if "sint c < 0"
  proof -
    have "- (scast c :: u32) = word_of_int (- sint c)" by simp
    then have "uint (- (scast c :: u32)) = - sint c" using r that by (simp only:) (simp add: unsigned_of_int take_bit_int_eq_self del: of_int_minus)
    then show ?thesis by (simp only: unat_eq_nat_uint)
  qed
qed

lemma raw_uint_char: "room s n (length t + length (uint_text fmt (unat c))) \<Longrightarrow>
    raw_uint (ucast (c :: u8)) fmt (out_buf s n t) = Some (out_buf s n (t @ uint_text fmt (unat c)))"
proof -
  have "unat (ucast c :: u32) = unat c" using unsigned_less [of c, where 'a = nat] by (simp add: unsigned_ucast_eq take_bit_nat_eq_self)
  then show "room s n (length t + length (uint_text fmt (unat c))) \<Longrightarrow> ?thesis" using raw_uint_out [of s n t fmt "ucast c"] by simp
qed

lemma formatRaw_out:
  assumes "arg_ok a fmt" "room s n (length t + length (arg_text a fmt))"
  shows "formatRaw a fmt (out_buf s n t) = Some (out_buf s n (t @ arg_text a fmt))"
proof (cases a)
  case (AChar c)
  then show ?thesis using assms raw_int_out [of s n t "scast c" fmt] char_magnitude [of c]
    by (cases "fmtIsUnsigned fmt"; cases "fmtIsChar fmt"; cases "sint c < 0")
      (simp_all add: formatRaw_def raw_char_def raw_uchar_def arg_text_def sb_put_out raw_uint_char)
next
  case (APtr p)
  have u: "unat (ucast p :: u64) = unat p" by (rule unat_ucast_up)
  then have "ltos (ucast p) (replicate 65 0) 16 False = kret (patch 0 (numeral_text 16 False (unat p) @ [0]) (replicate 65 0))"
    using ltos_tmp [of "ucast p" 64 65 16 False] unsigned_less [of "ucast p :: u64", where 'a = nat] by simp
  moreover have "0 \<notin> set (numeral_text 16 False (unat p))" by (rule numeral_text_no_zero) (simp add: readable_base_def)
  moreover have "room s n (Suc (length t))" "room s n (Suc (Suc (length t)))"
    using assms(2) APtr by (auto simp: arg_text_def elim!: room_mono)
  ultimately show ?thesis using assms(2) APtr
    by (simp add: formatRaw_def raw_ptr_def arg_text_def patch_def sb_put_out sb_puts_out)
next
  case (ABool v)
  then show ?thesis using assms sb_writestr_out [OF _ refl, of "Some (arg_text a fmt @ [0])" s n t]
    by (cases v) (auto simp: formatRaw_def raw_bool_def arg_text_def)
next
  case (ACString v)
  then show ?thesis using assms by (cases v) (simp_all add: formatRaw_def arg_text_def arg_ok_def sb_writestr_out)
next
  case (ACharPtr v)
  then show ?thesis using assms by (cases v) (simp_all add: formatRaw_def arg_text_def arg_ok_def sb_writestr_out)
next
  case (AUChar c)
  then show ?thesis using assms by (cases "fmtIsChar fmt") (simp_all add: formatRaw_def raw_uchar_def arg_text_def sb_put_out raw_uint_char)
qed (use assms in \<open>simp_all add: formatRaw_def raw_uint_out raw_ulong_out raw_int_out raw_long_out sb_write_out\<close>,
     simp_all add: arg_text_def raw_uint_out raw_ulong_out sb_write_out)

text \<open>Strings are padded with blanks only.\<close>

definition arg_pad :: "arg \<Rightarrow> u8 \<Rightarrow> u8" where
  "arg_pad a pad = (case a of ACString _ \<Rightarrow> 0x20 | AView _ \<Rightarrow> 0x20 | _ \<Rightarrow> pad)"

lemma out_buf_start: "out_buf s n [] = \<lparr>sb_buf = s, sb_cap = n, sb_pos = 0\<rparr>"
  by (simp add: out_buf_def)

lemma arg_text_tmp:
  assumes "arg_ok a fmt" "\<not> (\<exists>v. a = ACString v)" "\<not> (\<exists>v. a = AView v)"
  shows "length (arg_text a fmt) \<le> 1024"
proof -
  have d: "length (uint_text fmt v) \<le> 64" if "v < 2 ^ 64" for v
    using that fmtToBase_readable [of fmt] numeral_text_length [of _ v 64] by (simp add: uint_text_def)
  have w: "unat (x :: u64) < 2 ^ 64" "unat (y :: u32) < 2 ^ 64" "unat (z :: u8) < 2 ^ 64" "nat (- sint z) < 2 ^ 64" for x y z
    using unsigned_less [of x, where 'a = nat] unsigned_less [of y, where 'a = nat] unsigned_less [of z, where 'a = nat] sint_ge [of z] by simp_all
  have p: "length (numeral_text 16 False (unat (y :: u32))) \<le> 64" for y using numeral_text_length [of 16 "unat y" 64] w(2) by simp
  show ?thesis
  proof (cases a)
    case (ACharPtr v)
    then show ?thesis using assms(1) by (cases v) (simp_all add: arg_text_def arg_ok_def null_text_def)
  next
    case (APtr y)
    then show ?thesis using p [of y] by (simp add: arg_text_def)
  qed (use assms(2,3) d w in \<open>auto simp: arg_text_def intro: le_trans [OF d]\<close>)
qed

lemma strlen_takeWhile: "0 \<in> set s \<Longrightarrow> strlen s = Some (length (takeWhile (\<lambda>c. c \<noteq> 0) s))"
  by (induction s) auto

lemma formatPut_out:
  assumes "arg_ok a fmt" "room s n (length t + length (padded left (arg_pad a pad) (nat width) (arg_text a fmt)))"
  shows "formatPut a fmt width left pad (out_buf s n t) = Some (out_buf s n (t @ padded left (arg_pad a pad) (nat width) (arg_text a fmt)))"
proof -
  consider v where "a = ACString v" | v where "a = AView v" | "\<not> (\<exists>v. a = ACString v)" "\<not> (\<exists>v. a = AView v)" by blast
  then show ?thesis
  proof cases
    case (1 v)
    let ?s = "case v of None \<Rightarrow> null_text @ [0] | Some s \<Rightarrow> s"
    have "strlen ?s = Some (length (arg_text a fmt)) \<and> take (length (arg_text a fmt)) ?s = arg_text a fmt \<and> length (arg_text a fmt) \<le> length ?s"
    proof (cases v)
      case None
      then show ?thesis using 1 by (simp add: arg_text_def null_text_def)
    next
      case (Some x)
      then show ?thesis using 1 assms(1) by (simp add: arg_text_def arg_ok_def strlen_takeWhile takeWhile_eq_take [symmetric] length_takeWhile_le)
    qed
    then show ?thesis using 1 assms(2) emitPadded_out [of "length (arg_text a fmt)" ?s s n t left "0x20" width]
      by (simp add: formatPut_def arg_pad_def Let_def)
  next
    case (2 v)
    then show ?thesis using assms(2) emitPadded_out [of "length v" v s n t left "0x20" width] by (simp add: formatPut_def arg_pad_def arg_text_def)
  next
    case 3
    let ?t = "arg_text a fmt" and ?z = "replicate 1024 0 :: u8 list"
    have l: "length ?t \<le> 1024" by (rule arg_text_tmp [OF assms(1) 3])
    then have "formatRaw a fmt (out_buf ?z 1024 []) = Some (out_buf ?z 1024 ([] @ ?t))" using assms(1) by (intro formatRaw_out) (simp_all add: room_def)
    moreover have "take (length ?t) (sb_buf (out_buf ?z 1024 ?t)) = ?t" "unat (sb_pos (out_buf ?z 1024 ?t)) = length ?t"
      "length ?t \<le> length (sb_buf (out_buf ?z 1024 ?t))"
      using l unat_small [of "length ?t"] by (simp_all add: out_buf_def)
    ultimately show ?thesis using 3 assms(2) emitPadded_out [of "length ?t" "sb_buf (out_buf ?z 1024 ?t)" s n t left pad width]
      by (cases a) (simp_all add: formatPut_def arg_pad_def out_buf_start)
  qed
qed

section \<open>Formats\<close>

text \<open>The parts of a format: a literal character, a doubled percent sign, and a conversion with its two flags, its width and its character.\<close>

datatype item = Lit u8 | Pct | Conv bool bool nat u8

primrec render_item :: "item \<Rightarrow> u8 list" where
  "render_item (Lit c) = [c]"
| "render_item Pct = [0x25, 0x25]"
| "render_item (Conv left zero w fmt) =
     0x25 # (if left then [0x2D] else []) @ (if zero then [0x30] else []) @ (if w = 0 then [] else numeral_text 10 False w) @ [fmt]"

definition render :: "item list \<Rightarrow> u8 list" where
  "render items = concat (map render_item items)"

text \<open>The text of a format under its arguments, and what formats and arguments have to be.\<close>

fun items_text :: "item list \<Rightarrow> arg list \<Rightarrow> u8 list" where
  "items_text (Lit c # items) args = c # items_text items args"
| "items_text (Pct # items) args = 0x25 # items_text items args"
| "items_text (Conv left zero w fmt # items) (a # args) =
     padded left (arg_pad a (if zero \<and> \<not> left then 0x30 else 0x20)) w (arg_text a fmt) @ items_text items args"
| "items_text items args = []"

fun items_ok :: "item list \<Rightarrow> arg list \<Rightarrow> bool" where
  "items_ok (Lit c # items) args \<longleftrightarrow> c \<noteq> 0 \<and> c \<noteq> 0x25 \<and> items_ok items args"
| "items_ok (Pct # items) args \<longleftrightarrow> items_ok items args"
| "items_ok (Conv left zero w fmt # items) (a # args) \<longleftrightarrow>
     fmt \<notin> {0, 0x25, 0x2D} \<and> \<not> isdigit (sint fmt) \<and> w < 2 ^ 31 \<and> arg_ok a fmt \<and> items_ok items args"
| "items_ok (Conv left zero w fmt # items) [] \<longleftrightarrow> False"
| "items_ok [] args \<longleftrightarrow> True"

lemma digits_hd: "2 \<le> base \<Longrightarrow> 0 < n \<Longrightarrow> hd (digits base n) \<noteq> 0"
proof (induction base n rule: digits.induct)
  case (1 base n)
  show ?case
  proof (cases "n < base")
    case True
    then show ?thesis using 1 by (simp add: digits.simps)
  next
    case False
    then have "0 < n div base" using "1.prems" by (simp add: div_greater_zero_iff)
    then show ?thesis using 1 False by (simp add: digits_div)
  qed
qed

lemma decimal_digit: "d < 10 \<Longrightarrow> sint (digit_char up d) = 0x30 + int d \<and> isdigit (sint (digit_char up d)) \<and> digit_char up d \<noteq> 0x2D \<and> digit_char up d \<noteq> 0x25"
  using digit_char_code [of d up] by (auto simp: isdigit_def)

lemma foldl_decimal_mono: "w \<le> foldl (\<lambda>w d. w * 10 + d) w ds" for w :: nat
proof (induction ds arbitrary: w)
  case (Cons d ds)
  show ?case using Cons [of "w * 10 + d"] by simp
qed simp

lemma read_width_digits:
  assumes "\<forall>d\<in>set ds. d < 10" "foldl (\<lambda>w d. w * 10 + d) w ds < 2 ^ 31" "\<not> isdigit (sint c)"
  shows "read_width (map (digit_char False) ds @ c # r) (int w) = Some (int (foldl (\<lambda>w d. w * 10 + d) w ds), c # r)"
  using assms(1,2)
proof (induction ds arbitrary: w)
  case Nil
  then show ?case using assms(3) by simp
next
  case (Cons d ds)
  have "w * 10 + d < 2 ^ 31" using Cons.prems(2) foldl_decimal_mono [of "w * 10 + d" ds] by simp
  moreover have "int w * 10 + (sint (digit_char False d) - 0x30) = int (w * 10 + d)" using decimal_digit [of d False] Cons.prems(1) by simp
  moreover have "isdigit (sint (digit_char False d))" using decimal_digit [of d False] Cons.prems(1) by (simp add: isdigit_def)
  ultimately show ?case using Cons.IH [of "w * 10 + d"] Cons.prems by (simp add: Let_def)
qed

lemma decimal_value: "foldl (\<lambda>w d. w * 10 + d) 0 (digits 10 n) = n"
proof (induction "10 :: nat" n rule: digits.induct)
  case (1 n)
  then show ?case by (cases "n < 10") (simp_all add: digits.simps [of 10 n])
qed

lemma read_width_text:
  assumes "w < 2 ^ 31" "\<not> isdigit (sint c)"
  shows "read_width ((if w = 0 then [] else numeral_text 10 False w) @ c # r) 0 = Some (int w, c # r)"
  using assms read_width_digits [of "digits 10 w" 0 c r] digits_bound [of 10 w] by (simp add: numeral_text_def decimal_value)

lemma parse_directive_render:
  assumes "fmt \<notin> {0, 0x25, 0x2D}" "\<not> isdigit (sint fmt)" "w < 2 ^ 31"
  shows "parse_directive (tl (render_item (Conv left zero w fmt)) @ r) =
    Some (Directive left (if zero \<and> \<not> left then 0x30 else 0x20) (int w) fmt, r)"
proof -
  define m where "m = (if w = 0 then [] else numeral_text 10 False w) @ fmt # r"
  obtain c ms where m: "m = c # ms" by (cases m) (simp_all add: m_def)
  have c: "c \<noteq> 0x2D \<and> c \<noteq> 0x25 \<and> c \<noteq> 0x30"
  proof (cases "w = 0")
    case True
    then show ?thesis using assms m by (auto simp: m_def isdigit_def)
  next
    case False
    then obtain d ds where d: "digits 10 w = d # ds" using digits_not_Nil [of 10 w] by (cases "digits 10 w") auto
    then have "d < 10" "d \<noteq> 0" using digits_bound [of 10 w] digits_hd [of 10 w] False by auto
    moreover have "c = digit_char False d" using m False d by (simp add: m_def numeral_text_def)
    ultimately show ?thesis using decimal_digit [of d False] by auto
  qed
  have w: "read_width m 0 = Some (int w, fmt # r)" using read_width_text [OF assms(3,2)] by (simp add: m_def)
  have "tl (render_item (Conv left zero w fmt)) @ r = (if left then [0x2D] else []) @ (if zero then [0x30] else []) @ m" by (simp add: m_def)
  then show ?thesis using c w by (simp add: parse_directive_def m split: if_split)
qed

lemma walkFormat_end: "walkFormat (0 # r) args b = Some b"
  by (cases args) simp_all

lemma walkFormat_out:
  assumes "items_ok items args" "room s n (length t + length (items_text items args))"
  shows "walkFormat (render items @ 0 # r) args (out_buf s n t) = Some (out_buf s n (t @ items_text items args))"
  using assms
proof (induction items args arbitrary: t rule: items_text.induct)
  case (1 c items args)
  then have "sb_put c (out_buf s n t) = Some (out_buf s n (t @ [c]))" by (auto intro!: sb_put_out elim: room_mono)
  then show ?case using 1 by (cases args) (simp_all add: render_def)
next
  case (2 items args)
  have "sb_put 0x25 (out_buf s n t) = Some (out_buf s n (t @ [0x25]))" using 2 by (auto intro!: sb_put_out elim: room_mono)
  moreover have "parse_directive (0x25 # f) = Some (Percent, f)" for f by (simp add: parse_directive_def)
  ultimately show ?case using 2 by (cases args) (simp_all add: render_def)
next
  case (3 left zero w fmt items a args)
  let ?p = "if zero \<and> \<not> left then 0x30 else 0x20"
  have "room s n (length t + length (padded left (arg_pad a ?p) w (arg_text a fmt)))" by (rule room_mono [OF "3.prems"(2)]) simp
  then have "formatPut a fmt (int w) left ?p (out_buf s n t) = Some (out_buf s n (t @ padded left (arg_pad a ?p) w (arg_text a fmt)))"
    using "3.prems"(1) formatPut_out [of a fmt s n t left ?p "int w"] by simp
  moreover have "parse_directive (tl (render_item (Conv left zero w fmt)) @ render items @ 0 # r) = Some (Directive left ?p (int w) fmt, render items @ 0 # r)"
    using 3 by (intro parse_directive_render) simp_all
  ultimately show ?case using 3 by (simp add: render_def add.assoc)
qed (simp_all add: render_def walkFormat_end)

lemma out_buf_end:
  assumes "min (unat n) (length t) \<le> length s" "0 < unat n" "k = min (length t) (unat n - 1)" "k < length s"
  shows "(sb_buf (out_buf s n t))[k := 0] = take k t @ 0 # drop (Suc k) s"
proof (cases "length t < unat n")
  case True
  then have "k = length t" using assms(3) by simp
  moreover have "drop (length t) s = s ! length t # drop (Suc (length t)) s" using assms(4) \<open>k = length t\<close> by (simp add: Cons_nth_drop_Suc)
  ultimately show ?thesis using True by (simp add: out_buf_def list_update_append)
next
  case False
  then have k: "Suc k = unat n" "k < length t" using assms(2,3) by simp_all
  then have "take (unat n) t = take k t @ [t ! k]" by (metis take_Suc_conv_app_nth)
  then show ?thesis using False k by (simp add: out_buf_def list_update_append)
qed

lemma snprintf_out:
  assumes "items_ok items args" "room s n (length t)" and t: "t = items_text items args"
  shows "snprintf s n (render items @ 0 # r) args =
    (if n = 0 then Some (s, word_of_nat (length t))
     else let k = min (length t) (unat n - 1) in if k < length s then Some (take k t @ 0 # drop (Suc k) s, word_of_nat (length t)) else None)"
proof -
  have "walkFormat (render items @ 0 # r) args (out_buf s n []) = Some (out_buf s n t)"
    using walkFormat_out [OF assms(1), of s n "[]" r] assms(2) t by simp
  then have w: "walkFormat (render items @ 0 # r) args \<lparr>sb_buf = s, sb_cap = n, sb_pos = 0\<rparr> = Some (out_buf s n t)" by (simp add: out_buf_start)
  have p: "unat (word_of_nat (length t) :: u32) = length t" using assms(2) by (intro unat_small) (simp add: room_def)
  show ?thesis
  proof (cases "n = 0")
    case True
    then show ?thesis using w by (simp add: snprintf_def out_buf_def)
  next
    case False
    then have n: "0 < unat n" "unat (n - 1) = unat n - 1" by (simp_all add: unat_gt_0 unat_minus_one)
    have s: "min (unat n) (length t) \<le> length s" using assms(2) by (simp add: room_def)
    have i: "unat (if sb_pos (out_buf s n t) < n then sb_pos (out_buf s n t) else n - 1) = min (length t) (unat n - 1)"
      using n by (auto simp: out_buf_def word_less_nat_alt p)
    have b: "(sb_buf (out_buf s n t))[k := 0] = take k t @ 0 # drop (Suc k) s" if k: "k = min (length t) (unat n - 1)" "k < length s" for k
      using out_buf_end [OF s n(1) k] .
    have l: "length (sb_buf (out_buf s n t)) = length s" using s by (auto simp: out_buf_def)
    have "0 < n" using False by (simp add: word_neq_0_conv)
    then show ?thesis using False n b [OF refl] unfolding snprintf_def w by (simp add: Let_def i l) (simp add: out_buf_def)
  qed
qed

lemma sprintf_out:
  assumes "items_ok items args" "length t < length s" "length t < 2 ^ 32" and t: "t = items_text items args"
  shows "sprintf s (render items @ 0 # r) args = Some (t @ 0 # drop (Suc (length t)) s, word_of_nat (length t))"
proof -
  have u: "unat (- 1 :: u32) = 2 ^ 32 - 1" by (simp add: unsigned_minus_1_eq_mask mask_eq_exp_minus_1)
  have "room s (- 1) (length t)" using assms(2,3) by (simp add: room_def)
  then have "walkFormat (render items @ 0 # r) args (out_buf s (- 1) []) = Some (out_buf s (- 1) t)"
    using walkFormat_out [OF assms(1), of s "- 1" "[]" r] t by simp
  then have w: "walkFormat (render items @ 0 # r) args \<lparr>sb_buf = s, sb_cap = - 1, sb_pos = 0\<rparr> = Some (out_buf s (- 1) t)" by (simp add: out_buf_start)
  have p: "unat (word_of_nat (length t) :: u32) = length t" using assms(3) by (rule unat_small)
  have "out_buf s (- 1) t = \<lparr>sb_buf = t @ drop (length t) s, sb_cap = - 1, sb_pos = word_of_nat (length t)\<rparr>"
    using assms(3) unfolding out_buf_def u by (simp add: min_absorb2)
  moreover have "drop (length t) s = s ! length t # drop (Suc (length t)) s" using assms(2) by (simp add: Cons_nth_drop_Suc)
  ultimately show ?thesis using assms(2) unfolding sprintf_def w by (simp add: p list_update_append)
qed

text \<open>C35. Formatted output. For every format that is put together from literal characters, doubled percent signs and conversions, with
  arguments as they should be, and a buffer of at least \<open>n\<close> bytes, \<open>snprintf\<close> accesses nothing outside of its arrays and returns the
  length of the full text, also when that is cut off; the buffer holds as much of the text as fits, a terminator behind it and else what it held
  before, and with \<open>n\<close> zero the buffer is not written at all. \<open>sprintf\<close> leaves the full text and the terminator in a buffer that is large enough.\<close>

theorem snprintf_correct:
  assumes "items_ok items args" "unat n \<le> length s" "length (items_text items args) < 2 ^ 32"
  shows "(let t = items_text items args; k = min (length t) (unat n - 1) in
      snprintf s n (render items @ 0 # r) args = Some (if n = 0 then s else take k t @ 0 # drop (Suc k) s, word_of_nat (length t)) \<and>
      (length t < length s \<longrightarrow> sprintf s (render items @ 0 # r) args = Some (t @ 0 # drop (Suc (length t)) s, word_of_nat (length t))))"
proof -
  let ?t = "items_text items args"
  have "room s n (length ?t)" using assms(2,3) by (simp add: room_def)
  moreover have "n \<noteq> 0 \<Longrightarrow> min (length ?t) (unat n - 1) < length s" using assms(2) by (metis diff_less min_less_iff_disj order_less_le_trans unat_gt_0 zero_less_one)
  ultimately show ?thesis using snprintf_out [OF assms(1) _ refl, of s n r] sprintf_out [OF assms(1) _ assms(3) refl, of s r] by (simp add: Let_def)
qed

theorem snprintf_correct_witness:
  "snprintf (replicate 6 7) 4 [0x25, 0x30, 0x33, 0x64, 0x25, 0x25, 0x25, 0x73, 0] [AInt 5, ACString (Some [0x68, 0x69, 0])] = Some ([0x30, 0x30, 0x35, 0, 7, 7], 6)"
proof -
  let ?i = "[Conv False True 3 0x64, Pct, Conv False False 0 0x73]" and ?a = "[AInt 5, ACString (Some [0x68, 0x69, 0])]"
  have ok: "items_ok ?i ?a" by (simp add: isdigit_def arg_ok_def)
  have "arg_text (AInt 5) 0x64 = [0x35]"
    by (simp add: arg_text_def uint_text_def numeral_text_def digits.simps fmtToBase_def digit_char_def isupper_def)
  moreover have "arg_text (ACString (Some [0x68, 0x69, 0])) 0x73 = [0x68, 0x69]" by (simp add: arg_text_def)
  moreover have "replicate (3 - length [x]) c = [c, c]" for c x :: u8 by (simp add: numeral_eq_Suc)
  ultimately have t: "items_text ?i ?a = [0x30, 0x30, 0x35, 0x25, 0x68, 0x69]" by (simp add: padded_def arg_pad_def Let_def)
  have r: "render ?i @ [0] = [0x25, 0x30, 0x33, 0x64, 0x25, 0x25, 0x25, 0x73, 0]"
    by (simp add: render_def numeral_text_def digits.simps digit_char_def)
  have two: "replicate 2 c = [c, c]" for c :: u8 by (simp add: numeral_eq_Suc)
  show ?thesis using snprintf_correct [OF ok, of 4 "replicate 6 7" "[]"] unfolding t r by (simp add: Let_def take_Cons' drop_Cons' two)
qed

section \<open>Accesses outside of the arrays\<close>

text \<open>A percent sign at the end of a format with arguments left: the terminator is taken for the conversion character and the walk goes on
  behind it.\<close>

lemma trailing_percent_reads_on: "snprintf s n [0x25, 0] [AInt 1] = None"
  by (simp add: snprintf_def parse_directive_def isdigit_def bind_eq_None_conv)

text \<open>A string longer than the local buffer, by a pointer that is not to constant characters: more bytes are emitted than the buffer has.\<close>

lemma sb_write_short: "length str < len \<Longrightarrow> sb_write str len b = None"
proof (induction str len b rule: sb_write.induct)
  case (3 c s n b)
  then show ?case by (cases "sb_put c b") simp_all
qed simp_all

lemma emitPadded_short: "length str < len \<Longrightarrow> emitPadded b str len width left pad = None"
  by (auto simp: emitPadded_def Let_def sb_write_short bind_eq_None_conv)

lemma char_pointer_over_reads:
  assumes "0 \<notin> set u" "1024 < length u" "length u < 2 ^ 32"
  shows "formatPut (ACharPtr (Some (u @ [0]))) fmt width left pad b = None"
proof -
  let ?z = "replicate 1024 0 :: u8 list"
  have "sb_writestr (Some (u @ [0])) (out_buf ?z 1024 []) = Some (out_buf ?z 1024 ([] @ u))"
    using assms by (intro sb_writestr_out) (auto simp: room_def takeWhile_append)
  moreover have "unat (sb_pos (out_buf ?z 1024 u)) = length u" "length (sb_buf (out_buf ?z 1024 u)) = 1024"
    using assms(2,3) unat_small [of "length u"] by (simp_all add: out_buf_def)
  ultimately show ?thesis using assms(2) by (simp add: formatPut_def formatRaw_def emitPadded_short flip: out_buf_start)
qed

text \<open>The smallest 64-bit number in binary: sign, 64 digits and terminator do not fit the local array of 65 bytes.\<close>

lemma long_binary_overflows: "raw_long 0x8000000000000000 0x62 b = None"
proof -
  have "length (digits 2 (2 ^ 63)) = 64" by (simp add: digits.simps)
  then have ov: "ltos 0x8000000000000000 (replicate 64 0) 2 False = kpanic ''write behind the array''"
    by (simp add: ltos_def put_digits_spec terminate_reverse_def patch_def)
  have "- (0x8000000000000000 :: u64) = 0x8000000000000000" by (simp add: word_uint_eq_iff)
  then have "ltos (- 0x8000000000000000) (replicate 64 0) 2 False = kpanic ''write behind the array''" by (simp only: ov)
  then show ?thesis by (simp add: raw_long_def fmtIsUnsigned_def fmtToBase_def isupper_def Let_def kopt_def kpanic_def)
qed

end
