(* ===== verification/Strings.thy ===== *)
theory Strings
  imports Heap Cstring
begin

unbundle bit_operations_syntax

text \<open>
  The string class (libc++/string/string.cc, libc++/include/string). An object is a \<^emph>\<open>str\<close>: the block on the heap it points to,
  if any, with its address and its bytes, the size, the capacity and the 24 bytes inside of the object that hold a short text.
  The memory allocator is a record of operations, since it is the kernel heap in the kernel and \<open>malloc\<close> in a program; its state is passed
  through. A result is a \<^typ>\<open>'a kres\<close>: no value when the code halts (no memory, a null pointer), a left value for an access outside of
  a block.

  Shown: each operation keeps the representation (terminator, capacity, ownership of the block) and does to the text what the operation on lists of
  characters does, through any sequence of operations and on the kernel heap too; no access is outside of a block; only growth
  can halt. Where the sums of positions and counts wrap, or a string is inserted into itself, this fails.
\<close>

section \<open>Objects\<close>

record str =
  s_heap :: "(nat \<times> u8 list) option"
  s_size :: u32
  s_cap :: u32
  s_sso :: "u8 list"

record 'h mm =
  mm_ready :: "'h \<Rightarrow> bool"
  mm_alloc :: "u32 \<Rightarrow> 'h \<Rightarrow> (nat \<times> 'h) option"
  mm_free :: "nat \<Rightarrow> 'h \<Rightarrow> 'h option"
  mm_old :: "nat \<Rightarrow> nat \<Rightarrow> u8"

definition SSO_CAPACITY :: u32 where "SSO_CAPACITY = 23"

definition npos :: u32 where "npos = - 1"

definition sdata :: "str \<Rightarrow> u8 list" where
  "sdata s = (case s_heap s of None \<Rightarrow> s_sso s | Some (p, b) \<Rightarrow> b)"

definition put_data :: "u8 list \<Rightarrow> str \<Rightarrow> str" where
  "put_data b s = (case s_heap s of None \<Rightarrow> s\<lparr>s_sso := b\<rparr> | Some (p, _) \<Rightarrow> s\<lparr>s_heap := Some (p, b)\<rparr>)"

definition isSSO :: "str \<Rightarrow> bool" where
  "isSSO s \<longleftrightarrow> s_heap s = None"

definition isHeap :: "str \<Rightarrow> bool" where
  "isHeap s \<longleftrightarrow> s_heap s \<noteq> None"

definition capacity :: "str \<Rightarrow> u32" where
  "capacity s = (if isSSO s then SSO_CAPACITY else s_cap s)"

text \<open>Accesses to a block.\<close>

definition outside :: "'a kres" where
  "outside = kpanic ''access outside of a block''"

definition blk_write :: "nat \<Rightarrow> u8 list \<Rightarrow> u8 list \<Rightarrow> u8 list kres" where
  "blk_write d bs b = (case store_block d bs b of None \<Rightarrow> outside | Some b' \<Rightarrow> kret b')"

definition blk_read :: "nat \<Rightarrow> nat \<Rightarrow> u8 list \<Rightarrow> u8 list kres" where
  "blk_read d n b = (if d + n \<le> length b then kret (take n (drop d b)) else outside)"

definition blk_move :: "nat \<Rightarrow> nat \<Rightarrow> nat \<Rightarrow> u8 list \<Rightarrow> u8 list kres" where
  "blk_move d src n b = (if d + n \<le> length b \<and> src + n \<le> length b then kret (memmove_in d src n b) else outside)"

text \<open>Pointers to characters are lists as in \<^emph>\<open>Cstring\<close>; null is \<^const>\<open>None\<close>.\<close>

definition checkNotNull :: "u8 list option \<Rightarrow> u8 list kres" where
  "checkNotNull p = (case p of None \<Rightarrow> None | Some b \<Rightarrow> kret b)"

definition cstr_len :: "u8 list \<Rightarrow> u32 kres" where
  "cstr_len b = (case strlen b of None \<Rightarrow> outside | Some n \<Rightarrow> kret (word_of_nat n))"

definition str_allocate :: "'h mm \<Rightarrow> u32 \<Rightarrow> 'h \<Rightarrow> ((nat \<times> u8 list) \<times> 'h) kres" where
  "str_allocate M cap h =
     (if \<not> mm_ready M h then None
      else case mm_alloc M (cap + 1) h of None \<Rightarrow> None
        | Some (p, h') \<Rightarrow> if p = 0 then None else kret ((p, map (mm_old M p) [0..<unat (cap + 1)]), h'))"

definition str_deallocate :: "'h mm \<Rightarrow> str \<Rightarrow> 'h \<Rightarrow> 'h kres" where
  "str_deallocate M s h = (case s_heap s of None \<Rightarrow> kret h | Some (p, _) \<Rightarrow> of_opt (mm_free M p h))"

definition setSSO :: "u8 list \<Rightarrow> u32 \<Rightarrow> str \<Rightarrow> str kres" where
  "setSSO src n s =
     kbind (blk_read 0 (unat n) src) (\<lambda>bs. kbind (blk_write 0 bs (s_sso s)) (\<lambda>b. kbind (blk_write (unat n) [0] b)
       (\<lambda>b. kret (s\<lparr>s_sso := b, s_heap := None, s_size := n\<rparr>))))"

definition setHeap :: "nat \<times> u8 list \<Rightarrow> u32 \<Rightarrow> u32 \<Rightarrow> str \<Rightarrow> str kres" where
  "setHeap pb n cap s =
     kbind (blk_write (unat n) [0] (snd pb)) (\<lambda>b. kret (s\<lparr>s_heap := Some (fst pb, b), s_size := n, s_cap := cap\<rparr>))"

text \<open>Put the text of a block into a new block, and make that the block of the string.\<close>

definition to_heap :: "'h mm \<Rightarrow> u8 list \<Rightarrow> nat \<Rightarrow> u32 \<Rightarrow> u32 \<Rightarrow> str \<Rightarrow> 'h \<Rightarrow> (str \<times> 'h) kres" where
  "to_heap M src len n cap s h =
     kbind (str_allocate M cap h) (\<lambda>((p, b), h). kbind (blk_read 0 len src) (\<lambda>bs. kbind (blk_write 0 bs b)
       (\<lambda>b. kbind (setHeap (p, b) n cap s) (\<lambda>s. kret (s, h)))))"

definition to_sso :: "u8 list \<Rightarrow> u32 \<Rightarrow> str \<Rightarrow> 'h \<Rightarrow> (str \<times> 'h) kres" where
  "to_sso src n s h = kbind (setSSO src n s) (\<lambda>s. kret (s\<lparr>s_cap := SSO_CAPACITY\<rparr>, h))"

section \<open>Construction and assignment\<close>

text \<open>An object before its constructor runs; \<open>w\<close> is what its 24 bytes hold.\<close>

definition str_raw :: "u8 list \<Rightarrow> str" where
  "str_raw w = \<lparr>s_heap = None, s_size = 0, s_cap = SSO_CAPACITY, s_sso = w\<rparr>"

definition str_default :: "u8 list \<Rightarrow> str" where
  "str_default w = (str_raw w)\<lparr>s_sso := w[0 := 0]\<rparr>"

definition str_of_cstr :: "'h mm \<Rightarrow> u8 list option \<Rightarrow> u8 list \<Rightarrow> 'h \<Rightarrow> (str \<times> 'h) kres" where
  "str_of_cstr M p w h =
     kbind (checkNotNull p) (\<lambda>src. kbind (cstr_len src) (\<lambda>n.
       if n \<le> SSO_CAPACITY then to_sso src n (str_raw w) h else to_heap M src (unat n + 1) n n (str_raw w) h))"

definition str_of_block :: "'h mm \<Rightarrow> u8 list option \<Rightarrow> u32 \<Rightarrow> u8 list \<Rightarrow> 'h \<Rightarrow> (str \<times> 'h) kres" where
  "str_of_block M p count w h =
     kbind (checkNotNull p) (\<lambda>src.
       if count \<le> SSO_CAPACITY then to_sso src count (str_raw w) h else to_heap M src (unat count) count count (str_raw w) h)"

definition str_fill :: "'h mm \<Rightarrow> u32 \<Rightarrow> u8 \<Rightarrow> u8 list \<Rightarrow> 'h \<Rightarrow> (str \<times> 'h) kres" where
  "str_fill M count ch w h =
     (if count \<le> SSO_CAPACITY
      then kbind (blk_write 0 (replicate (unat count) ch) w) (\<lambda>b. kbind (blk_write (unat count) [0] b)
        (\<lambda>b. kret ((str_raw b)\<lparr>s_size := count\<rparr>, h)))
      else kbind (str_allocate M count h) (\<lambda>((p, b), h). kbind (blk_write 0 (replicate (unat count) ch) b)
        (\<lambda>b. kbind (setHeap (p, b) count count (str_raw w)) (\<lambda>s. kret (s, h)))))"

definition str_copy :: "'h mm \<Rightarrow> str \<Rightarrow> u8 list \<Rightarrow> 'h \<Rightarrow> (str \<times> 'h) kres" where
  "str_copy M other w h =
     (if isSSO other then to_sso (s_sso other) (s_size other) (str_raw w) h
      else to_heap M (sdata other) (unat (s_size other) + 1) (s_size other) (s_cap other) (str_raw w) h)"

text \<open>What is left of a string that was moved from.\<close>

definition moved_from :: "str \<Rightarrow> str" where
  "moved_from s = s\<lparr>s_heap := None, s_size := 0, s_sso := (s_sso s)[0 := 0]\<rparr>"

definition take_over :: "str \<Rightarrow> str \<Rightarrow> str kres" where
  "take_over other s =
     (let s = s\<lparr>s_heap := s_heap other, s_size := s_size other, s_cap := s_cap other\<rparr> in
      if isSSO other
      then kbind (blk_read 0 (unat (s_size other) + 1) (s_sso other)) (\<lambda>bs. kbind (blk_write 0 bs (s_sso s)) (\<lambda>b. kret (s\<lparr>s_sso := b\<rparr>)))
      else kret s)"

definition str_move :: "str \<Rightarrow> u8 list \<Rightarrow> (str \<times> str) kres" where
  "str_move other w = kbind (take_over other (str_raw w)) (\<lambda>s. kret (s, moved_from other))"

definition str_destroy :: "'h mm \<Rightarrow> str \<Rightarrow> 'h \<Rightarrow> 'h kres" where
  "str_destroy M s h = str_deallocate M s h"

text \<open>An argument that is a string: another object, or the object itself.\<close>

datatype strarg = Self | Other str

definition str_assign :: "'h mm \<Rightarrow> strarg \<Rightarrow> str \<Rightarrow> 'h \<Rightarrow> (str \<times> 'h) kres" where
  "str_assign M a s h =
     (case a of Self \<Rightarrow> kret (s, h)
      | Other t \<Rightarrow>
          if isSSO t then kbind (str_deallocate M s h) (to_sso (s_sso t) (s_size t) s)
          else if isHeap s \<and> s_size t \<le> s_cap s
          then kbind (blk_read 0 (unat (s_size t) + 1) (sdata t)) (\<lambda>bs. kbind (blk_write 0 bs (sdata s))
            (\<lambda>b. kbind (blk_write (unat (s_size t)) [0] b) (\<lambda>b. kret ((put_data b s)\<lparr>s_size := s_size t\<rparr>, h))))
          else kbind (str_deallocate M s h) (to_heap M (sdata t) (unat (s_size t) + 1) (s_size t) (s_cap t) s))"

text \<open>Assignment of a temporary: the target and what is left of the source.\<close>

definition str_move_assign :: "'h mm \<Rightarrow> str \<Rightarrow> str \<Rightarrow> 'h \<Rightarrow> ((str \<times> str) \<times> 'h) kres" where
  "str_move_assign M other s h =
     kbind (str_deallocate M s h) (\<lambda>h. kbind (take_over other s) (\<lambda>s. kret ((s, moved_from other), h)))"

definition str_assign_cstr :: "'h mm \<Rightarrow> u8 list option \<Rightarrow> str \<Rightarrow> 'h \<Rightarrow> (str \<times> 'h) kres" where
  "str_assign_cstr M p s h =
     kbind (checkNotNull p) (\<lambda>src. kbind (cstr_len src) (\<lambda>n.
       if n \<le> SSO_CAPACITY then kbind (str_deallocate M s h) (to_sso src n s)
       else if isHeap s \<and> n \<le> s_cap s
       then kbind (blk_read 0 (unat n + 1) src) (\<lambda>bs. kbind (blk_write 0 bs (sdata s)) (\<lambda>b. kret ((put_data b s)\<lparr>s_size := n\<rparr>, h)))
       else kbind (str_deallocate M s h) (to_heap M src (unat n + 1) n n s)))"

definition str_swap :: "'h mm \<Rightarrow> u8 list \<Rightarrow> str \<Rightarrow> str \<Rightarrow> 'h \<Rightarrow> ((str \<times> str) \<times> 'h) kres" where
  "str_swap M w s t h =
     kbind (str_move s w) (\<lambda>(temp, s). kbind (str_move_assign M t s h) (\<lambda>((s, t), h).
       kbind (str_move_assign M temp t h) (\<lambda>((t, temp), h). kbind (str_destroy M temp h) (\<lambda>h. kret ((s, t), h)))))"

section \<open>Capacity\<close>

definition grow_cap :: "u32 \<Rightarrow> str \<Rightarrow> u32" where
  "grow_cap minCap s = max (max (capacity s * 2) minCap) (SSO_CAPACITY + 1)"

definition str_grow :: "'h mm \<Rightarrow> u32 \<Rightarrow> str \<Rightarrow> 'h \<Rightarrow> (str \<times> 'h) kres" where
  "str_grow M minCap s h =
     (let newCap = grow_cap minCap s in
      kbind (str_allocate M newCap h) (\<lambda>((p, b), h).
        kbind (if s_size s > 0 then kbind (blk_read 0 (unat (s_size s)) (sdata s)) (\<lambda>bs. blk_write 0 bs b) else kret b) (\<lambda>b.
        kbind (blk_write (unat (s_size s)) [0] b) (\<lambda>b. kbind (str_deallocate M s h) (\<lambda>h.
        kbind (setHeap (p, b) (s_size s) newCap s) (\<lambda>s. kret (s, h)))))))"

definition reserveFor :: "'h mm \<Rightarrow> u32 \<Rightarrow> str \<Rightarrow> 'h \<Rightarrow> (str \<times> 'h) kres" where
  "reserveFor M n s h = (if n \<le> capacity s then kret (s, h) else if isSSO s \<and> n \<le> SSO_CAPACITY then kret (s, h) else str_grow M n s h)"

definition str_reserve :: "'h mm \<Rightarrow> u32 \<Rightarrow> str \<Rightarrow> 'h \<Rightarrow> (str \<times> 'h) kres" where
  "str_reserve M newCap s h = (if newCap \<le> capacity s then kret (s, h) else str_grow M newCap s h)"

definition shrink_to_fit :: "'h mm \<Rightarrow> u8 list \<Rightarrow> str \<Rightarrow> 'h \<Rightarrow> (str \<times> 'h) kres" where
  "shrink_to_fit M tmp s h =
     (if isSSO s then kret (s, h)
      else if s_size s = s_cap s then kret (s, h)
      else if s_size s \<le> SSO_CAPACITY
      then kbind (blk_read 0 (unat (s_size s)) (sdata s)) (\<lambda>bs. kbind (blk_write 0 bs tmp) (\<lambda>tmp.
        kbind (blk_write (unat (s_size s)) [0] tmp) (\<lambda>tmp. kbind (str_deallocate M s h) (to_sso tmp (s_size s) s))))
      else kbind (str_allocate M (s_size s) h) (\<lambda>((p, b), h). kbind (blk_read 0 (unat (s_size s)) (sdata s)) (\<lambda>bs.
        kbind (blk_write 0 bs b) (\<lambda>b. kbind (blk_write (unat (s_size s)) [0] b) (\<lambda>b. kbind (str_deallocate M s h) (\<lambda>h.
        kbind (setHeap (p, b) (s_size s) (s_size s) s) (\<lambda>s. kret (s, h))))))))"

definition str_clear :: "'h mm \<Rightarrow> str \<Rightarrow> 'h \<Rightarrow> (str \<times> 'h) kres" where
  "str_clear M s h =
     (if isHeap s
      then kbind (str_deallocate M s h) (\<lambda>h. kret (s\<lparr>s_heap := None, s_cap := SSO_CAPACITY, s_size := 0, s_sso := (s_sso s)[0 := 0]\<rparr>, h))
      else kret (s\<lparr>s_size := 0, s_sso := (s_sso s)[0 := 0]\<rparr>, h))"

section \<open>Modification\<close>

text \<open>Write a terminator and set the size.\<close>

definition end_at :: "u32 \<Rightarrow> str \<Rightarrow> str kres" where
  "end_at n s = kbind (blk_write (unat n) [0] (sdata s)) (\<lambda>b. kret ((put_data b s)\<lparr>s_size := n\<rparr>))"

definition pop_back :: "str \<Rightarrow> str kres" where
  "pop_back s = (if s_size s > 0 then end_at (s_size s - 1) s else kret s)"

definition arg_size :: "strarg \<Rightarrow> str \<Rightarrow> u32" where
  "arg_size a s = s_size (case a of Self \<Rightarrow> s | Other t \<Rightarrow> t)"

text \<open>The copy of the argument into the string; from the string itself it is a copy inside of one block.\<close>

definition copy_arg :: "strarg \<Rightarrow> nat \<Rightarrow> str \<Rightarrow> u8 list kres" where
  "copy_arg a pos s =
     (case a of Other t \<Rightarrow> kbind (blk_read 0 (unat (s_size t)) (sdata t)) (\<lambda>bs. blk_write pos bs (sdata s))
      | Self \<Rightarrow> if pos + unat (s_size s) \<le> length (sdata s) then kret (memcpy_in pos 0 (unat (s_size s)) (sdata s)) else outside)"

text \<open>The gap for \<open>n\<close> characters at \<open>pos\<close>.\<close>

definition open_gap :: "u32 \<Rightarrow> u32 \<Rightarrow> str \<Rightarrow> str kres" where
  "open_gap pos n s =
     (if pos < s_size s
      then kbind (blk_move (unat (pos + n)) (unat pos) (unat (s_size s - pos)) (sdata s)) (\<lambda>b. kret (put_data b s)) else kret s)"

definition str_insert :: "'h mm \<Rightarrow> u32 \<Rightarrow> strarg \<Rightarrow> str \<Rightarrow> 'h \<Rightarrow> (str \<times> 'h) kres" where
  "str_insert M pos a s h =
     (let pos = min pos (s_size s) in
      kbind (reserveFor M (s_size s + arg_size a s) s h) (\<lambda>(s, h). kbind (open_gap pos (arg_size a s) s) (\<lambda>s.
        kbind (copy_arg a (unat pos) s) (\<lambda>b. kbind (end_at (s_size s + arg_size a s) (put_data b s)) (\<lambda>s. kret (s, h))))))"

definition str_insert_fill :: "'h mm \<Rightarrow> u32 \<Rightarrow> u32 \<Rightarrow> u8 \<Rightarrow> str \<Rightarrow> 'h \<Rightarrow> (str \<times> 'h) kres" where
  "str_insert_fill M pos count ch s h =
     (let pos = min pos (s_size s) in
      kbind (reserveFor M (s_size s + count) s h) (\<lambda>(s, h). kbind (open_gap pos count s) (\<lambda>s.
        kbind (blk_write (unat pos) (replicate (unat count) ch) (sdata s)) (\<lambda>b.
        kbind (end_at (s_size s + count) (put_data b s)) (\<lambda>s. kret (s, h))))))"

text \<open>The overloads that make a temporary string of their argument, which is destroyed behind.\<close>

definition with_temp :: "'h mm \<Rightarrow> u8 list option \<Rightarrow> u8 list \<Rightarrow> (str \<Rightarrow> 'h \<Rightarrow> ('r \<times> 'h) kres) \<Rightarrow> 'h \<Rightarrow> ('r \<times> 'h) kres" where
  "with_temp M p w f h =
     kbind (str_of_cstr M p w h) (\<lambda>(t, h). kbind (f t h) (\<lambda>(r, h). kbind (str_destroy M t h) (\<lambda>h. kret (r, h))))"

definition str_insert_cstr :: "'h mm \<Rightarrow> u8 list \<Rightarrow> u32 \<Rightarrow> u8 list option \<Rightarrow> str \<Rightarrow> 'h \<Rightarrow> (str \<times> 'h) kres" where
  "str_insert_cstr M w pos p s = with_temp M p w (\<lambda>t. str_insert M pos (Other t) s)"

definition str_erase :: "u32 \<Rightarrow> u32 \<Rightarrow> str \<Rightarrow> str kres" where
  "str_erase pos count s =
     (if pos > s_size s then kret s
      else let count = (if count = npos \<or> pos + count > s_size s then s_size s - pos else count) in
        kbind (if pos + count < s_size s
               then kbind (blk_move (unat pos) (unat (pos + count)) (unat (s_size s - pos - count)) (sdata s)) (\<lambda>b. kret (put_data b s)) else kret s)
          (\<lambda>s. end_at (s_size s - count) s))"

definition push_back :: "'h mm \<Rightarrow> u8 \<Rightarrow> str \<Rightarrow> 'h \<Rightarrow> (str \<times> 'h) kres" where
  "push_back M ch s h =
     kbind (reserveFor M (s_size s + 1) s h) (\<lambda>(s, h). kbind (blk_write (unat (s_size s)) [ch] (sdata s)) (\<lambda>b.
       kbind (end_at (s_size s + 1) (put_data b s)) (\<lambda>s. kret (s, h))))"

definition str_append :: "'h mm \<Rightarrow> strarg \<Rightarrow> str \<Rightarrow> 'h \<Rightarrow> (str \<times> 'h) kres" where
  "str_append M a s = str_insert M (s_size s) a s"

definition str_append_cstr :: "'h mm \<Rightarrow> u8 list \<Rightarrow> u8 list option \<Rightarrow> str \<Rightarrow> 'h \<Rightarrow> (str \<times> 'h) kres" where
  "str_append_cstr M w p s = with_temp M p w (\<lambda>t. str_insert M (s_size s) (Other t) s)"

definition str_resize :: "'h mm \<Rightarrow> u32 \<Rightarrow> u8 \<Rightarrow> str \<Rightarrow> 'h \<Rightarrow> (str \<times> 'h) kres" where
  "str_resize M n ch s h =
     (if n < s_size s then kbind (end_at n s) (\<lambda>s. kret (s, h))
      else if n > s_size s
      then kbind (reserveFor M n s h) (\<lambda>(s, h). kbind (blk_write (unat (s_size s)) (replicate (unat (n - s_size s)) ch) (sdata s)) (\<lambda>b.
        kbind (end_at n (put_data b s)) (\<lambda>s. kret (s, h))))
      else kret (s, h))"

definition str_replace :: "'h mm \<Rightarrow> u32 \<Rightarrow> u32 \<Rightarrow> strarg \<Rightarrow> str \<Rightarrow> 'h \<Rightarrow> (str \<times> 'h) kres" where
  "str_replace M pos count a s h = kbind (str_erase pos count s) (\<lambda>s. str_insert M pos a s h)"

definition str_replace_cstr :: "'h mm \<Rightarrow> u8 list \<Rightarrow> u32 \<Rightarrow> u32 \<Rightarrow> u8 list option \<Rightarrow> str \<Rightarrow> 'h \<Rightarrow> (str \<times> 'h) kres" where
  "str_replace_cstr M w pos count p s = with_temp M p w (\<lambda>t. str_replace M pos count (Other t) s)"

definition str_replace_block :: "'h mm \<Rightarrow> u32 \<Rightarrow> u32 \<Rightarrow> u8 list option \<Rightarrow> u32 \<Rightarrow> str \<Rightarrow> 'h \<Rightarrow> (str \<times> 'h) kres" where
  "str_replace_block M pos count p count2 s h =
     kbind (checkNotNull p) (\<lambda>src.
       let pos = min pos (s_size s); count = (if count = npos \<or> pos + count > s_size s then s_size s - pos else count) in
       kbind (reserveFor M (s_size s - count + count2) s h) (\<lambda>(s, h).
         kbind (if pos + count < s_size s
                then kbind (blk_move (unat (pos + count2)) (unat (pos + count)) (unat (s_size s - pos - count)) (sdata s)) (\<lambda>b. kret (put_data b s))
                else kret s) (\<lambda>s.
         kbind (blk_read 0 (unat count2) src) (\<lambda>bs. kbind (blk_write (unat pos) bs (sdata s)) (\<lambda>b.
         kbind (end_at (s_size s - count + count2) (put_data b s)) (\<lambda>s. kret (s, h)))))))"

section \<open>Access and search\<close>

definition str_at :: "u32 \<Rightarrow> str \<Rightarrow> u8 kres" where
  "str_at pos s = (if s_size s \<le> pos then kpanic ''assertion pos < size_'' else if unat pos < length (sdata s) then kret (sdata s ! unat pos) else outside)"

definition str_nth :: "u32 \<Rightarrow> str \<Rightarrow> u8 kres" where
  "str_nth pos s = (if unat pos < length (sdata s) then kret (sdata s ! unat pos) else outside)"

definition heapData :: "str \<Rightarrow> nat option" where
  "heapData s = (if isHeap s then map_option fst (s_heap s) else None)"

definition str_copy_out :: "u8 list option \<Rightarrow> u32 \<Rightarrow> u32 \<Rightarrow> str \<Rightarrow> (u32 \<times> u8 list) kres" where
  "str_copy_out p count pos s =
     kbind (checkNotNull p) (\<lambda>dst. if s_size s \<le> pos then kret (0, dst)
       else let count = min count (s_size s - pos) in
         kbind (blk_read (unat pos) (unat count) (sdata s)) (\<lambda>bs. kbind (blk_write 0 bs dst) (\<lambda>dst. kret (count, dst))))"

definition str_substr :: "'h mm \<Rightarrow> u8 list \<Rightarrow> u32 \<Rightarrow> u32 \<Rightarrow> str \<Rightarrow> 'h \<Rightarrow> (str \<times> 'h) kres" where
  "str_substr M w pos count s h =
     (if s_size s \<le> pos then kret (str_default w, h)
      else let count = (if count = npos \<or> pos + count > s_size s then s_size s - pos else count) in
        str_of_block M (Some (drop (unat pos) (sdata s))) count w h)"

text \<open>A loop over indices that returns the first one that satisfies a test, or \<open>npos\<close>.\<close>

fun first_index :: "(nat \<Rightarrow> bool kres) \<Rightarrow> nat list \<Rightarrow> u32 kres" where
  "first_index P [] = kret npos"
| "first_index P (i # is) = kbind (P i) (\<lambda>b. if b then kret (word_of_nat i) else first_index P is)"

text \<open>The tests: a block is found at the index, the character there is the one, is one of a block.\<close>

definition blk_cmp :: "u8 list \<Rightarrow> nat \<Rightarrow> u8 list \<Rightarrow> nat \<Rightarrow> int kres" where
  "blk_cmp d i p n = (case memcmp (drop i d) p n of None \<Rightarrow> outside | Some c \<Rightarrow> kret c)"

definition match_at :: "u8 list \<Rightarrow> u8 list \<Rightarrow> nat \<Rightarrow> nat \<Rightarrow> bool kres" where
  "match_at d p n i = kbind (blk_cmp d i p n) (\<lambda>c. kret (c = 0))"

definition char_at :: "u8 list \<Rightarrow> u8 \<Rightarrow> nat \<Rightarrow> bool kres" where
  "char_at d ch i = (if i < length d then kret (d ! i = ch) else outside)"

fun among :: "u8 list \<Rightarrow> u8 list \<Rightarrow> nat list \<Rightarrow> nat \<Rightarrow> bool kres" where
  "among d p [] i = kret False"
| "among d p (j # js) i =
     (if i < length d \<and> j < length p then if d ! i = p ! j then kret True else among d p js i else outside)"

definition knot :: "bool kres \<Rightarrow> bool kres" where
  "knot m = kbind m (\<lambda>b. kret (\<not> b))"

definition str_find :: "str \<Rightarrow> u32 \<Rightarrow> str \<Rightarrow> u32 kres" where
  "str_find t pos s =
     (if pos > s_size s then kret npos else if s_size t = 0 then kret pos else if s_size t > s_size s - pos then kret npos
      else first_index (match_at (sdata s) (sdata t) (unat (s_size t))) [unat pos..<unat (s_size s - s_size t) + 1])"

definition str_find_block :: "u8 list option \<Rightarrow> u32 \<Rightarrow> u32 \<Rightarrow> str \<Rightarrow> u32 kres" where
  "str_find_block p pos count s =
     kbind (checkNotNull p) (\<lambda>p. if pos > s_size s then kret npos else if count = 0 then kret pos else if count > s_size s - pos then kret npos
       else first_index (match_at (sdata s) p (unat count)) [unat pos..<unat (s_size s - count) + 1])"

definition str_find_char :: "u8 \<Rightarrow> u32 \<Rightarrow> str \<Rightarrow> u32 kres" where
  "str_find_char ch pos s =
     (if s_size s \<le> pos then kret npos else first_index (char_at (sdata s) ch) [unat pos..<unat (s_size s)])"

definition str_rfind :: "str \<Rightarrow> u32 \<Rightarrow> str \<Rightarrow> u32 kres" where
  "str_rfind t pos s =
     (if s_size t = 0 then kret npos else if s_size t > s_size s then kret npos
      else let pos = min pos (s_size s - s_size t) in
        first_index (match_at (sdata s) (sdata t) (unat (s_size t))) (rev [0..<unat pos + 1]))"

definition str_rfind_block :: "u8 list option \<Rightarrow> u32 \<Rightarrow> u32 \<Rightarrow> str \<Rightarrow> u32 kres" where
  "str_rfind_block p pos count s =
     kbind (checkNotNull p) (\<lambda>p. if count = 0 then kret npos else if count > s_size s then kret npos
       else let pos = min pos (s_size s - count) in first_index (match_at (sdata s) p (unat count)) (rev [0..<unat pos + 1]))"

definition str_rfind_char :: "u8 \<Rightarrow> u32 \<Rightarrow> str \<Rightarrow> u32 kres" where
  "str_rfind_char ch pos s =
     (if s_size s = 0 then kret npos
      else let pos = (if pos = npos \<or> pos \<ge> s_size s then s_size s - 1 else pos) in
        first_index (char_at (sdata s) ch) (rev [0..<unat pos + 1]))"

text \<open>The four searches for a character that is, or is not, one of a block of \<open>n\<close> characters.\<close>

definition find_first_of_block :: "u8 list \<Rightarrow> u32 \<Rightarrow> u32 \<Rightarrow> str \<Rightarrow> u32 kres" where
  "find_first_of_block p n pos s =
     (if s_size s \<le> pos then kret npos else first_index (among (sdata s) p [0..<unat n]) [unat pos..<unat (s_size s)])"

definition find_first_not_of_block :: "u8 list \<Rightarrow> u32 \<Rightarrow> u32 \<Rightarrow> str \<Rightarrow> u32 kres" where
  "find_first_not_of_block p n pos s =
     (if s_size s \<le> pos then kret npos else first_index (\<lambda>i. knot (among (sdata s) p [0..<unat n] i)) [unat pos..<unat (s_size s)])"

definition from_back :: "u32 \<Rightarrow> str \<Rightarrow> nat list" where
  "from_back pos s = (let pos = (if pos \<ge> s_size s then s_size s - 1 else pos) in rev [0..<unat pos + 1])"

definition find_last_of_block :: "u8 list \<Rightarrow> u32 \<Rightarrow> u32 \<Rightarrow> str \<Rightarrow> u32 kres" where
  "find_last_of_block p n pos s =
     (if s_size s = 0 then kret npos else first_index (among (sdata s) p [0..<unat n]) (from_back pos s))"

definition find_last_not_of_block :: "u8 list \<Rightarrow> u32 \<Rightarrow> u32 \<Rightarrow> str \<Rightarrow> u32 kres" where
  "find_last_not_of_block p n pos s =
     (if s_size s = 0 then kret npos else first_index (\<lambda>i. knot (among (sdata s) p [0..<unat n] i)) (from_back pos s))"

definition str_find_first_of :: "str \<Rightarrow> u32 \<Rightarrow> str \<Rightarrow> u32 kres" where
  "str_find_first_of t = find_first_of_block (sdata t) (s_size t)"

definition str_find_first_of_n :: "u8 list option \<Rightarrow> u32 \<Rightarrow> u32 \<Rightarrow> str \<Rightarrow> u32 kres" where
  "str_find_first_of_n p pos count s = kbind (checkNotNull p) (\<lambda>p. find_first_of_block p count pos s)"

definition str_find_first_of_cstr :: "u8 list option \<Rightarrow> u32 \<Rightarrow> str \<Rightarrow> u32 kres" where
  "str_find_first_of_cstr p pos s =
     kbind (checkNotNull p) (\<lambda>p. if s_size s \<le> pos then kret npos else kbind (cstr_len p) (\<lambda>n. find_first_of_block p n pos s))"

definition str_find_last_of :: "str \<Rightarrow> u32 \<Rightarrow> str \<Rightarrow> u32 kres" where
  "str_find_last_of t = find_last_of_block (sdata t) (s_size t)"

definition str_find_last_of_n :: "u8 list option \<Rightarrow> u32 \<Rightarrow> u32 \<Rightarrow> str \<Rightarrow> u32 kres" where
  "str_find_last_of_n p pos count s = kbind (checkNotNull p) (\<lambda>p. find_last_of_block p count pos s)"

definition str_find_first_not_of :: "str \<Rightarrow> u32 \<Rightarrow> str \<Rightarrow> u32 kres" where
  "str_find_first_not_of t = find_first_not_of_block (sdata t) (s_size t)"

definition str_find_first_not_of_n :: "u8 list option \<Rightarrow> u32 \<Rightarrow> u32 \<Rightarrow> str \<Rightarrow> u32 kres" where
  "str_find_first_not_of_n p pos count s = kbind (checkNotNull p) (\<lambda>p. find_first_not_of_block p count pos s)"

definition str_find_first_not_of_char :: "u8 \<Rightarrow> u32 \<Rightarrow> str \<Rightarrow> u32 kres" where
  "str_find_first_not_of_char ch pos s =
     (if s_size s \<le> pos then kret npos else first_index (\<lambda>i. knot (char_at (sdata s) ch i)) [unat pos..<unat (s_size s)])"

definition str_find_last_not_of :: "str \<Rightarrow> u32 \<Rightarrow> str \<Rightarrow> u32 kres" where
  "str_find_last_not_of t = find_last_not_of_block (sdata t) (s_size t)"

definition str_find_last_not_of_n :: "u8 list option \<Rightarrow> u32 \<Rightarrow> u32 \<Rightarrow> str \<Rightarrow> u32 kres" where
  "str_find_last_not_of_n p pos count s = kbind (checkNotNull p) (\<lambda>p. find_last_not_of_block p count pos s)"

definition str_find_last_not_of_char :: "u8 \<Rightarrow> u32 \<Rightarrow> str \<Rightarrow> u32 kres" where
  "str_find_last_not_of_char ch pos s =
     (if s_size s = 0 then kret npos else first_index (\<lambda>i. knot (char_at (sdata s) ch i)) (from_back pos s))"

text \<open>The overloads on zero-terminated strings go through a temporary.\<close>

definition search_temp :: "'h mm \<Rightarrow> u8 list option \<Rightarrow> u8 list \<Rightarrow> (str \<Rightarrow> 'r kres) \<Rightarrow> 'h \<Rightarrow> ('r \<times> 'h) kres" where
  "search_temp M p w f = with_temp M p w (\<lambda>t h. kbind (f t) (\<lambda>r. kret (r, h)))"

definition str_find_cstr :: "'h mm \<Rightarrow> u8 list \<Rightarrow> u8 list option \<Rightarrow> u32 \<Rightarrow> str \<Rightarrow> 'h \<Rightarrow> (u32 \<times> 'h) kres" where
  "str_find_cstr M w p pos s = search_temp M p w (\<lambda>t. str_find t pos s)"

definition str_rfind_cstr :: "'h mm \<Rightarrow> u8 list \<Rightarrow> u8 list option \<Rightarrow> u32 \<Rightarrow> str \<Rightarrow> 'h \<Rightarrow> (u32 \<times> 'h) kres" where
  "str_rfind_cstr M w p pos s = search_temp M p w (\<lambda>t. str_rfind t pos s)"

definition str_find_last_of_cstr :: "'h mm \<Rightarrow> u8 list \<Rightarrow> u8 list option \<Rightarrow> u32 \<Rightarrow> str \<Rightarrow> 'h \<Rightarrow> (u32 \<times> 'h) kres" where
  "str_find_last_of_cstr M w p pos s = search_temp M p w (\<lambda>t. str_find_last_of t pos s)"

definition str_find_first_not_of_cstr :: "'h mm \<Rightarrow> u8 list \<Rightarrow> u8 list option \<Rightarrow> u32 \<Rightarrow> str \<Rightarrow> 'h \<Rightarrow> (u32 \<times> 'h) kres" where
  "str_find_first_not_of_cstr M w p pos s = search_temp M p w (\<lambda>t. str_find_first_not_of t pos s)"

definition str_find_last_not_of_cstr :: "'h mm \<Rightarrow> u8 list \<Rightarrow> u8 list option \<Rightarrow> u32 \<Rightarrow> str \<Rightarrow> 'h \<Rightarrow> (u32 \<times> 'h) kres" where
  "str_find_last_not_of_cstr M w p pos s = search_temp M p w (\<lambda>t. str_find_last_not_of t pos s)"

definition str_contains :: "str \<Rightarrow> str \<Rightarrow> bool kres" where
  "str_contains t s = kbind (str_find t 0 s) (\<lambda>i. kret (i \<noteq> npos))"

definition str_contains_char :: "u8 \<Rightarrow> str \<Rightarrow> bool kres" where
  "str_contains_char ch s = kbind (str_find_char ch 0 s) (\<lambda>i. kret (i \<noteq> npos))"

definition starts_with :: "str \<Rightarrow> str \<Rightarrow> bool kres" where
  "starts_with t s = (if s_size t > s_size s then kret False else match_at (sdata s) (sdata t) (unat (s_size t)) 0)"

definition starts_with_char :: "u8 \<Rightarrow> str \<Rightarrow> bool kres" where
  "starts_with_char ch s = (if s_size s = 0 then kret False else char_at (sdata s) ch 0)"

definition ends_with :: "str \<Rightarrow> str \<Rightarrow> bool kres" where
  "ends_with t s =
     (if s_size t > s_size s then kret False else match_at (sdata s) (sdata t) (unat (s_size t)) (unat (s_size s - s_size t)))"

definition ends_with_char :: "u8 \<Rightarrow> str \<Rightarrow> bool kres" where
  "ends_with_char ch s = (if s_size s = 0 then kret False else char_at (sdata s) ch (unat (s_size s - 1)))"

definition str_compare :: "str \<Rightarrow> str \<Rightarrow> int kres" where
  "str_compare t s =
     (let n = (if s_size s < s_size t then s_size s else s_size t) in
      kbind (blk_cmp (sdata s) 0 (sdata t) (unat n)) (\<lambda>c.
        kret (if c \<noteq> 0 then c else if s_size s < s_size t then - 1 else if s_size s > s_size t then 1 else 0)))"

definition str_compare_cstr :: "'h mm \<Rightarrow> u8 list \<Rightarrow> u8 list option \<Rightarrow> str \<Rightarrow> 'h \<Rightarrow> (int \<times> 'h) kres" where
  "str_compare_cstr M w p s = search_temp M p w (\<lambda>t. str_compare t s)"

datatype strong_ordering = Ord_less | Ord_greater | Ord_equal

definition str_spaceship :: "str \<Rightarrow> str \<Rightarrow> strong_ordering kres" where
  "str_spaceship t s = kbind (str_compare t s) (\<lambda>c. kret (if c < 0 then Ord_less else if c > 0 then Ord_greater else Ord_equal))"

definition str_eq :: "str \<Rightarrow> str \<Rightarrow> bool kres" where
  "str_eq a b = (if s_size a \<noteq> s_size b then kret False else match_at (sdata a) (sdata b) (unat (s_size a)) 0)"

section \<open>Concatenation and removal of characters\<close>

definition str_plus :: "'h mm \<Rightarrow> u8 list \<Rightarrow> str \<Rightarrow> str \<Rightarrow> 'h \<Rightarrow> (str \<times> 'h) kres" where
  "str_plus M w a b h = kbind (str_copy M a w h) (\<lambda>(r, h). str_append M (Other b) r h)"

definition str_plus_cstr :: "'h mm \<Rightarrow> u8 list \<Rightarrow> u8 list \<Rightarrow> str \<Rightarrow> u8 list option \<Rightarrow> 'h \<Rightarrow> (str \<times> 'h) kres" where
  "str_plus_cstr M w w' a p h = kbind (str_copy M a w h) (\<lambda>(r, h). with_temp M p w' (\<lambda>t. str_append M (Other t) r) h)"

definition cstr_plus :: "'h mm \<Rightarrow> u8 list \<Rightarrow> u8 list option \<Rightarrow> str \<Rightarrow> 'h \<Rightarrow> (str \<times> 'h) kres" where
  "cstr_plus M w p b h = kbind (str_of_cstr M p w h) (\<lambda>(r, h). str_append M (Other b) r h)"

text \<open>The loop of \<open>erase\<close> and \<open>erase_if\<close> over the indices: the next free place, the number removed and the block.\<close>

fun erase_loop :: "(u8 \<Rightarrow> bool) \<Rightarrow> nat list \<Rightarrow> nat \<Rightarrow> nat \<Rightarrow> u8 list \<Rightarrow> (nat \<times> nat \<times> u8 list) kres" where
  "erase_loop P [] j c b = kret (j, c, b)"
| "erase_loop P (i # is) j c b =
     (if length b \<le> i then outside
      else if \<not> P (b ! i) then kbind (if i \<noteq> j then blk_write j [b ! i] b else kret b) (erase_loop P is (j + 1) c)
      else erase_loop P is j (c + 1) b)"

definition str_erase_if :: "'h mm \<Rightarrow> (u8 \<Rightarrow> bool) \<Rightarrow> str \<Rightarrow> 'h \<Rightarrow> ((u32 \<times> str) \<times> 'h) kres" where
  "str_erase_if M P s h =
     kbind (erase_loop P [0..<unat (s_size s)] 0 0 (sdata s)) (\<lambda>(j, c, b).
       if c > 0 then kbind (str_resize M (word_of_nat j) 0 (put_data b s) h) (\<lambda>(s, h). kret ((word_of_nat c, s), h))
       else kret ((word_of_nat c, put_data b s), h))"

definition str_erase_char :: "'h mm \<Rightarrow> u8 \<Rightarrow> str \<Rightarrow> 'h \<Rightarrow> ((u32 \<times> str) \<times> 'h) kres" where
  "str_erase_char M ch = str_erase_if M (\<lambda>x. x = ch)"

section \<open>The remaining overloads\<close>

definition str_op_assign_cstr :: "'h mm \<Rightarrow> u8 list option \<Rightarrow> str \<Rightarrow> 'h \<Rightarrow> (str \<times> 'h) kres" where
  "str_op_assign_cstr M p s h = str_assign_cstr M p s h"

definition str_assign_str :: "'h mm \<Rightarrow> strarg \<Rightarrow> str \<Rightarrow> 'h \<Rightarrow> (str \<times> 'h) kres" where
  "str_assign_str M a s h = str_assign M a s h"

definition str_reserve_none :: "'h mm \<Rightarrow> u8 list \<Rightarrow> str \<Rightarrow> 'h \<Rightarrow> (str \<times> 'h) kres" where
  "str_reserve_none M tmp s h = shrink_to_fit M tmp s h"

definition str_plus_assign :: "'h mm \<Rightarrow> strarg \<Rightarrow> str \<Rightarrow> 'h \<Rightarrow> (str \<times> 'h) kres" where
  "str_plus_assign M a s h = str_append M a s h"

definition str_plus_assign_char :: "'h mm \<Rightarrow> u8 \<Rightarrow> str \<Rightarrow> 'h \<Rightarrow> (str \<times> 'h) kres" where
  "str_plus_assign_char M ch s h = push_back M ch s h"

definition str_resize_zero :: "'h mm \<Rightarrow> u32 \<Rightarrow> str \<Rightarrow> 'h \<Rightarrow> (str \<times> 'h) kres" where
  "str_resize_zero M n s h = str_resize M n 0 s h"

definition str_find_first_of_char :: "u8 \<Rightarrow> u32 \<Rightarrow> str \<Rightarrow> u32 kres" where
  "str_find_first_of_char ch pos s = str_find_char ch pos s"

definition str_find_last_of_char :: "u8 \<Rightarrow> u32 \<Rightarrow> str \<Rightarrow> u32 kres" where
  "str_find_last_of_char ch pos s = str_rfind_char ch pos s"

definition swap_str :: "'h mm \<Rightarrow> u8 list \<Rightarrow> str \<Rightarrow> str \<Rightarrow> 'h \<Rightarrow> ((str \<times> str) \<times> 'h) kres" where
  "swap_str M w a b h = str_swap M w a b h"

end
