(* ===== verification/Stringrep.thy ===== *)
theory Stringrep
  imports Strings
begin

unbundle bit_operations_syntax

text \<open>
  The representation of the strings of \<^emph>\<open>Strings\<close>: what a well-formed object is (\<^emph>\<open>block_ok\<close>), which text it holds (\<^emph>\<open>str_rep\<close>), and
  the operations on texts as functions on lists of characters. Blocks are owned: the locale \<^emph>\<open>string_heap\<close> extends the contract of an allocator, and inside of it each
  operation is shown to keep the representation, the block and the regions of others (\<^emph>\<open>outcome\<close>).
\<close>

section \<open>Blocks and representation\<close>

lemma kret_neq_outside [simp]: "kret x \<noteq> outside" "outside \<noteq> kret x" "kbind outside f = outside" "outside \<noteq> None"
  by (simp_all add: outside_def kpanic_def kret_def)

lemma blk_write_ok: "d + length bs \<le> length b \<Longrightarrow> blk_write d bs b = kret (patch d bs b)"
  by (simp add: blk_write_def store_block_def patch_def)

lemma blk_read_ok: "d + n \<le> length b \<Longrightarrow> blk_read d n b = kret (take n (drop d b))"
  by (simp add: blk_read_def)

lemma blk_move_ok: "d + n \<le> length b \<Longrightarrow> src + n \<le> length b \<Longrightarrow> blk_move d src n b = kret (patch d (take n (drop src b)) b)"
  by (simp add: blk_move_def memmove_in_patch)

lemma sdata_put [simp]: "sdata (put_data b s) = b"
  by (simp add: put_data_def sdata_def split: option.split)

lemma put_data_fields [simp]:
  "s_size (put_data b s) = s_size s" "s_cap (put_data b s) = s_cap s" "isSSO (put_data b s) = isSSO s" "isHeap (put_data b s) = isHeap s"
  "capacity (put_data b s) = capacity s"
  by (simp_all add: put_data_def isSSO_def isHeap_def capacity_def split: option.split)

lemma size_update_fields [simp]:
  "sdata (s\<lparr>s_size := n\<rparr>) = sdata s" "isSSO (s\<lparr>s_size := n\<rparr>) = isSSO s" "isHeap (s\<lparr>s_size := n\<rparr>) = isHeap s" "capacity (s\<lparr>s_size := n\<rparr>) = capacity s"
  by (simp_all add: sdata_def isSSO_def isHeap_def capacity_def split: option.split)

lemma unat_SSO [simp]: "unat SSO_CAPACITY = 23"
  by (simp add: SSO_CAPACITY_def)

text \<open>The address of the block a string owns.\<close>

definition own :: "str \<Rightarrow> nat set" where
  "own s = fst ` set_option (s_heap s)"

lemma own_put [simp]: "own (put_data b s) = own s" "own (s\<lparr>s_size := n\<rparr>) = own s"
  by (auto simp: own_def put_data_def split: option.split)

text \<open>The blocks of a string are as large as its capacity says, with a byte for the terminator.\<close>

definition block_ok :: "str \<Rightarrow> bool" where
  "block_ok s \<longleftrightarrow> length (s_sso s) = 24 \<and> length (sdata s) = unat (capacity s) + 1 \<and> unat (capacity s) < 2 ^ 32 - 1 \<and> 23 \<le> unat (capacity s)"

text \<open>The text a string represents.\<close>

definition str_rep :: "str \<Rightarrow> u8 list \<Rightarrow> bool" where
  "str_rep s t \<longleftrightarrow> block_ok s \<and> unat (s_size s) = length t \<and> (\<exists>r. sdata s = t @ 0 # r)"

lemma block_ok_put: "block_ok s \<Longrightarrow> length b = length (sdata s) \<Longrightarrow> block_ok (put_data b s)"
  by (auto simp: block_ok_def put_data_def sdata_def isSSO_def capacity_def split: option.splits)

lemma block_ok_size [simp]: "block_ok (s\<lparr>s_size := n\<rparr>) = block_ok s"
  by (simp add: block_ok_def)

lemma str_repD:
  assumes "str_rep s t"
  shows "block_ok s" "unat (s_size s) = length t" "length t \<le> unat (capacity s)" "take (length t) (sdata s) = t" "length t < 2 ^ 32 - 1"
    "s_size s = word_of_nat (length t)" "length (sdata s) = unat (capacity s) + 1"
  using assms unsigned_less [of "s_size s", where 'a = nat]
  by (auto simp: str_rep_def block_ok_def word_unat_eq_iff unat_of_nat)

lemma u32_of_nat: "k < 2 ^ 32 \<Longrightarrow> unat (word_of_nat k :: u32) = k"
  by (simp add: unat_of_nat)

lemma end_at_rep:
  assumes "block_ok s" "unat n \<le> unat (capacity s)"
  shows "\<exists>s'. end_at n s = kret s' \<and> str_rep s' (take (unat n) (sdata s)) \<and> own s' = own s \<and> capacity s' = capacity s"
proof -
  have l: "unat n < length (sdata s)" using assms by (simp add: block_ok_def)
  then have "end_at n s = kret ((put_data (patch (unat n) [0] (sdata s)) s)\<lparr>s_size := n\<rparr>)"
    by (simp add: end_at_def blk_write_ok)
  moreover have "str_rep ((put_data (patch (unat n) [0] (sdata s)) s)\<lparr>s_size := n\<rparr>) (take (unat n) (sdata s))"
    using assms(1) l block_ok_put [OF assms(1), of "patch (unat n) [0] (sdata s)"] by (simp add: str_rep_def) (simp add: patch_def)
  ultimately show ?thesis by simp
qed

lemma take_rep: "str_rep s t \<Longrightarrow> k \<le> length t \<Longrightarrow> take k (sdata s) = take k t"
  by (auto simp: str_rep_def)

text \<open>Shorter texts.\<close>

lemma pop_back_rep:
  assumes "str_rep s t"
  shows "\<exists>s'. pop_back s = kret s' \<and> str_rep s' (butlast t) \<and> own s' = own s \<and> capacity s' = capacity s"
proof (cases "s_size s = 0")
  case False
  note r = str_repD [OF assms]
  have u: "unat (s_size s - 1) = length t - 1" using unat_minus_one [OF False] r(2) by simp
  have "pop_back s = end_at (s_size s - 1) s" using False by (simp add: pop_back_def word_neq_0_conv)
  moreover have "take (length t - 1) (sdata s) = butlast t" using take_rep [OF assms, of "length t - 1"] by (simp add: butlast_conv_take)
  ultimately show ?thesis using end_at_rep [of s "s_size s - 1"] r(1,3) u by simp
next
  case True
  then have "t = []" using str_repD(2) [OF assms] by simp
  then show ?thesis using True assms by (simp add: pop_back_def)
qed

text \<open>A move inside of the block, then a new end.\<close>

lemma move_end_rep:
  assumes "block_ok s" "d + k \<le> unat (capacity s)" "src + k \<le> unat (capacity s)" "unat n = d + k" "\<And>b. f (put_data b s) = n"
  shows "\<exists>s'. kbind (kbind (blk_move d src k (sdata s)) (\<lambda>b. kret (put_data b s))) (\<lambda>s. end_at (f s) s) = kret s' \<and>
    str_rep s' (take d (sdata s) @ take k (drop src (sdata s))) \<and> own s' = own s \<and> capacity s' = capacity s"
proof -
  let ?b = "patch d (take k (drop src (sdata s))) (sdata s)"
  have l: "length (sdata s) = unat (capacity s) + 1" using assms(1) by (simp add: block_ok_def)
  have lb: "length ?b = length (sdata s)" using l assms(2,3) by simp
  then have "block_ok (put_data ?b s)" using block_ok_put [OF assms(1)] by blast
  moreover have "take (d + k) ?b = take d (sdata s) @ take k (drop src (sdata s))" using l assms(2,3) by (simp add: patch_def)
  ultimately show ?thesis using end_at_rep [of "put_data ?b s" n] assms(2-) l by (simp add: blk_move_ok)
qed

text \<open>The positions and counts of \<open>erase\<close>, \<open>replace\<close> and \<open>substr\<close>, when their sum does not wrap.\<close>

definition clip :: "u32 \<Rightarrow> u32 \<Rightarrow> u32 \<Rightarrow> u32" where
  "clip pos count n = (if count = npos \<or> pos + count > n then n - pos else count)"

definition no_wrap :: "u32 \<Rightarrow> u32 \<Rightarrow> bool" where
  "no_wrap pos count \<longleftrightarrow> unat pos + unat count < 2 ^ 32 \<or> count = npos"

lemma unat_npos [simp]: "unat npos = 2 ^ 32 - 1"
  by (simp add: npos_def unsigned_minus_1_eq_mask mask_eq_exp_minus_1)

lemma unat_add_small: "unat a + unat b < 2 ^ 32 \<Longrightarrow> unat (a + b :: u32) = unat a + unat b"
  by (simp add: unat_word_ariths)

lemma unat_sub_le: "unat b \<le> unat a \<Longrightarrow> unat (a - b :: u32) = unat a - unat b"
  by (simp add: unat_sub word_le_nat_alt)

lemma clip_spec:
  assumes "no_wrap pos count" "pos \<le> n" "unat n < 2 ^ 32 - 1"
  shows "unat (clip pos count n) = min (unat count) (unat n - unat pos)"
    "unat (pos + clip pos count n) = unat pos + min (unat count) (unat n - unat pos)"
    "unat (n - clip pos count n) = unat n - min (unat count) (unat n - unat pos)"
    "unat (n - pos - clip pos count n) = unat n - unat pos - min (unat count) (unat n - unat pos)"
proof -
  have p: "unat pos \<le> unat n" using assms(2) by (simp add: word_le_nat_alt)
  show c: "unat (clip pos count n) = min (unat count) (unat n - unat pos)"
    using assms p by (auto simp: clip_def no_wrap_def word_less_nat_alt unat_add_small unat_sub_le npos_def [symmetric])
  show "unat (pos + clip pos count n) = unat pos + min (unat count) (unat n - unat pos)"
    using p assms(3) unat_add_small [of pos "clip pos count n"] by (simp add: c min_def)
  show "unat (n - clip pos count n) = unat n - min (unat count) (unat n - unat pos)"
    using unat_sub_le [of "clip pos count n" n] by (simp add: c)
  show "unat (n - pos - clip pos count n) = unat n - unat pos - min (unat count) (unat n - unat pos)"
    using p unat_sub_le [of "clip pos count n" "n - pos"] by (simp add: c unat_sub_le)
qed

lemma erase_rep:
  assumes "str_rep s t" "no_wrap pos count"
  shows "\<exists>s'. str_erase pos count s = kret s' \<and> str_rep s' (if length t < unat pos then t else take (unat pos) t @ drop (unat pos + unat count) t) \<and>
    own s' = own s \<and> capacity s' = capacity s"
proof (cases "s_size s < pos")
  case True
  then show ?thesis using assms str_repD(2) [OF assms(1)] by (simp add: str_erase_def word_less_nat_alt)
next
  case False
  note r = str_repD [OF assms(1)]
  define c where "c = min (unat count) (length t - unat pos)"
  let ?p = "unat pos" and ?cw = "clip pos count (s_size s)"
  have p: "?p \<le> length t" using False r(2) by (simp add: word_less_nat_alt)
  note cs = clip_spec [OF assms(2), of "s_size s", unfolded r(2), folded c_def]
  have c1: "unat (pos + ?cw) = ?p + c" "unat (s_size s - ?cw) = length t - c" "unat (s_size s - pos - ?cw) = length t - ?p - c"
    using cs False r(5) by (simp_all add: not_less)
  have lt: "pos + ?cw < s_size s \<longleftrightarrow> ?p + c < length t" using c1 r(2) by (simp add: word_less_nat_alt)
  have e: "str_erase pos count s = kbind (if ?p + c < length t
      then kbind (blk_move ?p (?p + c) (length t - ?p - c) (sdata s)) (\<lambda>b. kret (put_data b s)) else kret s) (\<lambda>s'. end_at (s_size s' - ?cw) s')"
    using False by (simp add: str_erase_def Let_def clip_def [symmetric] lt c1 del: not_less)
  have d: "drop (?p + unat count) t = drop (?p + c) t" using p by (auto simp: c_def min_def)
  show ?thesis
  proof (cases "?p + c < length t")
    case True
    have "take ?p (sdata s) @ take (length t - ?p - c) (drop (?p + c) (sdata s)) = take ?p t @ drop (?p + c) t"
      using take_rep [OF assms(1) p] r(4) p by (metis (no_types, lifting) diff_diff_add drop_take)
    then show ?thesis using True e d p r(3) move_end_rep [OF r(1), of ?p "length t - ?p - c" "?p + c" "s_size s - ?cw" "\<lambda>s'. s_size s' - ?cw"] c1
      by simp
  next
    case F: False
    then have "length t - c = ?p" using p by (simp add: c_def)
    then show ?thesis using F e d p r(3) end_at_rep [OF r(1), of "s_size s - ?cw"] c1 take_rep [OF assms(1) p] by simp
  qed
qed

text \<open>Texts put into the gap.\<close>

lemma open_gap_rep:
  assumes "str_rep s t" "unat pos \<le> length t" "length t + unat n \<le> unat (capacity s)"
  shows "\<exists>s'. open_gap pos n s = kret s' \<and> block_ok s' \<and> own s' = own s \<and> capacity s' = capacity s \<and> s_size s' = s_size s \<and>
    take (unat pos) (sdata s') = take (unat pos) t \<and> take (length t - unat pos) (drop (unat pos + unat n) (sdata s')) = drop (unat pos) t"
proof -
  note r = str_repD [OF assms(1)]
  have pn: "unat (pos + n) = unat pos + unat n" using assms(2,3) r(1) by (intro unat_add_small) (simp add: block_ok_def)
  show ?thesis
  proof (cases "pos < s_size s")
    case True
    let ?k = "length t - unat pos"
    let ?b = "patch (unat pos + unat n) (take ?k (drop (unat pos) (sdata s))) (sdata s)"
    have k: "unat (s_size s - pos) = ?k" using r(2) assms(2) by (simp add: unat_sub_le)
    have mid: "take ?k (drop (unat pos) (sdata s)) = drop (unat pos) t" using r(4) by (metis drop_take)
    have "open_gap pos n s = kret (put_data ?b s)" using True assms(2,3) r(7) by (simp add: open_gap_def pn k blk_move_ok)
    moreover have "block_ok (put_data ?b s)" by (rule block_ok_put [OF r(1)]) (use assms(2,3) r(7) in simp)
    moreover have "take (unat pos) ?b = take (unat pos) t" "take ?k (drop (unat pos + unat n) ?b) = drop (unat pos) t"
      using assms(2,3) r(7) take_rep [OF assms(1,2)] mid by (simp_all add: patch_def)
    ultimately show ?thesis by simp
  next
    case False
    then have "unat pos = length t" using assms(2) r(2) by (simp add: word_less_nat_alt)
    then show ?thesis using False r(1,4) by (simp add: open_gap_def)
  qed
qed

lemma fill_gap_rep:
  assumes "block_ok s" "take p (sdata s) = take p t" "take (length t - p) (drop (p + length u) (sdata s)) = drop p t"
    "p \<le> length t" "length t + length u \<le> unat (capacity s)" "unat n = length t + length u"
  shows "\<exists>s'. kbind (blk_write p u (sdata s)) (\<lambda>b. end_at n (put_data b s)) = kret s' \<and> str_rep s' (take p t @ u @ drop p t) \<and>
    own s' = own s \<and> capacity s' = capacity s"
proof -
  have l: "length (sdata s) = unat (capacity s) + 1" using assms(1) by (simp add: block_ok_def)
  have w: "p + length u \<le> length (sdata s)" using l assms(4,5) by simp
  have "take (length t + length u) (patch p u (sdata s)) = take p t @ u @ drop p t"
    using w assms(2-5) l by (simp add: patch_def)
  moreover have "block_ok (put_data (patch p u (sdata s)) s)" using assms(1) w by (intro block_ok_put) simp_all
  ultimately show ?thesis using end_at_rep [of "put_data (patch p u (sdata s)) s" n] assms(5,6) w by (simp add: blk_write_ok)
qed

lemma insert_body:
  assumes "str_rep s t" "unat pos \<le> length t" "length t + length u \<le> unat (capacity s)" "unat n = length u"
  shows "\<exists>s'. kbind (open_gap pos n s) (\<lambda>s. kbind (blk_write (unat pos) u (sdata s)) (\<lambda>b. end_at (s_size s + n) (put_data b s))) = kret s' \<and>
    str_rep s' (take (unat pos) t @ u @ drop (unat pos) t) \<and> own s' = own s \<and> capacity s' = capacity s"
proof -
  note r = str_repD [OF assms(1)]
  from open_gap_rep [OF assms(1,2), of n] assms(3,4) obtain s1 where s1: "open_gap pos n s = kret s1" "block_ok s1" "own s1 = own s"
    "capacity s1 = capacity s" "s_size s1 = s_size s" "take (unat pos) (sdata s1) = take (unat pos) t"
    "take (length t - unat pos) (drop (unat pos + length u) (sdata s1)) = drop (unat pos) t" by auto
  have "unat (s_size s1 + n) = length t + length u"
    using s1(5) r(1,2) assms(3,4) unat_add_small [of "s_size s" n] by (simp add: block_ok_def)
  from fill_gap_rep [OF s1(2,6,7) assms(2) _ this] s1 assms(3) show ?thesis by simp
qed

section \<open>Strings on an allocator\<close>

locale string_heap = allocator alloc free store rep owned
  for alloc :: "u32 \<Rightarrow> 's \<Rightarrow> (nat \<times> 's) option" and free :: "nat \<Rightarrow> 's \<Rightarrow> 's option" and store :: "nat \<Rightarrow> u32 \<Rightarrow> 's \<Rightarrow> 's"
    and rep :: "'s \<Rightarrow> 'a \<Rightarrow> bool" and owned :: "'a \<Rightarrow> (nat \<times> nat) set" +
  fixes M :: "'s mm"
  assumes mm: "mm_alloc M = alloc" "mm_free M = free"
    and alloc_zero: "alloc 0 s = Some (0, s)"
begin

text \<open>The state of the memory, one region for an address; that it holds the block of a string, and the regions of all others.\<close>

definition mem_ok :: "'s \<Rightarrow> 'a \<Rightarrow> bool" where
  "mem_ok h a \<longleftrightarrow> rep h a \<and> inj_on fst (owned a)"

definition holds :: "'a \<Rightarrow> str \<Rightarrow> bool" where
  "holds a s \<longleftrightarrow> (\<forall>p b. s_heap s = Some (p, b) \<longrightarrow> (\<exists>len. length b \<le> len \<and> (p, len) \<in> owned a))"

definition others :: "'a \<Rightarrow> str \<Rightarrow> (nat \<times> nat) set" where
  "others a s = {x \<in> owned a. fst x \<notin> own s}"

text \<open>The outcome of an operation: it halts, which \<open>c\<close> allows, or returns a string with text \<open>t\<close> and leaves the regions \<open>R\<close> of the others.\<close>

definition outcome :: "bool \<Rightarrow> (nat \<times> nat) set \<Rightarrow> u8 list \<Rightarrow> (str \<Rightarrow> bool) \<Rightarrow> (str \<times> 's) kres \<Rightarrow> bool" where
  "outcome c R t P m \<longleftrightarrow> (m = None \<and> c) \<or>
     (\<exists>s' h' a'. m = kret (s', h') \<and> str_rep s' t \<and> P s' \<and> mem_ok h' a' \<and> holds a' s' \<and> others a' s' = R)"

lemma outcome_cases:
  assumes "outcome c R t P m"
  obtains (halts) "m = None" c
    | (returns) s' h' a' where "m = kret (s', h')" "str_rep s' t" "P s'" "mem_ok h' a'" "holds a' s'" "others a' s' = R"
  using assms by (auto simp: outcome_def)

lemma outcome_kret:
  "str_rep s' t \<Longrightarrow> P s' \<Longrightarrow> mem_ok h' a' \<Longrightarrow> holds a' s' \<Longrightarrow> others a' s' = R \<Longrightarrow> outcome c R t P (kret (s', h'))"
  by (auto simp: outcome_def)

lemma outcome_weaken: "outcome c R t P m \<Longrightarrow> (c \<Longrightarrow> c') \<Longrightarrow> (\<And>s. P s \<Longrightarrow> Q s) \<Longrightarrow> outcome c' R t Q m"
  by (auto simp: outcome_def)

text \<open>A change of the string that keeps its block.\<close>

lemma holds_same: "holds a s \<Longrightarrow> str_rep s t \<Longrightarrow> str_rep s' t' \<Longrightarrow> own s' = own s \<Longrightarrow> capacity s' = capacity s \<Longrightarrow> holds a s'"
  unfolding holds_def own_def str_rep_def block_ok_def by (cases "s_heap s"; cases "s_heap s'") (auto simp: sdata_def)

lemma others_same: "own s' = own s \<Longrightarrow> others a s' = others a s"
  by (simp add: others_def)

lemma outcome_same:
  assumes "mem_ok h a" "holds a s" "str_rep s t" "str_rep s' t'" "own s' = own s" "capacity s' = capacity s" "P s'"
  shows "outcome c (others a s) t' P (kret (s', h))"
  using assms holds_same [OF assms(2-6)] others_same [OF assms(5), of a] by (intro outcome_kret)

lemma allocate_cases:
  assumes "mem_ok h a"
  obtains (halts) "str_allocate M cap h = None"
    | (block) p h' a' len where "str_allocate M cap h = kret ((p, map (mm_old M p) [0..<unat cap + 1]), h')" "unat cap < 2 ^ 32 - 1"
        "mem_ok h' a'" "p \<notin> fst ` owned a" "unat cap + 1 \<le> len" "owned a' = insert (p, len) (owned a)"
proof -
  have r: "rep h a" "inj_on fst (owned a)" using assms by (simp_all add: mem_ok_def)
  obtain p h' where al: "alloc (cap + 1) h = Some (p, h')" using alloc_returns [OF r(1)] by blast
  show thesis
  proof (cases "mm_ready M h \<and> p \<noteq> 0")
    case False
    then show thesis using al halts by (auto simp: str_allocate_def mm)
  next
    case True
    from alloc_owned [OF r(1) al] True obtain a' len where o: "rep h' a'" "unat (cap + 1) \<le> len" "p \<notin> fst ` owned a" "owned a' = insert (p, len) (owned a)"
      by auto
    have "cap + 1 \<noteq> 0" using alloc_zero [of h] al True by auto
    then have c: "unat (cap + 1) = unat cap + 1" using unatSuc [of cap] by (simp add: add.commute)
    then have "unat cap < 2 ^ 32 - 1" using unsigned_less [of "cap + 1", where 'a = nat] by simp
    moreover have "mem_ok h' a'" using o r(2) by (auto simp: mem_ok_def)
    moreover have "str_allocate M cap h = kret ((p, map (mm_old M p) [0..<unat cap + 1]), h')"
      using True al c by (simp add: str_allocate_def mm)
    ultimately show thesis using block o c by metis
  qed
qed

lemma deallocate_ok:
  assumes "mem_ok h a" "holds a s"
  shows "\<exists>h' a'. str_deallocate M s h = kret h' \<and> mem_ok h' a' \<and> owned a' = others a s"
proof (cases "s_heap s")
  case None
  then show ?thesis using assms by (auto simp: str_deallocate_def others_def own_def)
next
  case (Some pb)
  obtain p b where pb: "pb = (p, b)" by (cases pb)
  have r: "rep h a" "inj_on fst (owned a)" using assms(1) by (simp_all add: mem_ok_def)
  obtain len where len: "(p, len) \<in> owned a" using assms(2) Some pb by (auto simp: holds_def)
  from free_owned [OF r(1) len] obtain h' a' where f: "free p h = Some h'" "rep h' a'" "owned a' = owned a - {(p, len)}" by blast
  have "owned a - {(p, len)} = others a s" using r(2) len Some pb by (fastforce simp: others_def own_def inj_on_def)
  moreover have "mem_ok h' a'" using f r(2) by (auto simp: mem_ok_def intro: inj_on_subset)
  ultimately show ?thesis using f Some pb by (auto simp: str_deallocate_def mm)
qed

lemma others_insert:
  assumes "owned a' = insert (p, len) R" "p \<notin> fst ` R" "s_heap s = Some (p, b)"
  shows "others a' s = R"
  using assms by (force simp: others_def own_def)

end

lemma to_sso_rep:
  assumes "length (s_sso s) = 24" "n \<le> SSO_CAPACITY" "unat n \<le> length src"
  shows "\<exists>s'. to_sso src n s h = kret (s', h) \<and> str_rep s' (take (unat n) src) \<and> s_heap s' = None"
proof -
  have n: "unat n \<le> 23" using assms(2) by (simp add: word_le_nat_alt SSO_CAPACITY_def)
  let ?b = "patch (unat n) [0] (patch 0 (take (unat n) src) (s_sso s))"
  have l: "length (patch 0 (take (unat n) src) (s_sso s)) = 24" using assms n by simp
  have "to_sso src n s h = kret (s\<lparr>s_sso := ?b, s_heap := None, s_size := n, s_cap := SSO_CAPACITY\<rparr>, h)"
    using assms n l by (simp add: to_sso_def setSSO_def blk_read_ok blk_write_ok)
  moreover have "str_rep (s\<lparr>s_sso := ?b, s_heap := None, s_size := n, s_cap := SSO_CAPACITY\<rparr>) (take (unat n) src)"
    using assms n l by (simp add: str_rep_def block_ok_def sdata_def capacity_def isSSO_def) (simp add: patch_def)
  ultimately show ?thesis by simp
qed

lemma setHeap_rep:
  assumes "length (s_sso s) = 24" "length b = unat cap + 1" "unat cap < 2 ^ 32 - 1" "n \<le> cap" "23 \<le> unat cap"
  shows "\<exists>s'. setHeap (p, b) n cap s = kret s' \<and> str_rep s' (take (unat n) b) \<and> (\<exists>b'. s_heap s' = Some (p, b') \<and> length b' = length b) \<and> capacity s' = cap"
proof -
  have n: "unat n < length b" using assms(2,4) by (simp add: word_le_nat_alt)
  let ?s = "s\<lparr>s_heap := Some (p, patch (unat n) [0] b), s_size := n, s_cap := cap\<rparr>"
  have "setHeap (p, b) n cap s = kret ?s" using n by (simp add: setHeap_def blk_write_ok)
  moreover have "str_rep ?s (take (unat n) b)"
    using assms n by (simp add: str_rep_def block_ok_def sdata_def capacity_def isSSO_def) (simp add: patch_def)
  ultimately show ?thesis using n by (simp add: capacity_def isSSO_def)
qed

lemma raw_sso [simp]: "s_sso (str_raw w) = w" "s_heap (str_raw w) = None"
  by (simp_all add: str_raw_def)

context string_heap
begin

text \<open>A new block becomes the block of the string.\<close>

lemma new_block_outcome:
  assumes "mem_ok h' a'" "owned a' = insert (p, len) R" "p \<notin> fst ` R" "length b \<le> len"
    "length (s_sso s) = 24" "length b = unat cap + 1" "unat cap < 2 ^ 32 - 1" "n \<le> cap" "t = take (unat n) b" "23 \<le> unat cap"
  shows "outcome c R t (\<lambda>s'. capacity s' = cap) (kbind (setHeap (p, b) n cap s) (\<lambda>s. kret (s, h')))"
proof -
  from setHeap_rep [OF assms(5-8,10), of p] obtain s' b' where s': "setHeap (p, b) n cap s = kret s'" "str_rep s' t" "s_heap s' = Some (p, b')"
    "length b' = length b" "capacity s' = cap" using assms(9) by blast
  have "holds a' s'" using s' assms(2,4) by (auto simp: holds_def)
  moreover have "others a' s' = R" by (rule others_insert [OF assms(2,3) s'(3)])
  ultimately show ?thesis using s' assms(1) by (auto simp: outcome_def)
qed

lemma to_heap_outcome:
  assumes "mem_ok h a" "owned a = R" "length (s_sso s) = 24" "len \<le> length src" "unat n \<le> len" "len \<le> unat cap + 1" "n \<le> cap" "t = take (unat n) src" "23 \<le> unat cap"
  shows "outcome True R t (\<lambda>s'. capacity s' = cap) (to_heap M src len n cap s h)"
  using assms(1)
proof (cases rule: allocate_cases [where cap = cap])
  case halts
  then show ?thesis by (simp add: to_heap_def outcome_def)
next
  case (block p h' a' k)
  let ?b = "patch 0 (take len src) (map (mm_old M p) [0..<unat cap + 1])"
  have "to_heap M src len n cap s h = kbind (setHeap (p, ?b) n cap s) (\<lambda>s. kret (s, h'))"
    using block(1) assms(4-6) by (simp add: to_heap_def blk_read_ok blk_write_ok del: upt_Suc)
  moreover have "t = take (unat n) ?b" using assms(4-6,8) by (simp add: patch_def min_def)
  ultimately show ?thesis using new_block_outcome [OF block(3), of p k R ?b s cap n t True] block assms by (simp del: upt_Suc)
qed

lemma to_sso_outcome:
  assumes "mem_ok h a" "owned a = R" "length (s_sso s) = 24" "n \<le> SSO_CAPACITY" "unat n \<le> length src" "t = take (unat n) src"
  shows "outcome c R t (\<lambda>s'. s_heap s' = None) (to_sso src n s h)"
proof -
  from to_sso_rep [OF assms(3-5), of h] obtain s' where "to_sso src n s h = kret (s', h)" "str_rep s' t" "s_heap s' = None" using assms(6) by blast
  then show ?thesis using assms(1,2) by (auto simp: outcome_def holds_def others_def own_def)
qed

lemma own_in: "holds a s \<Longrightarrow> own s \<subseteq> fst ` owned a"
  by (force simp: holds_def own_def)

text \<open>Allocation of a new block followed by the release of the old one.\<close>

lemma exchange_ok:
  assumes "mem_ok h1 a1" "owned a1 = insert (p, len) (owned a)" "p \<notin> fst ` owned a" "holds a s"
  shows "\<exists>h2 a2. str_deallocate M s h1 = kret h2 \<and> mem_ok h2 a2 \<and> owned a2 = insert (p, len) (others a s) \<and> p \<notin> fst ` others a s"
proof -
  have "holds a1 s" using assms(2,4) by (auto simp: holds_def)
  from deallocate_ok [OF assms(1) this] obtain h2 a2 where "str_deallocate M s h1 = kret h2" "mem_ok h2 a2" "owned a2 = others a1 s" by blast
  moreover have "others a1 s = insert (p, len) (others a s)" using assms(2,3) own_in [OF assms(4)] by (auto simp: others_def)
  moreover have "p \<notin> fst ` others a s" using assms(3) by (auto simp: others_def)
  ultimately show ?thesis by auto
qed

lemma grow_outcome:
  assumes "mem_ok h a" "holds a s" "str_rep s t" "capacity s \<le> n"
  shows "outcome True (others a s) t (\<lambda>s'. n \<le> capacity s') (str_grow M n s h)"
  using assms(1)
proof (cases rule: allocate_cases [where cap = "grow_cap n s"])
  case halts
  then show ?thesis by (simp add: str_grow_def Let_def outcome_def)
next
  case (block p h1 a1 len)
  note r = str_repD [OF assms(3)]
  let ?c = "grow_cap n s" and ?old = "map (mm_old M p) [0..<unat (grow_cap n s) + 1]"
  let ?cpy = "patch 0 t ?old" and ?new = "patch (length t) [0] (patch 0 t ?old)"
  have c: "n \<le> ?c" "s_size s \<le> ?c" "23 \<le> unat ?c" using assms(4) r(2,3) by (auto simp: grow_cap_def SSO_CAPACITY_def word_le_nat_alt max_def)
  then have lt: "length t \<le> unat ?c" using r(2) by (simp add: word_le_nat_alt)
  have cp: "(if s_size s > 0 then kbind (blk_read 0 (unat (s_size s)) (sdata s)) (\<lambda>bs. blk_write 0 bs ?old) else kret ?old) = kret ?cpy"
  proof (cases "s_size s > 0")
    case True
    then show ?thesis using r lt by (simp add: blk_read_ok blk_write_ok del: upt_Suc)
  next
    case False
    then have "t = []" using r(2) by (simp add: word_less_nat_alt)
    then show ?thesis using False by (simp add: patch_def)
  qed
  from exchange_ok [OF block(3,6,4) assms(2)] obtain h2 a2 where x: "str_deallocate M s h1 = kret h2" "mem_ok h2 a2"
    "owned a2 = insert (p, len) (others a s)" "p \<notin> fst ` others a s" by blast
  have e: "str_grow M n s h = kbind (setHeap (p, ?new) (s_size s) ?c s) (\<lambda>s. kret (s, h2))"
    unfolding str_grow_def Let_def block(1) kbind_simps prod.case cp using lt x(1) by (simp add: r(2) blk_write_ok del: upt_Suc)
  have "outcome True (others a s) t (\<lambda>s'. capacity s' = ?c) (kbind (setHeap (p, ?new) (s_size s) ?c s) (\<lambda>s. kret (s, h2)))"
    by (rule new_block_outcome [OF x(2-4)]) (use block r c lt in \<open>simp_all add: block_ok_def del: upt_Suc\<close>, simp add: patch_def)
  then show ?thesis unfolding e by (rule outcome_weaken) (simp_all add: c)
qed

lemma reserveFor_outcome:
  assumes "mem_ok h a" "holds a s" "str_rep s t"
  shows "outcome (capacity s < n) (others a s) t (\<lambda>s'. n \<le> capacity s') (reserveFor M n s h)"
proof (cases "n \<le> capacity s")
  case True
  then show ?thesis using outcome_same [OF assms assms(3) refl refl] by (simp add: reserveFor_def)
next
  case False
  then have "reserveFor M n s h = str_grow M n s h" by (auto simp: reserveFor_def capacity_def)
  moreover have "outcome True (others a s) t (\<lambda>s'. n \<le> capacity s') (str_grow M n s h)" using grow_outcome [OF assms, of n] False by simp
  ultimately show ?thesis using False by (simp add: not_le)
qed

text \<open>An operation that makes room and then changes the string in its block.\<close>

lemma reserve_then:
  assumes "mem_ok h a" "holds a s" "str_rep s t"
    and f: "\<And>s1. str_rep s1 t \<Longrightarrow> n \<le> capacity s1 \<Longrightarrow> \<exists>s2. f s1 = kret s2 \<and> str_rep s2 t' \<and> own s2 = own s1 \<and> capacity s2 = capacity s1"
  shows "outcome (capacity s < n) (others a s) t' (\<lambda>_. True) (kbind (reserveFor M n s h) (\<lambda>(s1, h1). kbind (f s1) (\<lambda>s2. kret (s2, h1))))"
  using reserveFor_outcome [OF assms(1-3), of n]
proof (cases rule: outcome_cases)
  case halts
  then show ?thesis by (simp add: outcome_def)
next
  case (returns s1 h1 a1)
  from f [OF returns(2,3)] obtain s2 where "f s1 = kret s2" "str_rep s2 t'" "own s2 = own s1" "capacity s2 = capacity s1" by blast
  then show ?thesis using returns outcome_same [OF returns(4,5,2)] by simp
qed

end

section \<open>Sequences of operations\<close>

datatype strop =
    OAssign str | OAssignC "u8 list option" | OInsert u32 str | OInsertC u32 "u8 list option" | OFill u32 u32 u8 | OErase u32 u32 | OPush u8
  | OAppend strarg | OAppendC "u8 list option" | OResize u32 u8 | OReplace u32 u32 str | OReplaceC u32 u32 "u8 list option"
  | OReplaceB u32 u32 "u8 list" u32 | OReserve u32 | OShrink | OClear | OPop

definition with_mem :: "'h \<Rightarrow> str kres \<Rightarrow> (str \<times> 'h) kres" where
  "with_mem h m = kbind m (\<lambda>s. kret (s, h))"

text \<open>One operation; \<open>w\<close> is what the memory of a temporary object, or of a local buffer, holds.\<close>

definition run_strop :: "'h mm \<Rightarrow> u8 list \<Rightarrow> strop \<Rightarrow> str \<Rightarrow> 'h \<Rightarrow> (str \<times> 'h) kres" where
  "run_strop M w op s h =
     (case op of OAssign x \<Rightarrow> str_assign M (Other x) s h | OAssignC p \<Rightarrow> str_assign_cstr M p s h | OInsert pos x \<Rightarrow> str_insert M pos (Other x) s h
      | OInsertC pos p \<Rightarrow> str_insert_cstr M w pos p s h | OFill pos n c \<Rightarrow> str_insert_fill M pos n c s h | OErase pos n \<Rightarrow> with_mem h (str_erase pos n s)
      | OPush c \<Rightarrow> push_back M c s h | OAppend x \<Rightarrow> str_append M x s h | OAppendC p \<Rightarrow> str_append_cstr M w p s h | OResize n c \<Rightarrow> str_resize M n c s h
      | OReplace pos n x \<Rightarrow> str_replace M pos n (Other x) s h | OReplaceC pos n p \<Rightarrow> str_replace_cstr M w pos n p s h
      | OReplaceB pos n b k \<Rightarrow> str_replace_block M pos n (Some b) k s h | OReserve n \<Rightarrow> str_reserve M n s h | OShrink \<Rightarrow> shrink_to_fit M w s h
      | OClear \<Rightarrow> str_clear M s h | OPop \<Rightarrow> with_mem h (pop_back s))"

fun run_strops :: "'h mm \<Rightarrow> u8 list \<Rightarrow> strop list \<Rightarrow> str \<Rightarrow> 'h \<Rightarrow> (str \<times> 'h) kres" where
  "run_strops M w [] s h = kret (s, h)"
| "run_strops M w (op # ops) s h = kbind (run_strop M w op s h) (\<lambda>(s, h). run_strops M w ops s h)"

text \<open>The same on lists of characters.\<close>

definition str_text :: "str \<Rightarrow> u8 list" where
  "str_text s = take (unat (s_size s)) (sdata s)"

definition cstr_text :: "u8 list option \<Rightarrow> u8 list" where
  "cstr_text p = takeWhile (\<lambda>c. c \<noteq> 0) (the p)"

definition ins :: "u32 \<Rightarrow> u8 list \<Rightarrow> u8 list \<Rightarrow> u8 list" where
  "ins pos u t = take (unat pos) t @ u @ drop (unat pos) t"

definition del :: "u32 \<Rightarrow> u32 \<Rightarrow> u8 list \<Rightarrow> u8 list" where
  "del pos n t = (if length t < unat pos then t else take (unat pos) t @ drop (unat pos + unat n) t)"

definition text_strop :: "strop \<Rightarrow> u8 list \<Rightarrow> u8 list" where
  "text_strop op t =
     (case op of OAssign x \<Rightarrow> str_text x | OAssignC p \<Rightarrow> cstr_text p | OInsert pos x \<Rightarrow> ins pos (str_text x) t | OInsertC pos p \<Rightarrow> ins pos (cstr_text p) t
      | OFill pos n c \<Rightarrow> ins pos (replicate (unat n) c) t | OErase pos n \<Rightarrow> del pos n t | OPush c \<Rightarrow> t @ [c]
      | OAppend x \<Rightarrow> t @ (case x of Self \<Rightarrow> t | Other x \<Rightarrow> str_text x) | OAppendC p \<Rightarrow> t @ cstr_text p
      | OResize n c \<Rightarrow> take (unat n) t @ replicate (unat n - length t) c | OReplace pos n x \<Rightarrow> ins pos (str_text x) (del pos n t)
      | OReplaceC pos n p \<Rightarrow> ins pos (cstr_text p) (del pos n t) | OReplaceB pos n b k \<Rightarrow> take (unat pos) t @ take (unat k) b @ drop (unat pos + unat n) t
      | OReserve n \<Rightarrow> t | OShrink \<Rightarrow> t | OClear \<Rightarrow> [] | OPop \<Rightarrow> butlast t)"

text \<open>The arguments an operation needs: strings that are well formed, no null pointers, and lengths and positions whose sums do not wrap.\<close>

definition cstr_ok :: "u8 list option \<Rightarrow> bool" where
  "cstr_ok p \<longleftrightarrow> (\<exists>b. p = Some b \<and> 0 \<in> set b \<and> length (cstr_text p) < 2 ^ 32 - 1)"

definition str_ok :: "str \<Rightarrow> bool" where
  "str_ok s \<longleftrightarrow> str_rep s (str_text s)"

definition strop_ok :: "strop \<Rightarrow> u8 list \<Rightarrow> bool" where
  "strop_ok op t \<longleftrightarrow> length (text_strop op t) < 2 ^ 32 \<and>
     (case op of OAssign x \<Rightarrow> str_ok x | OAssignC p \<Rightarrow> cstr_ok p | OInsert pos x \<Rightarrow> str_ok x | OInsertC pos p \<Rightarrow> cstr_ok p
      | OErase pos n \<Rightarrow> no_wrap pos n | OAppend x \<Rightarrow> (case x of Self \<Rightarrow> True | Other x \<Rightarrow> str_ok x) | OAppendC p \<Rightarrow> cstr_ok p
      | OReplace pos n x \<Rightarrow> no_wrap pos n \<and> str_ok x | OReplaceC pos n p \<Rightarrow> no_wrap pos n \<and> cstr_ok p
      | OReplaceB pos n b k \<Rightarrow> no_wrap pos n \<and> unat pos \<le> length t \<and> unat k \<le> length b | _ \<Rightarrow> True)"

lemma str_rep_text: "str_rep s t \<Longrightarrow> str_text s = t \<and> str_ok s"
  using str_repD(2,4) [of s t] by (simp add: str_text_def str_ok_def)

lemma cstr_okD:
  assumes "cstr_ok p"
  shows "\<exists>r. p = Some (cstr_text p @ 0 # r) \<and> strlen (cstr_text p @ 0 # r) = Some (length (cstr_text p)) \<and> length (cstr_text p) < 2 ^ 32 - 1"
proof -
  obtain b where b: "p = Some b" "0 \<in> set b" "length (cstr_text p) < 2 ^ 32 - 1" using assms by (auto simp: cstr_ok_def)
  have n: "0 \<notin> set (cstr_text p)" by (auto simp: cstr_text_def dest: set_takeWhileD)
  obtain r where "b = cstr_text p @ 0 # r"
    using b(1,2) by (metis (mono_tags, lifting) cstr_text_def dropWhile_eq_Nil_conv hd_dropWhile list.collapse option.sel takeWhile_dropWhile_id)
  moreover have "strlen (u @ 0 # r) = Some (length u)" if "0 \<notin> set u" for u using that by (induction u) auto
  ultimately show ?thesis using b n by auto
qed

context string_heap
begin

lemma of_cstr_outcome:
  assumes "mem_ok h a" "cstr_ok p" "length w = 24"
  shows "outcome True (owned a) (cstr_text p) (\<lambda>_. True) (str_of_cstr M p w h)"
proof -
  from cstr_okD [OF assms(2)] obtain r where r: "p = Some (cstr_text p @ 0 # r)" "strlen (cstr_text p @ 0 # r) = Some (length (cstr_text p))"
    "length (cstr_text p) < 2 ^ 32 - 1" by blast
  let ?u = "cstr_text p" and ?n = "word_of_nat (length (cstr_text p)) :: u32"
  have n: "unat ?n = length ?u" using r(3) by (intro u32_of_nat) simp
  have e: "str_of_cstr M p w h = (if ?n \<le> SSO_CAPACITY then to_sso (?u @ 0 # r) ?n (str_raw w) h
      else to_heap M (?u @ 0 # r) (unat ?n + 1) ?n ?n (str_raw w) h)"
    using r(2) by (subst r(1)) (simp add: str_of_cstr_def checkNotNull_def cstr_len_def)
  show ?thesis
  proof (cases "?n \<le> SSO_CAPACITY")
    case True
    then show ?thesis using e to_sso_outcome [OF assms(1) refl _ True, of "str_raw w" "?u @ 0 # r" ?u True] assms(3) n
      by (auto elim!: outcome_weaken)
  next
    case False
    then have "23 \<le> unat ?n" by (simp add: word_le_nat_alt)
    then show ?thesis using False e to_heap_outcome [OF assms(1) refl, of "str_raw w" "unat ?n + 1" "?u @ 0 # r" ?n ?n ?u] assms(3) n
      by (auto elim!: outcome_weaken)
  qed
qed

lemma with_temp_outcome:
  assumes "mem_ok h a" "holds a s" "cstr_ok p" "length w = 24"
    and f: "\<And>x h1 a1. str_rep x (cstr_text p) \<Longrightarrow> mem_ok h1 a1 \<Longrightarrow> holds a1 s \<Longrightarrow> outcome True (others a1 s) t (\<lambda>_. True) (f x h1)"
  shows "outcome True (others a s) t (\<lambda>_. True) (with_temp M p w f h)"
  using of_cstr_outcome [OF assms(1,3,4)]
proof (cases rule: outcome_cases)
  case halts
  then show ?thesis by (simp add: with_temp_def outcome_def)
next
  case (returns x h1 a1)
  have sub: "owned a \<subseteq> owned a1" using returns(6) by (auto simp: others_def)
  then have hs: "holds a1 s" using assms(2) unfolding holds_def by blast
  have dis: "own x \<inter> own s = {}" using own_in [OF assms(2)] returns(6) by (auto simp: others_def)
  show ?thesis using f [OF returns(2,4) hs]
  proof (cases rule: outcome_cases)
    case halts
    then show ?thesis using returns(1) by (simp add: with_temp_def outcome_def)
  next
    case ret2: (returns s' h2 a2)
    have ox: "own x \<subseteq> fst ` others a2 s'"
      using own_in [OF returns(5)] dis unfolding ret2(6) by (auto simp: others_def)
    have "holds a2 x" unfolding holds_def
    proof (intro allI impI)
      fix q b assume q: "s_heap x = Some (q, b)"
      then obtain len where len: "length b \<le> len" "(q, len) \<in> owned a1" using returns(5) by (auto simp: holds_def)
      have "q \<notin> own s" using dis q by (auto simp: own_def)
      then have "(q, len) \<in> others a2 s'" unfolding ret2(6) using len by (simp add: others_def)
      then show "\<exists>len. length b \<le> len \<and> (q, len) \<in> owned a2" using len by (auto simp: others_def)
    qed
    from deallocate_ok [OF ret2(4) this] obtain h3 a3 where d: "str_deallocate M x h2 = kret h3" "mem_ok h3 a3" "owned a3 = others a2 x" by blast
    have dis': "own x \<inter> own s' = {}" using ox by (auto simp: others_def)
    have "holds a3 s'" using ret2(5) d(3) dis' by (fastforce simp: holds_def others_def own_def)
    moreover have "others a3 s' = others a s"
    proof -
      have "others a3 s' = {y \<in> others a2 s'. fst y \<notin> own x}" using d(3) by (auto simp: others_def)
      also have "\<dots> = {y \<in> others a1 x. fst y \<notin> own s}" unfolding ret2(6) by (auto simp: others_def)
      also have "\<dots> = others a s" unfolding returns(6) by (simp add: others_def)
      finally show ?thesis .
    qed
    ultimately show ?thesis using returns(1) ret2 d by (auto simp: with_temp_def str_destroy_def outcome_def)
  qed
qed

end

lemma kbind_assoc: "kbind (kbind m f) g = kbind m (\<lambda>x. kbind (f x) g)"
  by (simp add: kbind_def split: option.split sum.split)

lemma min_pos: "str_rep s t \<Longrightarrow> unat (min pos (s_size s)) = min (unat pos) (length t)"
  using str_repD(2) [of s t] by (simp add: min_def word_le_nat_alt)

lemma ins_min: "take (min (unat pos) (length t)) t @ u @ drop (min (unat pos) (length t)) t = ins pos u t"
  by (simp add: ins_def min_def)

lemma str_okD: "str_ok x \<Longrightarrow> blk_read 0 (unat (s_size x)) (sdata x) = kret (str_text x) \<and> unat (s_size x) = length (str_text x)"
  using str_repD [of x "str_text x"] by (simp add: str_ok_def blk_read_ok)

lemma ins_length: "length (ins pos u t) = length t + length u"
  by (simp add: ins_def)

text \<open>The result of an insertion into a string with room.\<close>

lemma insert_room:
  assumes "str_rep s1 t" "length (ins pos u t) < 2 ^ 32" "unat n = length u" "unat k = length t" "k + n \<le> capacity s1"
  shows "\<exists>s2. kbind (open_gap (min pos k) n s1) (\<lambda>s. kbind (blk_write (unat (min pos k)) u (sdata s)) (\<lambda>b. end_at (s_size s + n) (put_data b s))) = kret s2 \<and>
    str_rep s2 (ins pos u t) \<and> own s2 = own s1 \<and> capacity s2 = capacity s1"
proof -
  have m: "unat (min pos k) = min (unat pos) (length t)" using assms(4) by (simp add: min_def word_le_nat_alt)
  have "unat (k + n) = length t + length u" using unat_add_small [of k n] assms(2-4) by (simp add: ins_length)
  then have "length t + length u \<le> unat (capacity s1)" using assms(5) by (simp add: word_le_nat_alt)
  then show ?thesis using insert_body [OF assms(1), of "min pos k" u n] assms(3) by (simp add: m ins_min)
qed

context string_heap
begin

lemma insert_outcome:
  assumes "mem_ok h a" "holds a s" "str_rep s t" "str_ok x" "length (ins pos (str_text x) t) < 2 ^ 32"
  shows "outcome (unat (capacity s) < length (ins pos (str_text x) t)) (others a s) (ins pos (str_text x) t) (\<lambda>_. True) (str_insert M pos (Other x) s h)"
proof -
  note r = str_repD [OF assms(3)] and x = str_okD [OF assms(4)]
  let ?f = "\<lambda>s1. kbind (open_gap (min pos (s_size s)) (s_size x) s1) (\<lambda>s1. kbind (blk_write (unat (min pos (s_size s))) (str_text x) (sdata s1))
    (\<lambda>b. end_at (s_size s1 + s_size x) (put_data b s1)))"
  have "str_insert M pos (Other x) s h = kbind (reserveFor M (s_size s + s_size x) s h) (\<lambda>(s1, h1). kbind (?f s1) (\<lambda>s2. kret (s2, h1)))"
    using conjunct1 [OF x] by (simp add: str_insert_def Let_def arg_size_def copy_arg_def kbind_assoc)
  moreover have "outcome (capacity s < s_size s + s_size x) (others a s) (ins pos (str_text x) t) (\<lambda>_. True)
      (kbind (reserveFor M (s_size s + s_size x) s h) (\<lambda>(s1, h1). kbind (?f s1) (\<lambda>s2. kret (s2, h1))))"
    using insert_room [OF _ assms(5) _ r(2)] x by (intro reserve_then [OF assms(1-3)]) blast
  moreover have "unat (s_size s + s_size x) = length (ins pos (str_text x) t)"
    using unat_add_small [of "s_size s" "s_size x"] assms(5) r(2) x by (simp add: ins_length)
  ultimately show ?thesis by (simp add: word_less_nat_alt)
qed

lemma insert_fill_outcome:
  assumes "mem_ok h a" "holds a s" "str_rep s t" "length (ins pos (replicate (unat n) c) t) < 2 ^ 32"
  shows "outcome (unat (capacity s) < length (ins pos (replicate (unat n) c) t)) (others a s) (ins pos (replicate (unat n) c) t) (\<lambda>_. True) (str_insert_fill M pos n c s h)"
proof -
  note r = str_repD [OF assms(3)]
  let ?f = "\<lambda>s1. kbind (open_gap (min pos (s_size s)) n s1) (\<lambda>s1. kbind (blk_write (unat (min pos (s_size s))) (replicate (unat n) c) (sdata s1))
    (\<lambda>b. end_at (s_size s1 + n) (put_data b s1)))"
  have "str_insert_fill M pos n c s h = kbind (reserveFor M (s_size s + n) s h) (\<lambda>(s1, h1). kbind (?f s1) (\<lambda>s2. kret (s2, h1)))"
    by (simp add: str_insert_fill_def Let_def kbind_assoc)
  moreover have "outcome (capacity s < s_size s + n) (others a s) (ins pos (replicate (unat n) c) t) (\<lambda>_. True)
      (kbind (reserveFor M (s_size s + n) s h) (\<lambda>(s1, h1). kbind (?f s1) (\<lambda>s2. kret (s2, h1))))"
    using insert_room [OF _ assms(4) _ r(2), of _ n] by (intro reserve_then [OF assms(1-3)]) simp
  moreover have "unat (s_size s + n) = length (ins pos (replicate (unat n) c) t)"
    using unat_add_small [of "s_size s" n] assms(4) r(2) by (simp add: ins_length)
  ultimately show ?thesis by (simp add: word_less_nat_alt)
qed

lemma push_back_outcome:
  assumes "mem_ok h a" "holds a s" "str_rep s t" "length t + 1 < 2 ^ 32"
  shows "outcome (unat (capacity s) < length t + 1) (others a s) (t @ [c]) (\<lambda>_. True) (push_back M c s h)"
proof -
  note r = str_repD [OF assms(3)]
  have u: "unat (s_size s + 1) = length t + 1" using unat_add_small [of "s_size s" 1] r(2) assms(4) by simp
  let ?f = "\<lambda>s1. kbind (blk_write (unat (s_size s1)) [c] (sdata s1)) (\<lambda>b. end_at (s_size s1 + 1) (put_data b s1))"
  have "push_back M c s h = kbind (reserveFor M (s_size s + 1) s h) (\<lambda>(s1, h1). kbind (?f s1) (\<lambda>s2. kret (s2, h1)))"
    by (simp add: push_back_def kbind_assoc)
  moreover have "outcome (capacity s < s_size s + 1) (others a s) (t @ [c]) (\<lambda>_. True)
      (kbind (reserveFor M (s_size s + 1) s h) (\<lambda>(s1, h1). kbind (?f s1) (\<lambda>s2. kret (s2, h1))))"
  proof (rule reserve_then [OF assms(1-3)])
    fix s1 assume s1: "str_rep s1 t" "s_size s + 1 \<le> capacity s1"
    note r1 = str_repD [OF s1(1)]
    have "length t + 1 \<le> unat (capacity s1)" using s1(2) u by (simp add: word_le_nat_alt)
    moreover have "unat (s_size s1 + 1) = length t + 1" using unat_add_small [of "s_size s1" 1] r1(2) assms(4) by simp
    ultimately show "\<exists>s2. ?f s1 = kret s2 \<and> str_rep s2 (t @ [c]) \<and> own s2 = own s1 \<and> capacity s2 = capacity s1"
      using fill_gap_rep [OF r1(1), of "length t" t "[c]" "s_size s1 + 1"] r1(2,4) by simp
  qed
  ultimately show ?thesis using u by (simp add: word_less_nat_alt)
qed

lemma resize_outcome:
  assumes "mem_ok h a" "holds a s" "str_rep s t"
  shows "outcome (unat (capacity s) < unat n) (others a s) (take (unat n) t @ replicate (unat n - length t) c) (\<lambda>_. True) (str_resize M n c s h)"
proof -
  note r = str_repD [OF assms(3)]
  consider "unat n < length t" | "unat n = length t" | "length t < unat n" by linarith
  then show ?thesis
  proof cases
    case 1
    then have "n < s_size s" using r(2) by (simp add: word_less_nat_alt)
    moreover from end_at_rep [OF r(1), of n] obtain s' where "end_at n s = kret s'" "str_rep s' (take (unat n) t)" "own s' = own s" "capacity s' = capacity s"
      using 1 r(3) take_rep [OF assms(3), of "unat n"] by auto
    ultimately show ?thesis using 1 outcome_same [OF assms, of s'] by (simp add: str_resize_def)
  next
    case 2
    then have "n = s_size s" using r(2) by (simp add: word_unat_eq_iff)
    then show ?thesis using 2 outcome_same [OF assms assms(3) refl refl] by (simp add: str_resize_def)
  next
    case 3
    let ?u = "replicate (unat n - length t) c"
    let ?f = "\<lambda>s1. kbind (blk_write (unat (s_size s1)) (replicate (unat (n - s_size s1)) c) (sdata s1)) (\<lambda>b. end_at n (put_data b s1))"
    have "s_size s < n" "\<not> n < s_size s" using 3 r(2) by (simp_all add: word_less_nat_alt)
    then have "str_resize M n c s h = kbind (reserveFor M n s h) (\<lambda>(s1, h1). kbind (?f s1) (\<lambda>s2. kret (s2, h1)))"
      by (simp add: str_resize_def kbind_assoc)
    moreover have "outcome (capacity s < n) (others a s) (t @ ?u) (\<lambda>_. True)
        (kbind (reserveFor M n s h) (\<lambda>(s1, h1). kbind (?f s1) (\<lambda>s2. kret (s2, h1))))"
    proof (rule reserve_then [OF assms])
      fix s1 assume s1: "str_rep s1 t" "n \<le> capacity s1"
      note r1 = str_repD [OF s1(1)]
      have "unat (n - s_size s1) = unat n - length t" using 3 r1(2) by (simp add: unat_sub_le)
      then show "\<exists>s2. ?f s1 = kret s2 \<and> str_rep s2 (t @ ?u) \<and> own s2 = own s1 \<and> capacity s2 = capacity s1"
        using fill_gap_rep [OF r1(1), of "length t" t ?u n] r1(2,4) s1(2) 3 by (simp add: word_le_nat_alt)
    qed
    ultimately show ?thesis using 3 by (simp add: word_less_nat_alt)
  qed
qed

end

context string_heap
begin

lemma outcome_any: "outcome c R t P m \<Longrightarrow> outcome c R t (\<lambda>_. True) m"
  by (auto simp: outcome_def)

text \<open>A string appended to itself: the copy inside of the block does not overlap.\<close>

lemma append_self_outcome:
  assumes "mem_ok h a" "holds a s" "str_rep s t" "length (t @ t) < 2 ^ 32"
  shows "outcome (unat (capacity s) < length (t @ t)) (others a s) (t @ t) (\<lambda>_. True) (str_append M Self s h)"
proof -
  note r = str_repD [OF assms(3)]
  have u: "unat (s_size s + s_size s) = length t + length t" using unat_add_small [of "s_size s" "s_size s"] r(2) assms(4) by simp
  let ?f = "\<lambda>s1. kbind (open_gap (s_size s) (s_size s1) s1) (\<lambda>s2. kbind (copy_arg Self (unat (s_size s)) s2)
    (\<lambda>b. end_at (s_size s2 + s_size s2) (put_data b s2)))"
  have "str_append M Self s h = kbind (reserveFor M (s_size s + s_size s) s h) (\<lambda>(s1, h1). kbind (?f s1) (\<lambda>s2. kret (s2, h1)))"
    by (simp add: str_append_def str_insert_def Let_def arg_size_def kbind_assoc)
  moreover have "outcome (capacity s < s_size s + s_size s) (others a s) (t @ t) (\<lambda>_. True)
      (kbind (reserveFor M (s_size s + s_size s) s h) (\<lambda>(s1, h1). kbind (?f s1) (\<lambda>s2. kret (s2, h1))))"
  proof (rule reserve_then [OF assms(1-3)])
    fix s1 assume s1: "str_rep s1 t" "s_size s + s_size s \<le> capacity s1"
    note r1 = str_repD [OF s1(1)]
    have c: "length t + length t \<le> unat (capacity s1)" using s1(2) u by (simp add: word_le_nat_alt)
    have e: "s_size s1 = s_size s" using r(6) r1(6) by simp
    have "copy_arg Self (length t) s1 = kret (patch (length t) t (sdata s1))"
      using c r1(2,4,7) memcpy_in_patch [of "length t" "length t" "sdata s1" 0] by (simp add: copy_arg_def)
    then have "?f s1 = kbind (blk_write (length t) t (sdata s1)) (\<lambda>b. end_at (s_size s + s_size s) (put_data b s1))"
      using c r(2) r1(7) by (simp add: e open_gap_def blk_write_ok)
    then show "\<exists>s2. ?f s1 = kret s2 \<and> str_rep s2 (t @ t) \<and> own s2 = own s1 \<and> capacity s2 = capacity s1"
      using fill_gap_rep [OF r1(1), of "length t" t t "s_size s + s_size s"] c u r1(4) by simp
  qed
  ultimately show ?thesis using u by (simp add: word_less_nat_alt)
qed

lemma replace_outcome:
  assumes "mem_ok h a" "holds a s" "str_rep s t" "str_ok x" "no_wrap pos n" "length (ins pos (str_text x) (del pos n t)) < 2 ^ 32"
  shows "outcome (unat (capacity s) < length (ins pos (str_text x) (del pos n t))) (others a s) (ins pos (str_text x) (del pos n t)) (\<lambda>_. True)
    (str_replace M pos n (Other x) s h)"
proof -
  from erase_rep [OF assms(3,5)] obtain s1 where s1: "str_erase pos n s = kret s1" "str_rep s1 (del pos n t)" "own s1 = own s" "capacity s1 = capacity s"
    unfolding del_def by blast
  have "holds a s1" using holds_same [OF assms(2,3) s1(2-4)] .
  from insert_outcome [OF assms(1) this s1(2) assms(4,6)] show ?thesis using s1(1,4) others_same [OF s1(3), of a] by (simp add: str_replace_def)
qed

lemma clear_outcome:
  assumes "mem_ok h a" "holds a s" "str_rep s t"
  shows "outcome c (others a s) [] (\<lambda>_. True) (str_clear M s h)"
proof -
  have l: "length (s_sso s) = 24" using str_repD(1) [OF assms(3)] by (simp add: block_ok_def)
  let ?s = "\<lambda>k. s\<lparr>s_heap := None, s_cap := k, s_size := 0, s_sso := (s_sso s)[0 := 0]\<rparr>"
  have e: "str_rep (?s k) []" for k
    using l by (cases "s_sso s") (auto simp: str_rep_def block_ok_def sdata_def capacity_def isSSO_def)
  from deallocate_ok [OF assms(1,2)] obtain h' a' where d: "str_deallocate M s h = kret h'" "mem_ok h' a'" "owned a' = others a s" by blast
  have o: "outcome c (others a s) [] (\<lambda>_. True) (kret (?s k, h'))" for k
    using e [of k] d by (intro outcome_kret) (auto simp: holds_def others_def own_def)
  show ?thesis
  proof (cases "isHeap s")
    case True
    then show ?thesis using d(1) o [of SSO_CAPACITY] by (simp add: str_clear_def)
  next
    case False
    then have "s_heap s = None" "h' = h" using d(1) by (cases "s_heap s"; simp add: isHeap_def str_deallocate_def)+
    then have "str_clear M s h = kret (?s (s_cap s), h')" using False by (simp add: str_clear_def)
    then show ?thesis using o [of "s_cap s"] by (simp only:)
  qed
qed

text \<open>The old block is given back, then the text goes into the object or into a new block.\<close>

lemma free_then_sso:
  assumes "mem_ok h a" "holds a s" "str_rep s t0" "n \<le> SSO_CAPACITY" "unat n \<le> length src" "t = take (unat n) src"
  shows "outcome c (others a s) t (\<lambda>_. True) (kbind (str_deallocate M s h) (to_sso src n s))"
proof -
  from deallocate_ok [OF assms(1,2)] obtain h' a' where d: "str_deallocate M s h = kret h'" "mem_ok h' a'" "owned a' = others a s" by blast
  have "length (s_sso s) = 24" using str_repD(1) [OF assms(3)] by (simp add: block_ok_def)
  from outcome_any [OF to_sso_outcome [OF d(2,3) this assms(4-6)]] show ?thesis using d(1) by simp
qed

lemma free_then_heap:
  assumes "mem_ok h a" "holds a s" "str_rep s t0" "len \<le> length src" "unat n \<le> len" "len \<le> unat cap + 1" "n \<le> cap" "t = take (unat n) src" "23 \<le> unat cap"
  shows "outcome True (others a s) t (\<lambda>_. True) (kbind (str_deallocate M s h) (to_heap M src len n cap s))"
proof -
  from deallocate_ok [OF assms(1,2)] obtain h' a' where d: "str_deallocate M s h = kret h'" "mem_ok h' a'" "owned a' = others a s" by blast
  have "length (s_sso s) = 24" using str_repD(1) [OF assms(3)] by (simp add: block_ok_def)
  from outcome_any [OF to_heap_outcome [OF d(2,3) this assms(4-9)]] show ?thesis using d(1) by simp
qed

text \<open>A text with its terminator copied over the block.\<close>

lemma overwrite_rep:
  assumes "block_ok s" "length u \<le> unat (capacity s)" "unat n = length u"
  shows "str_rep ((put_data (patch 0 (u @ [0]) (sdata s)) s)\<lparr>s_size := n\<rparr>) u"
  using assms block_ok_put [OF assms(1), of "patch 0 (u @ [0]) (sdata s)"] by (simp add: str_rep_def) (simp add: patch_def block_ok_def)

lemma assign_outcome:
  assumes "mem_ok h a" "holds a s" "str_rep s t" "str_ok x"
  shows "outcome True (others a s) (str_text x) (\<lambda>_. True) (str_assign M (Other x) s h)"
proof -
  note r = str_repD [OF assms(3)] and x = str_repD [OF assms(4) [unfolded str_ok_def]]
  have xt: "take (Suc (length (str_text x))) (sdata x) = str_text x @ [0]" using assms(4) by (auto simp: str_ok_def str_rep_def)
  have text_take: "str_text x = take (unat (s_size x)) (sdata x)" by (simp add: str_text_def)
  consider "isSSO x" | "\<not> isSSO x" "isHeap s \<and> s_size x \<le> s_cap s" | "\<not> isSSO x" "\<not> (isHeap s \<and> s_size x \<le> s_cap s)" by blast
  then show ?thesis
  proof cases
    case 1
    then have d: "s_size x \<le> SSO_CAPACITY" "sdata x = s_sso x" using x(2,3) by (simp_all add: capacity_def word_le_nat_alt isSSO_def sdata_def)
    have "unat (s_size x) \<le> length (s_sso x)" using x(2,3,7) d(2) by simp
    then show ?thesis using 1 free_then_sso [OF assms(1-3) d(1) _ text_take [folded d(2)]] d(2) by (simp add: str_assign_def)
  next
    case 2
    let ?u = "str_text x"
    have c: "length ?u \<le> unat (capacity s)" using 2 x(2) by (auto simp: capacity_def isSSO_def isHeap_def word_le_nat_alt)
    have "patch (length ?u) [0] (patch 0 (?u @ [0]) (sdata s)) = patch 0 (?u @ [0]) (sdata s)" using c r(7) by (simp add: patch_def)
    then have "str_assign M (Other x) s h = kret ((put_data (patch 0 (?u @ [0]) (sdata s)) s)\<lparr>s_size := s_size x\<rparr>, h)"
      using 2 c r(7) x(2,3,7) xt by (simp add: str_assign_def blk_read_ok blk_write_ok)
    then show ?thesis using outcome_same [OF assms(1-3) overwrite_rep [OF r(1) c x(2)]] by simp
  next
    case 3
    have "s_size x \<le> s_cap x" "length (sdata x) = unat (s_cap x) + 1" "23 \<le> unat (s_cap x)"
      using 3 x(1,2,3,7) by (simp_all add: capacity_def word_le_nat_alt block_ok_def)
    then show ?thesis using 3 free_then_heap [OF assms(1-3) _ _ _ _ text_take, of "unat (s_size x) + 1" "s_cap x"]
      by (auto simp: str_assign_def word_le_nat_alt)
  qed
qed

end

text \<open>The move of \<open>replace\<close> on a block.\<close>

lemma replace_move_rep:
  assumes "str_rep s t" "p + c \<le> length t" "length t - c + k \<le> unat (capacity s)"
  shows "\<exists>s1. (if p + c < length t then kbind (blk_move (p + k) (p + c) (length t - p - c) (sdata s)) (\<lambda>b. kret (put_data b s)) else kret s) = kret s1 \<and>
    block_ok s1 \<and> own s1 = own s \<and> capacity s1 = capacity s \<and> s_size s1 = s_size s \<and>
    take p (sdata s1) = take p t \<and> take (length t - p - c) (drop (p + k) (sdata s1)) = drop (p + c) t"
proof (cases "p + c < length t")
  case True
  note r = str_repD [OF assms(1)]
  let ?b = "patch (p + k) (take (length t - p - c) (drop (p + c) (sdata s))) (sdata s)"
  have mid: "take (length t - p - c) (drop (p + c) (sdata s)) = drop (p + c) t" using r(4) by (metis diff_diff_add drop_take)
  have "block_ok (put_data ?b s)" by (rule block_ok_put [OF r(1)]) (use True assms(2,3) r(3,7) in simp)
  moreover have "take p ?b = take p t" using True assms(2,3) r(3,7) take_rep [OF assms(1), of p] by (simp add: patch_def)
  moreover have "take (length t - p - c) (drop (p + k) ?b) = drop (p + c) t" using mid assms(2,3) r(3,7) by (simp add: patch_def)
  ultimately show ?thesis using True assms(2,3) r(3,7) by (simp add: blk_move_ok)
next
  case False
  then show ?thesis using assms(2) str_repD(1) [OF assms(1)] take_rep [OF assms(1), of p] by simp
qed

context string_heap
begin

lemma assign_cstr_outcome:
  assumes "mem_ok h a" "holds a s" "str_rep s t" "cstr_ok p"
  shows "outcome True (others a s) (cstr_text p) (\<lambda>_. True) (str_assign_cstr M p s h)"
proof -
  from cstr_okD [OF assms(4)] obtain q where q: "p = Some (cstr_text p @ 0 # q)" "strlen (cstr_text p @ 0 # q) = Some (length (cstr_text p))"
    "length (cstr_text p) < 2 ^ 32 - 1" by blast
  define u n where "u = cstr_text p" and "n = (word_of_nat (length (cstr_text p)) :: u32)"
  note q' = q [folded u_def] and r = str_repD [OF assms(3)]
  have n: "unat n = length u" using q(3) unfolding u_def n_def by (intro u32_of_nat) simp
  have e: "str_assign_cstr M p s h = (if n \<le> SSO_CAPACITY then kbind (str_deallocate M s h) (to_sso (u @ 0 # q) n s)
      else if isHeap s \<and> n \<le> s_cap s
      then kbind (blk_read 0 (unat n + 1) (u @ 0 # q)) (\<lambda>bs. kbind (blk_write 0 bs (sdata s)) (\<lambda>b. kret ((put_data b s)\<lparr>s_size := n\<rparr>, h)))
      else kbind (str_deallocate M s h) (to_heap M (u @ 0 # q) (unat n + 1) n n s))"
    using q'(2) by (subst q'(1)) (simp add: str_assign_cstr_def checkNotNull_def cstr_len_def n_def u_def)
  consider "n \<le> SSO_CAPACITY" | "\<not> n \<le> SSO_CAPACITY" "isHeap s \<and> n \<le> s_cap s" | "\<not> n \<le> SSO_CAPACITY" "\<not> (isHeap s \<and> n \<le> s_cap s)" by blast
  then have "outcome True (others a s) u (\<lambda>_. True) (str_assign_cstr M p s h)"
  proof cases
    case 1
    then show ?thesis using e n free_then_sso [OF assms(1-3) 1, of "u @ 0 # q" u True] by simp
  next
    case 2
    have c: "length u \<le> unat (capacity s)" using 2 n by (auto simp: capacity_def isSSO_def isHeap_def word_le_nat_alt)
    have "str_assign_cstr M p s h = kret ((put_data (patch 0 (u @ [0]) (sdata s)) s)\<lparr>s_size := n\<rparr>, h)"
      using 2 e c n r(7) by (simp add: blk_read_ok blk_write_ok)
    then show ?thesis using outcome_same [OF assms(1-3) overwrite_rep [OF r(1) c n]] by simp
  next
    case 3
    then have "23 \<le> unat n" by (simp add: word_le_nat_alt)
    then show ?thesis using 3 e n free_then_heap [OF assms(1-3), of "unat n + 1" "u @ 0 # q" n n u] by auto
  qed
  then show ?thesis by (simp add: u_def)
qed

lemma reserve_outcome:
  assumes "mem_ok h a" "holds a s" "str_rep s t"
  shows "outcome True (others a s) t (\<lambda>s'. n \<le> capacity s') (str_reserve M n s h)"
  using outcome_same [OF assms assms(3) refl refl] grow_outcome [OF assms, of n] by (simp add: str_reserve_def)

lemma shrink_outcome:
  assumes "mem_ok h a" "holds a s" "str_rep s t" "length w = 24"
  shows "outcome True (others a s) t (\<lambda>_. True) (shrink_to_fit M w s h)"
proof -
  note r = str_repD [OF assms(3)]
  consider "isSSO s \<or> s_size s = s_cap s" | "\<not> isSSO s" "s_size s \<noteq> s_cap s" "s_size s \<le> SSO_CAPACITY"
    | "\<not> isSSO s" "s_size s \<noteq> s_cap s" "\<not> s_size s \<le> SSO_CAPACITY" by blast
  then show ?thesis
  proof cases
    case 1
    then show ?thesis using outcome_same [OF assms(1-3) assms(3) refl refl] by (auto simp: shrink_to_fit_def)
  next
    case 2
    then have l: "length t \<le> 23" using r(2) by (simp add: word_le_nat_alt)
    let ?w = "patch (length t) [0] (patch 0 t w)"
    have "shrink_to_fit M w s h = kbind (str_deallocate M s h) (to_sso ?w (s_size s) s)"
      using 2 l r(2-4,7) assms(4) by (simp add: shrink_to_fit_def blk_read_ok blk_write_ok)
    moreover have "t = take (unat (s_size s)) ?w" "unat (s_size s) \<le> length ?w" using l r(2) assms(4) by (simp_all add: patch_def)
    ultimately show ?thesis using free_then_sso [OF assms(1-3) 2(3), of ?w t True] by simp
  next
    case 3
    show ?thesis using assms(1)
    proof (cases rule: allocate_cases [where cap = "s_size s"])
      case halts
      then show ?thesis using 3 by (simp add: shrink_to_fit_def outcome_def)
    next
      case (block p h1 a1 len)
      let ?old = "map (mm_old M p) [0..<unat (s_size s) + 1]"
      let ?new = "patch (length t) [0] (patch 0 t ?old)"
      from exchange_ok [OF block(3,6,4) assms(2)] obtain h2 a2 where x: "str_deallocate M s h1 = kret h2" "mem_ok h2 a2"
        "owned a2 = insert (p, len) (others a s)" "p \<notin> fst ` others a s" by blast
      have "shrink_to_fit M w s h = kbind (setHeap (p, ?new) (s_size s) (s_size s) s) (\<lambda>s. kret (s, h2))"
        using 3 block(1) x(1) r(2-4,7) by (simp add: shrink_to_fit_def blk_read_ok blk_write_ok del: upt_Suc)
      moreover have "outcome True (others a s) t (\<lambda>s'. capacity s' = s_size s) (kbind (setHeap (p, ?new) (s_size s) (s_size s) s) (\<lambda>s. kret (s, h2)))"
        by (rule new_block_outcome [OF x(2-4)]) (use block r(1,2) 3(3) in \<open>simp_all add: block_ok_def word_le_nat_alt del: upt_Suc\<close>, simp add: patch_def)
      ultimately show ?thesis using outcome_any by simp
    qed
  qed
qed

lemma replace_block_outcome:
  assumes "mem_ok h a" "holds a s" "str_rep s t" "no_wrap pos n" "unat pos \<le> length t" "unat k \<le> length b"
    and l: "length (take (unat pos) t @ take (unat k) b @ drop (unat pos + unat n) t) < 2 ^ 32"
  shows "outcome True (others a s) (take (unat pos) t @ take (unat k) b @ drop (unat pos + unat n) t) (\<lambda>_. True) (str_replace_block M pos n (Some b) k s h)"
proof -
  note r = str_repD [OF assms(3)]
  define c where "c = min (unat n) (length t - unat pos)"
  let ?p = "unat pos" and ?cw = "clip pos n (s_size s)" and ?u = "take (unat k) b"
  let ?t = "take (unat pos) t @ drop (unat pos + c) t"
  have pc: "?p + c \<le> length t" using assms(5) by (simp add: c_def)
  have ps: "pos \<le> s_size s" using assms(5) r(2) by (simp add: word_le_nat_alt)
  note cs = clip_spec [OF assms(4) ps, unfolded r(2), folded c_def, OF r(5)]
  have d: "drop (?p + unat n) t = drop (?p + c) t" by (auto simp: c_def min_def)
  have n: "unat (s_size s - ?cw + k) = length t - c + unat k"
    using l assms(5,6) pc unat_add_small [of "s_size s - ?cw" k] cs(3) by (simp add: d)
  let ?f = "\<lambda>s1. kbind (if pos + ?cw < s_size s1
      then kbind (blk_move (unat (pos + k)) (unat (pos + ?cw)) (unat (s_size s1 - pos - ?cw)) (sdata s1)) (\<lambda>b. kret (put_data b s1)) else kret s1)
    (\<lambda>s2. kbind (blk_write ?p ?u (sdata s2)) (\<lambda>b. end_at (s_size s2 - ?cw + k) (put_data b s2)))"
  have "str_replace_block M pos n (Some b) k s h = kbind (reserveFor M (s_size s - ?cw + k) s h) (\<lambda>(s1, h1). kbind (?f s1) (\<lambda>s2. kret (s2, h1)))"
    using ps assms(6) by (simp add: str_replace_block_def checkNotNull_def Let_def min_absorb1 clip_def [symmetric] blk_read_ok kbind_assoc)
  moreover have "outcome (capacity s < s_size s - ?cw + k) (others a s) (take ?p ?t @ ?u @ drop ?p ?t) (\<lambda>_. True)
      (kbind (reserveFor M (s_size s - ?cw + k) s h) (\<lambda>(s1, h1). kbind (?f s1) (\<lambda>s2. kret (s2, h1))))"
  proof (rule reserve_then [OF assms(1-3)])
    fix s1 assume s1: "str_rep s1 t" "s_size s - ?cw + k \<le> capacity s1"
    note r1 = str_repD [OF s1(1)]
    have c1: "length t - c + unat k \<le> unat (capacity s1)" using s1(2) n by (simp add: word_le_nat_alt)
    have e: "s_size s1 = s_size s" using r(6) r1(6) by simp
    have "unat (capacity s1) < 2 ^ 32" using r1(1) by (simp add: block_ok_def)
    then have pk: "unat (pos + k) = ?p + unat k" using c1 pc by (intro unat_add_small) arith
    have lt: "pos + ?cw < s_size s \<longleftrightarrow> ?p + c < length t" using cs(2) r(2) by (simp add: word_less_nat_alt)
    from replace_move_rep [OF s1(1) pc c1] obtain s2 where s2: "(if ?p + c < length t
        then kbind (blk_move (?p + unat k) (?p + c) (length t - ?p - c) (sdata s1)) (\<lambda>b. kret (put_data b s1)) else kret s1) = kret s2"
      "block_ok s2" "own s2 = own s1" "capacity s2 = capacity s1" "s_size s2 = s_size s1" "take ?p (sdata s2) = take ?p t"
      "take (length t - ?p - c) (drop (?p + unat k) (sdata s2)) = drop (?p + c) t" by blast
    have "?f s1 = kbind (blk_write ?p ?u (sdata s2)) (\<lambda>b. end_at (s_size s - ?cw + k) (put_data b s2))"
      unfolding e lt pk cs(2,4) s2(1) by (simp add: s2(5) e)
    moreover have "?p \<le> length t - c" using pc by arith
    ultimately show "\<exists>s2. ?f s1 = kret s2 \<and> str_rep s2 (take ?p ?t @ ?u @ drop ?p ?t) \<and> own s2 = own s1 \<and> capacity s2 = capacity s1"
      using fill_gap_rep [OF s2(2), of ?p ?t ?u "s_size s - ?cw + k"] s2(3,4,6,7) c1 pc n assms(6) by (simp add: add.commute [of c])
  qed
  ultimately show ?thesis using pc d by (auto elim: outcome_weaken)
qed

end

text \<open>Operations that may need memory even when the text fits, and sequences whose texts all fit into the object.\<close>

definition allocates :: "strop \<Rightarrow> bool" where
  "allocates op \<longleftrightarrow> (case op of OAssign _ \<Rightarrow> True | OAssignC _ \<Rightarrow> True | OInsertC _ _ \<Rightarrow> True | OAppendC _ \<Rightarrow> True | OReplaceC _ _ _ \<Rightarrow> True
     | OReplaceB _ _ _ _ \<Rightarrow> True | OReserve _ \<Rightarrow> True | OShrink \<Rightarrow> True | _ \<Rightarrow> False)"

fun strops_ok :: "strop list \<Rightarrow> u8 list \<Rightarrow> bool" where
  "strops_ok [] t \<longleftrightarrow> True"
| "strops_ok (op # ops) t \<longleftrightarrow> strop_ok op t \<and> strops_ok ops (text_strop op t)"

fun strops_short :: "strop list \<Rightarrow> u8 list \<Rightarrow> bool" where
  "strops_short [] t \<longleftrightarrow> True"
| "strops_short (op # ops) t \<longleftrightarrow> \<not> allocates op \<and> length (text_strop op t) \<le> 23 \<and> strops_short ops (text_strop op t)"

definition text_strops :: "strop list \<Rightarrow> u8 list \<Rightarrow> u8 list" where
  "text_strops ops t = fold text_strop ops t"

context string_heap
begin

lemma insert_cstr_outcome:
  assumes "mem_ok h a" "holds a s" "str_rep s t" "length w = 24" "cstr_ok p" "length (ins pos (cstr_text p) t) < 2 ^ 32"
  shows "outcome True (others a s) (ins pos (cstr_text p) t) (\<lambda>_. True) (with_temp M p w (\<lambda>x. str_insert M pos (Other x) s) h)"
proof (rule with_temp_outcome [OF assms(1,2,5,4)])
  fix x h1 a1 assume x: "str_rep x (cstr_text p)" "mem_ok h1 a1" "holds a1 s"
  then have "str_text x = cstr_text p" "str_ok x" using str_rep_text by blast+
  then show "outcome True (others a1 s) (ins pos (cstr_text p) t) (\<lambda>_. True) (str_insert M pos (Other x) s h1)"
    using outcome_weaken [OF insert_outcome [OF x(2,3) assms(3), of x pos]] assms(6) by simp
qed

lemma replace_cstr_outcome:
  assumes "mem_ok h a" "holds a s" "str_rep s t" "length w = 24" "cstr_ok p" "no_wrap pos n" "length (ins pos (cstr_text p) (del pos n t)) < 2 ^ 32"
  shows "outcome True (others a s) (ins pos (cstr_text p) (del pos n t)) (\<lambda>_. True) (with_temp M p w (\<lambda>x. str_replace M pos n (Other x) s) h)"
proof (rule with_temp_outcome [OF assms(1,2,5,4)])
  fix x h1 a1 assume x: "str_rep x (cstr_text p)" "mem_ok h1 a1" "holds a1 s"
  then have "str_text x = cstr_text p" "str_ok x" using str_rep_text by blast+
  then show "outcome True (others a1 s) (ins pos (cstr_text p) (del pos n t)) (\<lambda>_. True) (str_replace M pos n (Other x) s h1)"
    using outcome_weaken [OF replace_outcome [OF x(2,3) assms(3), of x pos n]] assms(6,7) by simp
qed

lemma ins_end: "str_rep s t \<Longrightarrow> ins (s_size s) u t = t @ u"
  using str_repD(2) [of s t] by (simp add: ins_def)

lemma strop_outcome_alloc:
  assumes "mem_ok h a" "holds a s" "str_rep s t" "length w = 24" "strop_ok op t" "allocates op"
  shows "outcome True (others a s) (text_strop op t) (\<lambda>_. True) (run_strop M w op s h)"
proof -
  note ctx = assms(1-3) and ok = assms(5) [unfolded strop_ok_def]
  note defs = run_strop_def text_strop_def strop_ok_def
  show ?thesis
  proof (cases op)
    case (OAssign x)
    then show ?thesis using assign_outcome [OF ctx] ok by (simp add: defs)
  next
    case (OAssignC p)
    then show ?thesis using assign_cstr_outcome [OF ctx] ok by (simp add: defs)
  next
    case (OInsertC pos p)
    then show ?thesis using insert_cstr_outcome [OF ctx assms(4)] ok by (simp add: defs str_insert_cstr_def)
  next
    case (OAppendC p)
    then show ?thesis using insert_cstr_outcome [OF ctx assms(4), of p "s_size s"] ok by (simp add: defs str_append_cstr_def ins_end [OF assms(3)])
  next
    case (OReplaceC pos n p)
    then show ?thesis using replace_cstr_outcome [OF ctx assms(4)] ok by (simp add: defs str_replace_cstr_def)
  next
    case (OReplaceB pos n b k)
    then have o: "no_wrap pos n" "unat pos \<le> length t" "unat k \<le> length b" and l: "length (text_strop op t) < 2 ^ 32" using ok by simp_all
    have t: "text_strop op t = take (unat pos) t @ take (unat k) b @ drop (unat pos + unat n) t" using OReplaceB by (simp add: text_strop_def)
    have "run_strop M w op s h = str_replace_block M pos n (Some b) k s h" using OReplaceB by (simp add: run_strop_def)
    then show ?thesis using replace_block_outcome [OF ctx o l [unfolded t]] t by simp
  next
    case (OReserve n)
    then show ?thesis using outcome_any [OF reserve_outcome [OF ctx]] by (simp add: defs)
  next
    case OShrink
    then show ?thesis using shrink_outcome [OF ctx assms(4)] by (simp add: defs)
  qed (use assms(6) in \<open>simp_all add: allocates_def\<close>)
qed

lemma strop_outcome_grow:
  assumes "mem_ok h a" "holds a s" "str_rep s t" "strop_ok op t" "\<not> allocates op"
  shows "outcome (23 < length (text_strop op t)) (others a s) (text_strop op t) (\<lambda>_. True) (run_strop M w op s h)"
proof -
  note ctx = assms(1-3) and ok = assms(4) [unfolded strop_ok_def]
  have cap: "23 \<le> unat (capacity s)" using str_repD(1) [OF assms(3)] by (simp add: block_ok_def)
  note defs = run_strop_def text_strop_def strop_ok_def
  show ?thesis
  proof (cases op)
    case (OInsert pos x)
    then show ?thesis using outcome_weaken [OF insert_outcome [OF ctx]] ok cap by (auto simp: defs)
  next
    case (OFill pos n c)
    then show ?thesis using outcome_weaken [OF insert_fill_outcome [OF ctx]] ok cap by (auto simp: defs)
  next
    case (OErase pos n)
    then show ?thesis using erase_rep [OF assms(3), of pos n] outcome_same [OF ctx] ok by (fastforce simp: defs del_def with_mem_def)
  next
    case (OPush c)
    then show ?thesis using outcome_weaken [OF push_back_outcome [OF ctx]] ok cap by (auto simp: defs)
  next
    case (OAppend x)
    then show ?thesis using outcome_weaken [OF append_self_outcome [OF ctx]] outcome_weaken [OF insert_outcome [OF ctx, of _ "s_size s"]] ok cap
      by (cases x) (auto simp: defs ins_end [OF assms(3)] str_append_def)
  next
    case (OResize n c)
    then show ?thesis using outcome_weaken [OF resize_outcome [OF ctx]] ok cap by (auto simp: defs)
  next
    case (OReplace pos n x)
    then show ?thesis using outcome_weaken [OF replace_outcome [OF ctx]] ok cap by (auto simp: defs)
  next
    case OClear
    then show ?thesis using clear_outcome [OF ctx] by (simp add: defs)
  next
    case OPop
    then show ?thesis using pop_back_rep [OF assms(3)] outcome_same [OF ctx] by (fastforce simp: defs with_mem_def)
  qed (use assms(5) in \<open>simp_all add: allocates_def\<close>)
qed

lemma strops_outcome:
  assumes "mem_ok h a" "holds a s" "str_rep s t" "length w = 24" "strops_ok ops t"
  shows "outcome (\<not> strops_short ops t) (others a s) (text_strops ops t) (\<lambda>_. True) (run_strops M w ops s h)"
  using assms(1-3,5)
proof (induction ops arbitrary: s h a t)
  case Nil
  then show ?case using outcome_same [OF Nil(1-3) Nil(3) refl refl] by (simp add: text_strops_def)
next
  case (Cons op ops)
  have "outcome (allocates op \<or> 23 < length (text_strop op t)) (others a s) (text_strop op t) (\<lambda>_. True) (run_strop M w op s h)"
    using strop_outcome_alloc [OF Cons.prems(1-3) assms(4), of op] strop_outcome_grow [OF Cons.prems(1-3), of op w] Cons.prems(4)
    by (cases "allocates op") simp_all
  then show ?case
  proof (cases rule: outcome_cases)
    case halts
    then show ?thesis by (auto simp: outcome_def)
  next
    case (returns s' h' a')
    have "outcome (\<not> strops_short ops (text_strop op t)) (others a' s') (text_strops ops (text_strop op t)) (\<lambda>_. True) (run_strops M w ops s' h')"
      using Cons.IH [OF returns(4,5,2)] Cons.prems(4) by simp
    then show ?thesis using returns(1,6) by (auto simp: text_strops_def elim: outcome_weaken)
  qed
qed

text \<open>A string from its construction to its end leaves the memory with the regions there were before.\<close>

lemma str_default_rep: "length w = 24 \<Longrightarrow> str_rep (str_default w) []"
  by (cases w) (auto simp: str_default_def str_raw_def str_rep_def block_ok_def sdata_def capacity_def isSSO_def)

lemma lifetime_outcome:
  assumes "mem_ok h a" "length w = 24" "strops_ok ops []"
  shows "(run_strops M w ops (str_default w) h = None \<and> \<not> strops_short ops []) \<or>
    (\<exists>s' h' h'' a''. run_strops M w ops (str_default w) h = kret (s', h') \<and> str_rep s' (text_strops ops []) \<and>
      str_destroy M s' h' = kret h'' \<and> rep h'' a'' \<and> owned a'' = owned a)"
proof -
  have "s_heap (str_default w) = None" by (simp add: str_default_def str_raw_def)
  then have "holds a (str_default w)" "others a (str_default w) = owned a" by (simp_all add: holds_def others_def own_def)
  from strops_outcome [OF assms(1) this(1) str_default_rep [OF assms(2)] assms(2,3)] this(2)
  have "outcome (\<not> strops_short ops []) (owned a) (text_strops ops []) (\<lambda>_. True) (run_strops M w ops (str_default w) h)" by simp
  then show ?thesis
  proof (cases rule: outcome_cases)
    case (returns s' h' a')
    then show ?thesis using deallocate_ok [OF returns(4,5)] by (auto simp: str_destroy_def mem_ok_def)
  qed simp
qed

end

end
