(* ===== verification/Stringspec.thy ===== *)
theory Stringspec
  imports Stringrep
begin

unbundle bit_operations_syntax

text \<open>
  The properties of the string class: its operations on the kernel heap (an interpretation of \<^emph>\<open>string_heap\<close>), moves, searches and comparisons, removal by
  character, and the inputs at which sums of positions and counts wrap.
\<close>

section \<open>Strings on the kernel heap\<close>

definition kernel_mm :: "(nat \<Rightarrow> nat \<Rightarrow> u8) \<Rightarrow> 'a heap_scheme mm" where
  "kernel_mm old = \<lparr>mm_ready = heap_isInitialized, mm_alloc = heap_alloc, mm_free = heap_free, mm_old = old\<rparr>"

interpretation ksh: string_heap heap_alloc heap_free heap_store heap_inv heap_owned "kernel_mm old" for old
  by unfold_locales (simp_all add: kernel_mm_def heap_alloc_def)

lemma heap_owned_inj:
  assumes "heap_inv h bs"
  shows "inj_on fst (heap_owned bs)"
proof (rule inj_onI)
  fix x y assume xy: "x \<in> heap_owned bs" "y \<in> heap_owned bs" "fst x = fst y"
  from heap_inv_struct [OF assms] obtain fs where st: "heap_struct h bs fs" ..
  obtain b c where bc: "b \<in> set bs" "c \<in> set bs" "x = (b_addr b + 16, b_size b - 16)" "y = (b_addr c + 16, b_size c - 16)"
    using xy(1,2) by (auto simp: heap_owned_def)
  then have "b = c" using tiled_addr_inj [OF heap_struct_tiled [OF st] bc(1,2)] xy(3) by simp
  then show "x = y" using bc by simp
qed

lemma heap_mem_ok: "heap_inv h bs \<Longrightarrow> ksh.mem_ok h bs"
  by (simp add: ksh.mem_ok_def heap_owned_inj)

text \<open>C31. The string class refines lists of characters, on the kernel heap. A string is constructed and then put through any sequence of assignments,
  insertions, removals, replacements, and changes of size and capacity, each with arguments that are well formed and do not wrap. Then no
  access is outside of a block, and the result is a well-formed string with the text that the same operations on lists of characters give;
  the code does not halt unless memory is needed: not when every text on the way fits into the object. When the string is destroyed at the end,
  exactly the regions of the heap are handed out that were before: nothing is leaked and nothing of others is freed.\<close>

theorem string_refines_text:
  assumes "heap_inv h bs" "length w = 24" "strops_ok ops []"
  shows "(run_strops (kernel_mm old) w ops (str_default w) h = None \<and> \<not> strops_short ops []) \<or>
    (\<exists>s' h' h'' bs''. run_strops (kernel_mm old) w ops (str_default w) h = kret (s', h') \<and> str_rep s' (text_strops ops []) \<and>
      str_destroy (kernel_mm old) s' h' = kret h'' \<and> heap_inv h'' bs'' \<and> heap_owned bs'' = heap_owned bs)"
  by (rule ksh.lifetime_outcome [OF heap_mem_ok [OF assms(1)] assms(2,3)])

theorem string_refines_text_witness:
  "\<exists>s' h'. run_strops (kernel_mm (\<lambda>_ _. 0)) (replicate 24 7) [OPush 0x61, OFill 0 3 0x62, OErase 1 npos, OResize 2 0x63] (str_default (replicate 24 7)) demo_heap = kret (s', h') \<and>
     str_rep s' [0x62, 0x63]"
proof -
  let ?ops = "[OPush 0x61, OFill 0 3 0x62, OErase 1 npos, OResize 2 0x63]"
  have rep3: "replicate 3 c = [c, c, c]" for c :: u8 by (simp add: numeral_eq_Suc)
  have "text_strops ?ops [] = [0x62, 0x63]" "strops_ok ?ops []" "strops_short ?ops []"
    by (simp_all add: text_strops_def text_strop_def ins_def del_def rep3 strop_ok_def no_wrap_def allocates_def)
  then show ?thesis using string_refines_text [OF demo_heap_inv, of "replicate 24 7" ?ops "\<lambda>_ _. 0"] by auto
qed

text \<open>C32. The operations are type sound: from a well-formed string whose block the heap has handed out, an operation with proper arguments never accesses anything
  outside of the blocks, and what it returns is again a well-formed string (capacity, size and terminator fit its block, and that is in the object or on the heap)
  whose block the heap has handed out; the heap is well formed and the regions of others are as before.\<close>

theorem string_type_sound:
  assumes "heap_inv h bs" "str_ok s" "\<forall>(p, b) \<in> set_option (s_heap s). \<exists>len. length b \<le> len \<and> (p, len) \<in> heap_owned bs"
    "length w = 24" "strop_ok op (str_text s)"
  shows "(\<forall>msg. run_strop (kernel_mm old) w op s h \<noteq> kpanic msg) \<and>
    (\<forall>s' h'. run_strop (kernel_mm old) w op s h = kret (s', h') \<longrightarrow> str_ok s' \<and>
      (\<exists>bs'. heap_inv h' bs' \<and> (\<forall>(p, b) \<in> set_option (s_heap s'). \<exists>len. length b \<le> len \<and> (p, len) \<in> heap_owned bs') \<and>
        {x \<in> heap_owned bs'. fst x \<notin> own s'} = {x \<in> heap_owned bs. fst x \<notin> own s}))"
proof -
  have hd: "ksh.holds bs s" using assms(3) by (fastforce simp: ksh.holds_def)
  note rep = assms(2) [unfolded str_ok_def]
  have "\<exists>c. ksh.outcome c (ksh.others bs s) (text_strop op (str_text s)) (\<lambda>_. True) (run_strop (kernel_mm old) w op s h)"
    using ksh.strop_outcome_alloc [OF heap_mem_ok [OF assms(1)] hd rep assms(4,5)] ksh.strop_outcome_grow [OF heap_mem_ok [OF assms(1)] hd rep assms(5)] by blast
  then obtain c where "ksh.outcome c (ksh.others bs s) (text_strop op (str_text s)) (\<lambda>_. True) (run_strop (kernel_mm old) w op s h)" ..
  then show ?thesis
  proof (cases rule: ksh.outcome_cases)
    case halts
    then show ?thesis by (simp add: kpanic_def kret_def)
  next
    case (returns s' h' bs')
    have "str_ok s'" using str_rep_text [OF returns(2)] ..
    moreover have "\<forall>(p, b) \<in> set_option (s_heap s'). \<exists>len. length b \<le> len \<and> (p, len) \<in> heap_owned bs'"
      using returns(5) by (auto simp: ksh.holds_def)
    moreover have "{x \<in> heap_owned bs'. fst x \<notin> own s'} = {x \<in> heap_owned bs. fst x \<notin> own s}"
      using returns(6) by (simp add: ksh.others_def)
    moreover have "heap_inv h' bs'" using returns(4) by (simp add: ksh.mem_ok_def)
    ultimately show ?thesis unfolding returns(1) by (intro conjI allI impI exI [of _ bs']) auto
  qed
qed

theorem string_type_sound_witness:
  "\<forall>msg. run_strop (kernel_mm (\<lambda>_ _. 0)) (replicate 24 7) (OPush 0x61) (str_default (replicate 24 7)) demo_heap \<noteq> kpanic msg"
proof -
  let ?s = "str_default (replicate 24 7)"
  have "str_ok ?s" "str_text ?s = []" "s_heap ?s = None" using str_rep_text [OF ksh.str_default_rep, of "replicate 24 7"] by (simp_all add: str_default_def str_raw_def)
  then show ?thesis using string_type_sound [OF demo_heap_inv, of ?s "replicate 24 7" "OPush 0x61" "\<lambda>_ _. 0"]
    by (simp add: strop_ok_def text_strop_def)
qed

section \<open>Moves\<close>

lemma take_over_rep:
  assumes "str_rep x t" "length (s_sso s) = 24"
  shows "\<exists>s'. take_over x s = kret s' \<and> str_rep s' t \<and> s_heap s' = s_heap x"
proof (cases "isSSO x")
  case True
  note r = str_repD [OF assms(1)]
  have x: "s_heap x = None" "sdata x = s_sso x" "length (s_sso x) = 24" "length t \<le> 23"
    using True r(1,3) by (simp_all add: isSSO_def sdata_def block_ok_def capacity_def)
  let ?b = "patch 0 (take (length t + 1) (s_sso x)) (s_sso s)"
  let ?s = "s\<lparr>s_heap := None, s_size := s_size x, s_cap := s_cap x, s_sso := ?b\<rparr>"
  have "take_over x s = kret ?s" using True x r(2) assms(2) by (simp add: take_over_def Let_def blk_read_ok blk_write_ok)
  moreover obtain q where "s_sso x = t @ 0 # q" using assms(1) x(2) by (auto simp: str_rep_def)
  then have "str_rep ?s t" using x r(2) assms(2) by (simp add: str_rep_def block_ok_def sdata_def capacity_def isSSO_def) (simp add: patch_def)
  ultimately show ?thesis using x(1) by simp
next
  case False
  then have "take_over x s = kret (s\<lparr>s_heap := s_heap x, s_size := s_size x, s_cap := s_cap x\<rparr>)" by (simp add: take_over_def Let_def)
  moreover have "str_rep (s\<lparr>s_heap := s_heap x, s_size := s_size x, s_cap := s_cap x\<rparr>) t"
    using False assms by (auto simp: str_rep_def block_ok_def sdata_def capacity_def isSSO_def split: option.splits)
  ultimately show ?thesis by simp
qed

lemma moved_from_rep: "str_rep x t \<Longrightarrow> str_rep (moved_from x) [] \<and> s_heap (moved_from x) = None \<and> length (s_sso (moved_from x)) = 24"
  by (cases "s_sso x") (auto simp: str_rep_def block_ok_def moved_from_def sdata_def capacity_def isSSO_def)

lemma move_assign_empty:
  assumes "str_rep x t" "s_heap s = None" "length (s_sso s) = 24"
  shows "\<exists>s'. str_move_assign M x s h = kret ((s', moved_from x), h) \<and> str_rep s' t \<and> s_heap s' = s_heap x"
  using take_over_rep [OF assms(1,3)] assms(2) by (auto simp: str_move_assign_def str_deallocate_def)

text \<open>C34. Swapping two strings exchanges their texts and their blocks without a call of the allocator, whether the texts are in the objects or on the heap; moving
  from a string leaves an empty, well-formed string behind.\<close>

theorem string_swap_correct:
  assumes "str_rep s t" "str_rep s' t'" "length w = 24"
  shows "(\<exists>x y. str_swap M w s s' h = kret ((x, y), h) \<and> str_rep x t' \<and> str_rep y t \<and> s_heap x = s_heap s' \<and> s_heap y = s_heap s) \<and>
    (\<exists>x. str_move s w = kret (x, moved_from s) \<and> str_rep x t \<and> s_heap x = s_heap s \<and> str_rep (moved_from s) [])"
proof -
  note mf = moved_from_rep [OF assms(1)] moved_from_rep [OF assms(2)]
  obtain m where m: "take_over s (str_raw w) = kret m" "str_rep m t" "s_heap m = s_heap s" using take_over_rep [OF assms(1), of "str_raw w"] assms(3) by auto
  obtain x where x: "str_move_assign M s' (moved_from s) h = kret ((x, moved_from s'), h)" "str_rep x t'" "s_heap x = s_heap s'"
    using move_assign_empty [OF assms(2), of "moved_from s" M h] mf(1) by auto
  obtain y where y: "str_move_assign M m (moved_from s') h = kret ((y, moved_from m), h)" "str_rep y t" "s_heap y = s_heap m"
    using move_assign_empty [OF m(2), of "moved_from s'" M h] mf(2) by auto
  have "str_destroy M (moved_from m) h = kret h" using moved_from_rep [OF m(2)] by (simp add: str_destroy_def str_deallocate_def)
  then have sw: "str_swap M w s s' h = kret ((x, y), h)" using m(1) x(1) y(1) by (simp add: str_swap_def str_move_def)
  have mv: "str_move s w = kret (m, moved_from s)" using m(1) by (simp add: str_move_def)
  show ?thesis
    by (intro conjI, rule exI [of _ x], rule exI [of _ y], use sw m(3) x(2,3) y(2,3) in simp, rule exI [of _ m], use mv m(2,3) mf(1) in simp)
qed

theorem string_swap_correct_witness:
  "\<exists>x y. str_swap (kernel_mm (\<lambda>_ _. 0)) (replicate 24 0) (str_default (replicate 24 7)) (str_default (replicate 24 9)) demo_heap = kret ((x, y), demo_heap) \<and> str_rep x []"
  using string_swap_correct [OF ksh.str_default_rep ksh.str_default_rep, of "replicate 24 7" "replicate 24 9" "replicate 24 0" "kernel_mm (\<lambda>_ _. 0)" demo_heap] by auto

section \<open>Searches\<close>

definition pos_of :: "nat option \<Rightarrow> u32" where
  "pos_of r = (case r of None \<Rightarrow> npos | Some i \<Rightarrow> word_of_nat i)"

definition occurs :: "u8 list \<Rightarrow> u8 list \<Rightarrow> nat \<Rightarrow> bool" where
  "occurs u t i \<longleftrightarrow> take (length u) (drop i t) = u"

lemma first_index_find: "(\<And>i. i \<in> set is \<Longrightarrow> P i = kret (Q i)) \<Longrightarrow> first_index P is = kret (pos_of (find Q is))"
  by (induction "is") (auto simp: pos_of_def)

lemma match_at_rep:
  assumes "str_rep s t" "take (length u) p = u" "i + length u \<le> length t" "n = length u"
  shows "match_at (sdata s) p n i = kret (occurs u t i)"
proof -
  note r = str_repD [OF assms(1)]
  have lp: "length u \<le> length p" using assms(2) by (metis length_take min.bounded_iff order_refl)
  have "take (length u) (drop i (sdata s)) = take (length u) (drop i t)"
    using take_rep [OF assms(1), of "i + length u"] assms(3) by (metis add_diff_cancel_left' drop_take take_drop)
  moreover have "length u \<le> length (drop i (sdata s))" using r(3,7) assms(3) by simp
  ultimately show ?thesis using memcmp_eq [of "length u" "drop i (sdata s)" p] lp assms(2,4)
    by (auto simp: match_at_def blk_cmp_def occurs_def)
qed

lemma nth_rep: "str_rep s t \<Longrightarrow> i < length t \<Longrightarrow> sdata s ! i = t ! i \<and> i < length (sdata s)"
  by (auto simp: str_rep_def nth_append)

lemma char_at_rep: "str_rep s t \<Longrightarrow> i < length t \<Longrightarrow> char_at (sdata s) c i = kret (t ! i = c)"
  using nth_rep [of s t i] by (simp add: char_at_def)

lemma among_js: "i < length d \<Longrightarrow> \<forall>j\<in>set js. j < length p \<Longrightarrow> among d p js i = kret (\<exists>j\<in>set js. d ! i = p ! j)"
  by (induction js) auto

lemma among_rep:
  assumes "str_rep s t" "i < length t" "n \<le> length p"
  shows "among (sdata s) p [0..<n] i = kret (t ! i \<in> set (take n p))"
proof -
  have "(\<exists>j\<in>set [0..<n]. sdata s ! i = p ! j) \<longleftrightarrow> t ! i \<in> set (take n p)"
    using nth_rep [OF assms(1,2)] assms(3) by (auto simp: in_set_conv_nth Bex_def)
  then show ?thesis using among_js [of i "sdata s" "[0..<n]" p] nth_rep [OF assms(1,2)] assms(3) by simp
qed

lemma find_prefix: "(\<And>i. i \<in> set ys \<Longrightarrow> \<not> Q i) \<Longrightarrow> find Q (xs @ ys) = find Q xs"
  by (induction xs) (auto simp: find_None_iff)

lemma occurs_bound: "occurs u t i \<Longrightarrow> u \<noteq> [] \<Longrightarrow> i + length u \<le> length t"
proof -
  assume a: "occurs u t i" "u \<noteq> []"
  have "min (length t - i) (length u) = length u" using arg_cong [OF a(1) [unfolded occurs_def], of length] by (simp add: min.commute)
  moreover have "0 < length u" using a(2) by simp
  ultimately show "i + length u \<le> length t" by arith
qed

lemma str_find_rep:
  assumes "str_rep s t" "str_rep x u"
  shows "str_find x pos s = kret (if unat pos \<le> length t then pos_of (find (occurs u t) [unat pos..<Suc (length t)]) else npos)"
proof -
  note r = str_repD [OF assms(1)] and ru = str_repD [OF assms(2)]
  consider "length t < unat pos" | "unat pos \<le> length t" "u = []" | "unat pos \<le> length t" "u \<noteq> []" "length t < unat pos + length u"
    | "unat pos + length u \<le> length t" "u \<noteq> []" by fastforce
  then show ?thesis
  proof cases
    case 1
    then show ?thesis using r(2) by (simp add: str_find_def word_less_nat_alt)
  next
    case 2
    then have "str_find x pos s = kret pos" using r(2) ru(2) by (simp add: str_find_def word_less_nat_alt word_unat_eq_iff)
    moreover have "[unat pos..<Suc (length t)] = unat pos # [Suc (unat pos)..<Suc (length t)]" using 2 by (simp add: upt_conv_Cons)
    ultimately show ?thesis using 2 by (simp add: occurs_def pos_of_def del: upt_Suc)
  next
    case 3
    have "find (occurs u t) [unat pos..<Suc (length t)] = None" using 3 occurs_bound [of u t] by (fastforce simp: find_None_iff)
    then show ?thesis using 3 r(2) ru(2) unat_sub_le [of pos "s_size s"]
      by (auto simp: str_find_def word_less_nat_alt pos_of_def simp del: upt_Suc)
  next
    case 4
    have sub: "unat (s_size s - s_size x) = length t - length u" "unat (s_size s - pos) = length t - unat pos"
      using 4 r(2) ru(2) by (simp_all add: unat_sub_le)
    have x0: "s_size x \<noteq> 0" using 4 ru(2) by (auto simp: word_unat_eq_iff)
    have split: "[unat pos..<Suc (length t)] = [unat pos..<length t - length u + 1] @ [length t - length u + 1..<Suc (length t)]"
      using 4 upt_add_eq_append [of "unat pos" "length t - length u + 1" "length u"] by simp
    have "first_index (match_at (sdata s) (sdata x) (unat (s_size x))) [unat pos..<length t - length u + 1] =
        kret (pos_of (find (occurs u t) [unat pos..<length t - length u + 1]))"
      using 4 ru(2,4) by (intro first_index_find match_at_rep [OF assms(1)]) auto
    moreover have "find (occurs u t) [unat pos..<Suc (length t)] = find (occurs u t) [unat pos..<length t - length u + 1]"
      unfolding split using occurs_bound [of u t] 4 by (intro find_prefix) fastforce
    ultimately show ?thesis using 4 r(2) ru(2) sub x0 by (auto simp: str_find_def word_less_nat_alt simp del: upt_Suc)
  qed
qed

lemma str_rfind_rep:
  assumes "str_rep s t" "str_rep x u" "u \<noteq> []"
  shows "str_rfind x pos s = kret (pos_of (if length u \<le> length t then find (occurs u t) (rev [0..<Suc (min (unat pos) (length t - length u))]) else None))"
proof (cases "length u \<le> length t")
  case True
  note r = str_repD [OF assms(1)] and ru = str_repD [OF assms(2)]
  have x0: "s_size x \<noteq> 0" using assms(3) ru(2) by (auto simp: word_unat_eq_iff)
  have "unat (s_size s - s_size x) = length t - length u" using True r(2) ru(2) by (simp add: unat_sub_le)
  then have m: "unat (min pos (s_size s - s_size x)) = min (unat pos) (length t - length u)" by (simp add: min_def word_le_nat_alt)
  have "first_index (match_at (sdata s) (sdata x) (unat (s_size x))) (rev [0..<Suc (min (unat pos) (length t - length u))]) =
      kret (pos_of (find (occurs u t) (rev [0..<Suc (min (unat pos) (length t - length u))])))"
    using True ru(2,4) by (intro first_index_find match_at_rep [OF assms(1)]) auto
  then show ?thesis using True x0 r(2) ru(2) by (auto simp: str_rfind_def Let_def m word_less_nat_alt simp del: upt_Suc)
next
  case False
  then show ?thesis using str_repD(2) [OF assms(1)] str_repD(2) [OF assms(2)] by (auto simp: str_rfind_def word_less_nat_alt pos_of_def)
qed

lemma from_back_rep: "str_rep s t \<Longrightarrow> t \<noteq> [] \<Longrightarrow> from_back pos s = rev [0..<min (Suc (unat pos)) (length t)]"
proof -
  assume a: "str_rep s t" "t \<noteq> []"
  have "unat (s_size s) = length t" by (rule str_repD(2) [OF a(1)])
  moreover from this have "unat (s_size s - 1) = length t - 1" using a(2) unat_sub_le [of 1 "s_size s"] by (simp add: Suc_leI)
  ultimately show "from_back pos s = rev [0..<min (Suc (unat pos)) (length t)]"
    using a(2) by (cases "length t") (auto simp: from_back_def Let_def word_le_nat_alt min_def simp del: upt_Suc)
qed

lemma size_zero: "str_rep s t \<Longrightarrow> s_size s = 0 \<longleftrightarrow> t = []"
  using str_repD(2) [of s t] by (auto simp: word_unat_eq_iff)

text \<open>The searches for one character, forwards and backwards, by a test on the characters.\<close>

lemma forward_rep:
  assumes "str_rep s t" "\<And>i. i < length t \<Longrightarrow> P i = kret (Q (t ! i))"
  shows "(if s_size s \<le> pos then kret npos else first_index P [unat pos..<unat (s_size s)]) = kret (pos_of (find (\<lambda>i. Q (t ! i)) [unat pos..<length t]))"
proof (cases "s_size s \<le> pos")
  case True
  then show ?thesis using str_repD(2) [OF assms(1)] by (simp add: word_le_nat_alt pos_of_def)
next
  case False
  have "first_index P [unat pos..<length t] = kret (pos_of (find (\<lambda>i. Q (t ! i)) [unat pos..<length t]))" by (rule first_index_find) (simp add: assms(2))
  then show ?thesis using False str_repD(2) [OF assms(1)] by simp
qed

lemma backward_rep:
  assumes "str_rep s t" "\<And>i. i < length t \<Longrightarrow> P i = kret (Q (t ! i))"
  shows "(if s_size s = 0 then kret npos else first_index P (from_back pos s)) = kret (pos_of (find (\<lambda>i. Q (t ! i)) (rev [0..<min (Suc (unat pos)) (length t)])))"
proof (cases "t = []")
  case True
  then show ?thesis using size_zero [OF assms(1)] by (simp add: pos_of_def)
next
  case False
  then have "first_index P (from_back pos s) = kret (pos_of (find (\<lambda>i. Q (t ! i)) (rev [0..<min (Suc (unat pos)) (length t)])))"
    using assms(2) by (simp only: from_back_rep [OF assms(1) False]) (rule first_index_find, simp)
  then show ?thesis using False size_zero [OF assms(1)] by simp
qed

lemma knot_kret [simp]: "knot (kret b) = kret (\<not> b)"
  by (simp add: knot_def)

lemma str_rfind_char_rep:
  assumes "str_rep s t"
  shows "str_rfind_char c pos s = kret (pos_of (find (\<lambda>i. t ! i = c) (rev [0..<min (Suc (unat pos)) (length t)])))"
proof -
  have "s_size s \<noteq> 0 \<Longrightarrow> rev [0..<unat (if pos = npos \<or> pos \<ge> s_size s then s_size s - 1 else pos) + 1] = from_back pos s"
    using str_repD(2,5) [OF assms] by (auto simp: from_back_def Let_def word_le_nat_alt)
  then have "str_rfind_char c pos s = (if s_size s = 0 then kret npos else first_index (char_at (sdata s) c) (from_back pos s))"
    by (simp add: str_rfind_char_def Let_def del: upt_Suc)
  then show ?thesis using backward_rep [OF assms, of "char_at (sdata s) c" "\<lambda>d. d = c"] char_at_rep [OF assms] by simp
qed

text \<open>The result of a comparison from that of the common part and the lengths.\<close>

definition decide :: "int \<Rightarrow> nat \<Rightarrow> nat \<Rightarrow> int" where
  "decide c m n = (if c \<noteq> 0 then c else if m < n then - 1 else if m > n then 1 else 0)"

lemma decide_simps [simp]: "decide c (Suc m) (Suc n) = decide c m n" "decide 1 m n = 1" "decide (- 1) m n = - 1" "decide 0 0 0 = 0" "decide 0 0 (Suc n) = - 1"
    "decide 0 (Suc n) 0 = 1"
  by (simp_all add: decide_def)

lemma compare_lists:
  "\<exists>c. memcmp (t @ r) (u @ q) (min (length t) (length u)) = Some c \<and>
    (decide c (length t) (length u) = 0 \<longleftrightarrow> t = u) \<and> (decide c (length t) (length u) < 0 \<longleftrightarrow> dict_less t u)"
proof (induction t arbitrary: u)
  case Nil
  show ?case by (cases u) simp_all
next
  case (Cons x t)
  show ?case
  proof (cases u)
    case u: (Cons y v)
    consider "x = y" | "x < y" | "y < x" by (rule linorder_cases)
    then show ?thesis using Cons.IH [of v] u by cases auto
  qed simp
qed

lemma str_compare_rep:
  assumes "str_rep s t" "str_rep x u"
  shows "\<exists>c. str_compare x s = kret c \<and> (c = 0 \<longleftrightarrow> t = u) \<and> (c < 0 \<longleftrightarrow> dict_less t u)"
proof -
  obtain r q where d: "sdata s = t @ r" "sdata x = u @ q" using assms by (auto simp: str_rep_def)
  note l = str_repD(2) [OF assms(1)] str_repD(2) [OF assms(2)]
  have n: "unat (if s_size s < s_size x then s_size s else s_size x) = min (length t) (length u)" using l by (simp add: word_less_nat_alt min_def)
  have lt: "s_size s < s_size x \<longleftrightarrow> length t < length u" "s_size x < s_size s \<longleftrightarrow> length u < length t" using l by (simp_all add: word_less_nat_alt)
  obtain c where c: "memcmp (t @ r) (u @ q) (min (length t) (length u)) = Some c"
    "decide c (length t) (length u) = 0 \<longleftrightarrow> t = u" "decide c (length t) (length u) < 0 \<longleftrightarrow> dict_less t u"
    using compare_lists by blast
  have "blk_cmp (sdata s) 0 (sdata x) (unat (if s_size s < s_size x then s_size s else s_size x)) = kret c"
    unfolding n by (simp add: blk_cmp_def d c(1))
  then have "str_compare x s = kret (decide c (length t) (length u))"
    unfolding str_compare_def Let_def decide_def lt [symmetric] by simp
  then show ?thesis using c(2,3) by simp
qed

lemma affix_rep:
  assumes "str_rep s t" "str_rep x u"
  shows "starts_with x s = kret (\<exists>v. t = u @ v)" "ends_with x s = kret (\<exists>v. t = v @ u)" "str_eq s x = kret (t = u)"
proof -
  note l = str_repD(2) [OF assms(1)] str_repD(2,4) [OF assms(2)]
  have lt: "s_size s < s_size x \<longleftrightarrow> length t < length u" using l by (simp add: word_less_nat_alt)
  have m: "match_at (sdata s) (sdata x) (unat (s_size x)) i = kret (occurs u t i)" if "i + length u \<le> length t" for i
    using match_at_rep [OF assms(1) l(3) that] l(2) by simp
  have "occurs u t 0 \<longleftrightarrow> (\<exists>v. t = u @ v)" if "length u \<le> length t" using that by (metis append_eq_conv_conj append_take_drop_id drop0 occurs_def)
  then show "starts_with x s = kret (\<exists>v. t = u @ v)" using m [of 0] lt by (auto simp: starts_with_def not_less)
  have "occurs u t (length t - length u) \<longleftrightarrow> (\<exists>v. t = v @ u)" if "length u \<le> length t"
  proof
    assume "occurs u t (length t - length u)"
    then have "drop (length t - length u) t = u" using that by (simp add: occurs_def)
    then show "\<exists>v. t = v @ u" by (intro exI [of _ "take (length t - length u) t"]) (metis append_take_drop_id)
  qed (auto simp: occurs_def)
  moreover have "\<not> length t < length u \<Longrightarrow> unat (s_size s - s_size x) = length t - length u" using l by (simp add: unat_sub_le)
  ultimately show "ends_with x s = kret (\<exists>v. t = v @ u)" using m [of "length t - length u"] lt by (auto simp: ends_with_def)
  have "s_size s = s_size x \<longleftrightarrow> length t = length u" using l by (simp add: word_unat_eq_iff)
  then show "str_eq s x = kret (t = u)" using m [of 0] l by (auto simp: str_eq_def occurs_def)
qed

text \<open>C33. The searches and comparisons of the string class. On well-formed strings they return, and with what lists of characters give: \<open>find\<close> the first position
  from \<open>pos\<close> on where the other text occurs, \<open>rfind\<close> the last one up to \<open>pos\<close>, the others the first or last position of a character that is, or is not, one of
  a set; \<open>npos\<close> when there is none. \<open>compare\<close> is zero exactly for equal texts and negative exactly when the first comes before the second in
  dictionary order.\<close>

theorem string_search_correct:
  assumes "str_rep s t" "str_rep x u"
  shows "str_find x pos s = kret (if unat pos \<le> length t then pos_of (find (occurs u t) [unat pos..<Suc (length t)]) else npos) \<and>
    (u \<noteq> [] \<longrightarrow> str_rfind x pos s = kret (pos_of (if length u \<le> length t then find (occurs u t) (rev [0..<Suc (min (unat pos) (length t - length u))]) else None))) \<and>
    str_find_char c pos s = kret (pos_of (find (\<lambda>i. t ! i = c) [unat pos..<length t])) \<and>
    str_rfind_char c pos s = kret (pos_of (find (\<lambda>i. t ! i = c) (rev [0..<min (Suc (unat pos)) (length t)]))) \<and>
    str_find_first_of x pos s = kret (pos_of (find (\<lambda>i. t ! i \<in> set u) [unat pos..<length t])) \<and>
    str_find_last_of x pos s = kret (pos_of (find (\<lambda>i. t ! i \<in> set u) (rev [0..<min (Suc (unat pos)) (length t)]))) \<and>
    str_find_first_not_of x pos s = kret (pos_of (find (\<lambda>i. t ! i \<notin> set u) [unat pos..<length t])) \<and>
    str_find_last_not_of x pos s = kret (pos_of (find (\<lambda>i. t ! i \<notin> set u) (rev [0..<min (Suc (unat pos)) (length t)]))) \<and>
    starts_with x s = kret (\<exists>v. t = u @ v) \<and> ends_with x s = kret (\<exists>v. t = v @ u) \<and> str_eq s x = kret (t = u) \<and>
    (\<exists>c. str_compare x s = kret c \<and> (c = 0 \<longleftrightarrow> t = u) \<and> (c < 0 \<longleftrightarrow> dict_less t u))"
proof -
  note ru = str_repD [OF assms(2)]
  have am: "among (sdata s) (sdata x) [0..<unat (s_size x)] i = kret (t ! i \<in> set u)" if "i < length t" for i
    using among_rep [OF assms(1) that, of "length u" "sdata x"] ru(2,3,4,7) by simp
  then have nam: "knot (among (sdata s) (sdata x) [0..<unat (s_size x)] i) = kret (t ! i \<notin> set u)" if "i < length t" for i using that by simp
  note fw = forward_rep [OF assms(1)] and bw = backward_rep [OF assms(1)]
  note facts = str_find_rep [OF assms] str_rfind_rep [OF assms] str_rfind_char_rep [OF assms(1)] affix_rep [OF assms] str_compare_rep [OF assms]
    fw [of "char_at (sdata s) c" "\<lambda>d. d = c", OF char_at_rep [OF assms(1)]] fw [of _ "\<lambda>d. d \<in> set u", OF am] bw [of _ "\<lambda>d. d \<in> set u", OF am]
    fw [of _ "\<lambda>d. d \<notin> set u", OF nam] bw [of _ "\<lambda>d. d \<notin> set u", OF nam]
  show ?thesis
    unfolding str_find_char_def str_find_first_of_def str_find_last_of_def str_find_first_not_of_def str_find_last_not_of_def
      find_first_of_block_def find_last_of_block_def find_first_not_of_block_def find_last_not_of_block_def
    by (intro conjI impI) (assumption | rule facts)+
qed

text \<open>A short text in the object.\<close>

definition short_str :: "u8 list \<Rightarrow> str" where
  "short_str t = \<lparr>s_heap = None, s_size = word_of_nat (length t), s_cap = SSO_CAPACITY, s_sso = t @ 0 # replicate (23 - length t) 0\<rparr>"

lemma short_str_rep: "length t \<le> 23 \<Longrightarrow> str_rep (short_str t) t"
  by (auto simp: short_str_def str_rep_def block_ok_def sdata_def capacity_def isSSO_def u32_of_nat)

theorem string_search_correct_witness:
  "str_find (short_str [0x62]) 0 (short_str [0x61, 0x62, 0x61]) = kret 1 \<and> str_rfind_char 0x61 npos (short_str [0x61, 0x62, 0x61]) = kret 2 \<and>
   (\<exists>c. str_compare (short_str [0x62]) (short_str [0x61, 0x62, 0x61]) = kret c \<and> c < 0)"
proof -
  let ?t = "[0x61, 0x62, 0x61] :: u8 list"
  have r: "str_rep (short_str ?t) ?t" "str_rep (short_str [0x62]) [0x62]" by (simp_all add: short_str_rep)
  have "find (occurs [0x62] ?t) [0..<4] = Some 1" "find (\<lambda>i. ?t ! i = 0x61) (rev [0..<3]) = Some 2"
    by (simp_all add: upt_rec occurs_def)
  moreover have "min (Suc (unat npos)) 3 = 3" by simp
  ultimately show ?thesis
    using string_search_correct [OF r, of 0] string_search_correct [OF r, of npos "0x61"] by (auto simp: pos_of_def occurs_def)
qed

section \<open>Removal by character\<close>

lemma erase_loop_rep:
  assumes "j + c = i" "i + length us \<le> length b" "drop i b = us @ rest" "take j b = ts"
  shows "\<exists>b'. erase_loop P [i..<i + length us] j c b = kret (j + length (filter (\<lambda>x. \<not> P x) us), c + length (filter P us), b') \<and>
    length b' = length b \<and> take (j + length (filter (\<lambda>x. \<not> P x) us)) b' = ts @ filter (\<lambda>x. \<not> P x) us"
  using assms
proof (induction us arbitrary: i j c b ts)
  case Nil
  then show ?case by simp
next
  case (Cons x us)
  have i: "i < length b" and x: "b ! i = x" and d: "drop (Suc i) b = us @ rest"
    using Cons.prems(2,3) by (simp, metis append_Cons nth_via_drop, metis append_Cons drop_Suc list.sel(3) tl_drop)
  have up: "[i..<i + length (x # us)] = i # [Suc i..<Suc i + length us]" by (simp add: upt_conv_Cons del: upt_Suc)
  show ?case
  proof (cases "P x")
    case True
    then show ?thesis using Cons.IH [of j "Suc c" "Suc i" b ts] Cons.prems i x d unfolding up by simp
  next
    case False
    let ?b = "if i \<noteq> j then patch j [x] b else b"
    have b: "(if i \<noteq> j then blk_write j [x] b else kret b) = kret ?b" using i Cons.prems(1) by (simp add: blk_write_ok)
    have l: "length ?b = length b" using i Cons.prems(1) by simp
    have dr: "drop (Suc i) ?b = us @ rest" using d i Cons.prems(1) by (auto simp: patch_def add.commute)
    have tk: "take (Suc j) ?b = ts @ [x]"
      using Cons.prems(1,4) i x by (auto simp: patch_def take_Suc_conv_app_nth)
    have "\<exists>b'. erase_loop P [Suc i..<Suc i + length us] (Suc j) c ?b = kret (Suc j + length (filter (\<lambda>x. \<not> P x) us), c + length (filter P us), b') \<and>
        length b' = length b \<and> take (Suc j + length (filter (\<lambda>x. \<not> P x) us)) b' = (ts @ [x]) @ filter (\<lambda>x. \<not> P x) us"
      using Cons.IH [of "Suc j" c "Suc i" ?b "ts @ [x]"] Cons.prems(1,2) dr tk l by simp
    then show ?thesis using False i x b unfolding up by auto
  qed
qed

lemma erase_loop_none:
  assumes "i + length us \<le> length d" "drop i d = us @ e" "filter P us = []"
  shows "erase_loop P [i..<i + length us] i 0 d = kret (i + length us, 0, d)"
  using assms
proof (induction us arbitrary: i)
  case (Cons x us)
  have "[i..<i + length (x # us)] = i # [Suc i..<Suc i + length us]" by (simp add: upt_conv_Cons del: upt_Suc)
  moreover have "d ! i = x" "drop (Suc i) d = us @ e" using Cons.prems(2) by (metis append_Cons nth_via_drop, metis append_Cons drop_Suc list.sel(3) tl_drop)
  ultimately show ?case using Cons.IH [of "Suc i"] Cons.prems by (auto split: if_splits)
qed simp

lemma end_at_put_rep:
  assumes "block_ok s" "length b = length (sdata s)" "unat n \<le> unat (capacity s)"
  shows "\<exists>s'. end_at n (put_data b s) = kret s' \<and> str_rep s' (take (unat n) b) \<and> own s' = own s \<and> capacity s' = capacity s"
  using end_at_rep [OF block_ok_put [OF assms(1,2)], of n] assms(3) by simp

lemma str_erase_if_rep:
  assumes "str_rep s t"
  shows "\<exists>s'. str_erase_if M P s h = kret ((word_of_nat (length (filter P t)), s'), h) \<and> str_rep s' (filter (\<lambda>x. \<not> P x) t) \<and> own s' = own s"
proof -
  note r = str_repD [OF assms]
  let ?k = "length (filter (\<lambda>x. \<not> P x) t)"
  obtain q where q: "sdata s = t @ 0 # q" using assms by (auto simp: str_rep_def)
  obtain b where b: "erase_loop P [0..<length t] 0 0 (sdata s) = kret (?k, length (filter P t), b)" "length b = length (sdata s)"
    "take ?k b = filter (\<lambda>x. \<not> P x) t"
    using erase_loop_rep [of 0 0 0 t "sdata s" "0 # q" "[]" P] q r(3,7) by auto
  have kt: "?k + length (filter P t) = length t" using sum_length_filter_compl [of P t] by simp
  show ?thesis
  proof (cases "filter P t = []")
    case True
    then have f: "filter (\<lambda>x. \<not> P x) t = t" by (simp add: filter_empty_conv)
    have bs: "b = sdata s"
    proof -
      from erase_loop_none [of 0 t "sdata s" "0 # q" P] b(1) True q show ?thesis by (simp add: kret_def)
    qed
    have "put_data (sdata s) s = s" by (cases s) (auto simp: put_data_def sdata_def split: option.split)
    then show ?thesis using True b(1) f bs assms r(2) by (simp add: str_erase_if_def)
  next
    case False
    then have pos: "0 < length (filter P t)" by simp
    have u: "unat (word_of_nat ?k :: u32) = ?k" using kt r(5) by (intro u32_of_nat) simp
    have "?k < length t" using kt pos by linarith
    then have lt: "(word_of_nat ?k :: u32) < s_size s" using u r(2) by (simp add: word_less_nat_alt)
    from end_at_put_rep [OF r(1) b(2), of "word_of_nat ?k"] u kt r(3) b(3) obtain s' where
      "end_at (word_of_nat ?k) (put_data b s) = kret s'" "str_rep s' (filter (\<lambda>x. \<not> P x) t)" "own s' = own s" by auto
    then show ?thesis using pos lt b(1) r(2) by (simp add: str_erase_if_def str_resize_def)
  qed
qed

section \<open>Where it fails\<close>

text \<open>The sum of position and count wraps: \<open>erase\<close> of nearly everything from position 2 on makes the text of three characters longer.\<close>

lemma rep20: "replicate 20 c = [c, c, c, c, c, c, c, c, c, c, c, c, c, c, c, c, c, c, c, c]"
  by (simp add: numeral_eq_Suc)

lemma erase_wraps: "\<exists>s'. str_erase 2 0xFFFFFFFE (short_str [0x61, 0x62, 0x63]) = kret s' \<and> str_text s' = [0x61, 0x62, 0x61, 0x62, 0x63]"
  by (simp add: str_erase_def short_str_def npos_def Let_def blk_move_ok end_at_def blk_write_ok sdata_def put_data_def str_text_def patch_def)

text \<open>The number of characters to insert wraps the size: no memory is reserved, and the move leaves the block.\<close>

lemma insert_fill_wraps: "str_insert_fill M 0 0xFFFFFFFE 0x78 (short_str [0x61, 0x62, 0x63]) h = outside"
  by (simp add: str_insert_fill_def short_str_def reserveFor_def capacity_def isSSO_def SSO_CAPACITY_def open_gap_def blk_move_def sdata_def Let_def)

text \<open>A string inserted into its own middle: its characters are read after they were moved and overwritten.\<close>

lemma insert_self_wrong:
  "\<exists>s' h'. str_insert M 1 Self (short_str [0x61, 0x62, 0x63]) h = kret (s', h') \<and> str_text s' = [0x61, 0x61, 0x61, 0x61, 0x62, 0x63] \<and>
     ins 1 [0x61, 0x62, 0x63] [0x61, 0x62, 0x63] = [0x61, 0x61, 0x62, 0x63, 0x62, 0x63]"
  by (simp add: str_insert_def short_str_def arg_size_def reserveFor_def capacity_def isSSO_def SSO_CAPACITY_def open_gap_def blk_move_ok copy_arg_def
      memcpy_in_def upt_rec end_at_def blk_write_ok sdata_def put_data_def str_text_def patch_def Let_def min_def ins_def rep20)

text \<open>An empty text is found by \<open>find\<close> but not by \<open>rfind\<close>.\<close>

lemma rfind_empty: "str_find (short_str []) 0 s = kret 0 \<and> str_rfind (short_str []) npos s = kret npos"
  by (simp add: str_find_def str_rfind_def short_str_def)

end
