(* ===== verification/Spec2Isabelle.thy ===== *)
theory Spec2Isabelle
  imports Syscall Format Stringspec
begin

text \<open>
  A verification of Doors, a small 32-bit x86 operating system in C++ (src/kernel, src/libc++, src/user).

  \<^bold>\<open>The program.\<close> At boot the kernel takes the memory map and the modules from the boot loader, hands the usable
  frames to the physical memory manager, builds the page tables, gives a region to the kernel heap, starts the
  interval timer, and from then on is driven by interrupts: the timer (\<open>Scheduler::tick\<close>), the keyboard
  (\<open>Kbd::isrHandler\<close>), the FPU trap (\<open>Scheduler::handleNm\<close>), page faults (\<open>Paging::handleCowFault\<close>) and the
  system calls of user programs. User programs are ELF images; processes are made by fork and exec and end by exit, kill or
  a signal.

  \<^bold>\<open>The state\<close> is one extensible record that grows along the import chain: \<open>kmem\<close> (the dword memory) and \<open>heap\<close>,
  \<open>pmm\<close>, \<open>paging\<close>, \<open>pit\<close>, \<open>sched\<close>, \<open>proc\<close>, \<open>kbd\<close>, \<open>tty\<close>. An operation on a component takes and returns the whole record, so
  that the theorems about one component hold inside every larger system. Errors are values: a
  panic is the left value of a sum, not returning (a walk of a cyclic list) is \<^const>\<open>None\<close>; \<open>kres\<close> of Prelude combines
  the two.

  \<^bold>\<open>The theories\<close>, in the order of the code's layers:
  \<^item> Prelude: machine words, memory, address arithmetic modulo \<open>2 ^ 32\<close>, the result monad, null-terminated chains in memory.
  \<^item> Heap (kernel/kernel/Heap.cc): best-fit allocator. A block list represents the memory; alloc and free refine
    carving and coalescing on it, and a client that only uses what it was given keeps the invariant.
  \<^item> Pmm (kernel/kernel/Pmm.cc): free-frame stack and reference counts; boot scan of the memory map.
  \<^item> Paging (kernel/arch/i386/Paging.cc): map, unmap, clone, free, copy-on-write faults, over translations.
  \<^item> Pit (kernel/arch/i386/Pit.cc): the one-shot timer and its arithmetic.
  \<^item> Sched (kernel/kernel/Scheduler.cc): task table, selection, context switch, sleep queue.
  \<^item> Bytes, Elf (kernel/kernel/ElfLoader.cc): byte access to memory and the loader.
  \<^item> Process (kernel/kernel/SchedulerProcess.cc, kernel/kernel/SchedulerSignals.cc): processes, signals and the timer tick.
  \<^item> Semaphore (kernel/kernel/Semaphore.cc): the contract of a fair semaphore as a locale and its interpretation.
  \<^item> Kernel: the transition system of all these entry points, its invariant, and the specification of the tick.
  \<^item> Lifecycle: properties over several operations (FPU switching, fork, the way of an exit status).
  \<^item> Keymap, Kbd (kernel/kernel/Keymap.cc, kernel/arch/i386/Kbd.cc): scan-code tables, the interrupt handler and the character
    ring, with the contract of a bounded queue as a locale.
  \<^item> Tty (kernel/arch/i386/Tty.cc): the terminal as a refinement of an abstract one, the scrollback view, and its lock.

  \<^bold>\<open>Bounds and loops.\<close> No fuel is used. Loops over lists in memory are \<^theory_text>\<open>partial_function (option)\<close> and are proved
  to return on well-formed states; all other loops are structural. Machine integers keep their width; the semaphore
  counter and the navigation counters of the keyboard are unbounded integers.

  \<^bold>\<open>Concurrency.\<close> The kernel runs on one processor, with interrupts off in most operations. An operation that waits in a
  halt loop is modelled up to the loop, where its task is BLOCKED; \<open>kstep\<close> interleaves whole operations.

  \<^bold>\<open>Not modelled:\<close> boot code, descriptor tables and interrupt stubs (assembly and port writes); CPU identification (inline assembly);
  clock, ACPI, serial port, panic screen, symbol lookup and sanitizer hooks (port input and output, diagnostics); the line
  editor, the system-call dispatcher, the C and C++ library and the user programs.
\<close>

end
